(* ===== verification/Prelude.thy ===== *)
theory Prelude
  imports Main "HOL-Library.Word" "HOL-Library.Signed_Division"
begin

unbundle bit_operations_syntax

text \<open>
  What every component shares.
  \<^item> The faults a C++ operation can end in, as values: a failed glog \<open>CHECK\<close> or \<open>DCHECK\<close>
    (the Makefile never defines \<open>NDEBUG\<close>, so both are live), an access outside an object, a
    null dereference, a signed overflow, an exhausted heap, a bit pattern that is no value of the
    type it is loaded at, and a loop that ran out of the
    steps it was given.  An operation that may fault returns \<open>fault + 'a\<close>; \<open>bind_res\<close>
    sequences two of them.
  \<^item> \<open>size_t\<close>, kept as \<open>nat\<close> with the 64-bit wrap-around written out (\<open>sz_add\<close>,
    \<open>sz_sub\<close>); \<open>npos\<close> is its largest value, as in the code.
  \<^item> The range predicates of the fixed-width integers and C++ division, which truncates.
  \<^item> Generic lemmas on lists that the string components share.
\<close>

named_theorems model_defs \<open>definitions of the model, unfolded by the evaluation of closed terms\<close>

section \<open>Faults and their sequencing\<close>

datatype fault =
    CheckFailed
  | OutOfBounds
  | NullDeref
  | SignedOverflow
  | OutOfMemory
  | InvalidValue
  | OutOfFuel

type_synonym 'a res = "fault + 'a"

definition bind_res :: "'a res \<Rightarrow> ('a \<Rightarrow> 'b res) \<Rightarrow> 'b res" where
  "bind_res m f = (case m of Inl e \<Rightarrow> Inl e | Inr x \<Rightarrow> f x)"

definition check :: "bool \<Rightarrow> unit res" where
  "check b = (if b then Inr () else Inl CheckFailed)"

lemma bind_res_simps [simp]:
  "bind_res (Inl e) f = Inl e"
  "bind_res (Inr x) f = f x"
  by (simp_all add: bind_res_def)

lemma check_simps [simp]:
  "check True = Inr ()"
  "check False = Inl CheckFailed"
  by (simp_all add: check_def)

lemma check_eq_Inr [simp]: "check b = Inr u \<longleftrightarrow> b"
  by (simp add: check_def)

lemma bind_res_eq_Inr: "bind_res m f = Inr y \<longleftrightarrow> (\<exists>x. m = Inr x \<and> f x = Inr y)"
  by (cases m) simp_all

lemma bind_res_eq_Inl:
  "bind_res m f = Inl e \<longleftrightarrow> m = Inl e \<or> (\<exists>x. m = Inr x \<and> f x = Inl e)"
  by (cases m) simp_all

lemma bind_res_assoc: "bind_res (bind_res m f) g = bind_res m (\<lambda>x. bind_res (f x) g)"
  by (cases m) simp_all

lemma bind_res_check: "bind_res (check b) f = (if b then f () else Inl CheckFailed)"
  by (simp add: check_def)

section \<open>\<open>size_t\<close> and the fixed-width integers\<close>

type_synonym size_t = nat
type_synonym byte = "8 word"

definition npos :: size_t where
  "npos = 2 ^ 64 - 1"

definition sz_add :: "size_t \<Rightarrow> size_t \<Rightarrow> size_t" where
  "sz_add a b = (a + b) mod 2 ^ 64"

definition sz_mul :: "size_t \<Rightarrow> size_t \<Rightarrow> size_t" where
  "sz_mul a b = (a * b) mod 2 ^ 64"

definition sz_sub :: "size_t \<Rightarrow> size_t \<Rightarrow> size_t" where
  "sz_sub a b = nat ((int a - int b) mod 2 ^ 64)"

lemma sz_add_exact: "a + b < 2 ^ 64 \<Longrightarrow> sz_add a b = a + b"
  by (simp add: sz_add_def)

lemma sz_mul_exact: "a * b < 2 ^ 64 \<Longrightarrow> sz_mul a b = a * b"
  by (simp add: sz_mul_def)

lemma sz_sub_exact: "b \<le> a \<Longrightarrow> a < 2 ^ 64 \<Longrightarrow> sz_sub a b = a - b"
proof -
  assume "b \<le> a" and "a < 2 ^ 64"
  then have "0 \<le> int a - int b" and "int a - int b < 2 ^ 64" by simp_all
  then have "(int a - int b) mod 2 ^ 64 = int a - int b" by (rule mod_pos_pos_trivial)
  then show ?thesis unfolding sz_sub_def by linarith
qed

lemma sz_add_npos: "0 < a \<Longrightarrow> a < 2 ^ 64 \<Longrightarrow> sz_add npos a = a - 1"
  by (simp add: sz_add_def npos_def mod_if)

lemma sz_add_npos_1 [simp]: "sz_add npos (Suc 0) = 0"
  by (simp add: sz_add_npos)

lemma sz_sub_lt: "sz_sub a b < 2 ^ 64"
proof -
  have "(int a - int b) mod 2 ^ 64 < 2 ^ 64" by simp
  then show ?thesis unfolding sz_sub_def by (simp add: nat_less_iff)
qed

lemma npos_bound: "a < npos \<Longrightarrow> a < 2 ^ 64"
  by (simp add: npos_def)

definition in_range :: "int \<Rightarrow> int \<Rightarrow> int \<Rightarrow> bool" where
  "in_range lo hi x \<longleftrightarrow> lo \<le> x \<and> x \<le> hi"

definition int32_min :: int where "int32_min = - (2 ^ 31)"
definition int32_max :: int where "int32_max = 2 ^ 31 - 1"
definition uint32_max :: int where "uint32_max = 2 ^ 32 - 1"
definition int64_min :: int where "int64_min = - (2 ^ 63)"
definition int64_max :: int where "int64_max = 2 ^ 63 - 1"
definition uint64_max :: int where "uint64_max = 2 ^ 64 - 1"

lemmas int_limits = int32_min_def int32_max_def uint32_max_def int64_min_def int64_max_def
  uint64_max_def

text \<open>A signed computation whose exact result leaves the type is undefined behaviour: a fault.\<close>

definition checked :: "int \<Rightarrow> int \<Rightarrow> int \<Rightarrow> int res" where
  "checked lo hi x = (if in_range lo hi x then Inr x else Inl SignedOverflow)"

abbreviation checked64 :: "int \<Rightarrow> int res" where
  "checked64 \<equiv> checked int64_min int64_max"

lemma checked_simps [simp]:
  "in_range lo hi x \<Longrightarrow> checked lo hi x = Inr x"
  "\<not> in_range lo hi x \<Longrightarrow> checked lo hi x = Inl SignedOverflow"
  by (simp_all add: checked_def)

lemma checked_eq_Inr: "checked lo hi x = Inr y \<longleftrightarrow> in_range lo hi x \<and> y = x"
  by (auto simp: checked_def)

text \<open>C++ integer division truncates towards zero; so do \<open>sdiv\<close> and \<open>smod\<close> of the library.\<close>

lemma sdiv_nonneg: "0 \<le> (a::int) \<Longrightarrow> 0 < b \<Longrightarrow> a sdiv b = a div b"
  by (cases "a = 0") (simp_all add: signed_divide_int_def sgn_if)

lemma smod_nonneg: "0 \<le> (a::int) \<Longrightarrow> 0 < b \<Longrightarrow> a smod b = a mod b"
  by (cases "a = 0") (simp_all add: signed_modulo_int_def sgn_if)

lemma sdiv_neg: "(a::int) < 0 \<Longrightarrow> 0 < b \<Longrightarrow> a sdiv b = - ((- a) div b)"
  by (simp add: signed_divide_int_def sgn_if)

lemma smod_neg: "(a::int) < 0 \<Longrightarrow> 0 < b \<Longrightarrow> a smod b = - ((- a) mod b)"
  by (simp add: signed_modulo_int_def sgn_if)

section \<open>Words\<close>

lemma unat_take_bit: "unat (take_bit k (w :: 'a::len word)) = unat w mod 2 ^ k"
  by (simp only: unsigned_take_bit_eq take_bit_eq_mod [where ?'a = nat])

lemma unat_drop_bit: "unat (drop_bit k (w :: 'a::len word)) = unat w div 2 ^ k"
  by (simp only: unat_drop_bit_eq drop_bit_eq_div [where ?'a = nat])

lemma unat_byte_lt [simp]: "unat (c :: byte) < 256"
proof -
  have "unat c < 2 ^ LENGTH(8)" by (rule unsigned_less)
  then show ?thesis by simp
qed

section \<open>Lists\<close>

lemma takeWhile_dropWhile_nth:
  "i < length xs \<Longrightarrow> \<not> P (xs ! i) \<Longrightarrow> (\<And>j. j < i \<Longrightarrow> P (xs ! j)) \<Longrightarrow> takeWhile P xs = take i xs"
  by (rule takeWhile_eq_take_P_nth) auto

lemma drop_eq_Cons_nth: "i < length xs \<Longrightarrow> drop i xs = xs ! i # drop (Suc i) xs"
  by (rule Cons_nth_drop_Suc [symmetric])

lemma list_update_append_at: "length xs = n \<Longrightarrow> (xs @ y # zs)[n := v] = xs @ v # zs"
  by (auto simp: list_update_append)

lemma take_Suc_snoc: "i < length xs \<Longrightarrow> take (Suc i) xs = take i xs @ [xs ! i]"
  by (rule take_Suc_conv_app_nth)

text \<open>
  A C array is the list of its elements; an access outside it is a fault.  \<open>splice_at\<close> is the
  array after a run of consecutive writes.
\<close>

definition array_get :: "'a list \<Rightarrow> nat \<Rightarrow> 'a res" where
  "array_get xs i = (if i < length xs then Inr (xs ! i) else Inl OutOfBounds)"

definition array_set :: "'a list \<Rightarrow> nat \<Rightarrow> 'a \<Rightarrow> 'a list res" where
  "array_set xs i v = (if i < length xs then Inr (xs[i := v]) else Inl OutOfBounds)"

definition splice_at :: "'a list \<Rightarrow> nat \<Rightarrow> 'a list \<Rightarrow> 'a list" where
  "splice_at xs i vs = take i xs @ vs @ drop (i + length vs) xs"

lemma array_get_in [simp]: "i < length xs \<Longrightarrow> array_get xs i = Inr (xs ! i)"
  by (simp add: array_get_def)

lemma array_set_in [simp]: "i < length xs \<Longrightarrow> array_set xs i v = Inr (splice_at xs i [v])"
  by (simp add: array_set_def splice_at_def upd_conv_take_nth_drop)

lemma length_splice_at [simp]:
  "i + length vs \<le> length xs \<Longrightarrow> length (splice_at xs i vs) = length xs"
  by (simp add: splice_at_def)

lemma splice_at_Nil [simp]: "splice_at xs i [] = xs"
  by (simp add: splice_at_def)

lemma splice_at_splice_at:
  assumes "j = i + length us" "j + length vs \<le> length xs"
  shows "splice_at (splice_at xs i us) j vs = splice_at xs i (us @ vs)"
proof -
  have le: "i \<le> length xs" using assms by simp
  then have "drop (j + length vs) (splice_at xs i us) = drop (j + length vs) xs"
    using assms by (simp add: splice_at_def min.absorb2 ac_simps)
  moreover have "take j (splice_at xs i us) = take i xs @ us"
    using assms le by (simp add: splice_at_def min.absorb2)
  ultimately show ?thesis using assms by (simp add: splice_at_def add.assoc)
qed

lemma take_splice_at [simp]:
  "i \<le> length xs \<Longrightarrow> take i (splice_at xs i vs) = take i xs"
  by (simp add: splice_at_def)

lemma splice_at_0: "splice_at xs 0 vs = vs @ drop (length vs) xs"
  by (simp add: splice_at_def)

text \<open>Loading and storing a run of bytes of an object, and the heap that \<open>realloc\<close> draws from.\<close>

definition mem_read :: "'a list \<Rightarrow> nat \<Rightarrow> nat \<Rightarrow> 'a list res" where
  "mem_read m i n = (if i + n \<le> length m then Inr (take n (drop i m)) else Inl OutOfBounds)"

definition mem_write :: "'a list \<Rightarrow> nat \<Rightarrow> 'a list \<Rightarrow> 'a list res" where
  "mem_write m i vs = (if i + length vs \<le> length m then Inr (splice_at m i vs) else Inl OutOfBounds)"

lemma mem_read_in [simp]: "i + n \<le> length m \<Longrightarrow> mem_read m i n = Inr (take n (drop i m))"
  by (simp add: mem_read_def)

lemma mem_write_in [simp]: "i + length vs \<le> length m \<Longrightarrow> mem_write m i vs = Inr (splice_at m i vs)"
  by (simp add: mem_write_def)

lemma splice_at_append [simp]:
  "i = length us \<Longrightarrow> splice_at (us @ xs) i vs = us @ splice_at xs 0 vs"
  by (simp add: splice_at_def)

record heap =
  heap_limit :: nat
  heap_fill :: "nat \<Rightarrow> byte"

definition c_realloc :: "heap \<Rightarrow> byte list option \<Rightarrow> nat \<Rightarrow> byte list option" where
  "c_realloc h old n =
     (if n \<le> heap_limit h
      then let keep = take n (case old of None \<Rightarrow> [] | Some m \<Rightarrow> m)
           in Some (keep @ map (heap_fill h) [length keep..<n])
      else None)"

lemma c_realloc_grow:
  "length m \<le> n \<Longrightarrow> n \<le> heap_limit h \<Longrightarrow>
   c_realloc h (Some m) n = Some (m @ map (heap_fill h) [length m..<n])"
  by (simp add: c_realloc_def Let_def)

lemma length_c_realloc: "c_realloc h old n = Some m \<Longrightarrow> length m = n"
  by (auto simp: c_realloc_def Let_def split: if_splits)

section \<open>Integer conversions\<close>

definition to_size :: "int \<Rightarrow> size_t" where
  "to_size x = nat (x mod 2 ^ 64)"

definition to_int32 :: "int \<Rightarrow> int" where
  "to_int32 x = (x + 2 ^ 31) mod 2 ^ 32 - 2 ^ 31"

lemma to_size_nonneg [simp]: "0 \<le> x \<Longrightarrow> x < 2 ^ 64 \<Longrightarrow> to_size x = nat x"
  by (simp add: to_size_def)

lemma to_int32_in [simp]: "in_range int32_min int32_max x \<Longrightarrow> to_int32 x = x"
  by (simp add: to_int32_def in_range_def int32_min_def int32_max_def)

end
