(* ===== verification/Ascii.thy ===== *)
theory Ascii
  imports Prelude
begin

text \<open>
  \<open>base/ascii_ctype.{h,cc}\<close>: the character classes as bits of a 256-entry table, and the
  two case-folding tables.  Text is \<open>string\<close> throughout the development; a \<open>char\<close> of
  the code is signed, so \<open>uchar\<close> and \<open>schar\<close> give the two readings of its byte.
\<close>

definition uchar :: "char \<Rightarrow> 8 word" where
  "uchar c = of_char c"

definition schar :: "char \<Rightarrow> int" where
  "schar c = sint (uchar c)"

definition char_of_byte :: "8 word \<Rightarrow> char" where
  "char_of_byte w = char_of (unat w)"

lemma unat_uchar: "unat (uchar c) = of_char c"
proof -
  have "(of_char c :: nat) < 256" by (metis char_of_mod_256 mod_less_divisor of_char_of zero_less_numeral char_of_char)
  moreover have "uchar c = word_of_nat (of_char c)" unfolding uchar_def by (rule of_nat_of_char [symmetric])
  ultimately show ?thesis by (simp add: unsigned_of_nat take_bit_nat_eq_self)
qed

lemma uchar_char_of_byte [simp]: "uchar (char_of_byte w) = w"
proof -
  have "unat w < 2 ^ LENGTH(8)" by (rule unsigned_less)
  then show ?thesis by (simp add: word_unat_eq_iff unat_uchar char_of_byte_def)
qed

lemma char_of_byte_uchar [simp]: "char_of_byte (uchar c) = c"
  by (simp add: char_of_byte_def unat_uchar char_of_char)

lemma uchar_inject [simp]: "uchar a = uchar b \<longleftrightarrow> a = b"
  by (metis char_of_byte_uchar)

section \<open>The tables\<close>

definition kAsciiPropertyBits :: "8 word list" where
  "kAsciiPropertyBits =
     [0x40, 0x40, 0x40, 0x40, 0x40, 0x40, 0x40, 0x40, 0x40, 0x68, 0x48, 0x48, 0x48, 0x48, 0x40, 0x40,
      0x40, 0x40, 0x40, 0x40, 0x40, 0x40, 0x40, 0x40, 0x40, 0x40, 0x40, 0x40, 0x40, 0x40, 0x40, 0x40,
      0x28, 0x10, 0x10, 0x10, 0x10, 0x10, 0x10, 0x10, 0x10, 0x10, 0x10, 0x10, 0x10, 0x10, 0x10, 0x10,
      0x84, 0x84, 0x84, 0x84, 0x84, 0x84, 0x84, 0x84, 0x84, 0x84, 0x10, 0x10, 0x10, 0x10, 0x10, 0x10,
      0x10, 0x85, 0x85, 0x85, 0x85, 0x85, 0x85, 0x05, 0x05, 0x05, 0x05, 0x05, 0x05, 0x05, 0x05, 0x05,
      0x05, 0x05, 0x05, 0x05, 0x05, 0x05, 0x05, 0x05, 0x05, 0x05, 0x05, 0x10, 0x10, 0x10, 0x10, 0x10,
      0x10, 0x85, 0x85, 0x85, 0x85, 0x85, 0x85, 0x05, 0x05, 0x05, 0x05, 0x05, 0x05, 0x05, 0x05, 0x05,
      0x05, 0x05, 0x05, 0x05, 0x05, 0x05, 0x05, 0x05, 0x05, 0x05, 0x05, 0x10, 0x10, 0x10, 0x10, 0x40] @ replicate 128 0"

definition kAsciiToLower :: "8 word list" where
  "kAsciiToLower =
     map word_of_nat ([0..<65] @ [97..<123] @ [91..<256])"

definition kAsciiToUpper :: "8 word list" where
  "kAsciiToUpper =
     map word_of_nat ([0..<97] @ [65..<91] @ [123..<256])"

section \<open>The predicates and the case folding\<close>

definition ascii_bit :: "8 word \<Rightarrow> 8 word \<Rightarrow> bool" where
  "ascii_bit m c \<longleftrightarrow> (kAsciiPropertyBits ! unat c) AND m \<noteq> 0"

definition ascii_isalpha :: "8 word \<Rightarrow> bool" where "ascii_isalpha = ascii_bit 0x01"
definition ascii_isalnum :: "8 word \<Rightarrow> bool" where "ascii_isalnum = ascii_bit 0x04"
definition ascii_isspace :: "8 word \<Rightarrow> bool" where "ascii_isspace = ascii_bit 0x08"
definition ascii_ispunct :: "8 word \<Rightarrow> bool" where "ascii_ispunct = ascii_bit 0x10"
definition ascii_isblank :: "8 word \<Rightarrow> bool" where "ascii_isblank = ascii_bit 0x20"
definition ascii_iscntrl :: "8 word \<Rightarrow> bool" where "ascii_iscntrl = ascii_bit 0x40"
definition ascii_isxdigit :: "8 word \<Rightarrow> bool" where "ascii_isxdigit = ascii_bit 0x80"

definition ascii_isdigit :: "8 word \<Rightarrow> bool" where
  "ascii_isdigit c \<longleftrightarrow> uchar (CHR ''0'') \<le> c \<and> c \<le> uchar (CHR ''9'')"
definition ascii_isprint :: "8 word \<Rightarrow> bool" where
  "ascii_isprint c \<longleftrightarrow> 32 \<le> c \<and> c < 127"
definition ascii_isgraph :: "8 word \<Rightarrow> bool" where
  "ascii_isgraph c \<longleftrightarrow> 32 < c \<and> c < 127"
definition ascii_isupper :: "8 word \<Rightarrow> bool" where
  "ascii_isupper c \<longleftrightarrow> uchar (CHR ''A'') \<le> c \<and> c \<le> uchar (CHR ''Z'')"
definition ascii_islower :: "8 word \<Rightarrow> bool" where
  "ascii_islower c \<longleftrightarrow> uchar (CHR ''a'') \<le> c \<and> c \<le> uchar (CHR ''z'')"
definition ascii_isascii :: "8 word \<Rightarrow> bool" where
  "ascii_isascii c \<longleftrightarrow> c < 128"

definition ascii_tolower :: "8 word \<Rightarrow> 8 word" where
  "ascii_tolower c = kAsciiToLower ! unat c"
definition ascii_toupper :: "8 word \<Rightarrow> 8 word" where
  "ascii_toupper c = kAsciiToUpper ! unat c"

lemmas ascii_defs = ascii_isalpha_def ascii_isalnum_def ascii_isspace_def ascii_ispunct_def
  ascii_isblank_def ascii_iscntrl_def ascii_isxdigit_def ascii_isdigit_def ascii_isprint_def
  ascii_isgraph_def ascii_isupper_def ascii_islower_def ascii_isascii_def

text \<open>
  A column of a table is compared with its description in one evaluation; \<open>table_column\<close>
  turns the equality of the two lists into a fact about every byte.
\<close>

lemma table_column:
  assumes "map f t = map P [0..<256]"
  shows "f (t ! unat (c :: 8 word)) = P (unat c)"
proof -
  have n: "unat c < 256" using unsigned_less [of c] by simp
  moreover have "length t = 256" using arg_cong [OF assms, of length] by simp
  moreover have "map f t ! unat c = map P [0..<256] ! unat c" using assms by simp
  ultimately show ?thesis by simp
qed

definition upper_range :: "8 word \<Rightarrow> bool" where "upper_range c \<longleftrightarrow> 65 \<le> c \<and> c \<le> 90"
definition lower_range :: "8 word \<Rightarrow> bool" where "lower_range c \<longleftrightarrow> 97 \<le> c \<and> c \<le> 122"
definition digit_range :: "8 word \<Rightarrow> bool" where "digit_range c \<longleftrightarrow> 48 \<le> c \<and> c \<le> 57"

lemmas byte_nat = word_le_nat_alt word_less_nat_alt word_unat_eq_iff

lemma ascii_bit_column:
  assumes "map (\<lambda>x. x AND m \<noteq> 0) kAsciiPropertyBits = map P [0..<256]"
  shows "ascii_bit m c = P (unat c)"
  unfolding ascii_bit_def by (rule table_column [OF assms])

lemmas byte_ranges = upper_range_def lower_range_def digit_range_def

lemma ascii_isspace_iff: "ascii_isspace c \<longleftrightarrow> 9 \<le> c \<and> c \<le> 13 \<or> c = 32"
proof -
  have "ascii_bit 8 c = (9 \<le> unat c \<and> unat c \<le> 13 \<or> unat c = 32)"
    by (rule ascii_bit_column) (simp add: kAsciiPropertyBits_def, code_simp)
  then show ?thesis by (simp add: ascii_isspace_def byte_nat byte_ranges)
qed

lemma ascii_isalpha_iff: "ascii_isalpha c \<longleftrightarrow> upper_range c \<or> lower_range c"
proof -
  have "ascii_bit 1 c = (65 \<le> unat c \<and> unat c \<le> 90 \<or> 97 \<le> unat c \<and> unat c \<le> 122)"
    by (rule ascii_bit_column) (simp add: kAsciiPropertyBits_def, code_simp)
  then show ?thesis by (simp add: ascii_isalpha_def byte_nat byte_ranges)
qed

lemma ascii_isalnum_iff: "ascii_isalnum c \<longleftrightarrow> upper_range c \<or> lower_range c \<or> digit_range c"
proof -
  have "ascii_bit 4 c = (65 \<le> unat c \<and> unat c \<le> 90 \<or> 97 \<le> unat c \<and> unat c \<le> 122 \<or> 48 \<le> unat c \<and> unat c \<le> 57)"
    by (rule ascii_bit_column) (simp add: kAsciiPropertyBits_def, code_simp)
  then show ?thesis by (simp add: ascii_isalnum_def byte_nat byte_ranges)
qed

lemma ascii_isblank_iff: "ascii_isblank c \<longleftrightarrow> c = 9 \<or> c = 32"
proof -
  have "ascii_bit 0x20 c = (unat c = 9 \<or> unat c = 32)"
    by (rule ascii_bit_column) (simp add: kAsciiPropertyBits_def, code_simp)
  then show ?thesis by (simp add: ascii_isblank_def byte_nat byte_ranges)
qed

lemma ascii_iscntrl_iff: "ascii_iscntrl c \<longleftrightarrow> c < 32 \<or> c = 127"
proof -
  have "ascii_bit 0x40 c = (unat c < 32 \<or> unat c = 127)"
    by (rule ascii_bit_column) (simp add: kAsciiPropertyBits_def, code_simp)
  then show ?thesis by (simp add: ascii_iscntrl_def byte_nat byte_ranges)
qed

lemma ascii_isxdigit_iff: "ascii_isxdigit c \<longleftrightarrow> digit_range c \<or> 65 \<le> c \<and> c \<le> 70 \<or> 97 \<le> c \<and> c \<le> 102"
proof -
  have "ascii_bit 0x80 c = (48 \<le> unat c \<and> unat c \<le> 57 \<or> 65 \<le> unat c \<and> unat c \<le> 70 \<or> 97 \<le> unat c \<and> unat c \<le> 102)"
    by (rule ascii_bit_column) (simp add: kAsciiPropertyBits_def, code_simp)
  then show ?thesis by (simp add: ascii_isxdigit_def byte_nat byte_ranges)
qed

lemma ascii_ispunct_iff: "ascii_ispunct c \<longleftrightarrow> 33 \<le> c \<and> c \<le> 126 \<and> \<not> ascii_isalnum c"
proof -
  have "ascii_bit 0x10 c = (33 \<le> unat c \<and> unat c \<le> 126 \<and>
      \<not> (65 \<le> unat c \<and> unat c \<le> 90 \<or> 97 \<le> unat c \<and> unat c \<le> 122 \<or>
         48 \<le> unat c \<and> unat c \<le> 57))"
    by (rule ascii_bit_column) (simp add: kAsciiPropertyBits_def, code_simp)
  then show ?thesis by (simp add: ascii_ispunct_def ascii_isalnum_iff byte_nat byte_ranges)
qed

lemma case_table:
  assumes "t = map g [0..<256]" and "g (unat c) < 256"
  shows "unat (map word_of_nat t ! unat c :: 8 word) = g (unat (c :: 8 word))"
proof -
  have "unat c < 256" using unsigned_less [of c] by simp
  with assms show ?thesis by (simp add: unsigned_of_nat take_bit_nat_eq_self)
qed

lemma ascii_tolower_eq: "ascii_tolower c = (if upper_range c then c + 32 else c)"
proof -
  let ?g = "\<lambda>n::nat. if 65 \<le> n \<and> n \<le> 90 then n + 32 else n"
  have "[0..<65] @ [97..<123] @ [91..<256] = map ?g [0..<256]" by code_simp
  moreover have "?g (unat c) < 256" using unat_byte_lt [of c] by (auto simp del: unat_byte_lt)
  ultimately have "unat (ascii_tolower c) = ?g (unat c)"
    unfolding ascii_tolower_def kAsciiToLower_def by (rule case_table)
  then show ?thesis by (simp add: byte_nat byte_ranges unat_word_ariths)
qed

lemma ascii_toupper_eq: "ascii_toupper c = (if lower_range c then c - 32 else c)"
proof -
  let ?g = "\<lambda>n::nat. if 97 \<le> n \<and> n \<le> 122 then n - 32 else n"
  have "[0..<97] @ [65..<91] @ [123..<256] = map ?g [0..<256]" by code_simp
  moreover have "?g (unat c) < 256" using unat_byte_lt [of c] by (auto simp del: unat_byte_lt)
  ultimately have "unat (ascii_toupper c) = ?g (unat c)"
    unfolding ascii_toupper_def kAsciiToUpper_def by (rule case_table)
  moreover have "32 \<le> c \<Longrightarrow> unat (c - 32) = unat c - 32" by (simp add: unat_sub)
  ultimately show ?thesis by (simp add: byte_nat byte_ranges)
qed

text \<open>
  The tables say what the header promises: every class is the documented set of ASCII
  codes and holds of no byte above 127, and the case folds move exactly the other case's
  letters, so that folding twice is folding once and each fold undoes the other on letters.
\<close>

theorem ascii_tables_correct:
  "(ascii_isalnum c \<longleftrightarrow> ascii_isalpha c \<or> ascii_isdigit c) \<and>
   (ascii_isalpha c \<longleftrightarrow> ascii_isupper c \<or> ascii_islower c) \<and>
   (ascii_isgraph c \<longleftrightarrow> ascii_isalnum c \<or> ascii_ispunct c) \<and>
   (ascii_isascii c \<longleftrightarrow> ascii_isprint c \<or> ascii_iscntrl c) \<and>
   \<not> (ascii_isprint c \<and> ascii_iscntrl c) \<and> \<not> (ascii_isalnum c \<and> ascii_ispunct c) \<and>
   (ascii_isspace c \<longleftrightarrow> ascii_isblank c \<or> 10 \<le> c \<and> c \<le> 13) \<and>
   (\<not> ascii_isascii c \<longrightarrow> \<not> ascii_isxdigit c \<and> \<not> ascii_isspace c \<and> \<not> ascii_isalnum c \<and>
      \<not> ascii_ispunct c \<and> ascii_tolower c = c \<and> ascii_toupper c = c) \<and>
   ascii_tolower (ascii_tolower c) = ascii_tolower c \<and>
   (ascii_isupper c \<longrightarrow> ascii_islower (ascii_tolower c) \<and> ascii_toupper (ascii_tolower c) = c) \<and>
   (ascii_islower c \<longrightarrow> ascii_isupper (ascii_toupper c) \<and> ascii_tolower (ascii_toupper c) = c)"
proof -
  have sub: "32 \<le> unat c \<Longrightarrow> unat (c - 32) = unat c - 32"
    by (simp add: unat_sub word_le_nat_alt)
  have codes: "uchar (CHR ''0'') = 48" "uchar (CHR ''9'') = 57" "uchar (CHR ''A'') = 65"
    "uchar (CHR ''Z'') = 90" "uchar (CHR ''a'') = 97" "uchar (CHR ''z'') = 122"
    by (simp_all add: uchar_def)
  show ?thesis
    by (auto simp: ascii_isalnum_iff ascii_isalpha_iff ascii_ispunct_iff ascii_isspace_iff
        ascii_isblank_iff ascii_iscntrl_iff ascii_isxdigit_iff ascii_tolower_eq ascii_toupper_eq
        ascii_isdigit_def ascii_isprint_def ascii_isgraph_def ascii_isupper_def ascii_islower_def
        ascii_isascii_def codes byte_nat byte_ranges unat_word_ariths sub)
qed

theorem ascii_tables_correct_witness:
  "ascii_isupper (uchar (CHR ''Q'')) \<and> ascii_islower (ascii_tolower (uchar (CHR ''Q''))) \<and>
   ascii_toupper (ascii_tolower (uchar (CHR ''Q''))) = uchar (CHR ''Q'')"
proof -
  have "ascii_isupper (uchar (CHR ''Q''))" by (simp add: ascii_isupper_def uchar_def)
  then show ?thesis using ascii_tables_correct [of "uchar (CHR ''Q'')"] by blast
qed

end
