(* ===== verification/StringPiece.thy ===== *)
theory StringPiece
  imports Prelude Ascii
begin

text \<open>
  \<open>base/string_piece.{h,cc}\<close>: a view (pointer and length) into characters owned by somebody
  else.  The record keeps the object the pointer points into (\<open>buf\<close>), the pointer as an
  offset into it and the length, so that a read past the object is the fault \<open>OutOfBounds\<close>;
  \<open>wf_piece\<close> says that the view lies inside the object, and \<open>chars\<close> is the abstraction,
  the characters in view.  A null pointer is the empty object.

  First the class (construction, narrowing, comparison), then the searches of
  \<open>base::internal\<close>, each with its loop; then the reference searches on lists and the
  equations between the two.  The locale \<open>piece_searches\<close> is the contract other components
  rely on.
\<close>

section \<open>The view\<close>

record string_piece =
  buf :: string
  ptr :: size_t
  plen :: size_t

definition wf_piece :: "string_piece \<Rightarrow> bool" where
  "wf_piece p \<longleftrightarrow> ptr p + plen p \<le> length (buf p) \<and> length (buf p) < 2 ^ 63"

definition chars :: "string_piece \<Rightarrow> string" where
  "chars p = take (plen p) (drop (ptr p) (buf p))"

definition null_piece :: string_piece where
  "null_piece = \<lparr>buf = [], ptr = 0, plen = 0\<rparr>"

definition piece_of_string :: "string \<Rightarrow> string_piece" where
  "piece_of_string s = \<lparr>buf = s, ptr = 0, plen = length s\<rparr>"

text \<open>
  A null-terminated C string: the array ends in a NUL, which \<open>traits_type::length\<close> looks
  for; without one it reads on past the array.
\<close>

definition piece_of_cstr :: "string \<Rightarrow> string_piece res" where
  "piece_of_cstr a =
     (let n = length (takeWhile (\<lambda>c. c \<noteq> CHR 0x00) a)
      in if n < length a then Inr \<lparr>buf = a, ptr = 0, plen = n\<rparr> else Inl OutOfBounds)"

definition piece_clear :: "string_piece \<Rightarrow> string_piece" where
  "piece_clear p = null_piece"

definition piece_set :: "string_piece \<Rightarrow> string \<Rightarrow> size_t \<Rightarrow> size_t \<Rightarrow> string_piece" where
  "piece_set p data off len = p\<lparr>buf := data, ptr := off, plen := len\<rparr>"

definition piece_at :: "string_piece \<Rightarrow> size_t \<Rightarrow> char res" where
  "piece_at p i =
     (if ptr p + i < length (buf p) then Inr (buf p ! (ptr p + i)) else Inl OutOfBounds)"

definition piece_front :: "string_piece \<Rightarrow> char res" where
  "piece_front p = piece_at p 0"

definition piece_back :: "string_piece \<Rightarrow> char res" where
  "piece_back p = piece_at p (sz_sub (plen p) 1)"

definition remove_prefix :: "string_piece \<Rightarrow> size_t \<Rightarrow> string_piece" where
  "remove_prefix p n = p\<lparr>ptr := ptr p + n, plen := sz_sub (plen p) n\<rparr>"

definition remove_suffix :: "string_piece \<Rightarrow> size_t \<Rightarrow> string_piece" where
  "remove_suffix p n = p\<lparr>plen := sz_sub (plen p) n\<rparr>"

text \<open>The bytes \<open>[off, off + n)\<close> of the view, as \<open>memcmp\<close>, \<open>memcpy\<close> and the iterator ranges read them.\<close>

definition piece_read :: "string_piece \<Rightarrow> size_t \<Rightarrow> size_t \<Rightarrow> string res" where
  "piece_read p off n =
     (if ptr p + off + n \<le> length (buf p) then Inr (take n (drop (ptr p + off) (buf p)))
      else Inl OutOfBounds)"

definition as_string :: "string_piece \<Rightarrow> string res" where
  "as_string p = (if plen p = 0 then Inr [] else piece_read p 0 (plen p))"

definition CopyToString :: "string_piece \<Rightarrow> string res" where
  "CopyToString self = (if plen self = 0 then Inr [] else piece_read self 0 (plen self))"

definition AppendToString :: "string_piece \<Rightarrow> string \<Rightarrow> string res" where
  "AppendToString self target =
     (if plen self = 0 then Inr target
      else bind_res (piece_read self 0 (plen self)) (\<lambda>s. Inr (target @ s)))"

text \<open>\<open>copy\<close> returns the count and the bytes it stored at the front of the caller's buffer.\<close>

definition piece_copy :: "string_piece \<Rightarrow> size_t \<Rightarrow> size_t \<Rightarrow> (size_t \<times> string) res" where
  "piece_copy self n pos =
     (let ret = min (sz_sub (plen self) pos) n
      in bind_res (piece_read self pos ret) (\<lambda>s. Inr (ret, s)))"

definition piece_substr :: "string_piece \<Rightarrow> size_t \<Rightarrow> size_t \<Rightarrow> string_piece" where
  "piece_substr self pos n =
     (let pos = (if pos > plen self then plen self else pos);
          n = (if n > plen self - pos then plen self - pos else n)
      in \<lparr>buf = buf self, ptr = ptr self + pos, plen = n\<rparr>)"

section \<open>Comparison\<close>

text \<open>\<open>char_traits<char>::compare\<close>: the sign of the first difference, as unsigned bytes.\<close>

fun wordmemcmp :: "string \<Rightarrow> string \<Rightarrow> int" where
  "wordmemcmp (a # as) (b # bs) =
     (if uchar a < uchar b then - 1 else if uchar a > uchar b then 1 else wordmemcmp as bs)"
| "wordmemcmp _ _ = 0"

definition piece_compare :: "string_piece \<Rightarrow> string_piece \<Rightarrow> int res" where
  "piece_compare p x =
     (let n = (if plen p < plen x then plen p else plen x)
      in bind_res (piece_read p 0 n) (\<lambda>a. bind_res (piece_read x 0 n) (\<lambda>b.
           let r = wordmemcmp a b
           in Inr (if r = 0 then
                     (if plen p < plen x then - 1
                      else if plen p > plen x then 1 else r)
                   else r))))"

definition piece_eq :: "string_piece \<Rightarrow> string_piece \<Rightarrow> bool res" where
  "piece_eq x y =
     (if plen x \<noteq> plen y then Inr False
      else bind_res (piece_read x 0 (plen x)) (\<lambda>a.
           bind_res (piece_read y 0 (plen x)) (\<lambda>b. Inr (wordmemcmp a b = 0))))"

definition piece_less :: "string_piece \<Rightarrow> string_piece \<Rightarrow> bool res" where
  "piece_less x y =
     (let n = (if plen x < plen y then plen x else plen y)
      in bind_res (piece_read x 0 n) (\<lambda>a. bind_res (piece_read y 0 n) (\<lambda>b.
           let r = wordmemcmp a b in Inr (r < 0 \<or> r = 0 \<and> plen x < plen y))))"

definition starts_with :: "string_piece \<Rightarrow> string_piece \<Rightarrow> bool res" where
  "starts_with p x =
     (if plen p \<ge> plen x then
        bind_res (piece_read p 0 (plen x)) (\<lambda>a.
        bind_res (piece_read x 0 (plen x)) (\<lambda>b. Inr (wordmemcmp a b = 0)))
      else Inr False)"

definition ends_with :: "string_piece \<Rightarrow> string_piece \<Rightarrow> bool res" where
  "ends_with p x =
     (if plen p \<ge> plen x then
        bind_res (piece_read p (plen p - plen x) (plen x)) (\<lambda>a.
        bind_res (piece_read x 0 (plen x)) (\<lambda>b. Inr (wordmemcmp a b = 0)))
      else Inr False)"

text \<open>\<open>HASH_STRING_PIECE\<close>: each character is sign-extended before it is added.\<close>

definition StringPieceHash :: "string_piece \<Rightarrow> 64 word res" where
  "StringPieceHash sp =
     bind_res (piece_read sp 0 (plen sp)) (\<lambda>s.
       Inr (foldl (\<lambda>result c. result * 131 + word_of_int (schar c)) 0 s))"

section \<open>The searches of \<open>base::internal\<close>\<close>

text \<open>The standard algorithms the code calls, on the characters of their ranges.\<close>

fun std_search :: "string \<Rightarrow> string \<Rightarrow> nat" where
  "std_search [] ys = 0"
| "std_search (x # xs) ys =
     (if take (length ys) (x # xs) = ys then 0 else Suc (std_search xs ys))"

definition std_find :: "string \<Rightarrow> char \<Rightarrow> nat" where
  "std_find xs c = length (takeWhile (\<lambda>x. x \<noteq> c) xs)"

text \<open>\<open>std::find_end\<close>: the start of the last occurrence, the end of the range when there is none.\<close>

definition std_find_end :: "string \<Rightarrow> string \<Rightarrow> nat" where
  "std_find_end xs ys =
     (if ys = [] then length xs
      else case List.find (\<lambda>i. take (length ys) (drop i xs) = ys) (rev [0..<length xs]) of
             None \<Rightarrow> length xs
           | Some i \<Rightarrow> i)"

text \<open>
  The two loop shapes: \<open>for (i = pos; i < size; ++i) if (P(data[i])) return i; return npos\<close> and
  \<open>for (i = ...; ; --i) { if (P(data[i])) return i; if (i == 0) break; } return npos\<close>.
\<close>

function scan_up :: "(char \<Rightarrow> bool) \<Rightarrow> string_piece \<Rightarrow> size_t \<Rightarrow> size_t res" where
  "scan_up P p i =
     (if i < plen p
      then bind_res (piece_at p i) (\<lambda>c. if P c then Inr i else scan_up P p (Suc i))
      else Inr npos)"
  by pat_completeness auto
termination by (relation "measure (\<lambda>(P, p, i). plen p - i)") auto

declare scan_up.simps [simp del]

fun scan_down :: "(char \<Rightarrow> bool) \<Rightarrow> string_piece \<Rightarrow> size_t \<Rightarrow> size_t res" where
  "scan_down P p 0 = bind_res (piece_at p 0) (\<lambda>c. if P c then Inr 0 else Inr npos)"
| "scan_down P p (Suc i) =
     bind_res (piece_at p (Suc i)) (\<lambda>c. if P c then Inr (Suc i) else scan_down P p i)"

text \<open>The 256-entry table of the \<open>find_*_of\<close> searches, indexed by the unsigned character.\<close>

definition set_flag :: "bool list \<Rightarrow> char \<Rightarrow> bool list" where
  "set_flag table c = table[unat (uchar c) := True]"

definition BuildLookupTable :: "string_piece \<Rightarrow> bool list \<Rightarrow> bool list res" where
  "BuildLookupTable characters_wanted table =
     bind_res (piece_read characters_wanted 0 (plen characters_wanted))
       (\<lambda>s. Inr (foldl set_flag table s))"

definition lookup :: "bool list \<Rightarrow> char \<Rightarrow> bool" where
  "lookup table c = table ! unat (uchar c)"

definition find_str :: "string_piece \<Rightarrow> string_piece \<Rightarrow> size_t \<Rightarrow> size_t res" where
  "find_str self s pos =
     (if pos > plen self then Inr npos
      else bind_res (piece_read self pos (plen self - pos)) (\<lambda>hay.
           bind_res (piece_read s 0 (plen s)) (\<lambda>needle.
             let xpos = pos + std_search hay needle
             in Inr (if sz_add xpos (plen s) \<le> plen self then xpos else npos))))"

definition find_char :: "string_piece \<Rightarrow> char \<Rightarrow> size_t \<Rightarrow> size_t res" where
  "find_char self c pos =
     (if pos \<ge> plen self then Inr npos
      else bind_res (piece_read self pos (plen self - pos)) (\<lambda>hay.
             let result = pos + std_find hay c
             in Inr (if result \<noteq> plen self then result else npos)))"

definition rfind_str :: "string_piece \<Rightarrow> string_piece \<Rightarrow> size_t \<Rightarrow> size_t res" where
  "rfind_str self s pos =
     (if plen self < plen s then Inr npos
      else if plen s = 0 then Inr (min (plen self) pos)
      else (let last = min (plen self - plen s) pos + plen s
            in bind_res (piece_read self 0 last) (\<lambda>hay.
               bind_res (piece_read s 0 (plen s)) (\<lambda>needle.
                 let result = std_find_end hay needle
                 in Inr (if result \<noteq> last then result else npos)))))"

definition rfind_char :: "string_piece \<Rightarrow> char \<Rightarrow> size_t \<Rightarrow> size_t res" where
  "rfind_char self c pos =
     (if plen self = 0 then Inr npos
      else scan_down (\<lambda>x. x = c) self (min pos (plen self - 1)))"

definition find_first_of :: "string_piece \<Rightarrow> string_piece \<Rightarrow> size_t \<Rightarrow> size_t res" where
  "find_first_of self s pos =
     (if plen self = 0 \<or> plen s = 0 then Inr npos
      else if plen s = 1 then bind_res (piece_at s 0) (\<lambda>c. find_char self c pos)
      else bind_res (BuildLookupTable s (replicate 256 False)) (\<lambda>table.
             scan_up (lookup table) self pos))"

definition find_first_not_of_char :: "string_piece \<Rightarrow> char \<Rightarrow> size_t \<Rightarrow> size_t res" where
  "find_first_not_of_char self c pos =
     (if plen self = 0 then Inr npos else scan_up (\<lambda>x. x \<noteq> c) self pos)"

definition find_first_not_of :: "string_piece \<Rightarrow> string_piece \<Rightarrow> size_t \<Rightarrow> size_t res" where
  "find_first_not_of self s pos =
     (if plen self = 0 then Inr npos
      else if plen s = 0 then Inr 0
      else if plen s = 1 then bind_res (piece_at s 0) (\<lambda>c. find_first_not_of_char self c pos)
      else bind_res (BuildLookupTable s (replicate 256 False)) (\<lambda>table.
             scan_up (\<lambda>x. \<not> lookup table x) self pos))"

definition find_last_of :: "string_piece \<Rightarrow> string_piece \<Rightarrow> size_t \<Rightarrow> size_t res" where
  "find_last_of self s pos =
     (if plen self = 0 \<or> plen s = 0 then Inr npos
      else if plen s = 1 then bind_res (piece_at s 0) (\<lambda>c. rfind_char self c pos)
      else bind_res (BuildLookupTable s (replicate 256 False)) (\<lambda>table.
             scan_down (lookup table) self (min pos (plen self - 1))))"

definition find_last_not_of_char :: "string_piece \<Rightarrow> char \<Rightarrow> size_t \<Rightarrow> size_t res" where
  "find_last_not_of_char self c pos =
     (if plen self = 0 then Inr npos
      else scan_down (\<lambda>x. x \<noteq> c) self (min pos (plen self - 1)))"

definition find_last_not_of :: "string_piece \<Rightarrow> string_piece \<Rightarrow> size_t \<Rightarrow> size_t res" where
  "find_last_not_of self s pos =
     (if plen self = 0 then Inr npos
      else (let i = min pos (plen self - 1)
            in if plen s = 0 then Inr i
               else if plen s = 1 then
                 bind_res (piece_at s 0) (\<lambda>c. find_last_not_of_char self c pos)
               else bind_res (BuildLookupTable s (replicate 256 False)) (\<lambda>table.
                      scan_down (\<lambda>x. \<not> lookup table x) self i)))"

section \<open>Reads of a well-formed view\<close>

lemma length_chars [simp]: "wf_piece p \<Longrightarrow> length (chars p) = plen p"
  by (auto simp: wf_piece_def chars_def)

lemma plen_bound: "wf_piece p \<Longrightarrow> plen p < 2 ^ 63"
  by (simp add: wf_piece_def)

lemma piece_at_chars [simp]: "wf_piece p \<Longrightarrow> i < plen p \<Longrightarrow> piece_at p i = Inr (chars p ! i)"
  by (simp add: wf_piece_def piece_at_def chars_def)

lemma piece_read_chars [simp]:
  "wf_piece p \<Longrightarrow> off + n \<le> plen p \<Longrightarrow> piece_read p off n = Inr (take n (drop off (chars p)))"
  by (simp add: wf_piece_def piece_read_def chars_def drop_take add.commute)

lemma wf_null_piece [simp]: "wf_piece null_piece" "chars null_piece = []"
  by (simp_all add: wf_piece_def null_piece_def chars_def)

lemma wf_piece_of_string [simp]: "length s < 2 ^ 63 \<Longrightarrow> wf_piece (piece_of_string s)"
  by (simp add: wf_piece_def piece_of_string_def)

lemma chars_piece_of_string [simp]: "chars (piece_of_string s) = s"
  by (simp add: piece_of_string_def chars_def)

lemma plen_piece_of_string [simp]: "plen (piece_of_string s) = length s"
  by (simp add: piece_of_string_def)

lemma wf_remove_prefix:
  "wf_piece p \<Longrightarrow> n \<le> plen p \<Longrightarrow>
   wf_piece (remove_prefix p n) \<and> chars (remove_prefix p n) = drop n (chars p)"
  by (auto simp: wf_piece_def remove_prefix_def chars_def sz_sub_exact drop_take add.commute)

lemma wf_remove_suffix:
  "wf_piece p \<Longrightarrow> n \<le> plen p \<Longrightarrow>
   wf_piece (remove_suffix p n) \<and> chars (remove_suffix p n) = take (plen p - n) (chars p)"
  by (auto simp: wf_piece_def remove_suffix_def chars_def sz_sub_exact min_def)

lemma wf_piece_substr:
  "wf_piece p \<Longrightarrow>
   wf_piece (piece_substr p pos n) \<and> chars (piece_substr p pos n) = take n (drop pos (chars p))"
  by (auto simp: wf_piece_def piece_substr_def chars_def Let_def drop_take min_def add.commute)

lemma as_string_chars [simp]: "wf_piece p \<Longrightarrow> as_string p = Inr (chars p)"
  by (simp add: as_string_def) (metis length_0_conv length_chars)

lemma CopyToString_chars [simp]: "wf_piece p \<Longrightarrow> CopyToString p = Inr (chars p)"
  using as_string_chars [of p] by (simp add: as_string_def CopyToString_def)

lemma AppendToString_chars [simp]: "wf_piece p \<Longrightarrow> AppendToString p t = Inr (t @ chars p)"
  by (simp add: AppendToString_def) (metis append_Nil2 length_0_conv length_chars)

section \<open>Comparison is the lexicographic order on unsigned bytes\<close>

fun ulex :: "string \<Rightarrow> string \<Rightarrow> bool" where
  "ulex _ [] = False"
| "ulex [] (y # ys) = True"
| "ulex (x # xs) (y # ys) = (uchar x < uchar y \<or> x = y \<and> ulex xs ys)"

lemma ulex_irrefl: "\<not> ulex xs xs"
  by (induction xs) auto

lemma ulex_trans: "ulex xs ys \<Longrightarrow> ulex ys zs \<Longrightarrow> ulex xs zs"
proof (induction xs ys arbitrary: zs rule: ulex.induct)
  case (1 uu)
  then show ?case by simp
next
  case (2 y ys)
  then show ?case by (cases zs) auto
next
  case (3 x xs y ys)
  then show ?case by (cases zs) (auto intro: less_trans)
qed

lemma ulex_total: "ulex xs ys \<or> xs = ys \<or> ulex ys xs"
proof (induction xs ys rule: ulex.induct)
  case (1 uu)
  then show ?case by (cases uu) auto
next
  case (2 y ys)
  then show ?case by simp
next
  case (3 x xs y ys)
  then show ?case by (cases "uchar x" "uchar y" rule: linorder_cases) auto
qed

lemma wordmemcmp_values: "wordmemcmp a b = - 1 \<or> wordmemcmp a b = 0 \<or> wordmemcmp a b = 1"
  by (induction a b rule: wordmemcmp.induct) auto

lemma wordmemcmp_eq_0:
  "length a = length b \<Longrightarrow> wordmemcmp a b = 0 \<longleftrightarrow> a = b"
proof (induction a b rule: wordmemcmp.induct)
  case (1 a as b bs)
  then show ?case by (cases "uchar a" "uchar b" rule: linorder_cases) auto
qed auto

lemma wordmemcmp_ulex:
  assumes "n = min (length a) (length b)"
  shows "ulex a b \<longleftrightarrow> wordmemcmp (take n a) (take n b) < 0 \<or>
           wordmemcmp (take n a) (take n b) = 0 \<and> length a < length b"
  using assms
proof (induction a b arbitrary: n rule: ulex.induct)
  case (3 x xs y ys)
  then show ?case by (cases "uchar x" "uchar y" rule: linorder_cases) auto
qed auto

lemma piece_less_ulex: "wf_piece x \<Longrightarrow> wf_piece y \<Longrightarrow> piece_less x y = Inr (ulex (chars x) (chars y))"
  using wordmemcmp_ulex [of "min (plen x) (plen y)" "chars x" "chars y"]
  by (auto simp: piece_less_def Let_def min_def)

lemma piece_eq_chars: "wf_piece x \<Longrightarrow> wf_piece y \<Longrightarrow> piece_eq x y = Inr (chars x = chars y)"
  using wordmemcmp_eq_0 [of "chars x" "chars y"]
  by (auto simp: piece_eq_def dest: arg_cong [where f = length])

lemma piece_compare_ulex:
  assumes "wf_piece x" "wf_piece y"
  shows "piece_compare x y =
           Inr (if chars x = chars y then 0 else if ulex (chars x) (chars y) then - 1 else 1)"
proof -
  define n where "n = min (plen x) (plen y)"
  define r where "r = wordmemcmp (take n (chars x)) (take n (chars y))"
  have lt: "ulex (chars x) (chars y) \<longleftrightarrow> r < 0 \<or> r = 0 \<and> plen x < plen y"
    using wordmemcmp_ulex [of n "chars x" "chars y"] assms by (simp add: n_def r_def)
  have eq: "chars x = chars y \<longleftrightarrow> r = 0 \<and> plen x = plen y"
  proof (cases "plen x = plen y")
    case True
    then show ?thesis
      using wordmemcmp_eq_0 [of "chars x" "chars y"] assms by (simp add: n_def r_def)
  next
    case False
    then show ?thesis using assms by (metis length_chars)
  qed
  have "(if plen x < plen y then plen x else plen y) = n" by (simp add: n_def)
  moreover have "n \<le> plen x" "n \<le> plen y" by (simp_all add: n_def)
  ultimately have "piece_compare x y = Inr (if r = 0 then (if plen x < plen y then - 1
      else if plen x > plen y then 1 else r) else r)"
    using assms unfolding piece_compare_def Let_def by (simp add: r_def)
  moreover have "r = - 1 \<or> r = 0 \<or> r = 1" unfolding r_def by (rule wordmemcmp_values)
  ultimately show ?thesis unfolding lt eq by (elim disjE) simp_all
qed

lemma starts_with_chars:
  assumes "wf_piece p" "wf_piece x"
  shows "starts_with p x = Inr (take (plen x) (chars p) = chars x)"
  using assms wordmemcmp_eq_0 [of "take (plen x) (chars p)" "chars x"]
  by (auto simp: starts_with_def dest: arg_cong [where f = length])

lemma ends_with_chars:
  assumes "wf_piece p" "wf_piece x"
  shows "ends_with p x =
           Inr (plen x \<le> plen p \<and> drop (plen p - plen x) (chars p) = chars x)"
  using assms wordmemcmp_eq_0 [of "drop (plen p - plen x) (chars p)" "chars x"]
  by (auto simp: ends_with_def)

text \<open>
  On views that lie in their objects the comparison operators never read outside them and
  order the pieces as strings of unsigned bytes: \<open><\<close> is a strict total order whose
  equality is \<open>==\<close>, \<open>compare\<close> is its three-way form, and it is antisymmetric.
\<close>

theorem piece_order_laws:
  assumes "wf_piece x" "wf_piece y" "wf_piece z"
  shows "piece_less x x = Inr False \<and>
     (piece_less x y = Inr True \<and> piece_less y z = Inr True \<longrightarrow> piece_less x z = Inr True) \<and>
     (piece_less x y = Inr True \<or> piece_eq x y = Inr True \<or> piece_less y x = Inr True) \<and>
     (piece_less x y = Inr True \<longleftrightarrow> piece_compare x y = Inr (- 1)) \<and>
     (piece_eq x y = Inr True \<longleftrightarrow> piece_compare x y = Inr 0) \<and>
     (\<exists>r. piece_compare x y = Inr r \<and> piece_compare y x = Inr (- r))"
proof (intro conjI impI)
  note [simp] = piece_less_ulex piece_eq_chars piece_compare_ulex ulex_irrefl assms
  show "piece_less x x = Inr False" by simp
  show "piece_less x z = Inr True" if "piece_less x y = Inr True \<and> piece_less y z = Inr True"
    using that by (auto intro: ulex_trans)
  show "piece_less x y = Inr True \<or> piece_eq x y = Inr True \<or> piece_less y x = Inr True"
    using ulex_total by auto
  show "piece_less x y = Inr True \<longleftrightarrow> piece_compare x y = Inr (- 1)" by auto
  show "piece_eq x y = Inr True \<longleftrightarrow> piece_compare x y = Inr 0" by auto
  show "\<exists>r. piece_compare x y = Inr r \<and> piece_compare y x = Inr (- r)"
    using ulex_total [of "chars x" "chars y"] ulex_trans [of "chars x" "chars y" "chars x"] by auto
qed

theorem piece_order_laws_witness:
  "piece_less (piece_of_string ''a'') (piece_of_string [CHR 0xE9]) = Inr True \<and>
   piece_compare (piece_of_string ''a'') (piece_of_string [CHR 0xE9]) = Inr (- 1)"
proof -
  let ?x = "piece_of_string ''a''" and ?y = "piece_of_string [CHR 0xE9]"
  have "piece_less ?x ?y = Inr True"
    by (simp add: piece_less_def piece_read_def piece_of_string_def uchar_def)
  moreover have "wf_piece ?x" "wf_piece ?y" by simp_all
  ultimately show ?thesis using piece_order_laws [of ?x ?y ?x] by blast
qed

section \<open>The searches find what they should\<close>

definition first_pos :: "(char \<Rightarrow> bool) \<Rightarrow> string \<Rightarrow> nat \<Rightarrow> size_t" where
  "first_pos P xs i =
     (case List.find (\<lambda>j. P (xs ! j)) [i..<length xs] of None \<Rightarrow> npos | Some j \<Rightarrow> j)"

definition last_pos :: "(char \<Rightarrow> bool) \<Rightarrow> string \<Rightarrow> nat \<Rightarrow> size_t" where
  "last_pos P xs i =
     (case List.find (\<lambda>j. P (xs ! j)) (rev [0..<min (Suc i) (length xs)]) of
        None \<Rightarrow> npos | Some j \<Rightarrow> j)"

lemma scan_up_chars: "wf_piece p \<Longrightarrow> scan_up P p i = Inr (first_pos P (chars p) i)"
proof (induction P p i rule: scan_up.induct)
  case (1 P p i)
  show ?case
  proof (cases "i < plen p")
    case True
    then have "[i..<plen p] = i # [Suc i..<plen p]" by (rule upt_conv_Cons)
    with True 1 show ?thesis by (subst scan_up.simps) (simp add: first_pos_def)
  next
    case False
    with 1 show ?thesis by (subst scan_up.simps) (simp add: first_pos_def)
  qed
qed

lemma scan_down_chars:
  "wf_piece p \<Longrightarrow> i < plen p \<Longrightarrow> scan_down P p i = Inr (last_pos P (chars p) i)"
  by (induction i) (simp_all add: last_pos_def min_def)

lemma last_pos_min: "xs \<noteq> [] \<Longrightarrow> last_pos P xs (min i (length xs - 1)) = last_pos P xs i"
proof -
  assume "xs \<noteq> []"
  then have "min (Suc (min i (length xs - 1))) (length xs) = min (Suc i) (length xs)"
    by (cases xs) auto
  then show ?thesis by (simp only: last_pos_def)
qed

lemma length_foldl_set_flag [simp]: "length (foldl set_flag t s) = length t"
  by (induction s arbitrary: t) (simp_all add: set_flag_def)

lemma lookup_foldl:
  "length t = 256 \<Longrightarrow> lookup (foldl set_flag t s) c \<longleftrightarrow> c \<in> set s \<or> lookup t c"
proof (induction s arbitrary: t)
  case Nil
  then show ?case by simp
next
  case (Cons x s)
  have "lookup (set_flag t x) c \<longleftrightarrow> c = x \<or> lookup t c"
    using Cons.prems by (auto simp: lookup_def set_flag_def nth_list_update word_unat_eq_iff [symmetric])
  with Cons show ?case by (auto simp: set_flag_def)
qed

lemma lookup_table [simp]: "lookup (foldl set_flag (replicate 256 False) s) = (\<lambda>c. c \<in> set s)"
proof
  show "lookup (foldl set_flag (replicate 256 False) s) c = (c \<in> set s)" for c
    using lookup_foldl [of "replicate 256 False" s c] by (simp add: lookup_def)
qed

lemma BuildLookupTable_chars [simp]:
  "wf_piece s \<Longrightarrow> BuildLookupTable s t = Inr (foldl set_flag t (chars s))"
  by (simp add: BuildLookupTable_def)

lemma singleton_chars: "wf_piece s \<Longrightarrow> plen s = Suc 0 \<Longrightarrow> chars s = [chars s ! 0]"
  by (metis length_chars length_0_conv length_Suc_conv nth_Cons_0)

lemma find_char_chars:
  assumes "wf_piece self"
  shows "find_char self c pos = Inr (first_pos (\<lambda>x. x = c) (chars self) pos)"
proof (cases "pos < plen self")
  case False
  then show ?thesis using assms by (simp add: find_char_def first_pos_def)
next
  case True
  let ?xs = "chars self"
  let ?k = "std_find (drop pos ?xs) c"
  have find: "List.find (\<lambda>j. xs ! j = c) [i..<length xs] =
      (if i + std_find (drop i xs) c < length xs then Some (i + std_find (drop i xs) c) else None)"
    if "i \<le> length xs" for i and xs :: string
    using that
  proof (induction "length xs - i" arbitrary: i)
    case 0
    then show ?case by simp
  next
    case (Suc n)
    then have "i < length xs" by simp
    then have "drop i xs = xs ! i # drop (Suc i) xs" "[i..<length xs] = i # [Suc i..<length xs]"
      by (simp_all add: drop_eq_Cons_nth upt_conv_Cons)
    then show ?case using Suc.hyps(1) [of "Suc i"] Suc.hyps(2) \<open>i < length xs\<close>
      by (simp add: std_find_def)
  qed
  have "?k \<le> plen self - pos"
    using length_takeWhile_le [of "\<lambda>x. x \<noteq> c" "drop pos ?xs"] assms by (simp add: std_find_def)
  then show ?thesis using True assms find [of pos ?xs]
    by (auto simp: find_char_def first_pos_def Let_def)
qed

lemma chars_Nil_iff [simp]: "wf_piece p \<Longrightarrow> chars p = [] \<longleftrightarrow> plen p = 0"
  by (metis length_0_conv length_chars)

lemma find_False [simp]: "List.find (\<lambda>j. False) ys = None"
  by (induction ys) auto

lemma pos_Nil [simp]: "first_pos P [] i = npos" "last_pos P [] i = npos"
  by (simp_all add: first_pos_def last_pos_def)

lemma pos_False [simp]: "first_pos (\<lambda>_. False) xs i = npos" "last_pos (\<lambda>_. False) xs i = npos"
  by (simp_all add: first_pos_def last_pos_def)

lemma last_pos_True: "xs \<noteq> [] \<Longrightarrow> last_pos (\<lambda>_. True) xs i = min i (length xs - 1)"
  using last_pos_min [of xs "\<lambda>_. True" i] by (cases xs) (auto simp: last_pos_def min_def)

lemma scan_down_last:
  "wf_piece p \<Longrightarrow> 0 < plen p \<Longrightarrow>
   scan_down P p (min pos (plen p - Suc 0)) = Inr (last_pos P (chars p) pos)"
  using last_pos_min [of "chars p" P pos] by (simp add: scan_down_chars)

lemma set_singleton_chars:
  "wf_piece s \<Longrightarrow> plen s = Suc 0 \<Longrightarrow> c \<in> set (chars s) \<longleftrightarrow> c = chars s ! 0"
  by (metis singleton_chars list.set(1,2) singleton_iff)

lemma empty_chars [simp]: "wf_piece p \<Longrightarrow> plen p = 0 \<Longrightarrow> chars p = []"
  by simp

text \<open>The set searches, each equal to its reference search.\<close>

lemma rfind_char_chars:
  "wf_piece self \<Longrightarrow> rfind_char self c pos = Inr (last_pos (\<lambda>x. x = c) (chars self) pos)"
  by (simp add: rfind_char_def scan_down_last)

lemma find_last_not_of_char_chars:
  "wf_piece self \<Longrightarrow>
   find_last_not_of_char self c pos = Inr (last_pos (\<lambda>x. x \<noteq> c) (chars self) pos)"
  by (simp add: find_last_not_of_char_def scan_down_last)

lemma find_first_not_of_char_chars:
  "wf_piece self \<Longrightarrow>
   find_first_not_of_char self c pos = Inr (first_pos (\<lambda>x. x \<noteq> c) (chars self) pos)"
  by (simp add: find_first_not_of_char_def scan_up_chars)

lemma find_first_of_chars:
  "wf_piece self \<Longrightarrow> wf_piece s \<Longrightarrow>
   find_first_of self s pos = Inr (first_pos (\<lambda>c. c \<in> set (chars s)) (chars self) pos)"
  by (simp add: find_first_of_def find_char_chars scan_up_chars set_singleton_chars)

lemma find_first_not_of_chars:
  "wf_piece self \<Longrightarrow> wf_piece s \<Longrightarrow>
   find_first_not_of self s pos =
     Inr (if chars self \<noteq> [] \<and> chars s = [] then 0
          else first_pos (\<lambda>c. c \<notin> set (chars s)) (chars self) pos)"
  by (simp add: find_first_not_of_def find_first_not_of_char_chars scan_up_chars
      set_singleton_chars)

lemma find_last_of_chars:
  "wf_piece self \<Longrightarrow> wf_piece s \<Longrightarrow>
   find_last_of self s pos = Inr (last_pos (\<lambda>c. c \<in> set (chars s)) (chars self) pos)"
  by (simp add: find_last_of_def rfind_char_chars scan_down_last set_singleton_chars)

lemma find_last_not_of_chars:
  "wf_piece self \<Longrightarrow> wf_piece s \<Longrightarrow>
   find_last_not_of self s pos = Inr (last_pos (\<lambda>c. c \<notin> set (chars s)) (chars self) pos)"
  by (simp add: find_last_not_of_def Let_def find_last_not_of_char_chars scan_down_last
      set_singleton_chars last_pos_True)

text \<open>
  What a search promises: the least position in \<open>[lo, hi)\<close>, or the greatest in \<open>[0, hi)\<close>, with
  the property, and \<open>npos\<close> exactly when there is none.
\<close>

definition is_least_from :: "nat \<Rightarrow> nat \<Rightarrow> (nat \<Rightarrow> bool) \<Rightarrow> size_t \<Rightarrow> bool" where
  "is_least_from lo hi Q r \<longleftrightarrow>
     r = npos \<and> (\<forall>i. lo \<le> i \<and> i < hi \<longrightarrow> \<not> Q i) \<or>
     lo \<le> r \<and> r < hi \<and> Q r \<and> (\<forall>i. lo \<le> i \<and> i < r \<longrightarrow> \<not> Q i)"

definition is_greatest_below :: "nat \<Rightarrow> (nat \<Rightarrow> bool) \<Rightarrow> size_t \<Rightarrow> bool" where
  "is_greatest_below hi Q r \<longleftrightarrow>
     r = npos \<and> (\<forall>i < hi. \<not> Q i) \<or> r < hi \<and> Q r \<and> (\<forall>i. r < i \<and> i < hi \<longrightarrow> \<not> Q i)"

lemma find_upt:
  "case List.find Q [lo..<hi] of
     None \<Rightarrow> \<forall>i. lo \<le> i \<and> i < hi \<longrightarrow> \<not> Q i
   | Some r \<Rightarrow> lo \<le> r \<and> r < hi \<and> Q r \<and> (\<forall>i. lo \<le> i \<and> i < r \<longrightarrow> \<not> Q i)"
proof (cases "List.find Q [lo..<hi]")
  case None
  then have "\<forall>j\<in>set [lo..<hi]. \<not> Q j" by (simp only: find_None_iff) blast
  then show ?thesis unfolding None by simp
next
  case (Some r)
  then obtain i where i: "i < hi - lo" "Q (lo + i)" "r = lo + i" "\<forall>j < i. \<not> Q (lo + j)"
    by (auto simp: find_Some_iff)
  have "\<not> Q j" if "lo \<le> j" "j < r" for j
    using i(3,4) that by (metis add_diff_inverse_nat add_less_cancel_left not_less)
  then show ?thesis unfolding Some using i by simp
qed

lemma find_rev_upt:
  "case List.find Q (rev [0..<hi]) of
     None \<Rightarrow> \<forall>i < hi. \<not> Q i
   | Some r \<Rightarrow> r < hi \<and> Q r \<and> (\<forall>i. r < i \<and> i < hi \<longrightarrow> \<not> Q i)"
proof (induction hi)
  case 0
  then show ?case by simp
next
  case (Suc hi)
  then show ?case by (auto split: option.splits simp: less_Suc_eq)
qed

lemma is_greatest_below_cong:
  assumes "\<And>i. i < a \<and> Q i \<longleftrightarrow> i < b \<and> R i"
  shows "is_greatest_below a Q r \<longleftrightarrow> is_greatest_below b R r"
  unfolding is_greatest_below_def using assms by blast

lemma is_least_from_empty [simp]: "is_least_from lo 0 Q npos"
  by (simp add: is_least_from_def)

lemma first_pos_least: "is_least_from i (length xs) (\<lambda>j. P (xs ! j)) (first_pos P xs i)"
  using find_upt [where Q = "\<lambda>j. P (xs ! j)" and lo = i and hi = "length xs"]
  by (auto simp: first_pos_def is_least_from_def split: option.splits)

lemma last_pos_greatest:
  "is_greatest_below (min (Suc i) (length xs)) (\<lambda>j. P (xs ! j)) (last_pos P xs i)"
  using find_rev_upt [where Q = "\<lambda>j. P (xs ! j)" and hi = "min (Suc i) (length xs)"]
  by (auto simp: last_pos_def is_greatest_below_def split: option.splits)

definition occurs_at :: "string \<Rightarrow> string \<Rightarrow> nat \<Rightarrow> bool" where
  "occurs_at xs ys i \<longleftrightarrow> i \<le> length xs \<and> take (length ys) (drop i xs) = ys"

lemma occurs_at_length: "occurs_at xs ys i \<Longrightarrow> i + length ys \<le> length xs"
  unfolding occurs_at_def by (metis le_diff_conv2 add.commute length_drop length_take min_def nat_le_linear)

lemma std_search_least:
  "std_search xs ys \<le> length xs \<and> (\<forall>i < std_search xs ys. \<not> occurs_at xs ys i) \<and>
   (occurs_at xs ys (std_search xs ys) \<or> std_search xs ys = length xs)"
proof (induction xs)
  case Nil
  then show ?case by simp
next
  case (Cons x xs)
  have "occurs_at (x # xs) ys (Suc i) = occurs_at xs ys i" for i by (simp add: occurs_at_def)
  moreover have "occurs_at (x # xs) ys 0 = (take (length ys) (x # xs) = ys)"
    by (simp add: occurs_at_def)
  ultimately show ?case using Cons.IH by (auto simp: less_Suc_eq_0_disj)
qed

lemma std_find_end_greatest:
  assumes "ys \<noteq> []"
  shows "is_greatest_below (length xs) (occurs_at xs ys)
           (if std_find_end xs ys \<noteq> length xs then std_find_end xs ys else npos)"
proof -
  have "(\<lambda>i. take (length ys) (drop i xs) = ys) = (\<lambda>i. occurs_at xs ys i)"
    using assms by (auto simp: occurs_at_def fun_eq_iff) (metis drop_all nat_le_linear take_Nil)
  then show ?thesis
    using find_rev_upt [where Q = "occurs_at xs ys" and hi = "length xs"] assms
    by (auto simp: std_find_end_def is_greatest_below_def split: option.splits)
qed

lemma occurs_at_drop: "pos \<le> length xs \<Longrightarrow> occurs_at (drop pos xs) ys i = occurs_at xs ys (pos + i)"
  by (auto simp: occurs_at_def add.commute)

lemma occurs_at_take:
  "occurs_at (take n xs) ys i \<longleftrightarrow> occurs_at xs ys i \<and> i + length ys \<le> n" if "ys \<noteq> []" "n \<le> length xs"
proof
  assume o: "occurs_at (take n xs) ys i"
  then have "i + length ys \<le> n" using occurs_at_length that(2) by fastforce
  with o show "occurs_at xs ys i \<and> i + length ys \<le> n"
    by (auto simp: occurs_at_def drop_take min_def split: if_splits)
next
  assume "occurs_at xs ys i \<and> i + length ys \<le> n"
  then show "occurs_at (take n xs) ys i" using that by (auto simp: occurs_at_def drop_take min_def)
qed

lemma find_str_least:
  assumes "wf_piece self" "wf_piece s"
  shows "\<exists>r. find_str self s pos = Inr r \<and>
           is_least_from pos (Suc (plen self)) (occurs_at (chars self) (chars s)) r"
proof (cases "pos \<le> plen self")
  case False
  then show ?thesis by (auto simp: find_str_def is_least_from_def)
next
  case True
  let ?k = "std_search (drop pos (chars self)) (chars s)"
  note k = std_search_least [of "drop pos (chars self)" "chars s"]
  have len: "pos + ?k \<le> plen self" using k True assms by auto
  have before: "\<not> occurs_at (chars self) (chars s) i" if "pos \<le> i" "i < pos + ?k" for i
    using k that True assms occurs_at_drop [of pos "chars self" "chars s" "i - pos"] by auto
  have at: "occurs_at (chars self) (chars s) (pos + ?k) \<or> pos + ?k = plen self"
    using k True assms occurs_at_drop [of pos "chars self" "chars s" ?k] by auto
  have "sz_add (pos + ?k) (plen s) = pos + ?k + plen s"
    using len plen_bound [OF assms(1)] plen_bound [OF assms(2)] by (intro sz_add_exact) simp
  then have eq: "find_str self s pos =
      Inr (if pos + ?k + plen s \<le> plen self then pos + ?k else npos)"
    using True assms by (simp add: find_str_def Let_def)
  have empty: "occurs_at (chars self) (chars s) (plen self) \<longleftrightarrow> plen s = 0"
    using assms by (simp add: occurs_at_def) (metis chars_Nil_iff)
  show ?thesis
  proof (cases "pos + ?k + plen s \<le> plen self")
    case t: True
    then have "occurs_at (chars self) (chars s) (pos + ?k)" using at empty by auto
    then show ?thesis using eq t len before by (auto simp: is_least_from_def)
  next
    case f: False
    then have "pos + ?k = plen self" "plen s \<noteq> 0"
      using at occurs_at_length [of "chars self" "chars s" "pos + ?k"] assms len by auto
    then have "\<not> occurs_at (chars self) (chars s) i" if "pos \<le> i" "i < Suc (plen self)" for i
      using that before empty by (auto simp: less_Suc_eq)
    then show ?thesis using eq f by (auto simp: is_least_from_def)
  qed
qed

lemma rfind_str_greatest:
  assumes "wf_piece self" "wf_piece s" "pos \<le> npos"
  shows "\<exists>r. rfind_str self s pos = Inr r \<and>
           is_greatest_below (min (Suc pos) (Suc (plen self))) (occurs_at (chars self) (chars s)) r"
proof (cases "plen s = 0 \<or> plen self < plen s")
  case True
  have "\<not> occurs_at (chars self) (chars s) i" if "plen self < plen s" for i
    using that assms occurs_at_length [of "chars self" "chars s" i] by auto
  then show ?thesis
    using True assms by (auto simp: rfind_str_def is_greatest_below_def occurs_at_def)
next
  case False
  define last where "last = min (plen self - plen s) pos + plen s"
  define r where
    "r = (if std_find_end (take last (chars self)) (chars s) \<noteq> last
          then std_find_end (take last (chars self)) (chars s) else npos)"
  have ne: "chars s \<noteq> []" and le: "last \<le> length (chars self)"
    using False assms by (auto simp: last_def)
  have eq: "rfind_str self s pos = Inr r"
    using False assms le by (simp add: rfind_str_def Let_def last_def [symmetric] r_def)
  have "is_greatest_below last (occurs_at (take last (chars self)) (chars s)) r"
    using std_find_end_greatest [OF ne, of "take last (chars self)"] le by (simp add: r_def)
  moreover have "i < last \<and> occurs_at (take last (chars self)) (chars s) i \<longleftrightarrow>
      i < min (Suc pos) (Suc (plen self)) \<and> occurs_at (chars self) (chars s) i" for i
    using occurs_at_take [OF ne le, of i] occurs_at_length [of "chars self" "chars s" i] assms False
    by (auto simp: last_def)
  ultimately have "is_greatest_below (min (Suc pos) (Suc (plen self)))
      (occurs_at (chars self) (chars s)) r"
    by (rule is_greatest_below_cong [THEN iffD1, rotated])
  with eq show ?thesis by blast
qed

text \<open>
  C19: on views that lie in their objects, the substring searches read only characters in view and
  return the first occurrence at or after \<open>pos\<close> (\<open>find\<close>), the last one starting at or before
  \<open>pos\<close> (\<open>rfind\<close>), and \<open>npos\<close> exactly when there is none.
\<close>

theorem substring_searches_correct:
  assumes "wf_piece self" "wf_piece s" "pos \<le> npos"
  shows "\<exists>f r. find_str self s pos = Inr f \<and> rfind_str self s pos = Inr r \<and>
           is_least_from pos (Suc (plen self)) (occurs_at (chars self) (chars s)) f \<and>
           is_greatest_below (min (Suc pos) (Suc (plen self)))
             (occurs_at (chars self) (chars s)) r"
  using find_str_least [OF assms(1,2)] rfind_str_greatest [OF assms] by blast

theorem substring_searches_correct_witness:
  "\<exists>f r. find_str (piece_of_string ''abcabc'') (piece_of_string ''bc'') 2 = Inr f \<and>
         rfind_str (piece_of_string ''abcabc'') (piece_of_string ''bc'') 2 = Inr r \<and>
         is_least_from 2 (Suc (length ''abcabc'')) (occurs_at ''abcabc'' ''bc'') f \<and>
         is_greatest_below (min (Suc 2) (Suc (length ''abcabc''))) (occurs_at ''abcabc'' ''bc'') r"
proof -
  let ?x = "piece_of_string ''abcabc''" and ?y = "piece_of_string ''bc''"
  have "wf_piece ?x" "wf_piece ?y" "2 \<le> npos" by (simp_all add: npos_def)
  then have "\<exists>f r. find_str ?x ?y 2 = Inr f \<and> rfind_str ?x ?y 2 = Inr r \<and>
      is_least_from 2 (Suc (plen ?x)) (occurs_at (chars ?x) (chars ?y)) f \<and>
      is_greatest_below (min (Suc 2) (Suc (plen ?x))) (occurs_at (chars ?x) (chars ?y)) r"
    by (rule substring_searches_correct)
  then show ?thesis unfolding chars_piece_of_string plen_piece_of_string .
qed

text \<open>
  C35: the set searches, with their one-character shortcut and their lookup table, never read outside the
  views.  \<open>find_first_of\<close> and \<open>find_last_of\<close> return the first and the last position in range whose
  character is in the set, \<open>find_last_not_of\<close> the last whose character is not, and each \<open>npos\<close> when there is
  none.  \<open>find_first_not_of\<close> returns the first whose character is not, except for an empty set: then it
  answers 0, which is below the range for every \<open>pos\<close> but 0 and so not the position it is meant to find
  (\<open>std::string\<close> answers \<open>pos\<close> in range and \<open>npos\<close> outside).
\<close>

theorem set_searches_correct:
  assumes "wf_piece self" "wf_piece s"
  shows "\<exists>a b c d. find_first_of self s pos = Inr a \<and> find_last_of self s pos = Inr b \<and>
           find_first_not_of self s pos = Inr c \<and> find_last_not_of self s pos = Inr d \<and>
           is_least_from pos (plen self) (\<lambda>i. chars self ! i \<in> set (chars s)) a \<and>
           is_greatest_below (min (Suc pos) (plen self)) (\<lambda>i. chars self ! i \<in> set (chars s)) b \<and>
           (if plen s = 0 \<and> plen self \<noteq> 0
            then c = 0 \<and> (is_least_from pos (plen self) (\<lambda>i. chars self ! i \<notin> set (chars s)) c \<longleftrightarrow> pos = 0)
            else is_least_from pos (plen self) (\<lambda>i. chars self ! i \<notin> set (chars s)) c) \<and>
           is_greatest_below (min (Suc pos) (plen self)) (\<lambda>i. chars self ! i \<notin> set (chars s)) d"
proof -
  have z: "is_least_from pos (plen self) (\<lambda>i. chars self ! i \<notin> set (chars s)) 0 \<longleftrightarrow> pos = 0"
    if "plen s = 0" "plen self \<noteq> 0"
    using that assms by (auto simp: is_least_from_def npos_def)
  show ?thesis
    using assms z
      first_pos_least [of pos "chars self" "\<lambda>c. c \<in> set (chars s)"]
      first_pos_least [of pos "chars self" "\<lambda>c. c \<notin> set (chars s)"]
      last_pos_greatest [of pos "chars self" "\<lambda>c. c \<in> set (chars s)"]
      last_pos_greatest [of pos "chars self" "\<lambda>c. c \<notin> set (chars s)"]
    by (simp add: find_first_of_chars find_last_of_chars find_first_not_of_chars
        find_last_not_of_chars)
qed

theorem set_searches_correct_witness:
  "\<exists>a. find_first_of (piece_of_string ''key=val'') (piece_of_string ''=:'') 1 = Inr a \<and>
       is_least_from 1 (length ''key=val'') (\<lambda>i. ''key=val'' ! i \<in> set ''=:'') a"
proof -
  let ?x = "piece_of_string ''key=val''" and ?y = "piece_of_string ''=:''"
  have "wf_piece ?x" "wf_piece ?y" by simp_all
  from set_searches_correct [OF this, of 1]
  show ?thesis unfolding chars_piece_of_string plen_piece_of_string by blast
qed

section \<open>The contract of the searches\<close>

text \<open>
  What a client that strips a set of characters from both ends of a view needs of the two
  negative searches: the first and the last position that stays.  The client's lemma says that
  cutting the view there leaves the view stripped, with the wrap-around of \<open>npos + 1\<close> and of
  \<open>end - begin\<close> when nothing stays.
\<close>

definition strip_chars :: "string \<Rightarrow> string \<Rightarrow> string" where
  "strip_chars cs xs =
     rev (dropWhile (\<lambda>c. c \<in> set cs) (rev (dropWhile (\<lambda>c. c \<in> set cs) xs)))"

locale piece_searches =
  fixes first_not :: "string_piece \<Rightarrow> string_piece \<Rightarrow> size_t \<Rightarrow> size_t res"
    and last_not :: "string_piece \<Rightarrow> string_piece \<Rightarrow> size_t \<Rightarrow> size_t res"
  assumes first_not_spec: "wf_piece self \<Longrightarrow> wf_piece s \<Longrightarrow>
      first_not self s 0 = Inr (first_pos (\<lambda>c. c \<notin> set (chars s)) (chars self) 0)"
    and last_not_spec: "wf_piece self \<Longrightarrow> wf_piece s \<Longrightarrow>
      last_not self s npos = Inr (last_pos (\<lambda>c. c \<notin> set (chars s)) (chars self) npos)"
begin

lemma nothing_kept:
  assumes "wf_piece self" "wf_piece s" "set (chars self) \<subseteq> set (chars s)"
  shows "first_not self s 0 = Inr npos" and "last_not self s npos = Inr npos"
proof -
  have "i < plen self \<Longrightarrow> chars self ! i \<in> set (chars s)" for i
    using assms by (metis length_chars nth_mem subsetD)
  then show "first_not self s 0 = Inr npos" "last_not self s npos = Inr npos"
    using assms first_not_spec last_not_spec
      first_pos_least [of 0 "chars self" "\<lambda>c. c \<notin> set (chars s)"]
      last_pos_greatest [of npos "chars self" "\<lambda>c. c \<notin> set (chars s)"]
    by (auto simp: is_least_from_def is_greatest_below_def)
qed

lemma kept_bounds:
  assumes "wf_piece self" "wf_piece s" "\<not> set (chars self) \<subseteq> set (chars s)"
  shows "\<exists>b e. first_not self s 0 = Inr b \<and> last_not self s npos = Inr e \<and> b \<le> e \<and> e < plen self \<and>
    chars self ! b \<notin> set (chars s) \<and> (\<forall>i < b. chars self ! i \<in> set (chars s)) \<and>
    chars self ! e \<notin> set (chars s) \<and> (\<forall>i. e < i \<and> i < plen self \<longrightarrow> chars self ! i \<in> set (chars s))"
proof -
  obtain k where k: "k < plen self" "chars self ! k \<notin> set (chars s)"
    using assms by (metis in_set_conv_nth length_chars subsetI)
  have m: "min (Suc npos) (plen self) = plen self"
    using plen_bound [OF assms(1)] by (simp add: npos_def)
  define b where "b = first_pos (\<lambda>c. c \<notin> set (chars s)) (chars self) 0"
  define e where "e = last_pos (\<lambda>c. c \<notin> set (chars s)) (chars self) npos"
  have "is_least_from 0 (plen self) (\<lambda>i. chars self ! i \<notin> set (chars s)) b"
    using first_pos_least [of 0 "chars self" "\<lambda>c. c \<notin> set (chars s)"] assms by (simp add: b_def)
  then have b: "b < plen self" "chars self ! b \<notin> set (chars s)" "\<forall>i < b. chars self ! i \<in> set (chars s)"
    using k by (auto simp: is_least_from_def)
  have "is_greatest_below (plen self) (\<lambda>i. chars self ! i \<notin> set (chars s)) e"
    using last_pos_greatest [of npos "chars self" "\<lambda>c. c \<notin> set (chars s)"] assms m
    by (simp add: e_def)
  then have e: "e < plen self" "chars self ! e \<notin> set (chars s)"
    "\<forall>i. e < i \<and> i < plen self \<longrightarrow> chars self ! i \<in> set (chars s)"
    using k by (auto simp: is_greatest_below_def)
  have "b \<le> e" using b e by (meson linorder_not_less)
  then show ?thesis using b e first_not_spec last_not_spec assms by (auto simp: b_def e_def)
qed

end

interpretation sp_searches: piece_searches find_first_not_of find_last_not_of
  by unfold_locales (auto simp: find_first_not_of_chars find_last_not_of_chars first_pos_def
      upt_conv_Cons)

end
