(* ===== verification/StringUtil.thy ===== *)
theory StringUtil
  imports Prelude Ascii StringPiece
begin

text \<open>
  \<open>base/string_util.{h,cc}\<close>: ASCII case folding without the tables (on the signed \<open>char\<close> the
  code compares), prefix and suffix tests, the two \<open>TrimString\<close>s and \<open>WriteInto\<close>.  The trimming
  lemmas rest on the contract \<open>piece_searches\<close> of the view's searches.
\<close>

section \<open>Case folding and comparison\<close>

definition ToLowerASCII :: "char \<Rightarrow> char" where
  "ToLowerASCII c =
     (if schar c \<ge> schar (CHR ''A'') \<and> schar c \<le> schar (CHR ''Z'')
      then char_of_byte (uchar c + (uchar (CHR ''a'') - uchar (CHR ''A''))) else c)"

definition CaseInsensitiveCompareASCII :: "char \<Rightarrow> char \<Rightarrow> bool" where
  "CaseInsensitiveCompareASCII x y = (ToLowerASCII x = ToLowerASCII y)"

function lower_equals_loop :: "string_piece \<Rightarrow> string_piece \<Rightarrow> size_t \<Rightarrow> bool res" where
  "lower_equals_loop str lowercase_ascii i =
     (if i < plen str
      then bind_res (piece_at str i) (\<lambda>a. bind_res (piece_at lowercase_ascii i) (\<lambda>b.
             if ToLowerASCII a \<noteq> b then Inr False
             else lower_equals_loop str lowercase_ascii (Suc i)))
      else Inr True)"
  by pat_completeness auto
termination by (relation "measure (\<lambda>(s, l, i). plen s - i)") auto

declare lower_equals_loop.simps [simp del]

definition LowerCaseEqualsASCII :: "string_piece \<Rightarrow> string_piece \<Rightarrow> bool res" where
  "LowerCaseEqualsASCII str lowercase_ascii =
     (if plen str \<noteq> plen lowercase_ascii then Inr False
      else lower_equals_loop str lowercase_ascii 0)"

function compare_ci_loop :: "string_piece \<Rightarrow> string_piece \<Rightarrow> size_t \<Rightarrow> int res" where
  "compare_ci_loop a b i =
     (if i < plen a \<and> i < plen b
      then bind_res (piece_at a i) (\<lambda>x. bind_res (piece_at b i) (\<lambda>y.
             let lower_a = ToLowerASCII x; lower_b = ToLowerASCII y
             in if schar lower_a < schar lower_b then Inr (- 1)
                else if schar lower_a > schar lower_b then Inr 1
                else compare_ci_loop a b (Suc i)))
      else if plen a = plen b then Inr 0
      else if plen a < plen b then Inr (- 1)
      else Inr 1)"
  by pat_completeness auto
termination by (relation "measure (\<lambda>(a, b, i). plen a - i)") auto

declare compare_ci_loop.simps [simp del]

definition CompareCaseInsensitiveASCII :: "string_piece \<Rightarrow> string_piece \<Rightarrow> int res" where
  "CompareCaseInsensitiveASCII a b = compare_ci_loop a b 0"

datatype CompareCase = SENSITIVE | INSENSITIVE_ASCII

text \<open>\<open>std::equal\<close> of the first range with the characters from the start of the second.\<close>

definition std_equal :: "(char \<Rightarrow> char \<Rightarrow> bool) \<Rightarrow> string_piece \<Rightarrow> string_piece \<Rightarrow> bool res" where
  "std_equal P x y =
     bind_res (piece_read x 0 (plen x)) (\<lambda>a. bind_res (piece_read y 0 (plen x)) (\<lambda>b.
       Inr (list_all2 P a b)))"

definition StartsWith :: "string_piece \<Rightarrow> string_piece \<Rightarrow> CompareCase \<Rightarrow> bool res" where
  "StartsWith str search_for case_sensitivity =
     (if plen search_for > plen str then Inr False
      else let source = piece_substr str 0 (plen search_for)
           in case case_sensitivity of
                SENSITIVE \<Rightarrow> piece_eq source search_for
              | INSENSITIVE_ASCII \<Rightarrow> std_equal CaseInsensitiveCompareASCII search_for source)"

definition EndsWith :: "string_piece \<Rightarrow> string_piece \<Rightarrow> CompareCase \<Rightarrow> bool res" where
  "EndsWith str search_for case_sensitivity =
     (if plen search_for > plen str then Inr False
      else let source = piece_substr str (sz_sub (plen str) (plen search_for)) (plen search_for)
           in case case_sensitivity of
                SENSITIVE \<Rightarrow> piece_eq source search_for
              | INSENSITIVE_ASCII \<Rightarrow> std_equal CaseInsensitiveCompareASCII source search_for)"

text \<open>
  \<open>WriteInto\<close> resizes the string to \<open>length_with_null - 1\<close> characters (new ones are NUL) and
  returns the address of its first one, which is offset 0 here.
\<close>

definition std_resize :: "string \<Rightarrow> size_t \<Rightarrow> string" where
  "std_resize s n = take n s @ replicate (n - length s) (CHR 0x00)"

definition WriteInto :: "string \<Rightarrow> size_t \<Rightarrow> string res" where
  "WriteInto str length_with_null =
     bind_res (check (length_with_null > 1)) (\<lambda>_. Inr (std_resize str (length_with_null - 1)))"

section \<open>Trimming\<close>

text \<open>\<open>enum TrimPositions\<close>, with its bits read by two tests.\<close>

datatype TrimPositions = TRIM_NONE | TRIM_LEADING | TRIM_TRAILING | TRIM_ALL

definition trims_leading :: "TrimPositions \<Rightarrow> bool" where
  "trims_leading p \<longleftrightarrow> p = TRIM_LEADING \<or> p = TRIM_ALL"

definition trims_trailing :: "TrimPositions \<Rightarrow> bool" where
  "trims_trailing p \<longleftrightarrow> p = TRIM_TRAILING \<or> p = TRIM_ALL"

definition trim_positions :: "bool \<Rightarrow> bool \<Rightarrow> TrimPositions" where
  "trim_positions leading trailing =
     (if leading then (if trailing then TRIM_ALL else TRIM_LEADING)
      else if trailing then TRIM_TRAILING else TRIM_NONE)"

text \<open>The result and the string left in \<open>*output\<close>.\<close>

definition TrimStringT :: "string \<Rightarrow> string_piece \<Rightarrow> TrimPositions \<Rightarrow> (TrimPositions \<times> string) res" where
  "TrimStringT input trim_chars positions =
     (let input_piece = piece_of_string input; last_char = sz_sub (length input) 1
      in bind_res (if trims_leading positions
                   then find_first_not_of input_piece trim_chars 0 else Inr 0) (\<lambda>first_good_char.
         bind_res (if trims_trailing positions
                   then find_last_not_of input_piece trim_chars npos else Inr last_char)
           (\<lambda>last_good_char.
           if input = [] \<or> first_good_char = npos \<or> last_good_char = npos
           then Inr (if input = [] then TRIM_NONE else positions, [])
           else Inr (trim_positions (first_good_char \<noteq> 0) (last_good_char \<noteq> last_char),
                     take (sz_add (sz_sub last_good_char first_good_char) 1)
                       (drop first_good_char input)))))"

definition TrimString :: "string \<Rightarrow> string_piece \<Rightarrow> (bool \<times> string) res" where
  "TrimString input trim_chars =
     bind_res (TrimStringT input trim_chars TRIM_ALL) (\<lambda>(p, output). Inr (p \<noteq> TRIM_NONE, output))"

definition TrimStringPiece :: "string_piece \<Rightarrow> string_piece \<Rightarrow> TrimPositions \<Rightarrow> string_piece res" where
  "TrimStringPiece input trim_chars positions =
     bind_res (if trims_leading positions
               then find_first_not_of input trim_chars 0 else Inr 0) (\<lambda>first.
     bind_res (if trims_trailing positions
               then bind_res (find_last_not_of input trim_chars npos) (\<lambda>e. Inr (sz_add e 1))
               else Inr (plen input)) (\<lambda>stop.
       Inr (piece_substr input first (sz_sub stop first))))"

section \<open>What the trims return\<close>

definition strip_leading :: "string \<Rightarrow> string \<Rightarrow> string" where
  "strip_leading cs xs = dropWhile (\<lambda>c. c \<in> set cs) xs"

definition strip_trailing :: "string \<Rightarrow> string \<Rightarrow> string" where
  "strip_trailing cs xs = rev (dropWhile (\<lambda>c. c \<in> set cs) (rev xs))"

definition strip_at :: "TrimPositions \<Rightarrow> string \<Rightarrow> string \<Rightarrow> string" where
  "strip_at p cs xs =
     (if trims_trailing p then strip_trailing cs else id)
       ((if trims_leading p then strip_leading cs else id) xs)"

lemma strip_at_ALL: "strip_at TRIM_ALL cs xs = strip_chars cs xs"
  by (simp add: strip_at_def trims_leading_def trims_trailing_def strip_leading_def
      strip_trailing_def strip_chars_def)

lemma strip_leading_drop:
  "b < length xs \<Longrightarrow> xs ! b \<notin> set cs \<Longrightarrow> \<forall>i < b. xs ! i \<in> set cs \<Longrightarrow> strip_leading cs xs = drop b xs"
  unfolding strip_leading_def
  by (metis dropWhile_eq_drop takeWhile_dropWhile_nth length_take min.absorb2 less_imp_le_nat)

lemma strip_trailing_take:
  assumes "e < length xs" "xs ! e \<notin> set cs" "\<forall>i. e < i \<and> i < length xs \<longrightarrow> xs ! i \<in> set cs"
  shows "strip_trailing cs xs = take (Suc e) xs"
proof -
  have "strip_leading cs (rev xs) = drop (length xs - Suc e) (rev xs)"
  proof (rule strip_leading_drop)
    have "xs ! (length xs - Suc i) \<in> set cs" if "i < length xs - Suc e" for i
      using that by (intro assms(3) [rule_format]) arith
    then show "\<forall>i < length xs - Suc e. rev xs ! i \<in> set cs" by (simp add: rev_nth)
  qed (use assms in \<open>auto simp: rev_nth\<close>)
  then show ?thesis using assms(1) by (simp add: strip_trailing_def strip_leading_def rev_drop)
qed

lemma strip_all_in:
  assumes "set xs \<subseteq> set cs"
  shows "strip_leading cs xs = []" and "strip_trailing cs xs = []"
  using assms by (auto simp: strip_leading_def strip_trailing_def)

lemma strip_trailing_drop:
  assumes "b \<le> e" "e < length xs" "xs ! e \<notin> set cs"
    "\<forall>i. e < i \<and> i < length xs \<longrightarrow> xs ! i \<in> set cs"
  shows "strip_trailing cs (drop b xs) = take (Suc (e - b)) (drop b xs)"
proof (rule strip_trailing_take)
  have "xs ! (b + i) \<in> set cs" if "e - b < i" "i < length xs - b" for i
    using that assms(1) by (intro assms(4) [rule_format]) arith
  then show "\<forall>i. e - b < i \<and> i < length (drop b xs) \<longrightarrow> drop b xs ! i \<in> set cs"
    using assms by simp
qed (use assms in auto)

lemma TrimStringPiece_strip_at:
  assumes "wf_piece input" "wf_piece cs"
  shows "\<exists>p. TrimStringPiece input cs positions = Inr p \<and> wf_piece p \<and>
           chars p = strip_at positions (chars cs) (chars input)"
proof (cases "set (chars input) \<subseteq> set (chars cs)")
  case True
  have "drop npos (chars input) = []"
    using plen_bound [OF assms(1)] assms by (simp add: npos_def)
  moreover have "strip_trailing (chars cs) [] = []" by (simp add: strip_trailing_def)
  moreover have "sz_sub (plen input) 0 = plen input"
    using plen_bound [OF assms(1)] by (simp add: sz_sub_exact)
  ultimately show ?thesis
    using sp_searches.nothing_kept [OF assms True] strip_all_in [OF True]
      wf_piece_substr [OF assms(1)] length_chars [OF assms(1)]
    by (cases positions)
      (simp_all add: TrimStringPiece_def strip_at_def trims_leading_def trims_trailing_def
        sz_sub_exact)
next
  case False
  obtain b e where *: "find_first_not_of input cs 0 = Inr b" "find_last_not_of input cs npos = Inr e"
    and be: "b \<le> e" "e < plen input"
    and b: "chars input ! b \<notin> set (chars cs)" "\<forall>i < b. chars input ! i \<in> set (chars cs)"
    and e: "chars input ! e \<notin> set (chars cs)"
      "\<forall>i. e < i \<and> i < plen input \<longrightarrow> chars input ! i \<in> set (chars cs)"
    using sp_searches.kept_bounds [OF assms False] by blast
  have lead: "strip_leading (chars cs) (chars input) = drop b (chars input)"
    using strip_leading_drop [of b "chars input" "chars cs"] be b assms by simp
  have trail: "strip_trailing (chars cs) (chars input) = take (Suc e) (chars input)"
    using strip_trailing_take [of e "chars input" "chars cs"] be e assms by simp
  have both: "strip_trailing (chars cs) (drop b (chars input)) =
      take (Suc (e - b)) (drop b (chars input))"
    using strip_trailing_drop [of b e "chars input" "chars cs"] be e assms by simp
  have sz: "sz_add e 1 = Suc e" "sz_sub (Suc e) b = Suc (e - b)" "sz_sub (Suc e) 0 = Suc e"
    "sz_sub (plen input) b = plen input - b" "sz_sub (plen input) 0 = plen input"
    using be plen_bound [OF assms(1)] by (simp_all add: sz_add_exact sz_sub_exact Suc_diff_le)
  show ?thesis
    using * sz lead trail both wf_piece_substr [OF assms(1)] assms be
    by (cases positions)
      (auto simp: TrimStringPiece_def strip_at_def trims_leading_def trims_trailing_def)
qed

lemma TrimStringT_ALL:
  assumes "length input < 2 ^ 63" "wf_piece cs"
  shows "\<exists>p. TrimStringT input cs TRIM_ALL = Inr (p, strip_chars (chars cs) input) \<and>
           (p = TRIM_NONE \<longleftrightarrow> strip_chars (chars cs) input = input)"
proof -
  let ?in = "piece_of_string input"
  have wf: "wf_piece ?in" using assms(1) by simp
  show ?thesis
  proof (cases "set input \<subseteq> set (chars cs)")
    case True
    then have "strip_chars (chars cs) input = []"
      using strip_all_in [of input "chars cs"]
      by (simp add: strip_at_ALL [symmetric] strip_at_def trims_leading_def trims_trailing_def
          strip_trailing_def)
    then show ?thesis
      using True sp_searches.nothing_kept [OF wf assms(2)]
      by (auto simp: TrimStringT_def Let_def trims_leading_def trims_trailing_def)
  next
    case False
    then have "\<not> set (chars ?in) \<subseteq> set (chars cs)" by simp
    from sp_searches.kept_bounds [OF wf assms(2) this]
    obtain b e where *: "find_first_not_of ?in cs 0 = Inr b" "find_last_not_of ?in cs npos = Inr e"
      and be: "b \<le> e" "e < length input"
      and b: "input ! b \<notin> set (chars cs)" "\<forall>i < b. input ! i \<in> set (chars cs)"
      and e: "input ! e \<notin> set (chars cs)"
        "\<forall>i. e < i \<and> i < length input \<longrightarrow> input ! i \<in> set (chars cs)"
      by auto
    have strip: "strip_chars (chars cs) input = take (Suc (e - b)) (drop b input)"
      using strip_leading_drop [of b input "chars cs"] strip_trailing_drop [OF be e] be b
      by (simp add: strip_at_ALL [symmetric] strip_at_def trims_leading_def trims_trailing_def)
    have len: "length (strip_chars (chars cs) input) = Suc (e - b)" using be strip by simp
    have same: "b = 0 \<and> e = length input - 1 \<longleftrightarrow> strip_chars (chars cs) input = input"
    proof
      assume "strip_chars (chars cs) input = input"
      then have "length input = Suc (e - b)" using len by simp
      then show "b = 0 \<and> e = length input - 1" using be by arith
    next
      assume "b = 0 \<and> e = length input - 1"
      then show "strip_chars (chars cs) input = input" using strip be by simp
    qed
    have sz: "sz_sub (length input) 1 = length input - 1"
      "sz_add (sz_sub e b) 1 = Suc (e - b)"
      using be assms(1) by (simp_all add: sz_sub_exact sz_add_exact)
    have "b \<noteq> npos" "e \<noteq> npos" "input \<noteq> []" using be assms(1) by (auto simp: npos_def)
    then have "TrimStringT input cs TRIM_ALL =
        Inr (trim_positions (b \<noteq> 0) (e \<noteq> length input - 1), strip_chars (chars cs) input)"
      using * sz strip by (simp add: TrimStringT_def Let_def trims_leading_def trims_trailing_def)
    moreover have "trim_positions (b \<noteq> 0) (e \<noteq> length input - 1) = TRIM_NONE \<longleftrightarrow>
        strip_chars (chars cs) input = input"
      unfolding same [symmetric] by (simp add: trim_positions_def)
    ultimately show ?thesis by blast
  qed
qed

text \<open>
  Both \<open>TrimString\<close>s read only characters in view and remove exactly the characters of the
  set from the requested ends, the wrap-around of \<open>npos + 1\<close> when nothing stays included; the
  string version answers whether it changed anything.
\<close>

theorem trim_string_correct:
  assumes "length input < 2 ^ 63" "wf_piece cs" "wf_piece view"
  shows "TrimString input cs =
           Inr (strip_chars (chars cs) input \<noteq> input, strip_chars (chars cs) input) \<and>
         (\<exists>p. TrimStringPiece view cs positions = Inr p \<and> wf_piece p \<and>
              chars p = strip_at positions (chars cs) (chars view))"
  using TrimStringT_ALL [OF assms(1,2)] TrimStringPiece_strip_at [OF assms(3,2)]
  by (auto simp: TrimString_def)

theorem trim_string_correct_witness:
  "TrimString ''  a b '' (piece_of_string '' '') = Inr (True, ''a b'')"
proof -
  have "length ''  a b '' < 2 ^ 63" "wf_piece (piece_of_string '' '')"
    by simp_all
  from trim_string_correct [OF this this(2), THEN conjunct1]
  show ?thesis by (simp add: strip_chars_def)
qed

section \<open>Case-insensitive comparison\<close>

definition fold_case :: "string \<Rightarrow> string" where
  "fold_case s = map ToLowerASCII s"

text \<open>The lexicographic order on signed characters.\<close>

fun slex :: "string \<Rightarrow> string \<Rightarrow> bool" where
  "slex _ [] = False"
| "slex [] (y # ys) = True"
| "slex (x # xs) (y # ys) = (schar x < schar y \<or> x = y \<and> slex xs ys)"

lemma schar_inject [simp]: "schar a = schar b \<longleftrightarrow> a = b"
  by (metis schar_def signed_word_eqI uchar_inject)

lemma lower_equals_loop_chars:
  assumes "wf_piece x" "wf_piece y" "plen x = plen y" "i \<le> plen x"
  shows "lower_equals_loop x y i = Inr (fold_case (drop i (chars x)) = drop i (chars y))"
  using assms
proof (induction x y i rule: lower_equals_loop.induct)
  case (1 x y i)
  show ?case
  proof (cases "i < plen x")
    case True
    then have "drop i (chars x) = chars x ! i # drop (Suc i) (chars x)"
      and "drop i (chars y) = chars y ! i # drop (Suc i) (chars y)"
      using 1 by (simp_all add: drop_eq_Cons_nth)
    then show ?thesis
      using 1 True by (subst lower_equals_loop.simps) (simp add: fold_case_def)
  next
    case False
    then show ?thesis using 1 by (subst lower_equals_loop.simps) (simp add: fold_case_def)
  qed
qed

lemma compare_ci_loop_chars:
  assumes "wf_piece x" "wf_piece y" "i \<le> plen x" "i \<le> plen y"
  shows "compare_ci_loop x y i =
     (let a = fold_case (drop i (chars x)); b = fold_case (drop i (chars y))
      in Inr (if a = b then 0 else if slex a b then - 1 else 1))"
  using assms
proof (induction x y i rule: compare_ci_loop.induct)
  case (1 x y i)
  show ?case
  proof (cases "i < plen x \<and> i < plen y")
    case True
    then have "drop i (chars x) = chars x ! i # drop (Suc i) (chars x)"
      and "drop i (chars y) = chars y ! i # drop (Suc i) (chars y)"
      using 1 by (simp_all add: drop_eq_Cons_nth)
    then show ?thesis
      using 1 True by (subst compare_ci_loop.simps) (auto simp: fold_case_def Let_def)
  next
    case False
    then have e: "compare_ci_loop x y i =
        Inr (if plen x = plen y then 0 else if plen x < plen y then - 1 else 1)"
      by (subst compare_ci_loop.simps, simp only: False if_False) simp
    from False 1(4,5) consider "i = plen x" "i = plen y" | "i = plen x" "i < plen y"
      | "i < plen x" "i = plen y"
      by linarith
    then show ?thesis
    proof cases
      case 1
      then have "fold_case (drop i (chars x)) = []" "fold_case (drop i (chars y)) = []"
        using 1 \<open>wf_piece x\<close> \<open>wf_piece y\<close> by (simp_all add: fold_case_def)
      then show ?thesis using e 1 by simp
    next
      case 2
      then have "fold_case (drop i (chars x)) = []" "fold_case (drop i (chars y)) \<noteq> []"
        using \<open>wf_piece x\<close> \<open>wf_piece y\<close> 2 by (simp_all add: fold_case_def)
      then show ?thesis using e 2 by (cases "fold_case (drop i (chars y))") simp_all
    next
      case 3
      then have "fold_case (drop i (chars x)) \<noteq> []" "fold_case (drop i (chars y)) = []"
        using \<open>wf_piece x\<close> \<open>wf_piece y\<close> 3 by (simp_all add: fold_case_def)
      then show ?thesis using e 3 by simp
    qed
  qed
qed

lemma list_all2_fold_case:
  "length a = length b \<Longrightarrow> list_all2 CaseInsensitiveCompareASCII a b \<longleftrightarrow> fold_case a = fold_case b"
  by (induction a b rule: list_induct2) (auto simp: CaseInsensitiveCompareASCII_def fold_case_def)

lemma std_equal_chars:
  "wf_piece x \<Longrightarrow> wf_piece y \<Longrightarrow> plen x = plen y \<Longrightarrow>
   std_equal CaseInsensitiveCompareASCII x y = Inr (fold_case (chars x) = fold_case (chars y))"
  by (simp add: std_equal_def list_all2_fold_case)

definition case_view :: "CompareCase \<Rightarrow> string \<Rightarrow> string" where
  "case_view k s = (case k of SENSITIVE \<Rightarrow> s | INSENSITIVE_ASCII \<Rightarrow> fold_case s)"

lemma StartsWith_chars:
  assumes "wf_piece x" "wf_piece s"
  shows "StartsWith x s k =
           Inr (plen s \<le> plen x \<and> case_view k (take (plen s) (chars x)) = case_view k (chars s))"
  using assms wf_piece_substr [of x 0 "plen s"] length_chars [of "piece_substr x 0 (plen s)"]
  by (cases k) (auto simp: StartsWith_def case_view_def piece_eq_chars std_equal_chars)

lemma EndsWith_chars:
  assumes "wf_piece x" "wf_piece s"
  shows "EndsWith x s k =
           Inr (plen s \<le> plen x \<and>
                case_view k (drop (plen x - plen s) (chars x)) = case_view k (chars s))"
  using assms wf_piece_substr [of x "plen x - plen s" "plen s"] plen_bound [OF assms(1)]
    length_chars [of "piece_substr x (plen x - plen s) (plen s)"]
  by (cases k) (auto simp: EndsWith_def case_view_def piece_eq_chars std_equal_chars sz_sub_exact)

text \<open>
  The prefix and suffix tests and the case-insensitive comparisons read only characters in
  view and decide what they name, with the ASCII letters folded: \<open>LowerCaseEqualsASCII\<close> folds its
  first argument only, and \<open>CompareCaseInsensitiveASCII\<close> is the lexicographic order of the folded
  strings on signed characters.
\<close>

theorem ascii_comparisons_correct:
  assumes "wf_piece x" "wf_piece s"
  shows "StartsWith x s k =
           Inr (\<exists>t. case_view k (chars x) = case_view k (chars s) @ t) \<and>
         EndsWith x s k =
           Inr (\<exists>t. case_view k (chars x) = t @ case_view k (chars s)) \<and>
         LowerCaseEqualsASCII x s = Inr (fold_case (chars x) = chars s) \<and>
         CompareCaseInsensitiveASCII x s =
           Inr (if fold_case (chars x) = fold_case (chars s) then 0
                else if slex (fold_case (chars x)) (fold_case (chars s)) then - 1 else 1)"
proof -
  have len: "length (case_view k xs) = length xs" for xs
    by (simp add: case_view_def fold_case_def split: CompareCase.split)
  have td: "take n (case_view k xs) = case_view k (take n xs)"
    "drop n (case_view k xs) = case_view k (drop n xs)" for n xs
    by (simp_all add: case_view_def fold_case_def take_map drop_map split: CompareCase.split)
  have "plen s \<le> plen x \<and> case_view k (take (plen s) (chars x)) = case_view k (chars s) \<longleftrightarrow>
      (\<exists>t. case_view k (chars x) = case_view k (chars s) @ t)" (is "?l \<longleftrightarrow> ?r")
  proof
    assume ?l
    then show ?r using td by (metis append_take_drop_id)
  next
    assume ?r
    then obtain t where t: "case_view k (chars x) = case_view k (chars s) @ t" by blast
    from arg_cong [OF t, of length] arg_cong [OF t, of "take (plen s)"]
    show ?l using assms len [of "chars s"] len [of "chars x"] by (simp add: td [symmetric])
  qed
  moreover have "plen s \<le> plen x \<and>
      case_view k (drop (plen x - plen s) (chars x)) = case_view k (chars s) \<longleftrightarrow>
      (\<exists>t. case_view k (chars x) = t @ case_view k (chars s))" (is "?l \<longleftrightarrow> ?r")
  proof
    assume ?l
    then show ?r using td by (metis append_take_drop_id)
  next
    assume ?r
    then obtain t where t: "case_view k (chars x) = t @ case_view k (chars s)" by blast
    from arg_cong [OF t, of length]
    have "length t = plen x - plen s" "plen s \<le> plen x"
      using assms len [of "chars s"] len [of "chars x"] by simp_all
    then show ?l using arg_cong [OF t, of "drop (plen x - plen s)"] by (simp add: td [symmetric])
  qed
  moreover have "LowerCaseEqualsASCII x s = Inr (fold_case (chars x) = chars s)"
  proof (cases "plen x = plen s")
    case True
    then show ?thesis
      using lower_equals_loop_chars [OF assms, of 0] by (simp add: LowerCaseEqualsASCII_def)
  next
    case False
    then have "length (fold_case (chars x)) \<noteq> length (chars s)"
      using assms by (simp add: fold_case_def)
    then show ?thesis using False by (auto simp: LowerCaseEqualsASCII_def)
  qed
  ultimately show ?thesis
    using assms StartsWith_chars [OF assms] EndsWith_chars [OF assms]
      compare_ci_loop_chars [OF assms, of 0]
    by (simp add: CompareCaseInsensitiveASCII_def Let_def)
qed

theorem ascii_comparisons_correct_witness:
  "StartsWith (piece_of_string ''Content-Length'') (piece_of_string ''CONTENT'')
     INSENSITIVE_ASCII = Inr True"
proof -
  have "wf_piece (piece_of_string ''Content-Length'')" "wf_piece (piece_of_string ''CONTENT'')"
    by simp_all
  then have "StartsWith (piece_of_string ''Content-Length'') (piece_of_string ''CONTENT'')
      INSENSITIVE_ASCII = Inr (\<exists>t. case_view INSENSITIVE_ASCII ''Content-Length'' =
        case_view INSENSITIVE_ASCII ''CONTENT'' @ t)"
    using ascii_comparisons_correct [THEN conjunct1] by (metis chars_piece_of_string)
  moreover have "case_view INSENSITIVE_ASCII ''Content-Length'' =
      case_view INSENSITIVE_ASCII ''CONTENT'' @ ''-length''"
    by code_simp
  ultimately show ?thesis by auto
qed

end
