(* ===== verification/FilePath.thy ===== *)
theory FilePath
  imports Prelude Ascii StringPiece StringUtil
begin

text \<open>
  \<open>base/file_path.{h,cc}\<close>: POSIX paths.  A \<open>FilePath\<close> has one field, the string, so a path is its
  string; the constructor cuts it at the first NUL.  First the operations, then the structure of a
  path (\<open>segments\<close> and \<open>root_of\<close>) and the theorems that say what \<open>DirName\<close>, \<open>GetComponents\<close>,
  \<open>Append\<close> and the extension operations do to it.
\<close>

section \<open>The operations\<close>

type_synonym file_path = string

definition kSeparators :: string where "kSeparators = ''/''"
definition kCurrentDirectory :: string where "kCurrentDirectory = ''.''"
definition kParentDirectory :: string where "kParentDirectory = ''..''"
definition kExtensionSeparator :: char where "kExtensionSeparator = CHR ''.''"
definition kCommonDoubleExtensions :: "string list" where
  "kCommonDoubleExtensions = [''gz'', ''z'', ''bz2'']"

text \<open>\<open>std::string::rfind\<close> of a character and \<open>find_last_of\<close> a set, from a position down.\<close>

definition std_rfind :: "string \<Rightarrow> char \<Rightarrow> size_t \<Rightarrow> size_t" where
  "std_rfind s c pos = last_pos (\<lambda>x. x = c) s pos"

definition std_find_last_of :: "string \<Rightarrow> string \<Rightarrow> size_t \<Rightarrow> size_t" where
  "std_find_last_of s cs pos = last_pos (\<lambda>x. x \<in> set cs) s pos"

definition IsSeparator :: "char \<Rightarrow> bool" where
  "IsSeparator c \<longleftrightarrow> c \<in> set kSeparators"

definition FindDriveLetter :: "string \<Rightarrow> size_t" where
  "FindDriveLetter path = npos"

definition IsPathAbsolute :: "string \<Rightarrow> bool" where
  "IsPathAbsolute path \<longleftrightarrow> length path > 0 \<and> IsSeparator (path ! 0)"

definition AreAllSeparators :: "string \<Rightarrow> bool" where
  "AreAllSeparators input = list_all IsSeparator input"

definition ExtensionSeparatorPosition :: "string \<Rightarrow> size_t" where
  "ExtensionSeparatorPosition path =
     (if path = kCurrentDirectory \<or> path = kParentDirectory then npos
      else let last_dot = std_rfind path kExtensionSeparator npos in
        if last_dot = npos \<or> last_dot = 0 then last_dot
        else let extension = drop (last_dot + 1) path;
                 is_common_double_extension =
                   list_ex (\<lambda>e. LowerCaseEqualsASCII (piece_of_string extension)
                                  (piece_of_string e) = Inr True) kCommonDoubleExtensions in
          if \<not> is_common_double_extension then last_dot
          else let penultimate_dot = std_rfind path kExtensionSeparator (last_dot - 1);
                   last_separator = std_find_last_of path kSeparators (last_dot - 1) in
            if penultimate_dot \<noteq> npos \<and>
               (last_separator = npos \<or> penultimate_dot > last_separator) \<and>
               last_dot - penultimate_dot \<le> 5 \<and> last_dot - penultimate_dot > 1
            then penultimate_dot else last_dot)"

text \<open>The constructor from a string piece: everything before the first NUL.\<close>

definition mk_path :: "string \<Rightarrow> file_path" where
  "mk_path path = takeWhile (\<lambda>c. c \<noteq> CHR 0x00) path"

definition path_less :: "file_path \<Rightarrow> file_path \<Rightarrow> bool" where
  "path_less p q = ulex p q"

function strip_loop :: "size_t \<Rightarrow> size_t \<Rightarrow> size_t \<Rightarrow> string \<Rightarrow> string" where
  "strip_loop start pos last_stripped path =
     (if pos > start \<and> IsSeparator (path ! (pos - 1)) then
        if pos \<noteq> start + 1 \<or> last_stripped = start + 2 \<or> \<not> IsSeparator (path ! (start - 1))
        then strip_loop start (pos - 1) pos (std_resize path (pos - 1))
        else strip_loop start (pos - 1) last_stripped path
      else path)"
  by pat_completeness auto
termination by (relation "measure (\<lambda>(start, pos, l, p). pos)") auto

declare strip_loop.simps [simp del]

definition StripTrailingSeparatorsInternal :: "string \<Rightarrow> string" where
  "StripTrailingSeparatorsInternal path =
     strip_loop (sz_add (FindDriveLetter path) 2) (length path) npos path"

definition StripTrailingSeparators :: "file_path \<Rightarrow> file_path" where
  "StripTrailingSeparators path = StripTrailingSeparatorsInternal (mk_path path)"

definition DirName :: "file_path \<Rightarrow> file_path" where
  "DirName path =
     (let new_path = StripTrailingSeparatorsInternal (mk_path path);
          letter = FindDriveLetter new_path;
          last_separator = std_find_last_of new_path kSeparators npos;
          new_path =
            (if last_separator = npos then std_resize new_path (sz_add letter 1)
             else if last_separator = sz_add letter 1 then std_resize new_path (sz_add letter 2)
             else if last_separator = sz_add letter 2 \<and> IsSeparator (new_path ! sz_add letter 1)
               then std_resize new_path (sz_add letter 3)
             else if last_separator \<noteq> 0 then std_resize new_path last_separator
             else new_path);
          new_path = StripTrailingSeparatorsInternal new_path
      in if length new_path = 0 then kCurrentDirectory else new_path)"

definition BaseName :: "file_path \<Rightarrow> file_path" where
  "BaseName path =
     (let new_path = StripTrailingSeparatorsInternal (mk_path path);
          letter = FindDriveLetter new_path;
          new_path = (if letter \<noteq> npos then drop (letter + 1) new_path else new_path);
          last_separator = std_find_last_of new_path kSeparators npos
      in if last_separator \<noteq> npos \<and> last_separator < sz_sub (length new_path) 1
         then drop (last_separator + 1) new_path else new_path)"

definition Extension :: "file_path \<Rightarrow> string" where
  "Extension path =
     (let base = BaseName path; dot = ExtensionSeparatorPosition base
      in if dot = npos then [] else drop dot base)"

definition RemoveExtension :: "file_path \<Rightarrow> file_path" where
  "RemoveExtension path =
     (if Extension path = [] then path
      else let dot = ExtensionSeparatorPosition path
           in if dot = npos then path else mk_path (take dot path))"

definition InsertBeforeExtension :: "file_path \<Rightarrow> string \<Rightarrow> file_path" where
  "InsertBeforeExtension path suffix =
     (if suffix = [] then mk_path path
      else if path = [] then []
      else let base = BaseName path in
        if base = [] then []
        else if last base = kExtensionSeparator \<and>
                (base = kCurrentDirectory \<or> base = kParentDirectory) then []
        else mk_path (RemoveExtension path @ suffix @ Extension path))"

definition InsertBeforeExtensionASCII :: "file_path \<Rightarrow> string_piece \<Rightarrow> file_path res" where
  "InsertBeforeExtensionASCII path suffix =
     bind_res (as_string suffix) (\<lambda>s. Inr (InsertBeforeExtension path s))"

definition ReplaceExtension :: "file_path \<Rightarrow> string \<Rightarrow> file_path" where
  "ReplaceExtension path extension =
     (if path = [] then []
      else let base = BaseName path in
        if base = [] then []
        else if last base = kExtensionSeparator \<and>
                (base = kCurrentDirectory \<or> base = kParentDirectory) then []
        else let no_ext = RemoveExtension path in
          if extension = [] \<or> extension = [kExtensionSeparator] then no_ext
          else let str = (if extension ! 0 \<noteq> kExtensionSeparator
                          then no_ext @ [kExtensionSeparator] else no_ext)
               in mk_path (str @ extension))"

text \<open>\<open>strcasecmp\<close> of the two C strings, by its sign.\<close>

fun strcasecmp :: "string \<Rightarrow> string \<Rightarrow> int" where
  "strcasecmp [] [] = 0"
| "strcasecmp [] (b # bs) = - 1"
| "strcasecmp (a # as) [] = 1"
| "strcasecmp (a # as) (b # bs) =
     (if ascii_tolower (uchar a) < ascii_tolower (uchar b) then - 1
      else if ascii_tolower (uchar a) > ascii_tolower (uchar b) then 1
      else strcasecmp as bs)"

definition CompareIgnoreCase :: "string \<Rightarrow> string \<Rightarrow> int" where
  "CompareIgnoreCase string1 string2 =
     (let comparison = strcasecmp (mk_path string1) (mk_path string2)
      in if comparison < 0 then - 1 else if comparison > 0 then 1 else 0)"

definition CompareEqualIgnoreCase :: "string \<Rightarrow> string \<Rightarrow> bool" where
  "CompareEqualIgnoreCase s1 s2 \<longleftrightarrow> CompareIgnoreCase s1 s2 = 0"

definition CompareLessIgnoreCase :: "string \<Rightarrow> string \<Rightarrow> bool" where
  "CompareLessIgnoreCase s1 s2 \<longleftrightarrow> CompareIgnoreCase s1 s2 < 0"

definition MatchesExtension :: "file_path \<Rightarrow> string \<Rightarrow> bool res" where
  "MatchesExtension path extension =
     bind_res (check (extension = [] \<or> extension ! 0 = kExtensionSeparator)) (\<lambda>_.
       let current_extension = Extension path
       in Inr (length current_extension = length extension \<and>
               CompareEqualIgnoreCase extension current_extension))"

definition Append :: "file_path \<Rightarrow> string \<Rightarrow> file_path res" where
  "Append path component =
     (let appended = takeWhile (\<lambda>c. c \<noteq> CHR 0x00) component
      in bind_res (check (\<not> IsPathAbsolute appended)) (\<lambda>_.
         if path = kCurrentDirectory then Inr (mk_path appended)
         else let new_path = StripTrailingSeparatorsInternal (mk_path path);
                  new_path =
                    (if appended \<noteq> [] \<and> new_path \<noteq> [] \<and> \<not> IsSeparator (last new_path) \<and>
                        sz_add (FindDriveLetter new_path) 1 \<noteq> length new_path
                     then new_path @ [kSeparators ! 0] else new_path)
              in Inr (new_path @ appended)))"

definition IsAbsolute :: "file_path \<Rightarrow> bool" where
  "IsAbsolute path = IsPathAbsolute path"

section \<open>\<open>GetComponents\<close> and what it terminates by\<close>

lemma std_resize_take: "n \<le> length s \<Longrightarrow> std_resize s n = take n s"
  by (simp add: std_resize_def)

lemma strip_loop_stop:
  "\<not> (pos > start \<and> IsSeparator (p ! (pos - 1))) \<Longrightarrow> strip_loop start pos l p = p"
  by (subst strip_loop.simps) (simp only: if_False)

lemma strip_loop_cut:
  "pos > start \<and> IsSeparator (p ! (pos - 1)) \<Longrightarrow>
   pos \<noteq> start + 1 \<or> l = start + 2 \<or> \<not> IsSeparator (p ! (start - 1)) \<Longrightarrow>
   strip_loop start pos l p = strip_loop start (pos - 1) pos (std_resize p (pos - 1))"
  by (subst strip_loop.simps) (simp only: if_True simp_thms)

lemma strip_loop_keep:
  "pos > start \<and> IsSeparator (p ! (pos - 1)) \<Longrightarrow>
   \<not> (pos \<noteq> start + 1 \<or> l = start + 2 \<or> \<not> IsSeparator (p ! (start - 1))) \<Longrightarrow>
   strip_loop start pos l p = strip_loop start (pos - 1) l p"
  by (subst strip_loop.simps) (simp only: if_True if_False simp_thms)

lemma strip_loop_take: "pos \<le> length p \<Longrightarrow> \<exists>n. strip_loop start pos l p = take n p"
proof (induction start pos l p rule: strip_loop.induct)
  case (1 start pos l p)
  note IH = 1
  show ?case
  proof (cases "pos > start \<and> IsSeparator (p ! (pos - 1))")
    case False
    then have "strip_loop start pos l p = p" by (rule strip_loop_stop)
    then show ?thesis by (intro exI [of _ "length p"]) simp
  next
    case outer: True
    show ?thesis
    proof (cases "pos \<noteq> start + 1 \<or> l = start + 2 \<or> \<not> IsSeparator (p ! (start - 1))")
      case True
      have "strip_loop start pos l p = strip_loop start (pos - 1) pos (std_resize p (pos - 1))"
        using outer True by (rule strip_loop_cut)
      moreover have "pos - 1 \<le> length (std_resize p (pos - 1))" by (simp add: std_resize_def)
      ultimately show ?thesis
        using IH(1) [OF outer True] IH(3) by (auto simp: std_resize_take)
    next
      case False
      have "strip_loop start pos l p = strip_loop start (pos - 1) l p"
        using outer False by (rule strip_loop_keep)
      then show ?thesis using IH(2) [OF outer False] IH(3) by simp
    qed
  qed
qed

lemma strip_take: "\<exists>n. StripTrailingSeparatorsInternal p = take n p"
  unfolding StripTrailingSeparatorsInternal_def by (rule strip_loop_take) simp

lemma last_pos_bound: "last_pos P s i \<noteq> npos \<Longrightarrow> last_pos P s i < length s"
  using last_pos_greatest [of i s P] by (auto simp: is_greatest_below_def)

lemma FindDriveLetter_sums [simp]:
  "sz_add (FindDriveLetter p) 1 = 0" "sz_add (FindDriveLetter p) (Suc 0) = 0"
  "sz_add (FindDriveLetter p) 2 = 1" "sz_add (FindDriveLetter p) 3 = 2"
  by (simp_all add: FindDriveLetter_def sz_add_npos)

lemma DirName_take: "DirName p = ''.'' \<or> (\<exists>n. DirName p = take n p)"
proof -
  define q where "q = StripTrailingSeparatorsInternal (mk_path p)"
  obtain n where n: "mk_path p = take n p" by (metis mk_path_def takeWhile_eq_take)
  obtain m where "q = take m (mk_path p)" unfolding q_def using strip_take by blast
  then have q: "q = take (min m n) p" using n by simp
  define l where "l = std_find_last_of q kSeparators npos"
  have l: "l \<noteq> npos \<Longrightarrow> l < length q"
    using last_pos_bound by (simp add: l_def std_find_last_of_def)
  define r where "r = (if l = npos then std_resize q 0 else if l = 0 then std_resize q 1
      else if l = 1 \<and> IsSeparator (q ! 0) then std_resize q 2
      else if l \<noteq> 0 then std_resize q l else q)"
  have nq: "l \<noteq> npos \<Longrightarrow> q \<noteq> []" using l by auto
  obtain k where k: "r = take k q"
  proof
    show "r = take (if l = npos then 0 else if l = 0 then 1
          else if l = 1 \<and> IsSeparator (q ! 0) then 2 else if l \<noteq> 0 then l else length q) q"
      using l nq by (cases "l = npos"; cases "l = 0"; cases "l = 1")
        (simp_all add: r_def std_resize_take Suc_le_eq less_imp_le)
  qed
  obtain j where "StripTrailingSeparatorsInternal r = take j r" using strip_take by blast
  then have "StripTrailingSeparatorsInternal r = take (min (min j k) (min m n)) p"
    using k q by (simp add: min.assoc)
  moreover have "DirName p = (if length (StripTrailingSeparatorsInternal r) = 0 then kCurrentDirectory
      else StripTrailingSeparatorsInternal r)"
    by (simp add: DirName_def Let_def q_def [symmetric] l_def [symmetric] r_def)
  ultimately show ?thesis unfolding kCurrentDirectory_def by metis
qed

definition path_rank :: "file_path \<Rightarrow> nat" where
  "path_rank p = (if p = ''.'' then 0 else Suc (length p))"

lemma DirName_nonempty [simp]: "DirName p \<noteq> []"
  by (simp add: DirName_def Let_def kCurrentDirectory_def)

lemma DirName_rank: "DirName p \<noteq> p \<Longrightarrow> path_rank (DirName p) < path_rank p"
proof (cases "DirName p = ''.''")
  case False
  assume ne: "DirName p \<noteq> p"
  obtain n where n: "DirName p = take n p" using False DirName_take [of p] by blast
  then have "n < length p" using ne by (metis not_less take_all)
  moreover have "n \<noteq> 0" using n DirName_nonempty [of p] by (metis take_0)
  ultimately have "p \<noteq> ''.''" "length (DirName p) < length p" using n by auto
  then show ?thesis by (simp add: path_rank_def)
qed (simp add: path_rank_def)

text \<open>The loop leaves the last path it reached and the names it pushed.\<close>

function components_loop :: "file_path \<Rightarrow> string list \<Rightarrow> file_path \<times> string list" where
  "components_loop current ret_val =
     (if current \<noteq> DirName current then
        let base = BaseName current in
        components_loop (DirName current)
          (if \<not> AreAllSeparators base then ret_val @ [base] else ret_val)
      else (current, ret_val))"
  by pat_completeness auto
termination by (relation "measure (\<lambda>(p, r). path_rank p)") (auto intro: DirName_rank)

declare components_loop.simps [simp del]

definition GetComponents :: "file_path \<Rightarrow> string list" where
  "GetComponents path =
     (if path = [] then []
      else let (current, ret_val) = components_loop path []; base = BaseName current;
               ret_val = (if base \<noteq> [] \<and> base \<noteq> kCurrentDirectory
                          then ret_val @ [BaseName current] else ret_val);
               dir = DirName current; letter = FindDriveLetter dir;
               ret_val = (if letter \<noteq> npos then ret_val @ [take (letter + 1) dir] else ret_val)
           in rev ret_val)"

definition ReferencesParent :: "file_path \<Rightarrow> bool" where
  "ReferencesParent path = list_ex (\<lambda>component. component = kParentDirectory) (GetComponents path)"





section \<open>Paths by their segments\<close>

abbreviation sep :: char where "sep \<equiv> CHR ''/''"

lemma IsSeparator_eq [simp]: "IsSeparator c \<longleftrightarrow> c = sep"
  by (simp add: IsSeparator_def kSeparators_def)

definition seps :: "nat \<Rightarrow> string" where
  "seps n = replicate n sep"

lemma seps_simps [simp]:
  "seps 0 = []" "length (seps n) = n" "seps (Suc n) = sep # seps n" "i < n \<Longrightarrow> seps n ! i = sep"
  "seps n = [] \<longleftrightarrow> n = 0" "set (seps n) \<subseteq> {sep}"
  by (auto simp: seps_def)

lemma seps_snoc: "seps (Suc n) = seps n @ [sep]"
  by (simp add: seps_def replicate_append_same)

lemma split_seps: obtains q m where "r = q @ seps m" "q = [] \<or> last q \<noteq> sep"
proof (induction r arbitrary: thesis rule: rev_induct)
  case Nil
  then show ?case using Nil [of "[]" 0] by simp
next
  case (snoc c r)
  show ?case
  proof (cases "c = sep")
    case True
    obtain q m where qm: "r = q @ seps m" "q = [] \<or> last q \<noteq> sep" using snoc.IH by blast
    show ?thesis by (rule snoc.prems [of q "Suc m"]) (use qm True in \<open>simp_all add: seps_snoc del: seps_simps(3)\<close>)
  next
    case False
    then show ?thesis using snoc.prems [of "r @ [c]" 0] by simp
  qed
qed

text \<open>
  A path is all separators, or a directory part, a segment without separators, and separators.
\<close>

lemma path_cases [case_names all_seps segment]:
  obtains n where "p = seps n"
  | q m s n where "p = q @ seps m @ s @ seps n" "s \<noteq> []" "sep \<notin> set s" "q = [] \<or> last q \<noteq> sep"
      "q = [] \<or> 0 < m"
proof -
  obtain p' n where p: "p = p' @ seps n" "p' = [] \<or> last p' \<noteq> sep" by (rule split_seps)
  define s where "s = rev (takeWhile (\<lambda>c. c \<noteq> sep) (rev p'))"
  define r where "r = rev (dropWhile (\<lambda>c. c \<noteq> sep) (rev p'))"
  have p': "p' = r @ s" unfolding r_def s_def by (metis rev_append rev_rev_ident takeWhile_dropWhile_id)
  have s: "sep \<notin> set s" by (auto simp: s_def dest: set_takeWhileD)
  have r: "r = [] \<or> last r = sep"
    using hd_dropWhile [of "\<lambda>c. c \<noteq> sep" "rev p'"] by (auto simp: r_def last_rev)
  show ?thesis
  proof (cases "p' = []")
    case True
    then show ?thesis using that(1) p by simp
  next
    case False
    then have "s \<noteq> []" using p(2) by (cases p' rule: rev_cases) (auto simp: s_def)
    obtain q m where q: "r = q @ seps m" "q = [] \<or> last q \<noteq> sep" by (rule split_seps)
    have "q = [] \<or> 0 < m" using r q by (cases m) auto
    then show ?thesis using that(2) [of q m s n] p(1) p' q s \<open>s \<noteq> []\<close> by simp
  qed
qed

definition wf_path :: "file_path \<Rightarrow> bool" where
  "wf_path p \<longleftrightarrow> CHR 0x00 \<notin> set p \<and> length p < 2 ^ 63"

lemma mk_path_wf [simp]: "CHR 0x00 \<notin> set p \<Longrightarrow> mk_path p = p"
  by (auto simp: mk_path_def)

lemma strip_loop_segment:
  "q \<noteq> [] \<Longrightarrow> last q \<noteq> sep \<Longrightarrow> strip_loop 1 (length q + n) l (q @ seps n) = q"
proof (induction n arbitrary: l)
  case 0
  then have "q ! (length q - 1) \<noteq> sep" by (simp add: last_conv_nth)
  then show ?case by (subst strip_loop_stop) simp_all
next
  case (Suc n)
  let ?p = "q @ seps (Suc n)" let ?pos = "length q + Suc n"
  have "?p ! (?pos - 1) = sep" by (simp add: nth_append seps_snoc del: seps_simps(3))
  moreover have "1 < ?pos" using Suc(2) by (cases q) auto
  moreover have "?pos \<noteq> 2 \<or> ?p ! 0 \<noteq> sep"
    using Suc(2,3) by (cases q) auto
  ultimately have "strip_loop 1 ?pos l ?p = strip_loop 1 (?pos - 1) ?pos (std_resize ?p (?pos - 1))"
    by (intro strip_loop_cut) auto
  also have "std_resize ?p (?pos - 1) = q @ seps n"
    by (simp add: std_resize_def seps_snoc del: seps_simps(3))
  finally show ?case using Suc by simp
qed

text \<open>What stripping leaves of a run of separators: two of them stay, more become one.\<close>

definition stripped_root :: "nat \<Rightarrow> nat" where
  "stripped_root n = (if n \<le> 2 then n else 1)"

lemma strip_loop_seps: "2 < n \<Longrightarrow> strip_loop 1 n l (seps n) = seps 1"
proof (induction n arbitrary: l)
  case 0
  then show ?case by simp
next
  case (Suc n)
  have "strip_loop 1 (Suc n) l (seps (Suc n)) = strip_loop 1 n (Suc n) (std_resize (seps (Suc n)) n)"
    using Suc(2) by (subst strip_loop_cut) (auto simp del: seps_simps(3))
  also have "std_resize (seps (Suc n)) n = seps n"
    by (simp add: std_resize_def seps_snoc del: seps_simps(3))
  also have "strip_loop 1 n (Suc n) (seps n) = seps 1"
  proof (cases "n = 2")
    case True
    have "strip_loop 1 2 3 (seps 2) = strip_loop 1 (2 - 1) 2 (std_resize (seps 2) (2 - 1))"
      by (rule strip_loop_cut) simp_all
    also have "\<dots> = seps 1"
      by (subst strip_loop_stop) (simp_all add: std_resize_def seps_def numeral_2_eq_2)
    finally show ?thesis using True by simp
  next
    case False
    then show ?thesis using Suc by simp
  qed
  finally show ?case .
qed

lemma strip_seps: "StripTrailingSeparatorsInternal (seps n) = seps (stripped_root n)"
proof -
  consider "n \<le> 1" | "n = 2" | "2 < n" by linarith
  then show ?thesis
  proof cases
    case 1
    then show ?thesis
      unfolding StripTrailingSeparatorsInternal_def
      by (subst strip_loop_stop) (simp_all add: stripped_root_def)
  next
    case 2
    have "strip_loop 1 2 npos (seps 2) = strip_loop 1 (2 - 1) npos (seps 2)"
      by (rule strip_loop_keep) (simp_all add: npos_def)
    also have "\<dots> = seps 2" by (rule strip_loop_stop) simp
    finally show ?thesis
      using 2 by (simp add: StripTrailingSeparatorsInternal_def stripped_root_def)
  next
    case 3
    then show ?thesis
      using strip_loop_seps [of n npos]
      by (simp add: StripTrailingSeparatorsInternal_def stripped_root_def)
  qed
qed

lemma strip_segment:
  "q \<noteq> [] \<Longrightarrow> last q \<noteq> sep \<Longrightarrow> StripTrailingSeparatorsInternal (q @ seps n) = q"
  using strip_loop_segment [of q n npos] by (simp add: StripTrailingSeparatorsInternal_def)

lemma last_separator_segment:
  assumes "sep \<notin> set s" "length (r @ s) < 2 ^ 63" "r = [] \<or> last r = sep"
  shows "std_find_last_of (r @ s) kSeparators npos = (if r = [] then npos else length r - 1)"
proof -
  let ?P = "\<lambda>i. (r @ s) ! i \<in> set kSeparators"
  let ?l = "std_find_last_of (r @ s) kSeparators npos"
  have g: "is_greatest_below (length (r @ s)) ?P (std_find_last_of (r @ s) kSeparators npos)"
    using last_pos_greatest [of npos "r @ s" "\<lambda>c. c \<in> set kSeparators"] assms(2)
    by (simp add: std_find_last_of_def min_def npos_def)
  have no: "\<not> ?P i" if "length r \<le> i" "i < length (r @ s)" for i
  proof -
    have "s ! (i - length r) \<in> set s" using that by simp
    then have "s ! (i - length r) \<noteq> sep" using assms(1) by metis
    then show ?thesis using that by (auto simp: kSeparators_def nth_append)
  qed
  show ?thesis
  proof (cases "r = []")
    case True
    then have "\<not> ?P i" if "i < length (r @ s)" for i using no [of i] that by simp
    then show ?thesis using g True unfolding is_greatest_below_def by metis
  next
    case False
    then have "0 < length r" by simp
    then have lt: "length r - 1 < length (r @ s)" unfolding length_append by linarith
    have "?P (length r - 1)"
      using assms(3) False \<open>0 < length r\<close> by (simp add: kSeparators_def nth_append last_conv_nth)
    note yes = this lt
    then have found: "?l < length (r @ s)" "?P ?l" "\<forall>i. ?l < i \<and> i < length (r @ s) \<longrightarrow> \<not> ?P i"
      using g unfolding is_greatest_below_def by blast+
    then have "?l < length r" "\<not> ?l < length r - 1" using no yes not_less by blast+
    then show ?thesis using False by simp
  qed
qed

text \<open>
  The root that is left when the one segment after \<open>m\<close> separators goes: \<open>DirName\<close> keeps two
  separators when it sees two or three of them.
\<close>

definition root_before :: "nat \<Rightarrow> nat" where
  "root_before m = (if m = 0 then 0 else if m = 2 \<or> m = 3 then 2 else 1)"

lemma seps_last: "0 < m \<Longrightarrow> last (q @ seps m) = sep"
  by (cases m) (simp_all add: seps_snoc del: seps_simps(3))

lemma DirName_segment:
  assumes "wf_path p" "p = q @ seps m @ s @ seps n" "s \<noteq> []" "sep \<notin> set s"
    "q = [] \<or> last q \<noteq> sep" "q = [] \<or> 0 < m"
  shows "DirName p = (if q = [] then (if m = 0 then ''.'' else seps (root_before m)) else q)"
    and "BaseName p = s"
proof -
  define r where "r = q @ seps m"
  have ls: "last s \<noteq> sep" using assms(3,4) last_in_set by metis
  have strip: "StripTrailingSeparatorsInternal (mk_path p) = r @ s"
    using strip_segment [of "r @ s" n] assms(1-3) ls by (simp add: wf_path_def r_def)
  have len: "length (r @ s) < 2 ^ 63" using assms(1,2) by (simp add: wf_path_def r_def)
  have r: "r = [] \<or> last r = sep" using assms(6) seps_last [of m q] by (cases m) (auto simp: r_def)
  have "r = [] \<longleftrightarrow> q = [] \<and> m = 0" by (simp add: r_def)
  note l = last_separator_segment [OF assms(4) len r]
  have "length r \<noteq> npos" "length r < npos" using len by (simp_all add: npos_def)
  then have sz: "sz_sub (length (r @ s)) 1 = length r + length s - 1"
    "r \<noteq> [] \<Longrightarrow> length r - 1 < npos"
    using len assms(3) by (auto simp: sz_sub_exact Suc_le_eq)
  have "0 < length s" using assms(3) by simp
  then have "r \<noteq> [] \<Longrightarrow> length r - Suc 0 < length r + length s - Suc 0"
    by (cases r) auto
  then show "BaseName p = s"
    using strip l sz assms(3) r by (cases "r = []")
      (auto simp: BaseName_def Let_def FindDriveLetter_def npos_def)
  show "DirName p = (if q = [] then (if m = 0 then ''.'' else seps (root_before m)) else q)"
  proof (cases "r = []")
    case True
    then have "q = []" "m = 0" by (simp_all add: r_def)
    then show ?thesis
      using strip l strip_seps [of 0] True
      by (simp add: DirName_def Let_def std_resize_def stripped_root_def kCurrentDirectory_def)
  next
    case False
    then have m: "0 < m" using assms(6) by (auto simp: r_def)
    define k where "k = length r - 1"
    have k: "k = length q + m - 1" "k < length (r @ s)" "k \<noteq> npos"
      using False m \<open>length r < npos\<close> by (auto simp: k_def r_def)
    define t where "t = (if k = 0 then std_resize (r @ s) 1
        else if k = 1 \<and> IsSeparator ((r @ s) ! 0) then std_resize (r @ s) 2
        else if k \<noteq> 0 then std_resize (r @ s) k else r @ s)"
    have "std_find_last_of (r @ s) kSeparators npos = k" using l False by (simp add: k_def)
    then have D: "DirName p = (if length (StripTrailingSeparatorsInternal t) = 0 then kCurrentDirectory
        else StripTrailingSeparatorsInternal t)"
      using strip k by (simp add: DirName_def Let_def t_def)
    have "t = (if q = [] then seps (if m = 1 then 1 else if m = 2 then 2 else m - 1)
        else q @ seps (m - 1))"
    proof (cases "q = []")
      case True
      consider "m = 1" | "m = 2" | "2 < m" using m by linarith
      then show ?thesis
        by cases (use True k in \<open>simp_all add: t_def r_def std_resize_take seps_def nth_append numeral_2_eq_2\<close>)
    next
      case q: False
      have "q ! 0 \<noteq> sep" if "k = 1"
        using that q m assms(5) by (cases q; cases m) (auto simp: k(1))
      moreover have "k \<noteq> 0" using q m by (cases q) (auto simp: k(1))
      moreover have "take k (r @ s) = q @ seps (m - 1)"
        using k(1) m by (simp add: r_def seps_def min_def)
      ultimately show ?thesis
        using q k(2) by (auto simp: t_def std_resize_take r_def nth_append)
    qed
    then have "StripTrailingSeparatorsInternal t = (if q = [] then seps (root_before m) else q)"
      using m assms(5) strip_segment [of q "m - 1"]
      by (auto simp: strip_seps root_before_def stripped_root_def)
    then show ?thesis using D m by (auto simp: root_before_def)
  qed
qed

lemma DirName_seps:
  "n < 2 ^ 63 \<Longrightarrow> DirName (seps n) = (if n = 0 then ''.'' else seps (stripped_root n))"
  "n < 2 ^ 63 \<Longrightarrow> BaseName (seps n) = seps (stripped_root n)"
proof -
  assume n: "n < 2 ^ 63"
  have mk: "mk_path (seps n) = seps n" by (rule mk_path_wf) (simp add: seps_def)
  have nlt: "stripped_root n < 2 ^ 63" using n by (simp add: stripped_root_def)
  have "seps (stripped_root n) = [] \<or> last (seps (stripped_root n)) = sep"
    using seps_last [of "stripped_root n" "[]"] by (cases "stripped_root n") auto
  with last_separator_segment [of "[]" "seps (stripped_root n)"] nlt
  have l: "std_find_last_of (seps (stripped_root n)) kSeparators npos =
      (if n = 0 then npos else stripped_root n - 1)"
    by (auto simp: stripped_root_def)
  have c: "n = 0 \<or> stripped_root n = 1 \<or> stripped_root n = 2" by (auto simp: stripped_root_def)
  show "BaseName (seps n) = seps (stripped_root n)"
    using l c by (auto simp: BaseName_def mk strip_seps Let_def FindDriveLetter_def npos_def
        sz_sub_exact stripped_root_def)
  from c show "DirName (seps n) = (if n = 0 then ''.'' else seps (stripped_root n))"
  proof (elim disjE)
    assume "n = 0"
    then show ?thesis
      using l strip_seps [of 0]
      by (simp add: DirName_def mk strip_seps Let_def stripped_root_def std_resize_def kCurrentDirectory_def mk_path_def)
  next
    assume one: "stripped_root n = 1"
    then have "n \<noteq> 0" by (auto simp: stripped_root_def split: if_splits)
    have "std_resize (seps 1) 1 = seps 1" by (simp add: std_resize_def)
    then show ?thesis
      using l one strip_seps [of 1] \<open>n \<noteq> 0\<close>
      by (simp add: DirName_def mk strip_seps Let_def stripped_root_def npos_def)
  next
    assume two: "stripped_root n = 2"
    then have "n \<noteq> 0" by (auto simp: stripped_root_def split: if_splits)
    have "std_resize (seps 2) 2 = seps 2" by (simp add: std_resize_def)
    then show ?thesis
      using l two strip_seps [of 2] \<open>n \<noteq> 0\<close>
      by (simp add: DirName_def mk strip_seps Let_def stripped_root_def npos_def)
  qed
qed

text \<open>
  C22: for a path whose last name is \<open>s\<close> behind the directory part \<open>q\<close> and any runs of separators,
  \<open>BaseName\<close> is \<open>s\<close> and \<open>DirName\<close> is \<open>q\<close>, \<open>.\<close> when there is no directory part, and the root
  otherwise; but after three separators the root becomes two of them, where it is one after four.
\<close>

theorem dir_base_names:
  assumes "wf_path p" "p = q @ seps m @ s @ seps n" "s \<noteq> []" "sep \<notin> set s"
    "q = [] \<or> last q \<noteq> sep" "q = [] \<or> 0 < m"
  shows "BaseName p = s \<and>
         DirName p = (if q \<noteq> [] then q else if m = 0 then ''.''
                      else if m = 2 \<or> m = 3 then ''//'' else ''/'')"
  using DirName_segment [OF assms] by (auto simp: root_before_def seps_def numeral_2_eq_2)

theorem dir_base_names_witness: "DirName ''///etc/'' = ''//'' \<and> BaseName ''///etc/'' = ''etc''"
proof -
  have "wf_path ''///etc/''" "''///etc/'' = [] @ seps 3 @ ''etc'' @ seps 1"
    by (simp_all add: wf_path_def seps_def numeral_3_eq_3)
  then show ?thesis using dir_base_names [of "''///etc/''" "[]" 3 "''etc''" 1] by simp
qed

section \<open>Components\<close>

lemma segment_shorter:
  "dropWhile (\<lambda>c. c = sep) p = c # r \<Longrightarrow> length (dropWhile (\<lambda>c. c \<noteq> sep) (c # r)) < length p"
proof -
  assume d: "dropWhile (\<lambda>c. c = sep) p = c # r"
  then have "c \<noteq> sep" by (simp add: dropWhile_eq_Cons_conv)
  moreover have "length (c # r) \<le> length p" using d length_dropWhile_le by metis
  ultimately show ?thesis using length_dropWhile_le [of "\<lambda>c. c \<noteq> sep" r] by simp
qed

function segments :: "string \<Rightarrow> string list" where
  "segments p = (case dropWhile (\<lambda>c. c = sep) p of
      [] \<Rightarrow> []
    | c # r \<Rightarrow> takeWhile (\<lambda>c. c \<noteq> sep) (c # r) # segments (dropWhile (\<lambda>c. c \<noteq> sep) (c # r)))"
  by pat_completeness auto
termination
  by (relation "measure length") (simp_all add: segment_shorter del: dropWhile.simps)

declare segments.simps [simp del]

lemma segments_Nil [simp]: "segments [] = []"
  by (simp add: segments.simps)

lemma segments_sep [simp]: "segments (sep # p) = segments p"
  unfolding segments.simps [of "sep # p"] segments.simps [of p] by simp

lemma segments_seps [simp]: "segments (seps n @ p) = segments p" "segments (seps n) = []"
  by (induction n) simp_all

lemma segments_name:
  "s \<noteq> [] \<Longrightarrow> sep \<notin> set s \<Longrightarrow> p = [] \<or> hd p = sep \<Longrightarrow> segments (s @ p) = s # segments p"
proof -
  assume s: "s \<noteq> []" "sep \<notin> set s" and p: "p = [] \<or> hd p = sep"
  have "dropWhile (\<lambda>c. c = sep) (s @ p) = s @ p" using s by (cases s) auto
  moreover have "takeWhile (\<lambda>c. c \<noteq> sep) (s @ p) = s" "dropWhile (\<lambda>c. c \<noteq> sep) (s @ p) = p"
    using s p by (cases p; auto simp: takeWhile_append2 dropWhile_append2 takeWhile_tail dropWhile_append3)+
  moreover have "segments (s @ p) =
      takeWhile (\<lambda>c. c \<noteq> sep) (s @ p) # segments (dropWhile (\<lambda>c. c \<noteq> sep) (s @ p))"
    if "dropWhile (\<lambda>c. c = sep) (s @ p) = s @ p"
    by (subst segments.simps, subst that) (use s in \<open>simp split: list.split\<close>)
  ultimately show ?thesis by metis
qed

lemma takeWhile_seps: "takeWhile (\<lambda>c. c = sep) p = seps (length (takeWhile (\<lambda>c. c = sep) p))"
  by (induction p) auto

lemma segments_append_sep: "segments (p @ sep # q) = segments p @ segments q"
proof (induction p rule: segments.induct)
  case (1 p)
  obtain d where p: "p = seps (length (takeWhile (\<lambda>c. c = sep) p)) @ d" "d = dropWhile (\<lambda>c. c = sep) p"
    by (metis takeWhile_dropWhile_id takeWhile_seps)
  then have e: "segments (p @ x) = segments (d @ x)" for x by (metis append.assoc segments_seps(1))
  show ?case
  proof (cases d)
    case Nil
    then show ?thesis using e [of "sep # q"] e [of "[]"] by simp
  next
    case (Cons c r)
    then have "c \<noteq> sep" using p(2) by (simp add: dropWhile_eq_Cons_conv)
    define s where "s = takeWhile (\<lambda>c. c \<noteq> sep) d"
    define t where "t = dropWhile (\<lambda>c. c \<noteq> sep) d"
    have st: "d = s @ t" "s \<noteq> []" "sep \<notin> set s" "t = [] \<or> hd t = sep"
      using Cons \<open>c \<noteq> sep\<close> hd_dropWhile [of "\<lambda>c. c \<noteq> sep" d]
      by (auto simp: s_def t_def dest: set_takeWhileD)
    have "segments (t @ sep # q) = segments t @ segments q"
      using 1 [of c r] Cons p(2) by (simp add: t_def)
    moreover have "segments (d @ sep # q) = s # segments (t @ sep # q)"
      using st segments_name [of s "t @ sep # q"] by (cases t) auto
    moreover have "segments d = s # segments t" using st segments_name [of s t] by simp
    ultimately show ?thesis using e [of "sep # q"] e [of "[]"] by simp
  qed
qed

lemma segments_segment:
  assumes "s \<noteq> []" "sep \<notin> set s" "q = [] \<or> 0 < m"
  shows "segments (q @ seps m @ s @ seps n) = segments q @ [s]"
proof -
  have "segments (s @ seps n) = [s]" using assms segments_name [of s "seps n"] by (cases n) auto
  moreover have "segments (q @ seps m @ s @ seps n) = segments q @ segments (seps (m - 1) @ s @ seps n)"
    if "0 < m"
    using that segments_append_sep [of q "seps (m - 1) @ s @ seps n"] by (cases m) auto
  moreover have "segments (seps m @ s @ seps n) = segments (s @ seps n)" by simp
  ultimately show ?thesis using assms(3) by (cases "q = []") auto
qed

definition leading_seps :: "string \<Rightarrow> nat" where
  "leading_seps p = length (takeWhile (\<lambda>c. c = sep) p)"

definition root_of :: "string \<Rightarrow> string list" where
  "root_of p =
     (let k = leading_seps p
      in if k = 0 then []
         else if segments p = [] then [seps (stripped_root k)] else [seps (root_before k)])"

text \<open>A relative path loses a leading \<open>.\<close> name, unless the dot is followed by separators only.\<close>

definition relative_names :: "string \<Rightarrow> string list" where
  "relative_names p =
     (if leading_seps p = 0 \<and> segments p \<noteq> [] \<and> hd (segments p) = ''.'' \<and>
         (length (segments p) > 1 \<or> p = ''.'')
      then tl (segments p) else segments p)"

definition path_names :: "string \<Rightarrow> string list" where
  "path_names p = root_of p @ relative_names p"

lemma leading_seps_simps [simp]:
  "leading_seps [] = 0" "leading_seps (sep # p) = Suc (leading_seps p)"
  "c \<noteq> sep \<Longrightarrow> leading_seps (c # p) = 0"
  by (simp_all add: leading_seps_def)

lemma leading_seps_append [simp]: "leading_seps (seps m @ p) = m + leading_seps p"
  by (induction m) simp_all

lemma leading_seps_name: "s \<noteq> [] \<Longrightarrow> hd s \<noteq> sep \<Longrightarrow> leading_seps (s @ p) = 0"
  by (cases s) simp_all

lemma leading_seps_pre: "q \<noteq> [] \<Longrightarrow> last q \<noteq> sep \<Longrightarrow> leading_seps (q @ x) = leading_seps q"
proof (induction q)
  case (Cons c q)
  then show ?case by (cases "c = sep"; cases "q = []") auto
qed simp

lemma segments_nonempty: "q \<noteq> [] \<Longrightarrow> last q \<noteq> sep \<Longrightarrow> segments q \<noteq> []"
proof (cases q rule: path_cases)
  case (all_seps n)
  assume "q \<noteq> []" "last q \<noteq> sep"
  then show ?thesis using all_seps seps_last [of n "[]"] by (cases n) auto
next
  case (segment q' m' s' n')
  then show ?thesis using segments_segment by simp
qed

lemma segments_single:
  assumes "segments q = [x]" "leading_seps q = 0" "last q \<noteq> sep"
  shows "q = x"
proof (cases q rule: path_cases)
  case (all_seps n)
  then show ?thesis using assms(1) by simp
next
  case (segment q' m s n)
  then have "segments q = segments q' @ [s]" using segments_segment by simp
  then have "segments q' = []" "s = x" using assms(1) by simp_all
  then have "q' = []" using segments_nonempty segment(4) by blast
  moreover have "n = 0" using assms(3) segment(1) seps_last [of n "q' @ seps m @ s"] by (cases n) auto
  moreover have "m = 0" using assms(2) segment(1) \<open>q' = []\<close> by simp
  ultimately show ?thesis using segment(1) \<open>s = x\<close> by simp
qed

lemma segments_dot: "segments ''.'' = [''.'']"
  using segments_name [of "''.''" "[]"] by simp

lemma path_names_segment:
  assumes "p = q @ seps m @ s @ seps n" "s \<noteq> []" "sep \<notin> set s" "q \<noteq> []" "last q \<noteq> sep" "0 < m"
  shows "path_names p = path_names q @ [s]"
proof -
  have "segments p = segments q @ [s]" using assms segments_segment by simp
  moreover have "leading_seps p = leading_seps q" using assms leading_seps_pre by simp
  moreover have "segments q \<noteq> []" by (rule segments_nonempty) (use assms in auto)
  moreover have "q = ''.'' \<longleftrightarrow> segments q = [''.''] \<and> leading_seps q = 0"
    using segments_single [of q "''.''"] assms(5) segments_dot by auto
  ultimately show ?thesis
    by (cases "segments q") (auto simp: path_names_def root_of_def relative_names_def Let_def)
qed

lemma AreAllSeparators_name: "s \<noteq> [] \<Longrightarrow> sep \<notin> set s \<Longrightarrow> \<not> AreAllSeparators s"
  by (cases s) (auto simp: AreAllSeparators_def)

lemma AreAllSeparators_seps [simp]: "AreAllSeparators (seps n)"
  by (auto simp: AreAllSeparators_def seps_def list_all_iff)

definition finish_components :: "file_path \<times> string list \<Rightarrow> string list" where
  "finish_components = (\<lambda>(current, r).
     r @ (if BaseName current \<noteq> [] \<and> BaseName current \<noteq> kCurrentDirectory
          then [BaseName current] else []))"

text \<open>The loop stays at a path that is its own directory, and else takes its base name and goes up.\<close>

lemma components_stay:
  "DirName p = p \<Longrightarrow> finish_components (components_loop p r) =
     r @ (if BaseName p \<noteq> [] \<and> BaseName p \<noteq> kCurrentDirectory then [BaseName p] else [])"
  using components_loop.simps [of p r] by (simp add: finish_components_def)

lemma components_up:
  "DirName p \<noteq> p \<Longrightarrow> components_loop p r =
     components_loop (DirName p) (if AreAllSeparators (BaseName p) then r else r @ [BaseName p])"
  using components_loop.simps [of p r] by simp

lemma path_names_seps: "0 < n \<Longrightarrow> path_names (seps n) = [seps (stripped_root n)]"
  using leading_seps_append [of n "[]"] by (simp add: path_names_def root_of_def relative_names_def)

lemma components_seps:
  assumes "0 < n" "n < 2 ^ 63"
  shows "finish_components (components_loop (seps n) r) = r @ rev (path_names (seps n))"
proof -
  have small: "finish_components (components_loop (seps k) r) = r @ [seps k]" if "0 < k" "k \<le> 2" for k
  proof -
    have "DirName (seps k) = seps k" "BaseName (seps k) = seps k"
      using that DirName_seps [of k] by (simp_all add: stripped_root_def)
    moreover have "seps k \<noteq> kCurrentDirectory" "seps k \<noteq> []" using that by (cases k; auto simp: kCurrentDirectory_def)+
    ultimately show ?thesis by (simp add: components_stay)
  qed
  show ?thesis
  proof (cases "n \<le> 2")
    case True
    then show ?thesis using small assms by (simp add: path_names_seps stripped_root_def)
  next
    case False
    then have d: "DirName (seps n) = seps 1" "BaseName (seps n) = seps 1"
      using DirName_seps [OF assms(2)] by (simp_all add: stripped_root_def)
    moreover have "seps 1 \<noteq> seps n" using False by (metis One_nat_def one_le_numeral seps_simps(2))
    ultimately have "components_loop (seps n) r = components_loop (seps 1) r"
      using components_up [of "seps n" r] by (simp del: seps_simps(3) One_nat_def)
    then show ?thesis using small [of 1] False assms by (simp add: path_names_seps stripped_root_def)
  qed
qed

text \<open>A name behind nothing but separators, or behind nothing.\<close>

lemma components_top:
  assumes "wf_path p" "p = seps m @ s @ seps n" "s \<noteq> []" "sep \<notin> set s" "0 < m"
  shows "finish_components (components_loop p r) = r @ rev (path_names p)"
proof -
  let ?k = "root_before m"
  have k: "?k = 1 \<or> ?k = 2" "?k \<le> m" using assms(5) by (auto simp: root_before_def)
  have d: "DirName p = seps ?k" "BaseName p = s"
    using DirName_segment [OF assms(1), of "[]" m s n] assms by simp_all
  have "length p = m + length s + n" "0 < length s" using assms by simp_all
  then have "seps ?k \<noteq> p" using k(2) by (metis (no_types, lifting) add.commute add_strict_increasing le_add1 leD le_trans seps_simps(2))
  then have "components_loop p r = components_loop (seps ?k) (r @ [s])"
    using components_up [of p r] d AreAllSeparators_name [OF assms(3,4)] by simp
  moreover have "path_names p = [seps ?k, s]"
    using assms segments_segment [of s "[]" m n] leading_seps_name [of s "seps n"]
    by (cases s) (auto simp: path_names_def root_of_def relative_names_def)
  moreover have "path_names (seps ?k) = [seps ?k]" using k path_names_seps [of ?k] by (auto simp: stripped_root_def)
  moreover have "0 < ?k" "?k < 2 ^ 63" using k(1) by auto
  ultimately show ?thesis using components_seps [of ?k "r @ [s]"] by simp
qed

lemma components_name:
  assumes "wf_path p" "p = s @ seps n" "s \<noteq> []" "sep \<notin> set s"
  shows "finish_components (components_loop p r) = r @ rev (path_names p)"
proof -
  have segs: "segments p = [s]" "leading_seps p = 0"
    using assms segments_segment [of s "[]" 0 n] leading_seps_name [of s "seps n"] by (cases s; auto)+
  have d: "DirName p = ''.''" "BaseName p = s" using DirName_segment [OF assms(1), of "[]" 0 s n] assms by simp_all
  have dot: "DirName ''.'' = ''.''" "BaseName ''.'' = ''.''"
    using DirName_segment [of "''.''" "[]" 0 "''.''" 0] by (simp_all add: wf_path_def)
  show ?thesis
  proof (cases "p = ''.''")
    case True
    then show ?thesis
      using components_stay [of p] dot segs segments_dot
      by (simp add: kCurrentDirectory_def path_names_def root_of_def relative_names_def)
  next
    case False
    then have "finish_components (components_loop p r) = r @ [s]"
      using components_up [of p r] components_stay [of "''.''" "r @ [s]"] d dot AreAllSeparators_name [OF assms(3,4)]
      by (simp add: kCurrentDirectory_def)
    moreover have "path_names p = [s]" using segs False by (simp add: path_names_def root_of_def relative_names_def)
    ultimately show ?thesis by simp
  qed
qed

lemma components_loop_names:
  assumes "wf_path p" "p \<noteq> []"
  shows "finish_components (components_loop p r) = r @ rev (path_names p)"
  using assms
proof (induction "length p" arbitrary: p r rule: less_induct)
  case less
  show ?case
  proof (cases p rule: path_cases)
    case (all_seps n)
    then show ?thesis using components_seps [of n] less(2,3) by (auto simp: wf_path_def)
  next
    case (segment q m s n)
    consider (deep) "q \<noteq> []" | (top) "q = []" "0 < m" | (name) "q = []" "m = 0" by blast
    then show ?thesis
    proof cases
      case deep
      then have d: "DirName p = q" "BaseName p = s" "q \<noteq> p"
        using DirName_segment [OF less(2) segment] segment by auto
      have "finish_components (components_loop q (r @ [s])) = (r @ [s]) @ rev (path_names q)"
        by (rule less(1)) (use less(2) segment deep in \<open>auto simp: wf_path_def\<close>)
      moreover have "path_names p = path_names q @ [s]"
        by (rule path_names_segment) (use segment deep in auto)
      ultimately show ?thesis using components_up [of p r] d AreAllSeparators_name segment by simp
    next
      case top
      then show ?thesis using components_top [OF less(2), of m s n] segment by simp
    next
      case name
      then show ?thesis using components_name [OF less(2), of s n] segment by simp
    qed
  qed
qed

lemma GetComponents_names: "wf_path p \<Longrightarrow> p \<noteq> [] \<Longrightarrow> GetComponents p = path_names p"
proof -
  assume p: "wf_path p" "p \<noteq> []"
  obtain c r where l: "components_loop p [] = (c, r)" by fastforce
  have "finish_components (c, r) = rev (path_names p)" using components_loop_names [OF p, of "[]"] l by simp
  then have "rev (finish_components (c, r)) = path_names p" by simp
  then show ?thesis
    using p(2) l by (simp add: GetComponents_def finish_components_def FindDriveLetter_def Let_def
        split: if_splits)
qed

text \<open>
  C29: \<open>GetComponents\<close> terminates on every path and returns its names in order: the root, when the
  path is absolute, then every maximal run of characters between separators; a relative path loses
  a leading \<open>.\<close>, but not when only separators follow the dot.
\<close>

theorem components_are_names:
  assumes "wf_path p"
  shows "GetComponents p = (if p = [] then [] else root_of p @ relative_names p)"
  using GetComponents_names [OF assms] by (simp add: GetComponents_def path_names_def)

theorem components_are_names_witness:
  "GetComponents ''/usr//lib/'' = [''/'', ''usr'', ''lib'']"
proof -
  have "wf_path ''/usr//lib/''" by (simp add: wf_path_def)
  moreover have "root_of ''/usr//lib/'' @ relative_names ''/usr//lib/'' = [''/'', ''usr'', ''lib'']"
    by code_simp
  ultimately show ?thesis using components_are_names by simp
qed

section \<open>Appending\<close>

lemma wf_seps [simp]: "n < 2 ^ 63 \<Longrightarrow> wf_path (seps n)"
  by (auto simp: wf_path_def seps_def)

lemma segments_relative: "c \<noteq> [] \<Longrightarrow> hd c \<noteq> sep \<Longrightarrow> segments c \<noteq> []"
proof -
  assume "c \<noteq> []" "hd c \<noteq> sep"
  then obtain a b where "c = a # b" "a \<noteq> sep" by (cases c) auto
  then show ?thesis by (subst segments.simps) simp
qed

lemma relative_hd: "\<not> IsPathAbsolute c \<Longrightarrow> c \<noteq> [] \<Longrightarrow> hd c \<noteq> sep"
  by (auto simp: IsPathAbsolute_def hd_conv_nth)

lemma Append_stripped:
  assumes "wf_path p" "wf_path c" "\<not> IsPathAbsolute c" "p \<noteq> ''.''" "c \<noteq> []"
  shows "Append p c = Inr (let t = StripTrailingSeparatorsInternal p in
           t @ (if t \<noteq> [] \<and> last t \<noteq> sep then [sep] else []) @ c)"
  using assms by (auto simp: Append_def wf_path_def kCurrentDirectory_def Let_def kSeparators_def
      mk_path_def [symmetric])

text \<open>
  Appending a relative path to a path other than \<open>.\<close> passes its \<open>DCHECK\<close> and adds exactly the
  names of what is appended, so \<open>IsParent\<close> holds of the two.
\<close>

theorem append_adds_names:
  assumes "wf_path p" "p \<noteq> []" "StripTrailingSeparators p \<noteq> ''.''" "wf_path c" "c \<noteq> []"
    "\<not> IsPathAbsolute c" "length p + length c + 1 < 2 ^ 63"
  shows "\<exists>r. Append p c = Inr r \<and> wf_path r \<and> GetComponents r = GetComponents p @ segments c"
proof -
  define t where "t = StripTrailingSeparatorsInternal p"
  define r where "r = t @ (if t \<noteq> [] \<and> last t \<noteq> sep then [sep] else []) @ c"
  have mk: "mk_path p = p" using assms(1) by (simp add: wf_path_def)
  have hc: "hd c \<noteq> sep" "segments c \<noteq> []" using relative_hd segments_relative assms(5,6) by blast+
  have "p \<noteq> ''.''"
    using assms(3) strip_segment [of "''.''" 0] by (auto simp: StripTrailingSeparators_def)
  then have app: "Append p c = Inr r"
    using Append_stripped assms by (simp add: r_def t_def Let_def)
  obtain n where n: "t = take n p" using strip_take by (auto simp: t_def)
  then have "set t \<subseteq> set p" "length t \<le> length p" by (auto dest: in_set_takeD)
  then have wf: "wf_path r" using assms(1,4,7) by (auto simp: wf_path_def r_def)
  have "path_names r = path_names p @ segments c"
  proof (cases p rule: path_cases)
    case (all_seps n)
    define k where "k = stripped_root n"
    have "0 < n" using all_seps assms(2) by simp
    then have k: "k = 1 \<or> k = 2" by (auto simp: k_def stripped_root_def)
    then have "last (seps k) = sep" using seps_last [of k "[]"] by auto
    then have "r = seps k @ c"
      using all_seps k by (auto simp: r_def t_def strip_seps k_def)
    moreover have "leading_seps c = 0" using hc(1) assms(5) by (cases c) auto
    moreover have "path_names p = [seps k]"
      using all_seps \<open>0 < n\<close> leading_seps_append [of n "[]"]
      by (simp add: path_names_def root_of_def relative_names_def k_def)
    ultimately show ?thesis
      using k hc by (auto simp: path_names_def root_of_def relative_names_def root_before_def)
  next
    case (segment q m s n)
    then have ls: "last s \<noteq> sep" using last_in_set by metis
    then have t: "t = q @ seps m @ s"
      using strip_segment [of "q @ seps m @ s" n] segment by (simp add: t_def)
    then have r: "r = t @ sep # c" using segment ls by (simp add: r_def)
    have "segments p = segments t"
      using segments_segment [OF segment(2,3,5), of n] segments_segment [OF segment(2,3,5), of 0]
      by (simp add: segment(1) t)
    moreover have "leading_seps p = leading_seps t" "leading_seps r = leading_seps t"
      using leading_seps_pre [of t] segment ls t r by auto
    moreover have "t \<noteq> ''.''" using assms(3) mk by (simp add: t_def StripTrailingSeparators_def)
    moreover have "segments t \<noteq> []" using segments_nonempty [of t] t segment ls by auto
    moreover have "segments r = segments t @ segments c" using r segments_append_sep by simp
    moreover have "length (segments t) > 1 \<or> leading_seps t \<noteq> 0 \<or> hd (segments t) \<noteq> ''.''"
      using segments_single [of t "''.''"] \<open>t \<noteq> ''.''\<close> \<open>segments t \<noteq> []\<close> ls t segment
      by (cases "segments t"; cases "tl (segments t)") auto
    ultimately show ?thesis
      using hc by (cases "segments t")
        (auto simp: path_names_def root_of_def relative_names_def Let_def)
  qed
  moreover have "r \<noteq> []" using assms(5) by (simp add: r_def)
  ultimately show ?thesis
    using app wf GetComponents_names assms(1,2) by auto
qed

theorem append_adds_names_witness:
  "\<exists>r. Append ''/var/'' ''log'' = Inr r \<and> GetComponents r = GetComponents ''/var/'' @ [''log'']"
proof -
  have s: "StripTrailingSeparators ''/var/'' = ''/var''"
    using strip_segment [of "''/var''" 1] by (simp add: StripTrailingSeparators_def mk_path_def)
  have "segments ''log'' = [''log'']" using segments_name [of "''log''" "[]"] by simp
  then show ?thesis
    using append_adds_names [of "''/var/''" "''log''"] s
    by (auto simp: wf_path_def IsPathAbsolute_def)
qed



lemma set_tl_D: "x \<in> set (tl xs) \<Longrightarrow> x \<in> set xs"
  by (cases xs) auto

lemma names_after_first: "c \<in> set (tl (path_names p)) \<Longrightarrow> c \<in> set (segments p)"
  by (cases "segments p") (auto simp: path_names_def root_of_def relative_names_def Let_def
      dest: set_tl_D split: if_splits)



definition joined_length :: "string list \<Rightarrow> nat" where
  "joined_length cs = sum_list (map (\<lambda>c. Suc (length c)) cs)"


lemma joined_length_simps [simp]:
  "joined_length [] = 0" "joined_length (c # cs) = Suc (length c + joined_length cs)"
  by (simp_all add: joined_length_def)















section \<open>Extensions\<close>

lemma greatest_unique:
  "is_greatest_below hi Q a \<Longrightarrow> is_greatest_below hi Q b \<Longrightarrow> hi \<le> npos \<Longrightarrow> a = b"
  unfolding is_greatest_below_def by (metis linorder_neqE_nat not_less)

lemma last_pos_append:
  assumes "length r + length s \<le> npos" "i < length s"
  shows "last_pos P (r @ s) (length r + i) =
     (if last_pos P s i \<noteq> npos then length r + last_pos P s i
      else if r = [] then npos else last_pos P r (length r - 1))"
proof -
  let ?Q = "\<lambda>j. P ((r @ s) ! j)" let ?a = "last_pos P s i" let ?b = "last_pos P r (length r - 1)"
  have a: "is_greatest_below (Suc i) (\<lambda>j. P (s ! j)) ?a"
    using last_pos_greatest [of i s P] assms(2) by (simp add: min_def)
  have b: "is_greatest_below (length r) (\<lambda>j. P (r ! j)) ?b" if "r \<noteq> []"
    using last_pos_greatest [of "length r - 1" r P] that by (simp add: min_def Suc_diff_le)
  have "is_greatest_below (Suc (length r + i)) ?Q (if ?a \<noteq> npos then length r + ?a
      else if r = [] then npos else ?b)"
  proof (cases "?a = npos")
    case False
    then have f: "?a < Suc i" "P (s ! ?a)" "\<And>j. ?a < j \<Longrightarrow> j < Suc i \<Longrightarrow> \<not> P (s ! j)"
      using a by (auto simp: is_greatest_below_def)
    have "\<not> ?Q j" if "length r + ?a < j" "j < Suc (length r + i)" for j
      using f(3) [of "j - length r"] that by (auto simp: nth_append)
    then show ?thesis using False f by (auto simp: is_greatest_below_def nth_append)
  next
    case True
    have "\<not> P (s ! j)" if "j < Suc i" for j
      using a True that assms by (auto simp: is_greatest_below_def)
    then have none: "\<not> ?Q j" if "length r \<le> j" "j < Suc (length r + i)" for j
      using that by (simp add: nth_append less_diff_conv2)
    show ?thesis
    proof (cases "r = []")
      case True
      then show ?thesis using none \<open>?a = npos\<close> by (simp add: is_greatest_below_def)
    next
      case False
      have Q: "?Q j \<longleftrightarrow> P (r ! j)" if "j < length r" for j using that by (simp add: nth_append)
      from b [OF False] consider "?b = npos" "\<And>j. j < length r \<Longrightarrow> \<not> P (r ! j)"
        | "?b < length r" "P (r ! ?b)" "\<And>j. ?b < j \<Longrightarrow> j < length r \<Longrightarrow> \<not> P (r ! j)"
        unfolding is_greatest_below_def by blast
      then have "is_greatest_below (Suc (length r + i)) ?Q ?b"
      proof cases
        case 1
        then have "\<not> ?Q j" if "j < Suc (length r + i)" for j
          using Q none that by (cases "j < length r") (blast, simp)
        then show ?thesis using 1 by (simp add: is_greatest_below_def)
      next
        case 2
        then have "\<not> ?Q j" if "?b < j" "j < Suc (length r + i)" for j
          using Q none that by (cases "j < length r") (blast, simp)
        then show ?thesis using 2 Q by (simp add: is_greatest_below_def)
      qed
      then show ?thesis using \<open>?a = npos\<close> False by simp
    qed
  qed
  moreover have "is_greatest_below (Suc (length r + i)) ?Q (last_pos P (r @ s) (length r + i))"
    using last_pos_greatest [of "length r + i" "r @ s" P] assms(2) by (simp add: min_def)
  moreover have "Suc (length r + i) \<le> npos" using assms by simp
  ultimately show ?thesis by (rule greatest_unique [symmetric])
qed

lemma last_pos_prefix: "i < length r \<Longrightarrow> last_pos P (r @ s) i = last_pos P r i"
  unfolding last_pos_def
  by (rule arg_cong [where f = "case_option npos (\<lambda>j. j)"]) (auto simp: nth_append intro!: find_cong)

lemma sep_not_dot: "sep \<notin> set kCurrentDirectory" "sep \<notin> set kParentDirectory"
  by (simp_all add: kCurrentDirectory_def kParentDirectory_def)

lemma last_pos_npos: "length s < npos \<Longrightarrow> last_pos P s npos = last_pos P s (length s - 1)"
  by (cases "s = []") (simp_all add: last_pos_def min_def Suc_diff_le)

definition double_extension :: "string \<Rightarrow> bool" where
  "double_extension e \<longleftrightarrow> list_ex (\<lambda>x. LowerCaseEqualsASCII (piece_of_string e)
     (piece_of_string x) = Inr True) kCommonDoubleExtensions"

text \<open>The last separator of a name, and of a directory prefix that ends in one.\<close>

abbreviation last_sep :: "string \<Rightarrow> nat \<Rightarrow> size_t" where
  "last_sep \<equiv> last_pos (\<lambda>x. x \<in> set kSeparators)"

lemma last_sep_name: "sep \<notin> set s \<Longrightarrow> last_sep s i = npos"
proof (rule ccontr)
  assume "sep \<notin> set s" "last_sep s i \<noteq> npos"
  then show False
    using last_pos_greatest [of i s "\<lambda>x. x \<in> set kSeparators"] nth_mem by (fastforce simp: is_greatest_below_def kSeparators_def)
qed

lemma last_sep_dir:
  assumes "r \<noteq> []" "last r = sep" "length r < npos"
  shows "last_sep r (length r - 1) = length r - 1"
proof -
  have "is_greatest_below (length r) (\<lambda>j. r ! j \<in> set kSeparators) (last_sep r (length r - 1))"
    using last_pos_greatest [of "length r - 1" r "\<lambda>x. x \<in> set kSeparators"] assms(1) by (simp add: min_def Suc_diff_le)
  moreover have "is_greatest_below (length r) (\<lambda>j. r ! j \<in> set kSeparators) (length r - 1)"
    using assms(1,2) by (auto simp: is_greatest_below_def kSeparators_def last_conv_nth)
  ultimately show ?thesis using assms(3) by (intro greatest_unique) auto
qed

text \<open>Where the extension of a text begins, given its last dot.\<close>

lemma position_by_dot:
  assumes "p \<noteq> kCurrentDirectory" "p \<noteq> kParentDirectory" "std_rfind p kExtensionSeparator npos = d" "d \<noteq> npos"
  shows "ExtensionSeparatorPosition p =
    (let a = last_pos (\<lambda>x. x = kExtensionSeparator) p (d - 1); z = last_sep p (d - 1)
     in if d \<noteq> 0 \<and> double_extension (drop (d + 1) p) \<and> a \<noteq> npos \<and> (z = npos \<or> a > z) \<and> d - a \<le> 5 \<and> d - a > 1 then a else d)"
  using assms by (simp add: ExtensionSeparatorPosition_def Let_def double_extension_def std_rfind_def std_find_last_of_def, blast)

text \<open>
  The last dot but one of a name, and of a directory with that name: when the name has none, the one of the
  directory is before its last separator.
\<close>

lemma penultimate_dot:
  assumes "r \<noteq> []" "last r = sep" "sep \<notin> set s" "length (r @ s) < npos" "d < length s"
  defines "a \<equiv> last_pos (\<lambda>x. x = kExtensionSeparator) s (d - 1)"
    and "a' \<equiv> last_pos (\<lambda>x. x = kExtensionSeparator) (r @ s) (length r + d - 1)"
  shows "last_sep (r @ s) (length r + d - 1) = length r - 1"
    and "d = 0 \<or> a = npos \<Longrightarrow> a' = npos \<or> a' \<le> length r - 1"
    and "d \<noteq> 0 \<Longrightarrow> a \<noteq> npos \<Longrightarrow> a' = length r + a \<and> length r + a \<noteq> npos"
proof -
  let ?dot = "\<lambda>x. x = kExtensionSeparator"
  have len: "0 < length r" "length r < npos" using assms(1,4) by auto
  have in_r: "last_pos ?dot r (length r - 1) = npos \<or> last_pos ?dot r (length r - 1) \<le> length r - 1"
    using last_pos_bound [of ?dot r "length r - 1"] len by (cases "last_pos ?dot r (length r - 1) = npos") auto
  have zero: "last_pos P (r @ s) (length r - 1) = last_pos P r (length r - 1)" for P
    using last_pos_prefix [of "length r - 1" r P s] len by simp
  have pos: "last_pos P (r @ s) (length r + d - 1) =
      (if last_pos P s (d - 1) \<noteq> npos then length r + last_pos P s (d - 1) else last_pos P r (length r - 1))" if "d \<noteq> 0" for P
    using last_pos_append [of r s "d - 1" P] assms(1,4,5) that by simp
  show "last_sep (r @ s) (length r + d - 1) = length r - 1"
    using zero pos last_sep_name [OF assms(3)] last_sep_dir [OF assms(1,2) len(2)] by (cases "d = 0") simp_all
  show "d = 0 \<or> a = npos \<Longrightarrow> a' = npos \<or> a' \<le> length r - 1"
    using zero pos in_r by (cases "d = 0") (simp_all add: a_def a'_def)
  show "d \<noteq> 0 \<Longrightarrow> a \<noteq> npos \<Longrightarrow> a' = length r + a \<and> length r + a \<noteq> npos"
    using pos [of ?dot] last_pos_bound [of ?dot s "d - 1"] assms(4) by (simp add: a_def a'_def)
qed

lemma extension_position_suffix:
  assumes "sep \<notin> set s" "s \<noteq> []" "length (r @ s) < npos" "r \<noteq> []" "last r = sep"
    "ExtensionSeparatorPosition s \<noteq> npos"
  shows "ExtensionSeparatorPosition (r @ s) = length r + ExtensionSeparatorPosition s \<and>
         ExtensionSeparatorPosition s < length s"
proof -
  let ?dot = "\<lambda>x. x = kExtensionSeparator" and ?p = "r @ s"
  define d where "d = last_pos ?dot s (length s - 1)"
  have not_dots: "s \<noteq> kCurrentDirectory" "s \<noteq> kParentDirectory"
    using assms(6) by (auto simp: ExtensionSeparatorPosition_def)
  have "sep \<in> set ?p" using assms(4,5) last_in_set by (metis UnI1 set_append)
  then have not_dots': "?p \<noteq> kCurrentDirectory" "?p \<noteq> kParentDirectory" using sep_not_dot by metis+
  have ds: "std_rfind s kExtensionSeparator npos = d"
    using last_pos_npos [of s ?dot] assms(3) by (simp add: std_rfind_def d_def)
  have d: "d \<noteq> npos" "d < length s"
    using assms(6) not_dots last_pos_bound [of ?dot s "length s - 1"]
    by (auto simp: ExtensionSeparatorPosition_def ds d_def Let_def split: if_splits)
  have dp: "std_rfind ?p kExtensionSeparator npos = length r + d" "length r + d \<noteq> npos"
    using last_pos_npos [of ?p ?dot] last_pos_append [of r s "length s - 1" ?dot] assms(2-4) d
    by (simp_all add: std_rfind_def d_def)
  have ext: "drop (length r + d + 1) ?p = drop (d + 1) s" by simp
  have es: "ExtensionSeparatorPosition s =
      (let a = last_pos ?dot s (d - 1)
       in if d \<noteq> 0 \<and> double_extension (drop (d + 1) s) \<and> a \<noteq> npos \<and> d - a \<le> 5 \<and> d - a > 1 then a else d)"
    using position_by_dot [OF not_dots ds d(1)] last_sep_name [OF assms(1)] by simp
  have "length r - 1 \<noteq> npos" using assms(3) by simp
  then have ep: "ExtensionSeparatorPosition ?p =
      (let a' = last_pos ?dot ?p (length r + d - 1)
       in if double_extension (drop (d + 1) s) \<and> a' \<noteq> npos \<and> a' > length r - 1 \<and> length r + d - a' \<le> 5 \<and> length r + d - a' > 1
          then a' else length r + d)"
    using position_by_dot [OF not_dots' dp] penultimate_dot(1) [OF assms(4,5,1,3) d(2)] assms(4) ext by (simp add: Let_def)
  have lt: "length r - Suc 0 < length r + k" for k using assms(4) by (cases r) auto
  show ?thesis
  proof (cases "d = 0 \<or> last_pos ?dot s (d - 1) = npos")
    case True
    then show ?thesis using penultimate_dot(2) [OF assms(4,5,1,3) d(2)] es ep d by (auto simp: Let_def)
  next
    case False
    then show ?thesis
      using penultimate_dot(3) [OF assms(4,5,1,3) d(2)] es ep d last_pos_bound [of ?dot s "d - 1"]
      by (auto simp: Let_def lt)
  qed
qed

lemma extension_splits:
  assumes "wf_path (r @ s)" "BaseName (r @ s) = s" "sep \<notin> set s" "s \<noteq> []" "r = [] \<or> last r = sep"
  shows "RemoveExtension (r @ s) @ Extension (r @ s) = r @ s"
proof (cases "Extension (r @ s) = []")
  case True
  then show ?thesis by (simp add: RemoveExtension_def)
next
  case False
  let ?e = "ExtensionSeparatorPosition s"
  have len: "length (r @ s) < npos" using assms(1) by (simp add: wf_path_def npos_def)
  have e: "?e \<noteq> npos" using False assms(2) by (auto simp: Extension_def Let_def split: if_splits)
  have pos: "ExtensionSeparatorPosition (r @ s) = length r + ?e" "length r + ?e \<noteq> npos \<or> r = []"
    using extension_position_suffix [of s r] assms(3-5) len e by (cases "r = []"; auto)+
  have "mk_path (take (length r + ?e) (r @ s)) = take (length r + ?e) (r @ s)"
    using assms(1) by (intro mk_path_wf) (auto simp: wf_path_def dest: in_set_takeD)
  then have "RemoveExtension (r @ s) = take (length r + ?e) (r @ s)"
    using False pos e by (cases "r = []") (simp_all add: RemoveExtension_def)
  moreover have "Extension (r @ s) = drop ?e s"
    using assms(2) e by (simp add: Extension_def Let_def)
  ultimately show ?thesis by simp
qed

text \<open>
  For a path that does not end in a separator, \<open>RemoveExtension\<close> followed by \<open>Extension\<close>
  is the path: the double extensions (\<open>.tar.gz\<close>, \<open>.user.js\<close>, any \<open>.xxxx.gz\<close>) that are
  looked for in the base name by one of them and in the whole path by the other are the same.
\<close>

theorem remove_extension_correct:
  assumes "wf_path p" "p \<noteq> []" "last p \<noteq> sep"
  shows "RemoveExtension p @ Extension p = p"
proof (cases p rule: path_cases)
  case (all_seps n)
  then show ?thesis using assms(2,3) seps_last [of n "[]"] by (cases "n = 0") auto
next
  case (segment q m s n)
  then have "n = 0" using assms(3) seps_last [of n "q @ seps m @ s"] by (cases "n = 0") auto
  then have p: "p = (q @ seps m) @ s" using segment(1) by simp
  moreover have "BaseName p = s" using DirName_segment [OF assms(1) segment] by blast
  moreover have "q @ seps m = [] \<or> last (q @ seps m) = sep"
    using segment(5) seps_last [of m q] by (cases "m = 0") auto
  ultimately show ?thesis
    using extension_splits [of "q @ seps m" s] assms(1) segment(2,3) by simp
qed

theorem remove_extension_correct_witness:
  "RemoveExtension ''a.b/c.tar.gz'' @ Extension ''a.b/c.tar.gz'' = ''a.b/c.tar.gz''"
proof -
  have "wf_path ''a.b/c.tar.gz''" by (simp add: wf_path_def)
  then show ?thesis using remove_extension_correct [of "''a.b/c.tar.gz''"] by simp
qed

end
