(* ===== verification/Timing.thy ===== *)
theory Timing
  imports Prelude
begin

text \<open>
  \<open>base/time.h\<close> and \<open>base/time.cc\<close>: durations, absolute times and monotonic ticks, all 64-bit
  counts of microseconds.  Every signed operation goes through \<open>checked64\<close> (or \<open>checked32\<close> for an
  \<open>int\<close>), so an overflow is a fault; division truncates, as in C++.  The three classes are
  datatypes over the count, ordered by it.  The C library's clocks and its calendar are
  arguments: \<open>mk\<close> for \<open>mktime\<close> and \<open>timegm\<close>, \<open>brk\<close> for \<open>localtime_r\<close> and \<open>gmtime_r\<close>.
  The floating-point conversions are not modelled.
\<close>

section \<open>Constants\<close>

definition kHoursPerDay :: int where "kHoursPerDay = 24"
definition kMillisecondsPerSecond :: int where "kMillisecondsPerSecond = 1000"
definition kMillisecondsPerDay :: int where
  "kMillisecondsPerDay = kMillisecondsPerSecond * 60 * 60 * kHoursPerDay"
definition kMicrosecondsPerMillisecond :: int where "kMicrosecondsPerMillisecond = 1000"
definition kMicrosecondsPerSecond :: int where
  "kMicrosecondsPerSecond = kMicrosecondsPerMillisecond * kMillisecondsPerSecond"
definition kMicrosecondsPerMinute :: int where
  "kMicrosecondsPerMinute = kMicrosecondsPerSecond * 60"
definition kMicrosecondsPerHour :: int where "kMicrosecondsPerHour = kMicrosecondsPerMinute * 60"
definition kMicrosecondsPerDay :: int where
  "kMicrosecondsPerDay = kMicrosecondsPerHour * kHoursPerDay"
definition kMicrosecondsPerWeek :: int where "kMicrosecondsPerWeek = kMicrosecondsPerDay * 7"
definition kNanosecondsPerMicrosecond :: int where "kNanosecondsPerMicrosecond = 1000"
definition kNanosecondsPerSecond :: int where
  "kNanosecondsPerSecond = kNanosecondsPerMicrosecond * kMicrosecondsPerSecond"
definition kWindowsEpochDeltaSeconds :: int where "kWindowsEpochDeltaSeconds = 11644473600"
definition kWindowsEpochDeltaMicroseconds :: int where
  "kWindowsEpochDeltaMicroseconds = kWindowsEpochDeltaSeconds * kMicrosecondsPerSecond"
definition kTimeTToMicrosecondsOffset :: int where
  "kTimeTToMicrosecondsOffset = kWindowsEpochDeltaMicroseconds"

lemmas time_constants = kHoursPerDay_def kMillisecondsPerSecond_def kMillisecondsPerDay_def
  kMicrosecondsPerMillisecond_def kMicrosecondsPerSecond_def kMicrosecondsPerMinute_def
  kMicrosecondsPerHour_def kMicrosecondsPerDay_def kMicrosecondsPerWeek_def
  kNanosecondsPerMicrosecond_def kNanosecondsPerSecond_def kWindowsEpochDeltaSeconds_def
  kWindowsEpochDeltaMicroseconds_def kTimeTToMicrosecondsOffset_def

abbreviation checked32 :: "int \<Rightarrow> int res" where
  "checked32 \<equiv> checked int32_min int32_max"

text \<open>Division by zero is undefined behaviour too; so is the one quotient that overflows.\<close>

definition checked_div :: "int \<Rightarrow> int \<Rightarrow> int res" where
  "checked_div a b = (if b = 0 then Inl SignedOverflow else checked64 (a sdiv b))"

section \<open>Durations\<close>

datatype TimeDelta = TimeDelta (delta_us: int)

definition FromDays :: "int \<Rightarrow> TimeDelta res" where
  "FromDays days = bind_res (checked64 (days * kMicrosecondsPerDay)) (\<lambda>d. Inr (TimeDelta d))"

definition FromHours :: "int \<Rightarrow> TimeDelta res" where
  "FromHours hours = bind_res (checked64 (hours * kMicrosecondsPerHour)) (\<lambda>d. Inr (TimeDelta d))"

definition FromMinutes :: "int \<Rightarrow> TimeDelta res" where
  "FromMinutes minutes =
     bind_res (checked64 (minutes * kMicrosecondsPerMinute)) (\<lambda>d. Inr (TimeDelta d))"

definition FromSeconds :: "int \<Rightarrow> TimeDelta res" where
  "FromSeconds seconds =
     bind_res (checked64 (seconds * kMicrosecondsPerSecond)) (\<lambda>d. Inr (TimeDelta d))"

definition FromMilliseconds :: "int \<Rightarrow> TimeDelta res" where
  "FromMilliseconds milliseconds =
     bind_res (checked64 (milliseconds * kMicrosecondsPerMillisecond)) (\<lambda>d. Inr (TimeDelta d))"

definition FromMicroseconds :: "int \<Rightarrow> TimeDelta" where
  "FromMicroseconds microseconds = TimeDelta microseconds"

definition FromNanoseconds :: "int \<Rightarrow> TimeDelta" where
  "FromNanoseconds nanoseconds = TimeDelta (nanoseconds sdiv kNanosecondsPerMicrosecond)"

definition InDays :: "TimeDelta \<Rightarrow> int" where
  "InDays d = to_int32 (delta_us d sdiv kMicrosecondsPerDay)"

definition InHours :: "TimeDelta \<Rightarrow> int" where
  "InHours d = to_int32 (delta_us d sdiv kMicrosecondsPerHour)"

definition InMinutes :: "TimeDelta \<Rightarrow> int" where
  "InMinutes d = to_int32 (delta_us d sdiv kMicrosecondsPerMinute)"

definition InSeconds :: "TimeDelta \<Rightarrow> int" where
  "InSeconds d = delta_us d sdiv kMicrosecondsPerSecond"

definition InMilliseconds :: "TimeDelta \<Rightarrow> int" where
  "InMilliseconds d = delta_us d sdiv kMicrosecondsPerMillisecond"

definition InMicroseconds :: "TimeDelta \<Rightarrow> int" where
  "InMicroseconds d = delta_us d"

definition InNanoseconds :: "TimeDelta \<Rightarrow> int res" where
  "InNanoseconds d = checked64 (delta_us d * kNanosecondsPerMicrosecond)"

record timespec =
  tv_sec :: int
  tv_nsec :: int

record timeval =
  tvl_sec :: int
  tvl_usec :: int

definition delta_FromTimespec :: "timespec \<Rightarrow> TimeDelta res" where
  "delta_FromTimespec ts =
     bind_res (check (0 \<le> tv_nsec ts)) (\<lambda>_.
     bind_res (check (tv_nsec ts < kNanosecondsPerSecond)) (\<lambda>_.
     bind_res (checked64 (tv_sec ts * kMicrosecondsPerSecond)) (\<lambda>s.
     bind_res (checked64 (s + tv_nsec ts sdiv kNanosecondsPerMicrosecond)) (\<lambda>d.
       Inr (TimeDelta d)))))"

definition delta_ToTimespec :: "TimeDelta \<Rightarrow> timespec" where
  "delta_ToTimespec d =
     \<lparr>tv_sec = delta_us d sdiv kMicrosecondsPerSecond,
      tv_nsec = (delta_us d smod kMicrosecondsPerSecond) * kNanosecondsPerMicrosecond\<rparr>"

definition delta_add :: "TimeDelta \<Rightarrow> TimeDelta \<Rightarrow> TimeDelta res" where
  "delta_add a b = bind_res (checked64 (delta_us a + delta_us b)) (\<lambda>d. Inr (TimeDelta d))"

definition delta_sub :: "TimeDelta \<Rightarrow> TimeDelta \<Rightarrow> TimeDelta res" where
  "delta_sub a b = bind_res (checked64 (delta_us a - delta_us b)) (\<lambda>d. Inr (TimeDelta d))"

definition delta_neg :: "TimeDelta \<Rightarrow> TimeDelta res" where
  "delta_neg a = bind_res (checked64 (- delta_us a)) (\<lambda>d. Inr (TimeDelta d))"

definition delta_scale :: "TimeDelta \<Rightarrow> int \<Rightarrow> TimeDelta res" where
  "delta_scale a k = bind_res (checked64 (delta_us a * k)) (\<lambda>d. Inr (TimeDelta d))"

definition delta_div :: "TimeDelta \<Rightarrow> int \<Rightarrow> TimeDelta res" where
  "delta_div a k = bind_res (checked_div (delta_us a) k) (\<lambda>d. Inr (TimeDelta d))"

definition delta_ratio :: "TimeDelta \<Rightarrow> TimeDelta \<Rightarrow> int res" where
  "delta_ratio a b = checked_div (delta_us a) (delta_us b)"

section \<open>Absolute times\<close>

datatype Time = Time (time_us: int)

definition IsNull :: "Time \<Rightarrow> bool" where "IsNull t \<longleftrightarrow> time_us t = 0"
definition IsMax :: "Time \<Rightarrow> bool" where "IsMax t \<longleftrightarrow> time_us t = int64_max"
definition Time_default :: Time where "Time_default = Time 0"
definition UnixEpoch :: Time where "UnixEpoch = Time 0"
definition MaxTime :: Time where "MaxTime = Time int64_max"
definition FromInternalValue :: "int \<Rightarrow> Time" where "FromInternalValue v = Time v"

definition time_diff :: "Time \<Rightarrow> Time \<Rightarrow> TimeDelta res" where
  "time_diff a b = bind_res (checked64 (time_us a - time_us b)) (\<lambda>d. Inr (FromMicroseconds d))"

definition time_add :: "Time \<Rightarrow> TimeDelta \<Rightarrow> Time res" where
  "time_add t d = bind_res (checked64 (time_us t + InMicroseconds d)) (\<lambda>u. Inr (Time u))"

definition time_sub :: "Time \<Rightarrow> TimeDelta \<Rightarrow> Time res" where
  "time_sub t d = bind_res (checked64 (time_us t - InMicroseconds d)) (\<lambda>u. Inr (Time u))"

definition delta_plus_time :: "TimeDelta \<Rightarrow> Time \<Rightarrow> Time res" where
  "delta_plus_time d t = time_add t d"

text \<open>\<open>time_t\<close> is 64 bits wide.\<close>

definition time_t_max :: int where "time_t_max = int64_max"

definition FromTimespec :: "timespec \<Rightarrow> Time res" where
  "FromTimespec ts =
     bind_res (check (0 \<le> tv_nsec ts)) (\<lambda>_.
     bind_res (check (tv_nsec ts < kNanosecondsPerSecond)) (\<lambda>_.
       if tv_nsec ts = 0 \<and> tv_sec ts = 0 then Inr Time_default
       else if tv_nsec ts = kNanosecondsPerSecond - 1 \<and> tv_sec ts = time_t_max then Inr MaxTime
       else bind_res (checked64 (tv_sec ts * kMicrosecondsPerSecond)) (\<lambda>s.
            bind_res (checked64 (s + tv_nsec ts sdiv kNanosecondsPerMicrosecond)) (\<lambda>u.
              Inr (Time u)))))"

definition ToTimespec :: "Time \<Rightarrow> timespec" where
  "ToTimespec t =
     (if IsNull t then \<lparr>tv_sec = 0, tv_nsec = 0\<rparr>
      else if IsMax t then \<lparr>tv_sec = time_t_max, tv_nsec = kNanosecondsPerSecond - 1\<rparr>
      else \<lparr>tv_sec = time_us t sdiv kMicrosecondsPerSecond,
            tv_nsec = (time_us t smod kMicrosecondsPerSecond) * kNanosecondsPerMicrosecond\<rparr>)"

definition FromTimeval :: "timeval \<Rightarrow> Time res" where
  "FromTimeval tv =
     bind_res (check (0 \<le> tvl_usec tv)) (\<lambda>_.
     bind_res (check (tvl_usec tv < kMicrosecondsPerSecond)) (\<lambda>_.
       if tvl_usec tv = 0 \<and> tvl_sec tv = 0 then Inr Time_default
       else if tvl_usec tv = kMicrosecondsPerSecond - 1 \<and> tvl_sec tv = time_t_max then Inr MaxTime
       else bind_res (checked64 (tvl_sec tv * kMicrosecondsPerSecond)) (\<lambda>s.
            bind_res (checked64 (s + tvl_usec tv)) (\<lambda>u. Inr (Time u)))))"

definition ToTimeval :: "Time \<Rightarrow> timeval" where
  "ToTimeval t =
     (if IsNull t then \<lparr>tvl_sec = 0, tvl_usec = 0\<rparr>
      else if IsMax t then \<lparr>tvl_sec = time_t_max, tvl_usec = kMicrosecondsPerSecond - 1\<rparr>
      else \<lparr>tvl_sec = time_us t sdiv kMicrosecondsPerSecond,
            tvl_usec = time_us t smod kMicrosecondsPerSecond\<rparr>)"

text \<open>\<open>Now\<close> on what \<open>gettimeofday\<close> returned and stored.\<close>

definition Now :: "int \<Rightarrow> timeval \<Rightarrow> Time res" where
  "Now result tv = bind_res (check (result = 0)) (\<lambda>_. FromTimeval tv)"

definition NowFromSystemTime :: "int \<Rightarrow> timeval \<Rightarrow> Time res" where
  "NowFromSystemTime result tv = Now result tv"

definition FromTimeT :: "int \<Rightarrow> Time res" where
  "FromTimeT tt =
     (if tt = 0 then Inr Time_default
      else if tt = time_t_max then Inr MaxTime
      else bind_res (FromSeconds tt) (\<lambda>d. time_add (Time kTimeTToMicrosecondsOffset) d))"

definition ToTimeT :: "Time \<Rightarrow> int res" where
  "ToTimeT t =
     (if IsNull t then Inr 0
      else if IsMax t then Inr time_t_max
      else if int64_max - kTimeTToMicrosecondsOffset \<le> time_us t then Inr time_t_max
      else bind_res (checked64 (time_us t - kTimeTToMicrosecondsOffset)) (\<lambda>d.
             Inr (d sdiv kMicrosecondsPerSecond)))"

section \<open>Calendar\<close>

record tm =
  tm_sec :: int
  tm_min :: int
  tm_hour :: int
  tm_mday :: int
  tm_mon :: int
  tm_year :: int
  tm_wday :: int
  tm_yday :: int
  tm_isdst :: int
  tm_gmtoff :: int
  tm_zone :: "string option"

record Exploded =
  ex_year :: int
  ex_month :: int
  ex_day_of_week :: int
  ex_day_of_month :: int
  ex_hour :: int
  ex_minute :: int
  ex_second :: int
  ex_millisecond :: int

definition ExplodedMostlyEquals :: "Exploded \<Rightarrow> Exploded \<Rightarrow> bool" where
  "ExplodedMostlyEquals lhs rhs \<longleftrightarrow>
     ex_year lhs = ex_year rhs \<and> ex_month lhs = ex_month rhs \<and>
     ex_day_of_month lhs = ex_day_of_month rhs \<and> ex_hour lhs = ex_hour rhs \<and>
     ex_minute lhs = ex_minute rhs \<and> ex_second lhs = ex_second rhs \<and>
     ex_millisecond lhs = ex_millisecond rhs"

definition SysTimeFromTimeStruct :: "(tm \<Rightarrow> int) \<Rightarrow> (tm \<Rightarrow> int) \<Rightarrow> tm \<Rightarrow> bool \<Rightarrow> int" where
  "SysTimeFromTimeStruct mktime timegm ts is_local = (if is_local then mktime ts else timegm ts)"

definition SysTimeToTimeStruct :: "(int \<Rightarrow> tm) \<Rightarrow> (int \<Rightarrow> tm) \<Rightarrow> int \<Rightarrow> bool \<Rightarrow> tm" where
  "SysTimeToTimeStruct localtime gmtime t is_local = (if is_local then localtime t else gmtime t)"

text \<open>The milliseconds, the seconds and the milliseconds within the second of a count.\<close>

definition split_microseconds :: "int \<Rightarrow> (int \<times> int) res" where
  "split_microseconds microseconds =
     (if 0 \<le> microseconds
      then let milliseconds = microseconds sdiv kMicrosecondsPerMillisecond
           in Inr (milliseconds sdiv kMillisecondsPerSecond, milliseconds smod kMillisecondsPerSecond)
      else bind_res (checked64 (microseconds - kMicrosecondsPerMillisecond)) (\<lambda>m.
           let milliseconds = (m + 1) sdiv kMicrosecondsPerMillisecond;
               seconds = (milliseconds - kMillisecondsPerSecond + 1) sdiv kMillisecondsPerSecond;
               millisecond = milliseconds smod kMillisecondsPerSecond
           in Inr (seconds, if millisecond < 0 then millisecond + kMillisecondsPerSecond else millisecond)))"

definition Explode :: "(bool \<Rightarrow> int \<Rightarrow> tm) \<Rightarrow> bool \<Rightarrow> Time \<Rightarrow> Exploded res" where
  "Explode brk is_local t =
     bind_res (checked64 (time_us t - kWindowsEpochDeltaMicroseconds)) (\<lambda>microseconds.
     bind_res (split_microseconds microseconds) (\<lambda>(seconds, millisecond).
       let ts = brk is_local seconds
       in bind_res (checked32 (tm_year ts + 1900)) (\<lambda>year.
          bind_res (checked32 (tm_mon ts + 1)) (\<lambda>month.
            Inr \<lparr>ex_year = year, ex_month = month, ex_day_of_week = tm_wday ts,
                 ex_day_of_month = tm_mday ts, ex_hour = tm_hour ts, ex_minute = tm_min ts,
                 ex_second = tm_sec ts, ex_millisecond = millisecond\<rparr>))))"

definition LocalExplode :: "(bool \<Rightarrow> int \<Rightarrow> tm) \<Rightarrow> Time \<Rightarrow> Exploded res" where
  "LocalExplode brk t = Explode brk True t"

definition tm_of :: "Exploded \<Rightarrow> tm res" where
  "tm_of e =
     bind_res (checked32 (ex_month e - 1)) (\<lambda>mon.
     bind_res (checked32 (ex_year e - 1900)) (\<lambda>year.
       Inr \<lparr>tm_sec = ex_second e, tm_min = ex_minute e, tm_hour = ex_hour e,
            tm_mday = ex_day_of_month e, tm_mon = mon, tm_year = year,
            tm_wday = ex_day_of_week e, tm_yday = 0, tm_isdst = - 1, tm_gmtoff = 0,
            tm_zone = None\<rparr>))"

definition seconds_of :: "(bool \<Rightarrow> tm \<Rightarrow> int) \<Rightarrow> bool \<Rightarrow> tm \<Rightarrow> int" where
  "seconds_of mk is_local ts =
     (let seconds = mk is_local ts
      in if seconds = - 1
         then let seconds_isdst0 = mk is_local (ts\<lparr>tm_isdst := 0\<rparr>);
                  seconds_isdst1 = mk is_local (ts\<lparr>tm_isdst := 1\<rparr>)
              in if seconds_isdst0 < 0 then seconds_isdst1
                 else if seconds_isdst1 < 0 then seconds_isdst0
                 else min seconds_isdst0 seconds_isdst1
         else seconds)"

definition milliseconds_of :: "int \<Rightarrow> Exploded \<Rightarrow> int res" where
  "milliseconds_of seconds e =
     (if seconds = - 1 \<and> (ex_year e < 1969 \<or> ex_year e > 1970)
      then if ex_year e < 1969 then Inr (int32_min * kMillisecondsPerSecond)
           else Inr (int32_max * kMillisecondsPerSecond + (kMillisecondsPerSecond - 1))
      else bind_res (checked64 (seconds * kMillisecondsPerSecond)) (\<lambda>m.
           checked64 (m + ex_millisecond e)))"

text \<open>
  The result is the returned flag and \<open>*time\<close>.  For a UTC time the code compares against an
  \<open>Exploded\<close> it never filled in: a load of indeterminate values.
\<close>

definition FromExploded ::
    "(bool \<Rightarrow> tm \<Rightarrow> int) \<Rightarrow> (bool \<Rightarrow> int \<Rightarrow> tm) \<Rightarrow> bool \<Rightarrow> Exploded \<Rightarrow> (bool \<times> Time) res" where
  "FromExploded mk brk is_local e =
     bind_res (tm_of e) (\<lambda>ts.
     bind_res (milliseconds_of (seconds_of mk is_local ts) e) (\<lambda>milliseconds.
     bind_res (checked64 (milliseconds * kMicrosecondsPerMillisecond)) (\<lambda>m.
     bind_res (checked64 (m + kWindowsEpochDeltaMicroseconds)) (\<lambda>u.
     bind_res (if is_local then LocalExplode brk (Time u) else Inl InvalidValue) (\<lambda>to_exploded.
       if ExplodedMostlyEquals to_exploded e then Inr (True, Time u) else Inr (False, Time 0))))))"

definition FromLocalExploded ::
    "(bool \<Rightarrow> tm \<Rightarrow> int) \<Rightarrow> (bool \<Rightarrow> int \<Rightarrow> tm) \<Rightarrow> Exploded \<Rightarrow> (bool \<times> Time) res" where
  "FromLocalExploded mk brk e = FromExploded mk brk True e"

definition FromLocalExploded_value ::
    "(bool \<Rightarrow> tm \<Rightarrow> int) \<Rightarrow> (bool \<Rightarrow> int \<Rightarrow> tm) \<Rightarrow> Exploded \<Rightarrow> Time res" where
  "FromLocalExploded_value mk brk e = bind_res (FromLocalExploded mk brk e) (\<lambda>(ok, t). Inr t)"

text \<open>
  \<open>Format\<close> with the calendar and \<open>strftime\<close> as arguments; the null check on \<open>localtime\<close> and the
  check on the length written are the code's.
\<close>

definition Format :: "(int \<Rightarrow> tm option) \<Rightarrow> (string \<Rightarrow> tm \<Rightarrow> string) \<Rightarrow> string \<Rightarrow> Time \<Rightarrow> string res" where
  "Format localtime strftime format t =
     (let tv = ToTimeval t
      in case localtime (tvl_sec tv) of
           None \<Rightarrow> Inl CheckFailed
         | Some tm \<Rightarrow>
             let buf = strftime format tm; n = (if length buf < 64 then length buf else 0)
             in bind_res (check (0 < n \<and> n < 64)) (\<lambda>_. Inr (take n buf)))"

section \<open>Monotonic ticks\<close>

datatype TimeTicks = TimeTicks (ticks_us: int)

definition HighResolutionNow :: "int \<Rightarrow> timespec \<Rightarrow> TimeTicks res" where
  "HighResolutionNow result ts =
     bind_res (check (result = 0)) (\<lambda>_.
     bind_res (checked64 (tv_sec ts * kMicrosecondsPerSecond)) (\<lambda>s.
     bind_res (checked64 (s + tv_nsec ts sdiv kNanosecondsPerMicrosecond)) (\<lambda>ticks.
     bind_res (checked64 (ticks + 1)) (\<lambda>ticks. Inr (TimeTicks ticks)))))"

definition TicksNow :: "int \<Rightarrow> timespec \<Rightarrow> TimeTicks res" where
  "TicksNow result ts = HighResolutionNow result ts"

definition IsHighResolutionClockWorking :: bool where "IsHighResolutionClockWorking = True"
definition ticks_IsNull :: "TimeTicks \<Rightarrow> bool" where "ticks_IsNull t \<longleftrightarrow> ticks_us t = 0"
definition ticks_FromInternalValue :: "int \<Rightarrow> TimeTicks" where "ticks_FromInternalValue v = TimeTicks v"
definition ToInternalValue :: "TimeTicks \<Rightarrow> int" where "ToInternalValue t = ticks_us t"

definition ticks_diff :: "TimeTicks \<Rightarrow> TimeTicks \<Rightarrow> TimeDelta res" where
  "ticks_diff a b = bind_res (checked64 (ticks_us a - ticks_us b)) (\<lambda>d. Inr (FromMicroseconds d))"

definition ticks_add :: "TimeTicks \<Rightarrow> TimeDelta \<Rightarrow> TimeTicks res" where
  "ticks_add t d = bind_res (checked64 (ticks_us t + InMicroseconds d)) (\<lambda>u. Inr (TimeTicks u))"

definition ticks_sub :: "TimeTicks \<Rightarrow> TimeDelta \<Rightarrow> TimeTicks res" where
  "ticks_sub t d = bind_res (checked64 (ticks_us t - InMicroseconds d)) (\<lambda>u. Inr (TimeTicks u))"

text \<open>The compound assignments: the new value of \<open>*this\<close>.\<close>

definition delta_add_assign :: "TimeDelta \<Rightarrow> TimeDelta \<Rightarrow> TimeDelta res" where
  "delta_add_assign this_value other = delta_add this_value other"

definition delta_sub_assign :: "TimeDelta \<Rightarrow> TimeDelta \<Rightarrow> TimeDelta res" where
  "delta_sub_assign this_value other = delta_sub this_value other"

definition delta_scale_assign :: "TimeDelta \<Rightarrow> int \<Rightarrow> TimeDelta res" where
  "delta_scale_assign this_value other = delta_scale this_value other"

definition delta_div_assign :: "TimeDelta \<Rightarrow> int \<Rightarrow> TimeDelta res" where
  "delta_div_assign this_value other = delta_div this_value other"

definition time_add_assign :: "Time \<Rightarrow> TimeDelta \<Rightarrow> Time res" where
  "time_add_assign this_value other = time_add this_value other"

definition time_sub_assign :: "Time \<Rightarrow> TimeDelta \<Rightarrow> Time res" where
  "time_sub_assign this_value other = time_sub this_value other"

definition ticks_add_assign :: "TimeTicks \<Rightarrow> TimeDelta \<Rightarrow> TimeTicks res" where
  "ticks_add_assign this_value other = ticks_add this_value other"

definition ticks_sub_assign :: "TimeTicks \<Rightarrow> TimeDelta \<Rightarrow> TimeTicks res" where
  "ticks_sub_assign this_value other = ticks_sub this_value other"

definition delta_assign :: "TimeDelta \<Rightarrow> TimeDelta \<Rightarrow> TimeDelta" where "delta_assign this_value other = other"
definition time_assign :: "Time \<Rightarrow> Time \<Rightarrow> Time" where "time_assign this_value other = other"
definition ticks_assign :: "TimeTicks \<Rightarrow> TimeTicks \<Rightarrow> TimeTicks" where "ticks_assign this_value other = other"

section \<open>The comparison operators\<close>

definition delta_eq :: "TimeDelta \<Rightarrow> TimeDelta \<Rightarrow> bool" where "delta_eq a b \<longleftrightarrow> delta_us a = delta_us b"
definition delta_ne :: "TimeDelta \<Rightarrow> TimeDelta \<Rightarrow> bool" where "delta_ne a b \<longleftrightarrow> delta_us a \<noteq> delta_us b"
definition delta_lt :: "TimeDelta \<Rightarrow> TimeDelta \<Rightarrow> bool" where "delta_lt a b \<longleftrightarrow> delta_us a < delta_us b"
definition delta_le :: "TimeDelta \<Rightarrow> TimeDelta \<Rightarrow> bool" where "delta_le a b \<longleftrightarrow> delta_us a \<le> delta_us b"
definition delta_gt :: "TimeDelta \<Rightarrow> TimeDelta \<Rightarrow> bool" where "delta_gt a b \<longleftrightarrow> delta_us a > delta_us b"
definition delta_ge :: "TimeDelta \<Rightarrow> TimeDelta \<Rightarrow> bool" where "delta_ge a b \<longleftrightarrow> delta_us a \<ge> delta_us b"

definition time_eq :: "Time \<Rightarrow> Time \<Rightarrow> bool" where "time_eq a b \<longleftrightarrow> time_us a = time_us b"
definition time_ne :: "Time \<Rightarrow> Time \<Rightarrow> bool" where "time_ne a b \<longleftrightarrow> time_us a \<noteq> time_us b"
definition time_lt :: "Time \<Rightarrow> Time \<Rightarrow> bool" where "time_lt a b \<longleftrightarrow> time_us a < time_us b"
definition time_le :: "Time \<Rightarrow> Time \<Rightarrow> bool" where "time_le a b \<longleftrightarrow> time_us a \<le> time_us b"
definition time_gt :: "Time \<Rightarrow> Time \<Rightarrow> bool" where "time_gt a b \<longleftrightarrow> time_us a > time_us b"
definition time_ge :: "Time \<Rightarrow> Time \<Rightarrow> bool" where "time_ge a b \<longleftrightarrow> time_us a \<ge> time_us b"

definition ticks_eq :: "TimeTicks \<Rightarrow> TimeTicks \<Rightarrow> bool" where "ticks_eq a b \<longleftrightarrow> ticks_us a = ticks_us b"
definition ticks_ne :: "TimeTicks \<Rightarrow> TimeTicks \<Rightarrow> bool" where "ticks_ne a b \<longleftrightarrow> ticks_us a \<noteq> ticks_us b"
definition ticks_lt :: "TimeTicks \<Rightarrow> TimeTicks \<Rightarrow> bool" where "ticks_lt a b \<longleftrightarrow> ticks_us a < ticks_us b"
definition ticks_le :: "TimeTicks \<Rightarrow> TimeTicks \<Rightarrow> bool" where "ticks_le a b \<longleftrightarrow> ticks_us a \<le> ticks_us b"
definition ticks_gt :: "TimeTicks \<Rightarrow> TimeTicks \<Rightarrow> bool" where "ticks_gt a b \<longleftrightarrow> ticks_us a > ticks_us b"
definition ticks_ge :: "TimeTicks \<Rightarrow> TimeTicks \<Rightarrow> bool" where "ticks_ge a b \<longleftrightarrow> ticks_us a \<ge> ticks_us b"

text \<open>The comparison operators make each class a linear order.\<close>

instantiation TimeDelta :: linorder
begin

definition less_eq_TimeDelta :: "TimeDelta \<Rightarrow> TimeDelta \<Rightarrow> bool" where
  "a \<le> b \<longleftrightarrow> delta_le a b"

definition less_TimeDelta :: "TimeDelta \<Rightarrow> TimeDelta \<Rightarrow> bool" where
  "a < b \<longleftrightarrow> delta_lt a b"

instance
  by standard (auto simp: less_eq_TimeDelta_def less_TimeDelta_def delta_le_def delta_lt_def intro: TimeDelta.expand)

end

instantiation Time :: linorder
begin

definition less_eq_Time :: "Time \<Rightarrow> Time \<Rightarrow> bool" where
  "a \<le> b \<longleftrightarrow> time_le a b"

definition less_Time :: "Time \<Rightarrow> Time \<Rightarrow> bool" where
  "a < b \<longleftrightarrow> time_lt a b"

instance
  by standard (auto simp: less_eq_Time_def less_Time_def time_le_def time_lt_def intro: Time.expand)

end

instantiation TimeTicks :: linorder
begin

definition less_eq_TimeTicks :: "TimeTicks \<Rightarrow> TimeTicks \<Rightarrow> bool" where
  "a \<le> b \<longleftrightarrow> ticks_le a b"

definition less_TimeTicks :: "TimeTicks \<Rightarrow> TimeTicks \<Rightarrow> bool" where
  "a < b \<longleftrightarrow> ticks_lt a b"

instance
  by standard (auto simp: less_eq_TimeTicks_def less_TimeTicks_def ticks_le_def ticks_lt_def intro: TimeTicks.expand)

end

section \<open>Units\<close>

lemma in64: "in_range int64_min int64_max x \<longleftrightarrow> - (2 ^ 63) \<le> x \<and> x \<le> 2 ^ 63 - 1"
  by (simp add: in_range_def int64_min_def int64_max_def)

lemma in32: "in_range int32_min int32_max x \<longleftrightarrow> - (2 ^ 31) \<le> x \<and> x \<le> 2 ^ 31 - 1"
  by (simp add: in_range_def int32_min_def int32_max_def)

lemma sdiv_mult_self [simp]: "0 < (k::int) \<Longrightarrow> (a * k) sdiv k = a"
proof -
  assume k: "0 < k"
  show ?thesis
  proof (cases "0 \<le> a")
    case True
    then show ?thesis using k by (simp add: sdiv_nonneg)
  next
    case False
    then have "a * k < 0" using k by (simp add: mult_less_0_iff)
    then have "(a * k) sdiv k = - ((- (a * k)) div k)" using k by (simp add: sdiv_neg)
    also have "(- (a * k)) div k = - a" using k by (metis mult_minus_left nonzero_mult_div_cancel_right less_irrefl)
    finally show ?thesis by simp
  qed
qed

lemma smod_as_sdiv: "(a::int) smod b = a - (a sdiv b) * b"
  by (simp add: minus_sdiv_mult_eq_smod)

text \<open>
  Durations made of hours or minutes never overflow and are read back exactly; days
  overflow precisely beyond 106751991 of them, either way, and are read back exactly otherwise.
\<close>

theorem duration_units:
  assumes "in_range int32_min int32_max n"
  shows "FromDays n = (if \<bar>n\<bar> \<le> 106751991 then Inr (TimeDelta (n * kMicrosecondsPerDay)) else Inl SignedOverflow) \<and>
    InDays (TimeDelta (n * kMicrosecondsPerDay)) = n \<and>
    FromHours n = Inr (TimeDelta (n * kMicrosecondsPerHour)) \<and>
    InHours (TimeDelta (n * kMicrosecondsPerHour)) = n \<and>
    FromMinutes n = Inr (TimeDelta (n * kMicrosecondsPerMinute)) \<and>
    InMinutes (TimeDelta (n * kMicrosecondsPerMinute)) = n"
proof (intro conjI)
  have n: "- 2147483648 \<le> n" "n \<le> 2147483647" using assms by (simp_all add: in32)
  show "FromDays n = (if \<bar>n\<bar> \<le> 106751991 then Inr (TimeDelta (n * kMicrosecondsPerDay)) else Inl SignedOverflow)"
  proof (cases "\<bar>n\<bar> \<le> 106751991")
    case True
    then have "in_range int64_min int64_max (n * kMicrosecondsPerDay)"
      by (simp add: in64 time_constants abs_le_iff)
    then show ?thesis using True by (simp add: FromDays_def)
  next
    case False
    then have "\<not> in_range int64_min int64_max (n * kMicrosecondsPerDay)"
      by (auto simp: in64 time_constants abs_le_iff)
    then show ?thesis using False by (simp add: FromDays_def)
  qed
  have "in_range int64_min int64_max (n * kMicrosecondsPerHour)"
    "in_range int64_min int64_max (n * kMicrosecondsPerMinute)"
    using n by (simp_all add: in64 time_constants)
  then show "FromHours n = Inr (TimeDelta (n * kMicrosecondsPerHour))"
    "FromMinutes n = Inr (TimeDelta (n * kMicrosecondsPerMinute))"
    by (simp_all add: FromHours_def FromMinutes_def)
  have "0 < kMicrosecondsPerDay" "0 < kMicrosecondsPerHour" "0 < kMicrosecondsPerMinute"
    by (simp_all add: time_constants)
  then show "InDays (TimeDelta (n * kMicrosecondsPerDay)) = n"
    "InHours (TimeDelta (n * kMicrosecondsPerHour)) = n"
    "InMinutes (TimeDelta (n * kMicrosecondsPerMinute)) = n"
    using assms by (simp_all add: InDays_def InHours_def InMinutes_def)
qed

theorem duration_units_witness: "FromDays 106751992 = Inl SignedOverflow \<and> InHours (TimeDelta (- 36000000000)) = - 10"
proof -
  have "in_range int32_min int32_max 106751992" "in_range int32_min int32_max (- 10)" by (simp_all add: in32)
  then show ?thesis using duration_units [of 106751992] duration_units [of "- 10"]
    by (simp add: time_constants)
qed

section \<open>POSIX times\<close>

text \<open>The whole seconds of a time that is not a fraction before the epoch.\<close>

lemma whole_seconds_bounds:
  assumes "- (2 ^ 63) \<le> u" "u \<le> 2 ^ 63 - 1" "\<not> (u < 0 \<and> \<not> 1000000 dvd u)"
  shows "- (2 ^ 63) \<le> u sdiv 1000000 * 1000000 \<and> u sdiv 1000000 * 1000000 \<le> 2 ^ 63 - 1 \<and> u sdiv 1000000 \<noteq> time_t_max"
proof -
  let ?s = "u sdiv 1000000" and ?r = "u smod 1000000"
  have r0: "u < 0 \<Longrightarrow> ?r = 0" using assms(3) smod_neg [of u 1000000] by (auto simp: dvd_eq_mod_eq_0 zmod_zminus1_eq_if)
  have r: "0 \<le> ?r" "?r < 1000000" using r0 smod_nonneg [of u 1000000] by (cases "0 \<le> u"; simp)+
  have e: "?s * 1000000 = u - ?r" by (simp add: smod_as_sdiv)
  have "- 9223372036854775808 \<le> u - ?r" "u - ?r \<le> 9223372036854775807"
    using r r0 assms(1,2) by (cases "u < 0"; simp)+
  then have b: "- 9223372036854775808 \<le> ?s * 1000000" "?s * 1000000 \<le> 9223372036854775807"
    by (simp_all only: e)
  then show ?thesis by (auto simp: time_t_max_def int64_max_def)
qed

text \<open>
  For every 64-bit time, converting to a \<open>timespec\<close> or a \<open>timeval\<close> and back gives the time
  again, the null and the maximal time included, except for a time before the epoch that is not
  a whole second: it becomes a negative fraction, which the way back rejects with a \<open>CHECK\<close>.
\<close>

theorem posix_time_roundtrip:
  assumes "in_range int64_min int64_max (time_us t)"
  shows "FromTimespec (ToTimespec t) =
      (if time_us t < 0 \<and> \<not> 1000000 dvd time_us t then Inl CheckFailed else Inr t) \<and>
    FromTimeval (ToTimeval t) =
      (if time_us t < 0 \<and> \<not> 1000000 dvd time_us t then Inl CheckFailed else Inr t)"
proof -
  define u where "u = time_us t"
  have t: "t = Time u" by (simp add: u_def)
  have u: "- (2 ^ 63) \<le> u" "u \<le> 2 ^ 63 - 1" using assms by (simp_all add: in64 u_def)
  let ?s = "u sdiv 1000000" and ?r = "u smod 1000000"
  show ?thesis
  proof (cases "u = 0 \<or> u = int64_max")
    case True
    then show ?thesis
      by (auto simp: t ToTimespec_def FromTimespec_def ToTimeval_def FromTimeval_def IsNull_def IsMax_def
          Time_default_def MaxTime_def time_constants time_t_max_def int64_max_def)
  next
    case False
    then have spec: "ToTimespec t = \<lparr>tv_sec = ?s, tv_nsec = ?r * 1000\<rparr>"
      and val: "ToTimeval t = \<lparr>tvl_sec = ?s, tvl_usec = ?r\<rparr>"
      by (simp_all add: t ToTimespec_def ToTimeval_def IsNull_def IsMax_def time_constants)
    show ?thesis
    proof (cases "u < 0 \<and> \<not> 1000000 dvd u")
      case True
      then have "?r < 0" using smod_neg [of u 1000000] by (auto simp: dvd_eq_mod_eq_0 zmod_zminus1_eq_if)
      then show ?thesis using True unfolding spec val
        by (simp add: t FromTimespec_def FromTimeval_def bind_res_check)
    next
      case ok: False
      have r: "0 \<le> ?r" "?r < 1000000"
        using ok smod_neg [of u 1000000] smod_nonneg [of u 1000000]
        by (cases "0 \<le> u"; simp add: zmod_zminus1_eq_if dvd_eq_mod_eq_0)+
      have s: "u = ?s * 1000000 + ?r" by (simp add: smod_as_sdiv)
      have sb: "- (2 ^ 63) \<le> ?s * 1000000" "?s * 1000000 \<le> 2 ^ 63 - 1" "?s \<noteq> time_t_max"
        using whole_seconds_bounds [OF u ok] by blast+
      have nz: "\<not> (?r = 0 \<and> ?s = 0)" using s False by auto
      have "checked64 (?s * 1000000) = Inr (?s * 1000000)" "checked64 (?s * 1000000 + ?r) = Inr u"
        using sb(1,2) u s by (simp_all add: in64)
      moreover have "(?r * 1000) sdiv 1000 = ?r" by simp
      ultimately show ?thesis using r sb(3) nz ok unfolding spec val
        by (auto simp: t FromTimespec_def FromTimeval_def time_constants)
    qed
  qed
qed

theorem posix_time_roundtrip_witness:
  "FromTimeval (ToTimeval (Time (- 1))) = Inl CheckFailed \<and>
   FromTimespec (ToTimespec (Time 1700000000123456)) = Inr (Time 1700000000123456)"
proof -
  have "in_range int64_min int64_max (time_us (Time (- 1)))"
    "in_range int64_min int64_max (time_us (Time 1700000000123456))" by (simp_all add: in64)
  then show ?thesis
    using posix_time_roundtrip [of "Time (- 1)"] posix_time_roundtrip [of "Time 1700000000123456"] by simp
qed

text \<open>
  The two second-based views of a time disagree about the epoch.  \<open>FromTimeT\<close> and
  \<open>ToTimeT\<close> undo each other, and \<open>FromTimeval\<close> counts from 1970 as the class promises; but
  \<open>FromTimeT\<close> counts from 1601, so that the \<open>time_t\<close> of a time obtained from \<open>FromTimeval\<close> (as
  \<open>Now\<close> obtains it) is 11644473600 seconds too small.
\<close>

theorem epochs_differ:
  assumes "0 < s" "s < 2 ^ 42"
  shows "FromTimeval \<lparr>tvl_sec = s, tvl_usec = 0\<rparr> = Inr (Time (s * 1000000)) \<and>
    FromTimeT s = Inr (Time ((s + 11644473600) * 1000000)) \<and>
    bind_res (FromTimeT s) ToTimeT = Inr s \<and>
    bind_res (FromTimeval \<lparr>tvl_sec = s, tvl_usec = 0\<rparr>) ToTimeT = Inr (s - 11644473600)"
proof -
  have s: "0 < s" "s < 4398046511104" using assms by simp_all
  have c: "checked64 (s * 1000000) = Inr (s * 1000000)"
    "checked64 (11644473600000000 + s * 1000000) = Inr (11644473600000000 + s * 1000000)"
    "checked64 (s * 1000000 - 11644473600000000) = Inr (s * 1000000 - 11644473600000000)"
    using s by (simp_all add: in64)
  have tv: "FromTimeval \<lparr>tvl_sec = s, tvl_usec = 0\<rparr> = Inr (Time (s * 1000000))"
    using s c(1) by (simp add: FromTimeval_def time_constants time_t_max_def int64_max_def)
  have tt: "FromTimeT s = Inr (Time ((s + 11644473600) * 1000000))"
    using s c(1,2) by (simp add: FromTimeT_def FromSeconds_def time_add_def InMicroseconds_def time_constants
        time_t_max_def int64_max_def algebra_simps)
  have e: "s * 1000000 - 11644473600000000 = (s - 11644473600) * 1000000" by simp
  have e2: "(s * 1000000 - 11644473600000000) sdiv 1000000 = s - 11644473600"
    unfolding e by (rule sdiv_mult_self) simp
  have "ToTimeT (Time (s * 1000000)) = Inr (s - 11644473600)"
    using s c(3) e2 by (simp add: ToTimeT_def IsNull_def IsMax_def time_constants int64_max_def)
  moreover have "ToTimeT (Time ((s + 11644473600) * 1000000)) = Inr s"
    using s c(1) by (simp add: ToTimeT_def IsNull_def IsMax_def time_constants int64_max_def algebra_simps)
  ultimately show ?thesis using tv tt by simp
qed

theorem epochs_differ_witness: "FromTimeT 1700000000 = Inr (Time 13344473600000000)"
  using epochs_differ [of 1700000000] by simp

section \<open>Calendar times\<close>

lemma sdiv_floor: "(m::int) < 0 \<Longrightarrow> 0 < k \<Longrightarrow> (m - k + 1) sdiv k = m div k"
proof -
  assume m: "m < 0" and k: "0 < k"
  have "(m - k + 1) sdiv k = - ((k - 1 - m) div k)" using m k by (simp add: sdiv_neg algebra_simps)
  also have "(k - 1 - m) div k = - (m div k)"
  proof -
    have d: "m = (m div k) * k + m mod k" "0 \<le> m mod k" "m mod k < k" using k by simp_all
    have "k - 1 - m = (k - 1 - m mod k) + (- (m div k)) * k" using d(1) by (simp add: algebra_simps)
    then have "(k - 1 - m) div k = - (m div k) + (k - 1 - m mod k) div k"
      using k by (metis div_mult_self1 add.commute less_irrefl)
    then show ?thesis using d k by simp
  qed
  finally show ?thesis by simp
qed

lemma smod_fixup:
  "(m::int) < 0 \<Longrightarrow> 0 < k \<Longrightarrow> (if m smod k < 0 then m smod k + k else m smod k) = m mod k"
proof -
  assume m: "m < 0" and k: "0 < k"
  have "m smod k = - (if m mod k = 0 then 0 else k - m mod k)"
    using smod_neg [OF m k] by (simp add: zmod_zminus1_eq_if)
  moreover have "m mod k < k" "0 \<le> m mod k" using k by simp_all
  ultimately show ?thesis by auto
qed

text \<open>The seconds and milliseconds of a count round down, before the epoch as well.\<close>

lemma split_microseconds_floor:
  assumes "- (2 ^ 63) + 1000 \<le> m" "m \<le> 2 ^ 63 - 1"
  shows "split_microseconds m = Inr (m div 1000000, m div 1000 mod 1000)"
proof (cases "0 \<le> m")
  case True
  then show ?thesis
    by (simp add: split_microseconds_def time_constants Let_def sdiv_nonneg smod_nonneg
        pos_imp_zdiv_nonneg_iff zdiv_zmult2_eq)
next
  case False
  then have c: "checked64 (m - 1000) = Inr (m - 1000)" using assms by (simp add: in64)
  have n: "m div 1000 < 0" using False by (simp add: pos_imp_zdiv_neg_iff)
  have 1: "(m - 1000 + 1) sdiv 1000 = m div 1000" using sdiv_floor [of m 1000] False by simp
  have 2: "(m div 1000 - 1000 + 1) sdiv 1000 = m div 1000000"
    using sdiv_floor [OF n, of 1000] by (simp add: zdiv_zmult2_eq [symmetric])
  show ?thesis using False c 1 2 smod_fixup [OF n, of 1000]
    by (simp add: split_microseconds_def time_constants Let_def split: if_splits)
qed

text \<open>
  The broken-down time that \<open>FromLocalExploded\<close> passes to \<open>mktime\<close> for a time that
  \<open>localtime_r\<close> gave: its fields, with the daylight flag left open.
\<close>

definition reopened :: "tm \<Rightarrow> tm" where
  "reopened ts = ts\<lparr>tm_yday := 0, tm_isdst := - 1, tm_gmtoff := 0, tm_zone := None\<rparr>"

definition tm_in_range :: "tm \<Rightarrow> bool" where
  "tm_in_range ts \<longleftrightarrow> in_range int32_min int32_max (tm_year ts) \<and> in_range int32_min int32_max (tm_year ts + 1900) \<and>
     in_range int32_min int32_max (tm_mon ts) \<and> in_range int32_min int32_max (tm_mon ts + 1)"

text \<open>The fields \<open>Explode\<close> takes from a broken-down time.\<close>

definition exploded_of :: "tm \<Rightarrow> int \<Rightarrow> Exploded" where
  "exploded_of ts ms = \<lparr>ex_year = tm_year ts + 1900, ex_month = tm_mon ts + 1, ex_day_of_week = tm_wday ts,
     ex_day_of_month = tm_mday ts, ex_hour = tm_hour ts, ex_minute = tm_min ts, ex_second = tm_sec ts, ex_millisecond = ms\<rparr>"

lemma Explode_true:
  assumes "- (2 ^ 63) + 11644473600001000 \<le> v" "v \<le> 2 ^ 63 - 1"
    "tm_in_range (brk True ((v - kWindowsEpochDeltaMicroseconds) div 1000000))"
  shows "Explode brk True (Time v) = Inr (exploded_of (brk True ((v - kWindowsEpochDeltaMicroseconds) div 1000000))
    ((v - kWindowsEpochDeltaMicroseconds) div 1000 mod 1000))"
proof -
  define w :: int where "w = 11644473600000000"
  have W: "kWindowsEpochDeltaMicroseconds = w" by (simp add: time_constants w_def)
  have "- (2 ^ 63) + 1000 \<le> v - w" "v - w \<le> 2 ^ 63 - 1" using assms(1,2) by (simp_all add: w_def)
  note split = split_microseconds_floor [OF this]
  have "checked64 (v - w) = Inr (v - w)" using assms(1,2) by (simp add: in64 w_def)
  then show ?thesis using assms(3) split
    by (simp add: Explode_def W exploded_of_def Let_def tm_in_range_def)
qed

text \<open>
  C28: for a time after 1601 whose local second \<open>mktime\<close> maps back to itself (it is not repeated
  by a change of clocks, nor the second before 1970), \<open>LocalExplode\<close> takes the seconds and milliseconds
  of the count since 1601 rounded down, and \<open>FromLocalExploded\<close> of the result succeeds with the time
  truncated to milliseconds.
\<close>

theorem calendar_roundtrip:
  assumes "in_range int64_min int64_max u" "- (2 ^ 63) + 11644473600002000 \<le> u"
    "s = (u - kWindowsEpochDeltaMicroseconds) div 1000000"
    "tm_in_range (brk True s)" "mk True (reopened (brk True s)) = s" "s \<noteq> - 1"
  shows "\<exists>e. LocalExplode brk (Time u) = Inr e \<and> ex_second e = tm_sec (brk True s) \<and>
    ex_millisecond e = u div 1000 mod 1000 \<and>
    FromLocalExploded mk brk e = Inr (True, Time (u - u mod 1000))"
proof -
  define w :: int where "w = 11644473600000000"
  have W: "kWindowsEpochDeltaMicroseconds = w" by (simp add: time_constants w_def)
  have wm: "w = 11644473600000 * 1000" by (simp add: w_def)
  have dm: "(x - w) div 1000 = x div 1000 - 11644473600000" for x
    using div_mult_self1 [of 1000 x "- 11644473600000"] by (simp add: w_def)
  have ms: "(u - w) div 1000 mod 1000 = u div 1000 mod 1000"
    unfolding dm using mod_mult_self1 [of "u div 1000" "- 11644473600" 1000] by simp
  have s: "s = (u - w) div 1000 div 1000" using assms(3) W by (simp add: zdiv_zmult2_eq [symmetric])
  let ?ts = "brk True s"
  define e where "e = exploded_of ?ts (u div 1000 mod 1000)"
  have ts: "in_range int32_min int32_max (tm_year ?ts)" "in_range int32_min int32_max (tm_year ?ts + 1900)"
     "in_range int32_min int32_max (tm_mon ?ts)" "in_range int32_min int32_max (tm_mon ?ts + 1)"
    using assms(4) by (simp_all add: tm_in_range_def)
  have ex: "Explode brk True (Time v) = Inr e"
    if v: "- (2 ^ 63) + 11644473600001000 \<le> v" "v \<le> 2 ^ 63 - 1" "v div 1000 = u div 1000" for v
  proof -
    have d: "(v - w) div 1000 = (u - w) div 1000" unfolding dm using v(3) by simp
    have "(v - w) div 1000000 = (v - w) div 1000 div 1000" by (simp add: zdiv_zmult2_eq [symmetric])
    then have "(v - w) div 1000000 = s" unfolding d s .
    moreover have "(v - w) div 1000 mod 1000 = u div 1000 mod 1000" unfolding d by (rule ms)
    ultimately show ?thesis using Explode_true [of v brk] v(1,2) assms(4) W by (simp add: e_def)
  qed
  have u: "u \<le> 2 ^ 63 - 1" using assms(1) by (simp add: in64)
  have L: "LocalExplode brk (Time u) = Inr e" using ex [of u] assms(2) u by (simp add: LocalExplode_def)
  define v where "v = u - u mod 1000"
  have v: "v = u div 1000 * 1000" by (simp add: v_def minus_mod_eq_div_mult)
  have vb: "- (2 ^ 63) + 11644473600001000 \<le> v" "v \<le> 2 ^ 63 - 1"
    using assms(2) u pos_mod_bound [of 1000 u] pos_mod_sign [of 1000 u] unfolding v_def by linarith+
  have E: "LocalExplode brk (Time v) = Inr e" using ex [OF vb] by (simp add: v LocalExplode_def)
  have "(u - w) div 1000 = s * 1000 + u div 1000 mod 1000"
    using ms s by (metis div_mult_mod_eq)
  then have m: "s * 1000 + u div 1000 mod 1000 = u div 1000 - 11644473600000" unfolding dm by simp
  have b: "- 9223372036854775808 \<le> s * 1000" "s * 1000 \<le> 9223372036854775807"
    "- 9223372036854775808 \<le> u div 1000 * 1000 - w" "u div 1000 * 1000 - w \<le> 9223372036854775807"
    "- 9223372036854775808 \<le> u div 1000 - 11644473600000" "u div 1000 - 11644473600000 \<le> 9223372036854775807"
    using vb m pos_mod_bound [of 1000 "u div 1000"] pos_mod_sign [of 1000 "u div 1000"]
    unfolding v w_def by simp_all
  have t: "tm_of e = Inr (reopened ?ts)"
    using ts by (simp add: tm_of_def e_def exploded_of_def reopened_def)
  have so: "seconds_of mk True (reopened ?ts) = s"
    using assms(5,6) by (simp add: seconds_of_def)
  have "milliseconds_of s e = Inr (u div 1000 - 11644473600000)"
    using assms(6) b m by (simp add: milliseconds_of_def time_constants in64 e_def exploded_of_def)
  moreover have "(u div 1000 - 11644473600000) * 1000 = u div 1000 * 1000 - w" by (simp add: w_def)
  moreover have "u div 1000 * 1000 - w + w = v" by (simp add: v)
  moreover have "in_range int64_min int64_max v" using vb by (simp add: in64)
  ultimately have "FromLocalExploded mk brk e = Inr (True, Time v)"
    using t so b E unfolding FromLocalExploded_def FromExploded_def W
    by (simp add: in64 kMicrosecondsPerMillisecond_def ExplodedMostlyEquals_def)
  then show ?thesis using L by (intro exI [of _ e]) (simp add: e_def exploded_of_def v_def)
qed

text \<open>A clock without leap years or zones: the seconds of the day and the days since 1970.\<close>

definition plain_brk :: "bool \<Rightarrow> int \<Rightarrow> tm" where
  "plain_brk is_local s = \<lparr>tm_sec = s mod 60, tm_min = s div 60 mod 60, tm_hour = s div 3600 mod 24,
     tm_mday = 1, tm_mon = 0, tm_year = s div 86400, tm_wday = 0, tm_yday = 0, tm_isdst = 0,
     tm_gmtoff = 0, tm_zone = None\<rparr>"

definition plain_mk :: "bool \<Rightarrow> tm \<Rightarrow> int" where
  "plain_mk is_local ts = tm_sec ts + 60 * tm_min ts + 3600 * tm_hour ts + 86400 * tm_year ts"

theorem calendar_roundtrip_witness:
  "\<exists>e. LocalExplode plain_brk (Time 11644473661234567) = Inr e \<and> ex_second e = 1 \<and> ex_millisecond e = 234 \<and>
     FromLocalExploded plain_mk plain_brk e = Inr (True, Time 11644473661234000)"
proof -
  have "in_range int64_min int64_max 11644473661234567" by (simp add: in64)
  moreover have "61 = (11644473661234567 - kWindowsEpochDeltaMicroseconds) div 1000000"
    by (simp add: time_constants)
  moreover have "tm_in_range (plain_brk True 61)" by (simp add: tm_in_range_def plain_brk_def in32)
  moreover have "plain_mk True (reopened (plain_brk True 61)) = 61"
    by (simp add: plain_mk_def reopened_def plain_brk_def)
  ultimately show ?thesis
    using calendar_roundtrip [of 11644473661234567 61 plain_brk plain_mk] by (simp add: plain_brk_def)
qed

end
