(* ===== verification/Posix.thy ===== *)
theory Posix
  imports Timing
begin

text \<open>
  The operating system under the file and network components.  A \<open>kernel\<close> answers every system
  call from the calls made before it; nothing more is assumed of it here, so a statement for all
  kernels covers every interleaving with other processes.  Each call is appended to a \<open>trace\<close>, and
  a failing one sets \<open>errno\<close>.  An operation of the code is an \<open>io\<close>: a function of the
  environment that may fault.

  \<open>HANDLE_EINTR\<close> and \<open>IGNORE_EINTR\<close> of \<open>base/eintr_wrapper.h\<close> loop only when \<open>OS_POSIX\<close> is
  defined; nothing in the repository defines it, so both are the call itself
  (\<open>handle_eintr\<close>, \<open>ignore_eintr\<close>).
\<close>

section \<open>System calls\<close>

text \<open>
  Besides the system calls these are the calls of the network classes to code that is abstract in the
  repository: the event loop (\<open>Loop\<close>), the transfers a connection's subclass makes (\<open>Conn\<close>) and the
  notifications of the subclasses of servers and clients (\<open>Notify\<close>).
\<close>

record stat =
  st_isdir :: bool
  st_islnk :: bool
  st_size :: int
  st_mtim :: timespec
  st_atim :: timespec
  st_ctim :: timespec

text \<open>Addresses: a port with the bytes of a host, absent where they are uninitialised, or a path.\<close>

datatype sockaddr = SockInet int "string option" | SockUnix string

datatype (plugins only: code size) syscall =
    SysOpen string int int
  | SysCreat string int
  | SysClose int
  | SysLseek int int int
  | SysPread int int int
  | SysRead int int
  | SysPwrite int "byte list" int
  | SysWrite int "byte list"
  | SysFstat int
  | SysStat string
  | SysLstat string
  | SysFtruncate int int
  | SysFutimes int timeval timeval
  | SysGetfl int
  | SysSetfl int int
  | SysSetlk int bool
  | SysDup int
  | SysFdatasync int
  | SysUnlink string
  | SysRmdir string
  | SysMkdir string int
  | SysAccess string
  | SysRealpath string
  | SysMkstemp string
  | SysMkdtemp string
  | SysGetenv string
  | SysOpendir string
  | SysReaddir string
  | SysClosedir string
  | SysGetdents int int
  | StdFopen string string
  | StdFclose int
  | StdFdopen int string
  | StdFtell int
  | StdFileno int
  | SysSocket int
  | SysGetsockopt int int int
  | SysSetsockopt int int int int
  | SysBind int sockaddr
  | SysListen int int
  | SysAccept int
  | SysConnect int sockaddr
  | SysGetaddrinfo string
  | LoopRegisterRead int bool
  | LoopUnregisterRead int
  | LoopRegisterWrite int bool
  | LoopUnregisterWrite int
  | LoopRegisterTimer int
  | LoopUnregisterTimer int
  | ConnWrite int
  | ConnHasData int
  | ConnRead int
  | NotifyConnect int
  | NotifyClose int
  | NotifyNewConnection nat
  | NotifyConnectionClose nat int

record reply =
  rp_ret :: int
  rp_errno :: int
  rp_data :: "byte list"
  rp_stat :: stat
  rp_path :: string
  rp_value :: int

record env =
  kernel :: "syscall list \<Rightarrow> syscall \<Rightarrow> reply"
  trace :: "syscall list"
  errno :: int

type_synonym 'a io = "env \<Rightarrow> ('a \<times> env) res"

definition io_return :: "'a \<Rightarrow> 'a io" where
  "io_return x e = Inr (x, e)"

definition io_bind :: "'a io \<Rightarrow> ('a \<Rightarrow> 'b io) \<Rightarrow> 'b io" where
  "io_bind m f e = bind_res (m e) (\<lambda>(x, e'). f x e')"

definition io_check :: "bool \<Rightarrow> unit io" where
  "io_check b e = bind_res (check b) (\<lambda>u. Inr (u, e))"

definition io_lift :: "'a res \<Rightarrow> 'a io" where
  "io_lift r e = bind_res r (\<lambda>x. Inr (x, e))"

definition answer :: "syscall \<Rightarrow> env \<Rightarrow> reply" where
  "answer c e = kernel e (trace e) c"

definition after :: "syscall \<Rightarrow> env \<Rightarrow> env" where
  "after c e = e\<lparr>trace := trace e @ [c],
     errno := (if rp_ret (answer c e) = - 1 then rp_errno (answer c e) else errno e)\<rparr>"

definition sys :: "syscall \<Rightarrow> reply io" where
  "sys c e = Inr (answer c e, after c e)"

definition sys_ret :: "syscall \<Rightarrow> int io" where
  "sys_ret c e = Inr (rp_ret (answer c e), after c e)"

definition get_errno :: "int io" where
  "get_errno e = Inr (errno e, e)"

definition set_errno :: "int \<Rightarrow> unit io" where
  "set_errno n e = Inr ((), e\<lparr>errno := n\<rparr>)"

definition handle_eintr :: "'a io \<Rightarrow> 'a io" where
  "handle_eintr m = m"

definition ignore_eintr :: "'a io \<Rightarrow> 'a io" where
  "ignore_eintr m = m"

lemma io_simps [simp]:
  "io_bind (io_return x) f = f x"
  "io_return x e = Inr (x, e)"
  "io_check True e = Inr ((), e)"
  "io_check False e = Inl CheckFailed"
  "sys c e = Inr (answer c e, after c e)"
  "sys_ret c e = Inr (rp_ret (answer c e), after c e)"
  "get_errno e = Inr (errno e, e)"
  "set_errno n e = Inr ((), e\<lparr>errno := n\<rparr>)"
  "io_lift (Inr x) e = Inr (x, e)"
  "io_lift (Inl t) e = Inl t"
  "handle_eintr m = m"
  "ignore_eintr m = m"
  by (simp_all add: io_bind_def io_return_def io_check_def sys_def sys_ret_def get_errno_def set_errno_def
      io_lift_def handle_eintr_def ignore_eintr_def fun_eq_iff)

lemma io_bind_apply: "io_bind m f e = (case m e of Inl t \<Rightarrow> Inl t | Inr (x, e') \<Rightarrow> f x e')"
  by (simp add: io_bind_def bind_res_def)

lemma io_bind_Inr [simp]: "m e = Inr (x, e') \<Longrightarrow> io_bind m f e = f x e'"
  by (simp add: io_bind_def)

lemma io_bind_Inl [simp]: "m e = Inl t \<Longrightarrow> io_bind m f e = Inl t"
  by (simp add: io_bind_def)

lemma io_bind_check: "io_bind (io_check b) f e = (if b then f () e else Inl CheckFailed)"
  by (cases b) simp_all

lemma kernel_after [simp]: "kernel (after c e) = kernel e"
  by (simp add: after_def)

lemma trace_after [simp]: "trace (after c e) = trace e @ [c]"
  by (simp add: after_def)

text \<open>The calls made so far, with what they returned.\<close>

definition answered :: "env \<Rightarrow> (syscall \<times> int) list" where
  "answered e = map (\<lambda>i. (trace e ! i, rp_ret (kernel e (take i (trace e)) (trace e ! i)))) [0..<length (trace e)]"

lemma length_answered [simp]: "length (answered e) = length (trace e)"
  by (simp add: answered_def)

lemma answered_after [simp]: "answered (after c e) = answered e @ [(c, rp_ret (answer c e))]"
  by (simp add: answered_def answer_def nth_append)

lemma answered_errno [simp]: "answered (e\<lparr>errno := n\<rparr>) = answered e"
  by (simp add: answered_def)

lemma bind_res_cong [fundef_cong]:
  "m = m' \<Longrightarrow> (\<And>x. m' = Inr x \<Longrightarrow> f x = g x) \<Longrightarrow> bind_res m f = bind_res m' g"
  by (cases m') simp_all

section \<open>Flags and error numbers (Linux, x86-64)\<close>

definition O_RDONLY :: int where "O_RDONLY = 0"
definition O_WRONLY :: int where "O_WRONLY = 1"
definition O_RDWR :: int where "O_RDWR = 2"
definition O_CREAT :: int where "O_CREAT = 64"
definition O_EXCL :: int where "O_EXCL = 128"
definition O_NOCTTY :: int where "O_NOCTTY = 256"
definition O_TRUNC :: int where "O_TRUNC = 512"
definition O_APPEND :: int where "O_APPEND = 1024"
definition O_NONBLOCK :: int where "O_NONBLOCK = 2048"
definition O_NDELAY :: int where "O_NDELAY = 2048"

definition EPERM :: int where "EPERM = 1"
definition ENOENT :: int where "ENOENT = 2"
definition EINTR :: int where "EINTR = 4"
definition EIO :: int where "EIO = 5"
definition EAGAIN :: int where "EAGAIN = 11"
definition ENOMEM :: int where "ENOMEM = 12"
definition EACCES :: int where "EACCES = 13"
definition EBUSY :: int where "EBUSY = 16"
definition EEXIST :: int where "EEXIST = 17"
definition ENOTDIR :: int where "ENOTDIR = 20"
definition EISDIR :: int where "EISDIR = 21"
definition EMFILE :: int where "EMFILE = 24"
definition ETXTBSY :: int where "ETXTBSY = 26"
definition ENOSPC :: int where "ENOSPC = 28"
definition EROFS :: int where "EROFS = 30"
definition EOPNOTSUPP :: int where "EOPNOTSUPP = 95"
definition EINPROGRESS :: int where "EINPROGRESS = 115"

lemmas open_flags = O_RDONLY_def O_WRONLY_def O_RDWR_def O_CREAT_def O_EXCL_def O_NOCTTY_def
  O_TRUNC_def O_APPEND_def O_NONBLOCK_def O_NDELAY_def

lemmas errnos = EPERM_def ENOENT_def EINTR_def EIO_def EAGAIN_def ENOMEM_def EACCES_def EBUSY_def
  EEXIST_def ENOTDIR_def EISDIR_def EMFILE_def ETXTBSY_def ENOSPC_def EROFS_def EOPNOTSUPP_def
  EINPROGRESS_def

section \<open>Transfers\<close>

text \<open>
  The loop that reads and writes share: repeat the call for what is left until it fails, meets the
  end, or everything is transferred; report the count, or the call's own result if nothing was.
\<close>

function transfer_loop :: "(int \<Rightarrow> 's \<Rightarrow> (int \<times> 's) res) \<Rightarrow> int \<Rightarrow> int \<Rightarrow> 's \<Rightarrow> (int \<times> 's) res" where
  "transfer_loop step sz n s =
     bind_res (step n s) (\<lambda>(rv, s').
       if rv \<le> 0 then Inr (if n \<noteq> 0 then n else rv, s')
       else bind_res (checked32 (n + rv)) (\<lambda>m.
         if m < sz then transfer_loop step sz m s' else Inr (m, s')))"
  by pat_completeness auto
termination
  by (relation "measure (\<lambda>(step, sz, n, s). nat (sz - n))") (auto simp: checked_eq_Inr)

declare transfer_loop.simps [simp del]

text \<open>A read stores what the kernel delivers at the given place of the caller's buffer.\<close>

definition store_reply :: "reply \<Rightarrow> byte list \<Rightarrow> int \<Rightarrow> byte list res" where
  "store_reply r buf n = mem_write buf (nat n) (rp_data r)"

definition pread_into :: "int \<Rightarrow> int \<Rightarrow> int \<Rightarrow> int \<Rightarrow> byte list \<times> env \<Rightarrow> (int \<times> byte list \<times> env) res" where
  "pread_into fd sz offset n s =
     (let (buf, e) = s; c = SysPread fd (sz - n) (offset + n); r = answer c e
      in bind_res (store_reply r buf n) (\<lambda>buf'. Inr (to_int32 (rp_ret r), buf', after c e)))"

definition read_into :: "int \<Rightarrow> int \<Rightarrow> int \<Rightarrow> byte list \<times> env \<Rightarrow> (int \<times> byte list \<times> env) res" where
  "read_into fd sz n s =
     (let (buf, e) = s; c = SysRead fd (sz - n); r = answer c e
      in bind_res (store_reply r buf n) (\<lambda>buf'. Inr (to_int32 (rp_ret r), buf', after c e)))"

definition pwrite_from :: "int \<Rightarrow> byte list \<Rightarrow> int \<Rightarrow> int \<Rightarrow> int \<Rightarrow> env \<Rightarrow> (int \<times> env) res" where
  "pwrite_from fd data sz offset n e =
     bind_res (mem_read data (nat n) (nat (sz - n))) (\<lambda>bs.
       let c = SysPwrite fd bs (offset + n) in Inr (to_int32 (rp_ret (answer c e)), after c e))"

definition write_from :: "int \<Rightarrow> byte list \<Rightarrow> int \<Rightarrow> int \<Rightarrow> env \<Rightarrow> (int \<times> env) res" where
  "write_from fd data sz n e =
     bind_res (mem_read data (nat n) (nat (sz - n))) (\<lambda>bs.
       let c = SysWrite fd bs in Inr (to_int32 (rp_ret (answer c e)), after c e))"

end
