(* ===== verification/File.thy ===== *)
theory File
  imports FilePath Posix
begin

text \<open>
  \<open>base/file.h\<close> and \<open>base/file.cc\<close>: the \<open>File\<close> class over the system calls of theory
  \<open>Posix\<close>.  A \<open>file\<close> is the object (its descriptor, \<open>- 1\<close> when it owns none, and its three
  flags); an operation that changes it returns the new object.  \<open>base/scoped_file.h\<close> is the
  descriptor's owner: \<open>fd_reset\<close> closes what it held.  \<open>off_t\<close> and \<open>int64_t\<close> values are integers;
  the \<open>ssize_t\<close> results of the transfers are narrowed to \<open>int\<close> as the code narrows them.
\<close>

section \<open>Flags, errors and the object\<close>

definition FLAG_OPEN :: "32 word" where "FLAG_OPEN = push_bit 0 1"
definition FLAG_CREATE :: "32 word" where "FLAG_CREATE = push_bit 1 1"
definition FLAG_OPEN_ALWAYS :: "32 word" where "FLAG_OPEN_ALWAYS = push_bit 2 1"
definition FLAG_CREATE_ALWAYS :: "32 word" where "FLAG_CREATE_ALWAYS = push_bit 3 1"
definition FLAG_OPEN_TRUNCATED :: "32 word" where "FLAG_OPEN_TRUNCATED = push_bit 4 1"
definition FLAG_READ :: "32 word" where "FLAG_READ = push_bit 5 1"
definition FLAG_WRITE :: "32 word" where "FLAG_WRITE = push_bit 6 1"
definition FLAG_APPEND :: "32 word" where "FLAG_APPEND = push_bit 7 1"
definition FLAG_EXCLUSIVE_READ :: "32 word" where "FLAG_EXCLUSIVE_READ = push_bit 8 1"
definition FLAG_EXCLUSIVE_WRITE :: "32 word" where "FLAG_EXCLUSIVE_WRITE = push_bit 9 1"
definition FLAG_ASYNC :: "32 word" where "FLAG_ASYNC = push_bit 10 1"
definition FLAG_DELETE_ON_CLOSE :: "32 word" where "FLAG_DELETE_ON_CLOSE = push_bit 13 1"
definition FLAG_WRITE_ATTRIBUTES :: "32 word" where "FLAG_WRITE_ATTRIBUTES = push_bit 14 1"
definition FLAG_TERMINAL_DEVICE :: "32 word" where "FLAG_TERMINAL_DEVICE = push_bit 16 1"

definition has_flag :: "32 word \<Rightarrow> 32 word \<Rightarrow> bool" where
  "has_flag flags f \<longleftrightarrow> flags AND f \<noteq> 0"

lemmas file_flags = FLAG_OPEN_def FLAG_CREATE_def FLAG_OPEN_ALWAYS_def FLAG_CREATE_ALWAYS_def
  FLAG_OPEN_TRUNCATED_def FLAG_READ_def FLAG_WRITE_def FLAG_APPEND_def FLAG_EXCLUSIVE_READ_def
  FLAG_EXCLUSIVE_WRITE_def FLAG_ASYNC_def FLAG_DELETE_ON_CLOSE_def FLAG_WRITE_ATTRIBUTES_def
  FLAG_TERMINAL_DEVICE_def has_flag_def

datatype (plugins only: code size) file_error =
    FILE_OK | FILE_ERROR_FAILED | FILE_ERROR_IN_USE | FILE_ERROR_EXISTS | FILE_ERROR_NOT_FOUND
  | FILE_ERROR_ACCESS_DENIED | FILE_ERROR_TOO_MANY_OPENED | FILE_ERROR_NO_MEMORY
  | FILE_ERROR_NO_SPACE | FILE_ERROR_NOT_A_DIRECTORY | FILE_ERROR_INVALID_OPERATION
  | FILE_ERROR_SECURITY | FILE_ERROR_ABORT | FILE_ERROR_NOT_A_FILE | FILE_ERROR_NOT_EMPTY
  | FILE_ERROR_INVALID_URL | FILE_ERROR_IO | FILE_ERROR_MAX

primrec ErrorToString :: "file_error \<Rightarrow> string" where
  "ErrorToString FILE_OK = ''FILE_OK''"
| "ErrorToString FILE_ERROR_FAILED = ''FILE_ERROR_FAILED''"
| "ErrorToString FILE_ERROR_IN_USE = ''FILE_ERROR_IN_USE''"
| "ErrorToString FILE_ERROR_EXISTS = ''FILE_ERROR_EXISTS''"
| "ErrorToString FILE_ERROR_NOT_FOUND = ''FILE_ERROR_NOT_FOUND''"
| "ErrorToString FILE_ERROR_ACCESS_DENIED = ''FILE_ERROR_ACCESS_DENIED''"
| "ErrorToString FILE_ERROR_TOO_MANY_OPENED = ''FILE_ERROR_TOO_MANY_OPENED''"
| "ErrorToString FILE_ERROR_NO_MEMORY = ''FILE_ERROR_NO_MEMORY''"
| "ErrorToString FILE_ERROR_NO_SPACE = ''FILE_ERROR_NO_SPACE''"
| "ErrorToString FILE_ERROR_NOT_A_DIRECTORY = ''FILE_ERROR_NOT_A_DIRECTORY''"
| "ErrorToString FILE_ERROR_INVALID_OPERATION = ''FILE_ERROR_INVALID_OPERATION''"
| "ErrorToString FILE_ERROR_SECURITY = ''FILE_ERROR_SECURITY''"
| "ErrorToString FILE_ERROR_ABORT = ''FILE_ERROR_ABORT''"
| "ErrorToString FILE_ERROR_NOT_A_FILE = ''FILE_ERROR_NOT_A_FILE''"
| "ErrorToString FILE_ERROR_NOT_EMPTY = ''FILE_ERROR_NOT_EMPTY''"
| "ErrorToString FILE_ERROR_INVALID_URL = ''FILE_ERROR_INVALID_URL''"
| "ErrorToString FILE_ERROR_IO = ''FILE_ERROR_IO''"
| "ErrorToString FILE_ERROR_MAX = ''''"

definition OSErrorToFileError :: "int \<Rightarrow> file_error" where
  "OSErrorToFileError e =
     (if e \<in> {EACCES, EISDIR, EROFS, EPERM} then FILE_ERROR_ACCESS_DENIED
      else if e \<in> {EBUSY, ETXTBSY} then FILE_ERROR_IN_USE
      else if e = EEXIST then FILE_ERROR_EXISTS
      else if e = EIO then FILE_ERROR_IO
      else if e = ENOENT then FILE_ERROR_NOT_FOUND
      else if e = EMFILE then FILE_ERROR_TOO_MANY_OPENED
      else if e = ENOMEM then FILE_ERROR_NO_MEMORY
      else if e = ENOSPC then FILE_ERROR_NO_SPACE
      else if e = ENOTDIR then FILE_ERROR_NOT_A_DIRECTORY
      else FILE_ERROR_FAILED)"

record file_obj =
  file_fd :: int
  error_details :: file_error
  created :: bool
  async :: bool

definition InvalidValue_fd :: int where "InvalidValue_fd = - 1"

definition File_default :: file_obj where
  "File_default =
     \<lparr>file_fd = InvalidValue_fd, error_details = FILE_ERROR_FAILED, created = False, async = False\<rparr>"

definition File_of_fd :: "int \<Rightarrow> file_obj res" where
  "File_of_fd fd = bind_res (check (- 1 \<le> fd)) (\<lambda>_.
     Inr \<lparr>file_fd = fd, error_details = FILE_OK, created = False, async = False\<rparr>)"

definition File_of_error :: "file_error \<Rightarrow> file_obj" where
  "File_of_error err =
     \<lparr>file_fd = InvalidValue_fd, error_details = err, created = False, async = False\<rparr>"

definition IsValid :: "file_obj \<Rightarrow> bool" where
  "IsValid f \<longleftrightarrow> file_fd f \<noteq> InvalidValue_fd"

definition GetPlatformFile :: "file_obj \<Rightarrow> int" where
  "GetPlatformFile f = file_fd f"

text \<open>The scoped descriptor: releasing gives it away, resetting closes it first.\<close>

definition TakePlatformFile :: "file_obj \<Rightarrow> int \<times> file_obj" where
  "TakePlatformFile f = (file_fd f, f\<lparr>file_fd := InvalidValue_fd\<rparr>)"

definition ScopedFD_Free :: "int \<Rightarrow> int io" where
  "ScopedFD_Free fd = ignore_eintr (sys_ret (SysClose fd))"

definition fd_reset :: "int \<Rightarrow> file_obj \<Rightarrow> file_obj io" where
  "fd_reset v f =
     io_bind (io_check (\<not> (file_fd f \<noteq> InvalidValue_fd \<and> file_fd f = v))) (\<lambda>_.
     if file_fd f \<noteq> InvalidValue_fd
     then io_bind (ScopedFD_Free (file_fd f)) (\<lambda>_. io_return (f\<lparr>file_fd := v\<rparr>))
     else io_return (f\<lparr>file_fd := v\<rparr>))"

definition SetPlatformFile :: "int \<Rightarrow> file_obj \<Rightarrow> file_obj io" where
  "SetPlatformFile fd f = io_bind (io_check (\<not> IsValid f)) (\<lambda>_. fd_reset fd f)"

definition Close :: "file_obj \<Rightarrow> file_obj io" where
  "Close f = (if \<not> IsValid f then io_return f else fd_reset InvalidValue_fd f)"

definition File_destroy :: "file_obj \<Rightarrow> file_obj io" where
  "File_destroy f = Close f"

text \<open>Moving yields the new object and what is left of the old one.\<close>

definition File_move :: "file_obj \<Rightarrow> file_obj \<times> file_obj" where
  "File_move other =
     (let (fd, rest) = TakePlatformFile other
      in (\<lparr>file_fd = fd, error_details = error_details other, created = created other,
           async = async other\<rparr>, rest))"

definition File_move_assign :: "bool \<Rightarrow> file_obj \<Rightarrow> file_obj \<Rightarrow> (file_obj \<times> file_obj) io" where
  "File_move_assign same_object f other =
     io_bind (io_check (\<not> same_object)) (\<lambda>_.
     io_bind (Close f) (\<lambda>f.
       let (fd, rest) = TakePlatformFile other
       in io_bind (SetPlatformFile fd f) (\<lambda>f.
            io_return (f\<lparr>error_details := error_details other, created := created other,
                         async := async other\<rparr>, rest))))"

definition CreateForAsyncHandle :: "int \<Rightarrow> file_obj res" where
  "CreateForAsyncHandle fd = bind_res (File_of_fd fd) (\<lambda>f. Inr (f\<lparr>async := True\<rparr>))"

section \<open>Opening\<close>

text \<open>The flags passed to \<open>open\<close>; \<open>None\<close> is the early return for flags that ask for nothing.\<close>

definition creation_flags :: "32 word \<Rightarrow> int res" where
  "creation_flags flags =
     (let open_flags = (if has_flag flags FLAG_CREATE then O_CREAT OR O_EXCL else 0)
      in bind_res
           (if has_flag flags FLAG_CREATE_ALWAYS
            then bind_res (check (open_flags = 0)) (\<lambda>_.
                 bind_res (check (has_flag flags FLAG_WRITE)) (\<lambda>_. Inr (O_CREAT OR O_TRUNC)))
            else Inr open_flags) (\<lambda>open_flags.
           if has_flag flags FLAG_OPEN_TRUNCATED
           then bind_res (check (open_flags = 0)) (\<lambda>_.
                bind_res (check (has_flag flags FLAG_WRITE)) (\<lambda>_. Inr (O_CREAT OR O_TRUNC)))
           else Inr open_flags))"

definition access_flags :: "32 word \<Rightarrow> int \<Rightarrow> int" where
  "access_flags flags open_flags =
     (let open_flags =
            (if has_flag flags FLAG_WRITE \<and> has_flag flags FLAG_READ then open_flags OR O_RDWR
             else if has_flag flags FLAG_WRITE then open_flags OR O_WRONLY
             else open_flags);
          open_flags =
            (if has_flag flags FLAG_TERMINAL_DEVICE then open_flags OR (O_NOCTTY OR O_NDELAY)
             else open_flags)
      in if has_flag flags FLAG_APPEND \<and> has_flag flags FLAG_READ
         then open_flags OR (O_APPEND OR O_RDWR)
         else if has_flag flags FLAG_APPEND then open_flags OR (O_APPEND OR O_WRONLY)
         else open_flags)"

definition open_mode :: int where "open_mode = 384"

definition open_file :: "file_path \<Rightarrow> 32 word \<Rightarrow> int \<Rightarrow> file_obj \<Rightarrow> file_obj io" where
  "open_file path flags open_flags f =
     io_bind (handle_eintr (sys_ret (SysOpen path open_flags open_mode))) (\<lambda>descriptor.
     io_bind
       (if has_flag flags FLAG_OPEN_ALWAYS \<and> descriptor < 0
        then let open_flags = open_flags OR O_CREAT;
                 open_flags =
                   (if has_flag flags FLAG_EXCLUSIVE_READ \<or> has_flag flags FLAG_EXCLUSIVE_WRITE
                    then open_flags OR O_EXCL else open_flags)
             in io_bind (handle_eintr (sys_ret (SysOpen path open_flags open_mode))) (\<lambda>descriptor.
                  io_return (descriptor, if 0 \<le> descriptor then f\<lparr>created := True\<rparr> else f))
        else io_return (descriptor, f)) (\<lambda>(descriptor, f).
     if descriptor < 0
     then io_bind get_errno (\<lambda>n. io_return (f\<lparr>error_details := OSErrorToFileError n\<rparr>))
     else let f = (if has_flag flags (FLAG_CREATE_ALWAYS OR FLAG_CREATE)
                   then f\<lparr>created := True\<rparr> else f)
          in io_bind
               (if has_flag flags FLAG_DELETE_ON_CLOSE
                then io_bind (sys_ret (SysUnlink path)) (\<lambda>_. io_return ()) else io_return ()) (\<lambda>_.
             fd_reset descriptor
               (f\<lparr>async := (flags AND FLAG_ASYNC = FLAG_ASYNC), error_details := FILE_OK\<rparr>))))"

definition DoInitialize :: "file_path \<Rightarrow> 32 word \<Rightarrow> file_obj \<Rightarrow> file_obj io" where
  "DoInitialize path flags f =
     io_bind (io_check (\<not> IsValid f)) (\<lambda>_.
       let f = f\<lparr>created := False\<rparr>
       in io_bind (io_lift (creation_flags flags)) (\<lambda>open_flags.
            if open_flags = 0 \<and> \<not> has_flag flags FLAG_OPEN \<and> \<not> has_flag flags FLAG_OPEN_ALWAYS
            then io_bind (set_errno EOPNOTSUPP) (\<lambda>_.
                 io_return (f\<lparr>error_details := FILE_ERROR_FAILED\<rparr>))
            else open_file path flags (access_flags flags open_flags) f))"

definition Initialize :: "file_path \<Rightarrow> 32 word \<Rightarrow> file_obj \<Rightarrow> file_obj io" where
  "Initialize path flags f =
     (if ReferencesParent path
      then io_return (f\<lparr>error_details := FILE_ERROR_ACCESS_DENIED\<rparr>)
      else DoInitialize path flags f)"

definition File_open :: "file_path \<Rightarrow> 32 word \<Rightarrow> file_obj io" where
  "File_open path flags =
     Initialize path flags
       \<lparr>file_fd = InvalidValue_fd, error_details = FILE_OK, created = False, async = False\<rparr>"

section \<open>Transfers\<close>

datatype whence = FROM_BEGIN | FROM_CURRENT | FROM_END

primrec whence_int :: "whence \<Rightarrow> int" where
  "whence_int FROM_BEGIN = 0"
| "whence_int FROM_CURRENT = 1"
| "whence_int FROM_END = 2"

definition Seek :: "file_obj \<Rightarrow> whence \<Rightarrow> int \<Rightarrow> int io" where
  "Seek f w offset = sys_ret (SysLseek (file_fd f) offset (whence_int w))"

text \<open>The reads take the caller's buffer and return it with the count.\<close>

definition with_buffer :: "(byte list \<times> env \<Rightarrow> (int \<times> byte list \<times> env) res) \<Rightarrow> byte list \<Rightarrow> (int \<times> byte list) io" where
  "with_buffer m data e = bind_res (m (data, e)) (\<lambda>(n, data, e). Inr ((n, data), e))"

definition Read :: "file_obj \<Rightarrow> int \<Rightarrow> byte list \<Rightarrow> int \<Rightarrow> (int \<times> byte list) io" where
  "Read f offset data sz =
     io_bind (io_check (IsValid f)) (\<lambda>_.
       if sz < 0 then io_return (- 1, data)
       else with_buffer (transfer_loop (pread_into (file_fd f) sz offset) sz 0) data)"

definition ReadAtCurrentPos :: "file_obj \<Rightarrow> byte list \<Rightarrow> int \<Rightarrow> (int \<times> byte list) io" where
  "ReadAtCurrentPos f data sz =
     io_bind (io_check (IsValid f)) (\<lambda>_.
       if sz < 0 then io_return (- 1, data)
       else with_buffer (transfer_loop (read_into (file_fd f) sz) sz 0) data)"

definition ReadNoBestEffort :: "file_obj \<Rightarrow> int \<Rightarrow> byte list \<Rightarrow> int \<Rightarrow> (int \<times> byte list) io" where
  "ReadNoBestEffort f offset data sz =
     io_bind (io_check (IsValid f)) (\<lambda>_. with_buffer (pread_into (file_fd f) sz offset 0) data)"

definition ReadAtCurrentPosNoBestEffort :: "file_obj \<Rightarrow> byte list \<Rightarrow> int \<Rightarrow> (int \<times> byte list) io" where
  "ReadAtCurrentPosNoBestEffort f data sz =
     io_bind (io_check (IsValid f)) (\<lambda>_.
       if sz < 0 then io_return (- 1, data)
       else with_buffer (read_into (file_fd f) sz 0) data)"

definition IsOpenAppend :: "int \<Rightarrow> bool io" where
  "IsOpenAppend fd = io_bind (sys_ret (SysGetfl fd)) (\<lambda>r. io_return (r AND O_APPEND \<noteq> 0))"

definition WriteAtCurrentPos :: "file_obj \<Rightarrow> byte list \<Rightarrow> int \<Rightarrow> int io" where
  "WriteAtCurrentPos f data sz =
     io_bind (io_check (IsValid f)) (\<lambda>_.
       if sz < 0 then io_return (- 1)
       else transfer_loop (write_from (file_fd f) data sz) sz 0)"

definition WriteAtCurrentPosNoBestEffort :: "file_obj \<Rightarrow> byte list \<Rightarrow> int \<Rightarrow> int io" where
  "WriteAtCurrentPosNoBestEffort f data sz =
     io_bind (io_check (IsValid f)) (\<lambda>_.
       if sz < 0 then io_return (- 1) else write_from (file_fd f) data sz 0)"

definition Write :: "file_obj \<Rightarrow> int \<Rightarrow> byte list \<Rightarrow> int \<Rightarrow> int io" where
  "Write f offset data sz =
     io_bind (IsOpenAppend (file_fd f)) (\<lambda>append.
       if append then WriteAtCurrentPos f data sz
       else io_bind (io_check (IsValid f)) (\<lambda>_.
            if sz < 0 then io_return (- 1)
            else transfer_loop (pwrite_from (file_fd f) data sz offset) sz 0))"

section \<open>Metadata, locks and duplicates\<close>

definition CallFstat :: "int \<Rightarrow> (int \<times> stat) io" where
  "CallFstat fd = io_bind (sys (SysFstat fd)) (\<lambda>r. io_return (rp_ret r, rp_stat r))"

text \<open>\<open>return false\<close> from a function that returns \<open>int64_t\<close> is 0.\<close>

definition GetLength :: "file_obj \<Rightarrow> int io" where
  "GetLength f =
     io_bind (io_check (IsValid f)) (\<lambda>_.
     io_bind (CallFstat (file_fd f)) (\<lambda>(r, st).
       io_return (if r \<noteq> 0 then 0 else st_size st)))"

definition CallFtruncate :: "int \<Rightarrow> int \<Rightarrow> int io" where
  "CallFtruncate fd len = handle_eintr (sys_ret (SysFtruncate fd len))"

definition SetLength :: "file_obj \<Rightarrow> int \<Rightarrow> bool io" where
  "SetLength f len =
     io_bind (io_check (IsValid f)) (\<lambda>_.
     io_bind (CallFtruncate (file_fd f) len) (\<lambda>r. io_return (r = 0)))"

definition CallFutimes :: "int \<Rightarrow> timeval \<Rightarrow> timeval \<Rightarrow> int io" where
  "CallFutimes fd t0 t1 = sys_ret (SysFutimes fd t0 t1)"

definition SetTimes :: "file_obj \<Rightarrow> Time \<Rightarrow> Time \<Rightarrow> bool io" where
  "SetTimes f last_access_time last_modified_time =
     io_bind (io_check (IsValid f)) (\<lambda>_.
     io_bind (CallFutimes (file_fd f) (ToTimeval last_access_time) (ToTimeval last_modified_time)) (\<lambda>r.
       io_return (r = 0)))"

record file_info =
  info_size :: int
  is_directory :: bool
  is_symbolic_link :: bool
  last_modified :: Time
  last_accessed :: Time
  creation_time :: Time

definition Info_default :: file_info where
  "Info_default = \<lparr>info_size = 0, is_directory = False, is_symbolic_link = False,
     last_modified = Time_default, last_accessed = Time_default, creation_time = Time_default\<rparr>"

definition stat_time :: "timespec \<Rightarrow> Time res" where
  "stat_time ts = bind_res (FromTimeT (tv_sec ts)) (\<lambda>t.
     time_add t (FromMicroseconds (tv_nsec ts sdiv kNanosecondsPerMicrosecond)))"

definition FromStat :: "stat \<Rightarrow> file_info res" where
  "FromStat st =
     bind_res (stat_time (st_mtim st)) (\<lambda>m.
     bind_res (stat_time (st_atim st)) (\<lambda>a.
     bind_res (stat_time (st_ctim st)) (\<lambda>c.
       Inr \<lparr>info_size = st_size st, is_directory = st_isdir st, is_symbolic_link = st_islnk st,
            last_modified = m, last_accessed = a, creation_time = c\<rparr>)))"

definition GetInfo :: "file_obj \<Rightarrow> file_info \<Rightarrow> (bool \<times> file_info) io" where
  "GetInfo f info =
     io_bind (io_check (IsValid f)) (\<lambda>_.
     io_bind (CallFstat (file_fd f)) (\<lambda>(r, st).
       if r \<noteq> 0 then io_return (False, info)
       else io_bind (io_lift (FromStat st)) (\<lambda>i. io_return (True, i))))"

definition CallFcntlFlock :: "int \<Rightarrow> bool \<Rightarrow> file_error io" where
  "CallFcntlFlock fd do_lock =
     io_bind (handle_eintr (sys_ret (SysSetlk fd do_lock))) (\<lambda>r.
       if r = - 1 then io_bind get_errno (\<lambda>n. io_return (OSErrorToFileError n))
       else io_return FILE_OK)"

definition Lock :: "file_obj \<Rightarrow> file_error io" where
  "Lock f = CallFcntlFlock (file_fd f) True"

definition Unlock :: "file_obj \<Rightarrow> file_error io" where
  "Unlock f = CallFcntlFlock (file_fd f) False"

definition Duplicate :: "file_obj \<Rightarrow> file_obj io" where
  "Duplicate f =
     (if \<not> IsValid f then io_return File_default
      else io_bind (sys_ret (SysDup (GetPlatformFile f))) (\<lambda>fd.
           if fd = - 1 then io_bind get_errno (\<lambda>n. io_return (File_of_error (OSErrorToFileError n)))
           else io_bind (io_lift (File_of_fd fd)) (\<lambda>other.
                io_return (if async f then other\<lparr>async := True\<rparr> else other))))"

definition DoFlush :: "file_obj \<Rightarrow> bool io" where
  "DoFlush f =
     io_bind (io_check (IsValid f)) (\<lambda>_.
     io_bind (handle_eintr (sys_ret (SysFdatasync (file_fd f)))) (\<lambda>r. io_return (r = 0)))"

definition Flush :: "file_obj \<Rightarrow> bool io" where
  "Flush f = DoFlush f"

section \<open>Reading a file that the kernel serves in pieces\<close>

text \<open>
  What a regular file promises \<open>pread\<close>: from the offset it delivers some of the bytes that are
  there, at most as many as asked for, and none only at the end or when none are asked for.
\<close>

definition pread_ok :: "byte list \<Rightarrow> int \<Rightarrow> int \<Rightarrow> reply \<Rightarrow> bool" where
  "pread_ok content count offset r \<longleftrightarrow>
     rp_ret r = int (length (rp_data r)) \<and> rp_ret r \<le> count \<and>
     rp_data r = take (length (rp_data r)) (drop (nat offset) content) \<and>
     (rp_data r = [] \<longrightarrow> count = 0 \<or> int (length content) \<le> offset)"

definition serves :: "(syscall list \<Rightarrow> syscall \<Rightarrow> reply) \<Rightarrow> int \<Rightarrow> byte list \<Rightarrow> bool" where
  "serves k fd content \<longleftrightarrow>
     (\<forall>h count offset. 0 \<le> count \<longrightarrow> 0 \<le> offset \<longrightarrow> pread_ok content count offset (k h (SysPread fd count offset)))"

lemma nat_diff_int: "0 \<le> a \<Longrightarrow> 0 \<le> b \<Longrightarrow> nat (a + b) = nat a + nat b"
  by (simp add: nat_add_distrib)

text \<open>One call: the piece it delivers, which is empty at the end of the file only.\<close>

lemma pread_once:
  assumes "serves (kernel e) fd content" "0 \<le> offset" "0 \<le> n" "n \<le> sz" "sz < 2 ^ 31" "nat sz \<le> length mem"
  obtains bs e1 where
    "pread_into fd sz offset n (mem, e) = Inr (int (length bs), splice_at mem (nat n) bs, e1)" "kernel e1 = kernel e"
    "int (length bs) \<le> sz - n" "bs = take (length bs) (drop (nat (offset + n)) content)"
    "bs = [] \<Longrightarrow> sz = n \<or> int (length content) \<le> offset + n"
proof -
  define c where "c = SysPread fd (sz - n) (offset + n)"
  define r where "r = answer c e"
  define bs where "bs = rp_data r"
  have "pread_ok content (sz - n) (offset + n) r"
    using assms(1-4) by (simp add: serves_def r_def c_def answer_def)
  then have r: "rp_ret r = int (length bs)" "int (length bs) \<le> sz - n" "bs = take (length bs) (drop (nat (offset + n)) content)"
    "bs = [] \<Longrightarrow> sz = n \<or> int (length content) \<le> offset + n"
    by (auto simp: pread_ok_def bs_def)
  have room: "nat n + length bs \<le> length mem" using r(2) assms(3,6) by linarith
  have to: "to_int32 (int (length bs)) = int (length bs)"
    using r(2) assms(3,5) by (intro to_int32_in) (simp add: in32)
  have "pread_into fd sz offset n (mem, e) = Inr (int (length bs), splice_at mem (nat n) bs, after c e)"
    using room r(1) to unfolding pread_into_def c_def [symmetric] r_def [symmetric]
    by (simp add: Let_def store_reply_def bs_def [symmetric] r_def [symmetric] c_def [symmetric])
  then show ?thesis using r(2-4) that [of bs "after c e"] by simp
qed

lemma slice_split:
  assumes "bs = take (length bs) (drop (nat (offset + n)) content)" "int (length bs) \<le> sz - n" "0 \<le> offset" "0 \<le> n"
  shows "take (nat (sz - n)) (drop (nat (offset + n)) content) =
    bs @ take (nat (sz - (n + int (length bs)))) (drop (nat (offset + (n + int (length bs)))) content)"
proof -
  have "nat (sz - n) = length bs + nat (sz - (n + int (length bs)))" using assms(2) by linarith
  moreover have "nat (offset + (n + int (length bs))) = nat (offset + n) + length bs" using assms(3,4) by linarith
  ultimately show ?thesis using assms(1) by (simp add: take_add add.commute)
qed

lemma pread_loop:
  assumes "serves (kernel e) fd content" "0 \<le> offset" "0 \<le> n" "n \<le> sz" "sz < 2 ^ 31"
    "nat sz \<le> length mem" "n = 0 \<or> n < sz"
  shows "\<exists>e'. transfer_loop (pread_into fd sz offset) sz n (mem, e) =
    Inr (n + int (length (take (nat (sz - n)) (drop (nat (offset + n)) content))),
         splice_at mem (nat n) (take (nat (sz - n)) (drop (nat (offset + n)) content)), e') \<and>
    kernel e' = kernel e"
  using assms
proof (induction "nat (sz - n)" arbitrary: n mem e rule: less_induct)
  case less
  obtain bs e1 where one: "pread_into fd sz offset n (mem, e) = Inr (int (length bs), splice_at mem (nat n) bs, e1)"
      "kernel e1 = kernel e" "int (length bs) \<le> sz - n"
      "bs = take (length bs) (drop (nat (offset + n)) content)" "bs = [] \<Longrightarrow> sz = n \<or> int (length content) \<le> offset + n"
    using pread_once [OF less.prems(1-6)] by blast
  let ?m = "n + int (length bs)"
  define x where "x = take (nat (sz - ?m)) (drop (nat (offset + ?m)) content)"
  have slice: "take (nat (sz - n)) (drop (nat (offset + n)) content) = bs @ x"
    unfolding x_def using slice_split [OF one(4,3) less.prems(2,3)] .
  have ck: "checked32 ?m = Inr ?m" using one(3) less.prems(3,5) by (simp add: in32)
  have nm: "nat ?m = nat n + length bs" using less.prems(3) by (simp add: nat_add_distrib)
  show ?case
  proof (cases "bs = [] \<or> \<not> ?m < sz")
    case True
    then have "x = []" using one(5) less.prems(2,3) by (auto simp: x_def)
    then show ?thesis unfolding slice using one(1,2) ck True by (subst transfer_loop.simps) auto
  next
    case False
    then have lt: "nat (sz - ?m) < nat (sz - n)" "?m < sz" "bs \<noteq> []" by simp_all
    have room: "nat n + length bs \<le> length mem" using one(3) less.prems(3,6) by linarith
    obtain e' where e': "transfer_loop (pread_into fd sz offset) sz ?m (splice_at mem (nat n) bs, e1) =
        Inr (?m + int (length x), splice_at (splice_at mem (nat n) bs) (nat ?m) x, e')" "kernel e' = kernel e1"
      using less.hyps [OF lt(1), of e1 "splice_at mem (nat n) bs"] one(2) less.prems room lt(2) unfolding x_def by auto
    have "length x \<le> nat (sz - ?m)" by (simp add: x_def)
    then have "nat n + length (bs @ x) \<le> length mem" using less.prems(3,6) lt(2) nm by simp
    then have "splice_at (splice_at mem (nat n) bs) (nat ?m) x = splice_at mem (nat n) (bs @ x)"
      using nm by (intro splice_at_splice_at) simp_all
    then show ?thesis
      unfolding slice using e' one(1,2) ck lt by (subst transfer_loop.simps) simp
  qed
qed

text \<open>
  C13: however the kernel cuts a regular file's contents into short reads, \<open>Read\<close> of \<open>size\<close> bytes
  at an offset into a large enough buffer returns the number of bytes the file has there, up to
  \<open>size\<close>, leaves exactly these bytes at the start of the buffer and the rest of the buffer alone.
\<close>

theorem read_returns_slice:
  assumes "serves (kernel e) (file_fd f) content" "IsValid f" "0 \<le> offset" "0 \<le> sz" "sz < 2 ^ 31"
    "nat sz \<le> length data"
  shows "\<exists>e'. Read f offset data sz e =
    Inr ((int (length (take (nat sz) (drop (nat offset) content))),
          splice_at data 0 (take (nat sz) (drop (nat offset) content))), e')"
  using pread_loop [of e "file_fd f" content offset 0 sz data] assms
  by (auto simp: Read_def with_buffer_def)

definition byte_server :: "byte list \<Rightarrow> syscall list \<Rightarrow> syscall \<Rightarrow> reply" where
  "byte_server content h c =
     \<lparr>rp_ret = (case c of SysPread fd n off \<Rightarrow> int (length (take (min 1 (nat n)) (drop (nat off) content))) | _ \<Rightarrow> 0),
      rp_errno = 0,
      rp_data = (case c of SysPread fd n off \<Rightarrow> take (min 1 (nat n)) (drop (nat off) content) | _ \<Rightarrow> []),
      rp_stat = \<lparr>st_isdir = False, st_islnk = False, st_size = 0, st_mtim = \<lparr>tv_sec = 0, tv_nsec = 0\<rparr>,
        st_atim = \<lparr>tv_sec = 0, tv_nsec = 0\<rparr>, st_ctim = \<lparr>tv_sec = 0, tv_nsec = 0\<rparr>\<rparr>,
      rp_path = [], rp_value = 0\<rparr>"

theorem read_returns_slice_witness:
  "\<exists>e'. Read \<lparr>file_fd = 5, error_details = FILE_OK, created = False, async = False\<rparr> 1 [0, 0, 0, 0] 3
     \<lparr>kernel = byte_server [10, 20, 30], trace = [], errno = 0\<rparr> = Inr ((2, [20, 30, 0, 0]), e')"
proof -
  have "serves (byte_server content) fd content" for content fd
    by (auto simp: serves_def pread_ok_def byte_server_def min_def)
  then show ?thesis
    using read_returns_slice [of "\<lparr>kernel = byte_server [10, 20, 30], trace = [], errno = 0\<rparr>"
      "\<lparr>file_fd = 5, error_details = FILE_OK, created = False, async = False\<rparr>" "[10, 20, 30]" 1 3 "[0, 0, 0, 0]"]
    by (simp add: IsValid_def InvalidValue_fd_def splice_at_def)
qed

section \<open>Writing through a kernel that takes part of each request\<close>

definition accepts :: "(syscall list \<Rightarrow> syscall \<Rightarrow> reply) \<Rightarrow> int \<Rightarrow> bool" where
  "accepts k fd \<longleftrightarrow> (\<forall>h bs offset. bs \<noteq> [] \<longrightarrow>
     1 \<le> rp_ret (k h (SysPwrite fd bs offset)) \<and> rp_ret (k h (SysPwrite fd bs offset)) \<le> int (length bs))"

text \<open>What a run of calls made to land in the file: pieces and where each starts.\<close>

primrec landed :: "(syscall list \<Rightarrow> syscall \<Rightarrow> reply) \<Rightarrow> syscall list \<Rightarrow> syscall list \<Rightarrow> (int \<times> byte list) list" where
  "landed k h [] = []"
| "landed k h (c # cs) =
     (case c of SysPwrite fd bs offset \<Rightarrow> [(offset, take (nat (rp_ret (k h c))) bs)] | _ \<Rightarrow> []) @
     landed k (h @ [c]) cs"

primrec contiguous :: "int \<Rightarrow> (int \<times> byte list) list \<Rightarrow> bool" where
  "contiguous offset [] = True"
| "contiguous offset (p # ps) = (fst p = offset \<and> contiguous (offset + int (length (snd p))) ps)"

text \<open>One call: how much of the rest of the data it takes, and where that lands.\<close>

lemma pwrite_once:
  assumes "accepts (kernel e) fd" "0 \<le> n" "n < sz" "sz < 2 ^ 31" "nat sz \<le> length data"
  obtains c rv where
    "pwrite_from fd data sz offset n e = Inr (rv, after c e)" "1 \<le> rv" "rv \<le> sz - n"
    "\<And>cs. landed (kernel e) (trace e) (c # cs) =
      (offset + n, take (nat rv) (drop (nat n) data)) # landed (kernel e) (trace e @ [c]) cs"
proof -
  let ?bs = "take (nat (sz - n)) (drop (nat n) data)"
  define c where "c = SysPwrite fd ?bs (offset + n)"
  define rv where "rv = rp_ret (answer c e)"
  have len: "length ?bs = nat (sz - n)" using assms(2,3,5) by simp
  then have "length ?bs \<noteq> 0" using assms(3) by linarith
  then have "?bs \<noteq> []" by (metis list.size(3))
  then have "1 \<le> rv \<and> rv \<le> int (length ?bs)"
    using assms(1) unfolding accepts_def rv_def c_def answer_def by blast
  then have rv: "1 \<le> rv" "rv \<le> sz - n" using assms(3) unfolding len by simp_all
  have to: "to_int32 rv = rv" using rv assms(2,4) by (intro to_int32_in) (simp add: in32)
  have "mem_read data (nat n) (nat (sz - n)) = Inr ?bs" using assms(2,3,5) by (intro mem_read_in) simp
  then have "pwrite_from fd data sz offset n e = Inr (rv, after c e)"
    using to by (simp add: pwrite_from_def Let_def c_def [symmetric] rv_def [symmetric])
  moreover have "take (nat rv) ?bs = take (nat rv) (drop (nat n) data)" using rv by (simp add: min.absorb1)
  then have "landed (kernel e) (trace e) (c # cs) =
      (offset + n, take (nat rv) (drop (nat n) data)) # landed (kernel e) (trace e @ [c]) cs" for cs
    by (simp add: c_def rv_def answer_def)
  ultimately show ?thesis using rv that by blast
qed

lemma pwrite_loop:
  assumes "accepts (kernel e) fd" "0 \<le> n" "n < sz" "sz < 2 ^ 31" "nat sz \<le> length data"
  shows "\<exists>cs e'. transfer_loop (pwrite_from fd data sz offset) sz n e = Inr (sz, e') \<and>
    kernel e' = kernel e \<and> trace e' = trace e @ cs \<and>
    contiguous (offset + n) (landed (kernel e) (trace e) cs) \<and>
    concat (map snd (landed (kernel e) (trace e) cs)) = take (nat (sz - n)) (drop (nat n) data)"
  using assms
proof (induction "nat (sz - n)" arbitrary: n e rule: less_induct)
  case less
  let ?piece = "\<lambda>rv. take (nat rv) (drop (nat n) data)"
  obtain c rv where one: "pwrite_from fd data sz offset n e = Inr (rv, after c e)" and rv: "1 \<le> rv" "rv \<le> sz - n"
    and land: "\<And>cs. landed (kernel e) (trace e) (c # cs) = (offset + n, ?piece rv) # landed (kernel e) (trace e @ [c]) cs"
    using pwrite_once [OF less.prems] by blast
  have ck: "checked32 (n + rv) = Inr (n + rv)" using rv less.prems(2,4) by (simp add: in32)
  have lrv: "length (?piece rv) = nat rv" using rv less.prems(2,3,5) by simp
  show ?case
  proof (cases "n + rv < sz")
    case True
    have "nat (sz - (n + rv)) < nat (sz - n)" using rv True by simp
    from less.hyps [OF this, of "after c e"] obtain cs e' where
      e': "transfer_loop (pwrite_from fd data sz offset) sz (n + rv) (after c e) = Inr (sz, e')"
        "kernel e' = kernel e" "trace e' = (trace e @ [c]) @ cs"
        "contiguous (offset + (n + rv)) (landed (kernel e) (trace e @ [c]) cs)"
        "concat (map snd (landed (kernel e) (trace e @ [c]) cs)) =
           take (nat (sz - (n + rv))) (drop (nat (n + rv)) data)"
      using less.prems rv True by auto
    have "nat (sz - n) = nat rv + nat (sz - (n + rv))" "nat (n + rv) = nat rv + nat n"
      using rv True less.prems(2) by linarith+
    then have "?piece (sz - n) = ?piece rv @ take (nat (sz - (n + rv))) (drop (nat (n + rv)) data)"
      by (simp only: take_add drop_drop)
    then have "concat (map snd (landed (kernel e) (trace e) (c # cs))) = ?piece (sz - n)"
      unfolding land by (simp only: list.map snd_conv concat.simps e'(5))
    moreover have "contiguous (offset + n) (landed (kernel e) (trace e) (c # cs))"
      unfolding land using e'(4) lrv rv by (simp add: add.assoc)
    moreover have "transfer_loop (pwrite_from fd data sz offset) sz n e = Inr (sz, e')"
      using one ck rv True e'(1) by (subst transfer_loop.simps) simp
    ultimately show ?thesis using e'(2,3) by (intro exI [of _ "c # cs"] exI [of _ e']) simp
  next
    case False
    then have full: "n + rv = sz" "rv = sz - n" using rv by simp_all
    have "concat (map snd (landed (kernel e) (trace e) [c])) = ?piece (sz - n)" unfolding land full(2) by simp
    moreover have "contiguous (offset + n) (landed (kernel e) (trace e) [c])" unfolding land by simp
    moreover have "transfer_loop (pwrite_from fd data sz offset) sz n e = Inr (sz, after c e)"
      using one ck rv full(1) by (subst transfer_loop.simps) simp
    ultimately show ?thesis by (intro exI [of _ "[c]"] exI [of _ "after c e"]) simp
  qed
qed

text \<open>
  C14: writing \<open>size\<close> bytes at an offset of a file not opened for appending returns \<open>size\<close>
  however little the kernel takes at a time, and the pieces that land in the file are, in order
  and without gap or overlap from the offset on, exactly these bytes.
\<close>

theorem write_delivers_all:
  assumes "accepts (kernel e) (file_fd f)" "IsValid f" "0 < sz" "sz < 2 ^ 31" "nat sz \<le> length data"
    "rp_ret (answer (SysGetfl (file_fd f)) e) AND O_APPEND = 0"
  shows "\<exists>cs e'. Write f offset data sz e = Inr (sz, e') \<and>
    trace e' = trace e @ SysGetfl (file_fd f) # cs \<and>
    contiguous offset (landed (kernel e) (trace e @ [SysGetfl (file_fd f)]) cs) \<and>
    concat (map snd (landed (kernel e) (trace e @ [SysGetfl (file_fd f)]) cs)) = take (nat sz) data"
proof -
  let ?g = "SysGetfl (file_fd f)"
  obtain cs e' where w: "transfer_loop (pwrite_from (file_fd f) data sz offset) sz 0 (after ?g e) = Inr (sz, e')"
    and r:
    "trace e' = trace e @ ?g # cs"
    "contiguous offset (landed (kernel e) (trace e @ [?g]) cs)"
    "concat (map snd (landed (kernel e) (trace e @ [?g]) cs)) = take (nat sz) data"
    using pwrite_loop [of "after ?g e" "file_fd f" 0 sz data offset] assms by auto
  have "Write f offset data sz e = Inr (sz, e')"
    using assms(2,3,6) w by (simp add: Write_def IsOpenAppend_def io_bind_apply)
  then show ?thesis using r by blast
qed

definition stingy_kernel :: "syscall list \<Rightarrow> syscall \<Rightarrow> reply" where
  "stingy_kernel h c =
     (byte_server [] h c)\<lparr>rp_ret := (case c of SysPwrite fd bs off \<Rightarrow> if bs = [] then 0 else 1 | _ \<Rightarrow> 0)\<rparr>"

theorem write_delivers_all_witness:
  "\<exists>e'. Write \<lparr>file_fd = 5, error_details = FILE_OK, created = False, async = False\<rparr> 100 [1, 2, 3] 3
     \<lparr>kernel = stingy_kernel, trace = [], errno = 0\<rparr> = Inr (3, e')"
proof -
  have a: "accepts stingy_kernel fd" for fd
    by (simp add: accepts_def stingy_kernel_def Suc_le_eq)
  have g: "rp_ret (answer (SysGetfl 5) \<lparr>kernel = stingy_kernel, trace = [], errno = 0\<rparr>) AND O_APPEND = 0"
    by (simp add: answer_def stingy_kernel_def)
  show ?thesis
    using write_delivers_all [of "\<lparr>kernel = stingy_kernel, trace = [], errno = 0\<rparr>"
      "\<lparr>file_fd = 5, error_details = FILE_OK, created = False, async = False\<rparr>" 3 "[1, 2, 3]" 100] a g
    by (auto simp: IsValid_def InvalidValue_fd_def)
qed

section \<open>Opening, failing, and the clock\<close>

lemma OSError_not_ok: "OSErrorToFileError n \<noteq> FILE_OK"
  by (simp add: OSErrorToFileError_def)

text \<open>The descriptors a stretch of calls has opened and not closed again.\<close>

fun hold :: "int list \<Rightarrow> syscall \<times> int \<Rightarrow> int list" where
  "hold ds (c, r) = (case c of
     SysOpen path fl mode \<Rightarrow> if 0 \<le> r then ds @ [r] else ds
   | SysCreat path mode \<Rightarrow> if 0 \<le> r then ds @ [r] else ds
   | SysDup fd \<Rightarrow> if 0 \<le> r then ds @ [r] else ds
   | SysClose fd \<Rightarrow> remove1 fd ds
   | _ \<Rightarrow> ds)"

definition held_since :: "env \<Rightarrow> env \<Rightarrow> int list" where
  "held_since e e' = foldl hold [] (drop (length (trace e)) (answered e'))"

text \<open>What \<open>open_file\<close> leaves, for an object that owns nothing.\<close>

lemma open_file_result:
  assumes "file_fd f = - 1" "\<not> created f" "open_file path flags oflags f e = Inr (f', e')"
  shows "(0 \<le> file_fd f' \<and> error_details f' = FILE_OK \<and> held_since e e' = [file_fd f'] \<or>
      file_fd f' = - 1 \<and> error_details f' = OSErrorToFileError (errno e') \<and> held_since e e' = [] \<and> \<not> created f') \<and>
    (\<exists>calls. trace e' = trace e @ calls \<and> calls \<noteq> [] \<and>
      (SysUnlink path \<in> set calls \<longleftrightarrow> 0 \<le> file_fd f' \<and> has_flag flags FLAG_DELETE_ON_CLOSE) \<and>
      (\<forall>p fl m. SysOpen p fl m \<in> set calls \<longrightarrow> p = path \<and> m = open_mode))"
  using assms
  by (auto simp: open_file_def io_bind_apply fd_reset_def InvalidValue_fd_def Let_def held_since_def
      split: if_splits sum.splits)

text \<open>
  C30: whatever the kernel answers, opening a path either trips a \<open>DCHECK\<close> on contradictory flags or gives
  an object that owns exactly what was opened for it: when its error is \<open>FILE_OK\<close> it holds the one
  descriptor that \<open>open\<close> returned and that is not closed, and otherwise it holds none and none is left
  open, its error is that of the last \<open>errno\<close>, and nothing counts as created.  The file is unlinked exactly
  when it was opened with the flag to delete it on close.  A path that climbs through \<open>..\<close> is refused
  without a single system call.
\<close>

theorem open_result:
  assumes "File_open path flags e = Inr (f, e')"
  shows "(IsValid f \<longleftrightarrow> error_details f = FILE_OK) \<and>
    held_since e e' = (if IsValid f then [file_fd f] else []) \<and>
    (\<not> IsValid f \<longrightarrow> \<not> created f \<and>
      (if ReferencesParent path then error_details f = FILE_ERROR_ACCESS_DENIED \<and> e' = e
       else error_details f = OSErrorToFileError (errno e'))) \<and>
    (\<exists>calls. trace e' = trace e @ calls \<and>
      (SysUnlink path \<in> set calls \<longleftrightarrow> IsValid f \<and> has_flag flags FLAG_DELETE_ON_CLOSE) \<and>
      (\<forall>p fl m. SysOpen p fl m \<in> set calls \<longrightarrow> p = path \<and> m = open_mode \<and> \<not> ReferencesParent path))"
proof (cases "ReferencesParent path")
  case True
  then show ?thesis using assms
    by (auto simp: File_open_def Initialize_def IsValid_def held_since_def)
next
  case False
  let ?f0 = "\<lparr>file_fd = InvalidValue_fd, error_details = FILE_OK, created = False, async = False\<rparr>"
  have D: "DoInitialize path flags ?f0 e = Inr (f, e')"
    using assms False by (simp add: File_open_def Initialize_def)
  then obtain oflags where c: "creation_flags flags = Inr oflags"
    by (cases "creation_flags flags") (simp_all add: DoInitialize_def IsValid_def io_bind_apply io_lift_def Let_def)
  show ?thesis
  proof (cases "oflags = 0 \<and> \<not> has_flag flags FLAG_OPEN \<and> \<not> has_flag flags FLAG_OPEN_ALWAYS")
    case True
    then have "f = ?f0\<lparr>error_details := FILE_ERROR_FAILED\<rparr>" "e' = e\<lparr>errno := EOPNOTSUPP\<rparr>"
      using D c by (simp_all add: DoInitialize_def IsValid_def io_bind_apply Let_def)
    moreover have "OSErrorToFileError EOPNOTSUPP = FILE_ERROR_FAILED" by (simp add: OSErrorToFileError_def errnos)
    ultimately show ?thesis using False by (simp add: IsValid_def held_since_def)
  next
    case some: False
    have "open_file path flags (access_flags flags oflags) ?f0 e = Inr (f, e')"
      using D c some by (auto simp: DoInitialize_def IsValid_def io_bind_apply Let_def)
    from open_file_result [OF _ _ this] show ?thesis using False OSError_not_ok [of "errno e'"]
      by (auto simp: IsValid_def InvalidValue_fd_def)
  qed
qed

text \<open>A kernel that grants what does not insist on finding a file.\<close>

definition opening_kernel :: "syscall list \<Rightarrow> syscall \<Rightarrow> reply" where
  "opening_kernel h c = (byte_server [] h c)\<lparr>rp_ret := (case c of SysOpen p fl m \<Rightarrow> if fl AND O_CREAT = 0 then - 1 else 6 | _ \<Rightarrow> 0),
     rp_errno := ENOENT\<rparr>"

theorem open_result_witness:
  "\<exists>f e'. File_open ''a'' FLAG_OPEN_ALWAYS \<lparr>kernel = opening_kernel, trace = [], errno = 0\<rparr> = Inr (f, e') \<and>
     file_fd f = 6 \<and> held_since \<lparr>kernel = opening_kernel, trace = [], errno = 0\<rparr> e' = [6]"
proof -
  let ?e = "\<lparr>kernel = opening_kernel, trace = [], errno = 0\<rparr>"
  have "path_names ''a'' = [''a'']" by code_simp
  then have r: "\<not> ReferencesParent ''a''"
    using GetComponents_names [of "''a''"] by (simp add: wf_path_def ReferencesParent_def kParentDirectory_def)
  have h: "has_flag FLAG_OPEN_ALWAYS FLAG_OPEN_ALWAYS"
    "\<forall>g \<in> {FLAG_OPEN, FLAG_CREATE, FLAG_CREATE_ALWAYS, FLAG_OPEN_TRUNCATED, FLAG_WRITE, FLAG_READ, FLAG_APPEND,
       FLAG_TERMINAL_DEVICE, FLAG_EXCLUSIVE_READ, FLAG_EXCLUSIVE_WRITE, FLAG_DELETE_ON_CLOSE, FLAG_CREATE_ALWAYS OR FLAG_CREATE}.
       \<not> has_flag FLAG_OPEN_ALWAYS g"
    by (simp_all add: file_flags)
  have "\<exists>f e'. File_open ''a'' FLAG_OPEN_ALWAYS ?e = Inr (f, e') \<and> file_fd f = 6"
    using r h
    by (simp add: File_open_def Initialize_def DoInitialize_def creation_flags_def access_flags_def open_file_def
        IsValid_def InvalidValue_fd_def Let_def io_bind_apply fd_reset_def answer_def opening_kernel_def open_flags)
  then obtain f e' where f: "File_open ''a'' FLAG_OPEN_ALWAYS ?e = Inr (f, e')" "file_fd f = 6" by blast
  then show ?thesis using open_result [OF f(1)] by (auto simp: IsValid_def InvalidValue_fd_def)
qed

definition clock_ok :: "timespec \<Rightarrow> bool" where
  "clock_ok ts \<longleftrightarrow> 0 < tv_sec ts \<and> tv_sec ts < 2 ^ 42 \<and> 0 \<le> tv_nsec ts \<and> tv_nsec ts < 1000000000"

definition shifted :: "timespec \<Rightarrow> timeval" where
  "shifted ts = \<lparr>tvl_sec = tv_sec ts + 11644473600, tvl_usec = tv_nsec ts div 1000\<rparr>"

lemma stat_time_shifted:
  assumes "clock_ok ts"
  shows "\<exists>t. stat_time ts = Inr t \<and> ToTimeval t = shifted ts"
proof -
  define s where "s = tv_sec ts" define ns where "ns = tv_nsec ts"
  have s: "0 < s" "s < 4398046511104" and ns: "0 \<le> ns" "ns < 1000000000"
    using assms by (simp_all add: clock_ok_def s_def ns_def)
  define u where "u = ns div 1000"
  have u: "0 \<le> u" "u < 1000000" using ns by (simp_all add: u_def)
  have nsu: "ns sdiv 1000 = u" using ns by (simp add: u_def sdiv_nonneg)
  let ?b = "(s + 11644473600) * 1000000"
  have c: "checked64 (s * 1000000) = Inr (s * 1000000)" "checked64 (11644473600000000 + s * 1000000) = Inr ?b"
    "checked64 (?b + u) = Inr (?b + u)"
    using s u by (simp_all add: in64 algebra_simps)
  have "FromTimeT s = Inr (Time ?b)"
    using s c(1,2) by (simp add: FromTimeT_def FromSeconds_def time_add_def InMicroseconds_def time_constants
        time_t_max_def int64_max_def)
  then have st: "stat_time ts = Inr (Time (?b + u))"
    using c(3) by (simp add: stat_time_def s_def [symmetric] ns_def [symmetric] time_add_def InMicroseconds_def
        FromMicroseconds_def kNanosecondsPerMicrosecond_def nsu)
  have pos: "0 < ?b + u" "?b + u \<noteq> int64_max" using s u by (simp_all add: int64_max_def)
  have eq: "?b + u = u + (s + 11644473600) * 1000000" by simp
  have "(?b + u) div 1000000 = s + 11644473600" "(?b + u) mod 1000000 = u"
    unfolding eq div_mult_self1 [OF zero_neq_numeral [symmetric]] mod_mult_self1 using u by simp_all
  then have "ToTimeval (Time (?b + u)) = \<lparr>tvl_sec = s + 11644473600, tvl_usec = u\<rparr>"
    using pos by (simp add: ToTimeval_def IsNull_def IsMax_def time_constants sdiv_nonneg smod_nonneg)
  then show ?thesis using st by (simp add: shifted_def s_def ns_def u_def)
qed

text \<open>
  Giving a file its own times back does not leave it alone: \<open>GetInfo\<close> reads the times the
  kernel reports as counted from 1601 and \<open>SetTimes\<close> writes them as counted from 1970, so the file
  ends up dated 11644473600 seconds (369 years) later.
\<close>

theorem own_times_shift:
  assumes "IsValid f" "rp_ret (answer (SysFstat (file_fd f)) e) = 0"
    "st = rp_stat (answer (SysFstat (file_fd f)) e)"
    "clock_ok (st_mtim st)" "clock_ok (st_atim st)" "clock_ok (st_ctim st)"
  shows "\<exists>i e1 ok e2. GetInfo f info e = Inr ((True, i), e1) \<and>
    SetTimes f (last_accessed i) (last_modified i) e1 = Inr (ok, e2) \<and>
    trace e2 = trace e @ [SysFstat (file_fd f),
      SysFutimes (file_fd f) (shifted (st_atim st)) (shifted (st_mtim st))]"
proof -
  obtain m a c where "stat_time (st_mtim st) = Inr m" "ToTimeval m = shifted (st_mtim st)"
    "stat_time (st_atim st) = Inr a" "ToTimeval a = shifted (st_atim st)" "stat_time (st_ctim st) = Inr c"
    using stat_time_shifted assms(4-6) by metis
  then show ?thesis
    using assms(1-3)
    by (simp add: GetInfo_def SetTimes_def CallFstat_def CallFutimes_def FromStat_def io_bind_apply)
qed

definition dated_kernel :: "syscall list \<Rightarrow> syscall \<Rightarrow> reply" where
  "dated_kernel h c = (byte_server [] h c)\<lparr>rp_stat :=
     \<lparr>st_isdir = False, st_islnk = False, st_size = 3, st_mtim = \<lparr>tv_sec = 1700000000, tv_nsec = 5000\<rparr>,
      st_atim = \<lparr>tv_sec = 1700000000, tv_nsec = 0\<rparr>, st_ctim = \<lparr>tv_sec = 1700000000, tv_nsec = 0\<rparr>\<rparr>\<rparr>"

theorem own_times_shift_witness:
  "\<exists>i e1 ok e2. GetInfo \<lparr>file_fd = 5, error_details = FILE_OK, created = False, async = False\<rparr> Info_default
       \<lparr>kernel = dated_kernel, trace = [], errno = 0\<rparr> = Inr ((True, i), e1) \<and>
     SetTimes \<lparr>file_fd = 5, error_details = FILE_OK, created = False, async = False\<rparr>
       (last_accessed i) (last_modified i) e1 = Inr (ok, e2) \<and>
     trace e2 = [SysFstat 5, SysFutimes 5 \<lparr>tvl_sec = 13344473600, tvl_usec = 0\<rparr>
                                          \<lparr>tvl_sec = 13344473600, tvl_usec = 5\<rparr>]"
  using own_times_shift [of "\<lparr>file_fd = 5, error_details = FILE_OK, created = False, async = False\<rparr>"
      "\<lparr>kernel = dated_kernel, trace = [], errno = 0\<rparr>" _ Info_default, OF _ _ refl]
  by (simp add: IsValid_def InvalidValue_fd_def answer_def dated_kernel_def byte_server_def clock_ok_def shifted_def)

text \<open>
  A failing call surfaces at once.  \<open>Read\<close> whose first \<open>pread\<close> fails returns \<open>- 1\<close> after that one
  call, also for \<open>EINTR\<close>, which the compiled \<open>HANDLE_EINTR\<close> does not retry; a failing lock reports
  the translated \<open>errno\<close>; a failing \<open>fstat\<close> makes \<open>GetLength\<close> report an empty file; and on an object that
  owns no descriptor each of these trips its \<open>DCHECK\<close>, except the lock, which has none.
\<close>

theorem file_failures:
  assumes "IsValid f" "0 \<le> sz"
    "rp_ret (answer (SysPread (file_fd f) sz offset) e) = - 1"
    "rp_data (answer (SysPread (file_fd f) sz offset) e) = []"
    "rp_ret (answer (SysFstat (file_fd f)) e) \<noteq> 0"
    "rp_ret (answer (SysSetlk (file_fd f) True) e) = - 1"
    "\<not> IsValid g"
  shows "Read f offset data sz e = Inr ((- 1, data), after (SysPread (file_fd f) sz offset) e) \<and>
    GetLength f e = Inr (0, after (SysFstat (file_fd f)) e) \<and>
    Lock f e = Inr (OSErrorToFileError (rp_errno (answer (SysSetlk (file_fd f) True) e)),
                    after (SysSetlk (file_fd f) True) e) \<and>
    Read g offset data sz e = Inl CheckFailed \<and> GetLength g e = Inl CheckFailed"
proof (intro conjI)
  have m: "mem_write data 0 [] = Inr data" by (simp add: mem_write_def)
  have t: "to_int32 (- 1) = - 1" by (simp add: in32)
  have "pread_into (file_fd f) sz offset 0 (data, e) = Inr (- 1, data, after (SysPread (file_fd f) sz offset) e)"
    using assms(3,4) m t by (simp add: pread_into_def store_reply_def Let_def)
  then show "Read f offset data sz e = Inr ((- 1, data), after (SysPread (file_fd f) sz offset) e)"
    using assms(1,2) by (simp add: Read_def with_buffer_def transfer_loop.simps)
  show "GetLength f e = Inr (0, after (SysFstat (file_fd f)) e)"
    using assms(1,5) by (simp add: GetLength_def CallFstat_def io_bind_apply)
  show "Lock f e = Inr (OSErrorToFileError (rp_errno (answer (SysSetlk (file_fd f) True) e)),
      after (SysSetlk (file_fd f) True) e)"
    using assms(6) by (simp add: Lock_def CallFcntlFlock_def io_bind_apply) (simp add: after_def)
  show "Read g offset data sz e = Inl CheckFailed" "GetLength g e = Inl CheckFailed"
    using assms(7) by (simp_all add: Read_def GetLength_def io_bind_apply)
qed

definition broken_kernel :: "syscall list \<Rightarrow> syscall \<Rightarrow> reply" where
  "broken_kernel h c = (byte_server [] h c)\<lparr>rp_ret := - 1, rp_errno := EINTR, rp_data := []\<rparr>"

theorem file_failures_witness:
  "GetLength \<lparr>file_fd = 5, error_details = FILE_OK, created = False, async = False\<rparr>
     \<lparr>kernel = broken_kernel, trace = [], errno = 0\<rparr> =
   Inr (0, \<lparr>kernel = broken_kernel, trace = [SysFstat 5], errno = EINTR\<rparr>)"
  using file_failures [of "\<lparr>file_fd = 5, error_details = FILE_OK, created = False, async = False\<rparr>" 1 0
      "\<lparr>kernel = broken_kernel, trace = [], errno = 0\<rparr>" File_default "[0]"]
  by (simp add: IsValid_def InvalidValue_fd_def File_default_def answer_def broken_kernel_def after_def)

end
