(* ===== verification/FileEnum.thy ===== *)
theory FileEnum
  imports File
begin

text \<open>
  \<open>base/file_enumerator.h\<close> and \<open>base/file_enumerator.cc\<close>: the walk over a directory tree that
  deletion and size computation use.  The object is a record; \<open>readdir_r\<close> and \<open>stat\<close> are system
  calls, and \<open>fnmatch\<close> is an argument.  A directory or a tree that never ends makes the code loop
  for ever, so both loops take fuel, and running out of it is a fault; theory \<open>FileTree\<close> shows when there is
  enough.
\<close>

section \<open>Entries\<close>

record entry =
  en_stat :: stat
  en_name :: file_path

definition zero_stat :: stat where
  "zero_stat = \<lparr>st_isdir = False, st_islnk = False, st_size = 0, st_mtim = \<lparr>tv_sec = 0, tv_nsec = 0\<rparr>,
     st_atim = \<lparr>tv_sec = 0, tv_nsec = 0\<rparr>, st_ctim = \<lparr>tv_sec = 0, tv_nsec = 0\<rparr>\<rparr>"

definition FileInfo_default :: entry where
  "FileInfo_default = \<lparr>en_stat = zero_stat, en_name = []\<rparr>"

definition IsDirectory :: "entry \<Rightarrow> bool" where "IsDirectory i \<longleftrightarrow> st_isdir (en_stat i)"
definition GetName :: "entry \<Rightarrow> file_path" where "GetName i = en_name i"
definition GetSize :: "entry \<Rightarrow> int" where "GetSize i = st_size (en_stat i)"

definition GetLastModifiedTime :: "entry \<Rightarrow> Time res" where
  "GetLastModifiedTime i = FromTimeT (tv_sec (st_mtim (en_stat i)))"

section \<open>Reading one directory\<close>

fun readdir_loop :: "nat \<Rightarrow> file_path \<Rightarrow> bool \<Rightarrow> entry list \<Rightarrow> entry list io" where
  "readdir_loop 0 source show_links entries e = Inl OutOfFuel"
| "readdir_loop (Suc k) source show_links entries e =
     io_bind (sys (SysReaddir source)) (\<lambda>d.
       if rp_ret d \<noteq> 0 \<or> rp_path d = [] then io_return entries
       else io_bind (io_lift (Append source (rp_path d))) (\<lambda>full_name.
            io_bind (sys (if show_links then SysLstat full_name else SysStat full_name)) (\<lambda>r.
              readdir_loop k source show_links
                (entries @ [\<lparr>en_stat = (if rp_ret r < 0 then zero_stat else rp_stat r),
                             en_name = mk_path (rp_path d)\<rparr>])))) e"

definition ReadDirectory :: "nat \<Rightarrow> file_path \<Rightarrow> bool \<Rightarrow> entry list option io" where
  "ReadDirectory fuel source show_links =
     io_bind (sys_ret (SysOpendir source)) (\<lambda>dir.
       if dir = 0 then io_return None
       else io_bind (readdir_loop fuel source show_links []) (\<lambda>entries.
            io_bind (sys_ret (SysClosedir source)) (\<lambda>_. io_return (Some entries))))"

section \<open>The walk\<close>

record file_type =
  FILES :: bool
  DIRECTORIES :: bool
  INCLUDE_DOT_DOT :: bool
  SHOW_SYM_LINKS :: bool

record enumerator =
  directory_entries :: "entry list"
  current_directory_entry :: nat
  root_path :: file_path
  recursive :: bool
  file_type :: file_type
  pattern :: string
  pending_paths :: "file_path list"

definition FileEnumerator :: "file_path \<Rightarrow> bool \<Rightarrow> file_type \<Rightarrow> enumerator res" where
  "FileEnumerator root rec ft =
     bind_res (check (\<not> (rec \<and> INCLUDE_DOT_DOT ft))) (\<lambda>_. Inr
       \<lparr>directory_entries = [], current_directory_entry = 0, root_path = root, recursive = rec,
        file_type = ft, pattern = [], pending_paths = [root]\<rparr>)"

definition FileEnumerator_pattern :: "file_path \<Rightarrow> bool \<Rightarrow> file_type \<Rightarrow> string \<Rightarrow> enumerator res" where
  "FileEnumerator_pattern root rec ft pat =
     bind_res (Append root pat) (\<lambda>full.
     bind_res (check (\<not> (rec \<and> INCLUDE_DOT_DOT ft))) (\<lambda>_. Inr
       \<lparr>directory_entries = [], current_directory_entry = 0, root_path = root, recursive = rec,
        file_type = ft, pattern = (if pat = [] then [] else full), pending_paths = [root]\<rparr>))"

definition ShouldSkip :: "enumerator \<Rightarrow> file_path \<Rightarrow> bool" where
  "ShouldSkip en path =
     (let basename = BaseName path
      in basename = ''.'' \<or> basename = ''..'' \<and> \<not> INCLUDE_DOT_DOT (file_type en))"

text \<open>One round of the loop over the entries read from a directory.\<close>

definition take_entry :: "(string \<Rightarrow> string \<Rightarrow> bool) \<Rightarrow> enumerator \<Rightarrow> entry \<Rightarrow> enumerator res" where
  "take_entry fnmatch_fails en i =
     bind_res (Append (root_path en) (en_name i)) (\<lambda>full_path.
       if ShouldSkip en full_path then Inr en
       else if pattern en \<noteq> [] \<and> fnmatch_fails (pattern en) full_path then Inr en
       else
         let en = (if recursive en \<and> st_isdir (en_stat i)
                   then en\<lparr>pending_paths := full_path # pending_paths en\<rparr> else en)
         in Inr (if st_isdir (en_stat i) \<and> DIRECTORIES (file_type en) \<or>
                    \<not> st_isdir (en_stat i) \<and> FILES (file_type en)
                 then en\<lparr>directory_entries := directory_entries en @ [i]\<rparr> else en))"

fun take_entries :: "(string \<Rightarrow> string \<Rightarrow> bool) \<Rightarrow> enumerator \<Rightarrow> entry list \<Rightarrow> enumerator res" where
  "take_entries fnmatch_fails en [] = Inr en"
| "take_entries fnmatch_fails en (i # is) =
     bind_res (take_entry fnmatch_fails en i) (\<lambda>en. take_entries fnmatch_fails en is)"

fun Next_loop :: "(string \<Rightarrow> string \<Rightarrow> bool) \<Rightarrow> nat \<Rightarrow> enumerator \<Rightarrow> (file_path \<times> enumerator) io" where
  "Next_loop fnmatch_fails 0 en e = Inl OutOfFuel"
| "Next_loop fnmatch_fails (Suc k) en e =
     (if current_directory_entry en \<ge> length (directory_entries en)
      then case pending_paths en of
             [] \<Rightarrow> Inr (([], en), e)
           | dir # rest \<Rightarrow>
               let en = en\<lparr>root_path := StripTrailingSeparators dir, pending_paths := rest\<rparr>
               in io_bind (ReadDirectory k (root_path en) (SHOW_SYM_LINKS (file_type en))) (\<lambda>r. case r of
                      None \<Rightarrow> Next_loop fnmatch_fails k en
                    | Some entries \<Rightarrow>
                        io_bind (io_lift (take_entries fnmatch_fails
                            (en\<lparr>directory_entries := [], current_directory_entry := 0\<rparr>) entries)) (\<lambda>en.
                          Next_loop fnmatch_fails k en)) e
      else io_bind (io_lift (Append (root_path en)
               (en_name (directory_entries en ! current_directory_entry en)))) (\<lambda>path.
             io_return (path, en)) e)"

definition Next :: "(string \<Rightarrow> string \<Rightarrow> bool) \<Rightarrow> nat \<Rightarrow> enumerator \<Rightarrow> (file_path \<times> enumerator) io" where
  "Next fnmatch_fails fuel en =
     Next_loop fnmatch_fails fuel (en\<lparr>current_directory_entry := current_directory_entry en + 1\<rparr>)"

definition GetInfo_entry :: "enumerator \<Rightarrow> entry res" where
  "GetInfo_entry en = array_get (directory_entries en) (current_directory_entry en)"

section \<open>What the walk lists\<close>

definition listable :: "(string \<Rightarrow> string \<Rightarrow> bool) \<Rightarrow> enumerator \<Rightarrow> entry \<Rightarrow> bool" where
  "listable fm en i \<longleftrightarrow>
     (if st_isdir (en_stat i) then DIRECTORIES (file_type en) else FILES (file_type en)) \<and>
     (\<exists>p. Append (root_path en) (en_name i) = Inr p \<and> \<not> ShouldSkip en p \<and>
          \<not> (pattern en \<noteq> [] \<and> fm (pattern en) p))"

text \<open>
  The invariant of the walk: while entries remain, all of them are entries of the current root that
  pass the filters.  After a directory that could not be read the old entries stay, all passed.
\<close>

definition walk_ok :: "(string \<Rightarrow> string \<Rightarrow> bool) \<Rightarrow> enumerator \<Rightarrow> bool" where
  "walk_ok fm en \<longleftrightarrow>
     current_directory_entry en < length (directory_entries en) \<longrightarrow> list_all (listable fm en) (directory_entries en)"

definition same_walk :: "enumerator \<Rightarrow> enumerator \<Rightarrow> bool" where
  "same_walk a b \<longleftrightarrow> root_path a = root_path b \<and> file_type a = file_type b \<and> pattern a = pattern b"

lemma listable_same: "same_walk a b \<Longrightarrow> listable fm a = listable fm b"
  by (auto simp: listable_def same_walk_def ShouldSkip_def fun_eq_iff Let_def)

lemma take_entry_listable:
  assumes "take_entry fm en i = Inr en'" "list_all (listable fm en) (directory_entries en)"
  shows "same_walk en en' \<and> list_all (listable fm en') (directory_entries en')"
proof -
  have s: "same_walk en en'" using assms(1)
    by (auto simp: take_entry_def bind_res_eq_Inr same_walk_def Let_def split: if_splits)
  have "list_all (listable fm en) (directory_entries en')" using assms
    by (auto simp: take_entry_def bind_res_eq_Inr listable_def Let_def split: if_splits)
  then show ?thesis using s listable_same [OF s] by simp
qed

lemma take_entries_listable:
  "take_entries fm en is = Inr en' \<Longrightarrow> list_all (listable fm en) (directory_entries en) \<Longrightarrow>
   list_all (listable fm en') (directory_entries en')"
proof (induction fm en "is" rule: take_entries.induct)
  case (2 fm en i "is")
  then obtain en1 where "take_entry fm en i = Inr en1" "take_entries fm en1 is = Inr en'"
    by (auto simp: bind_res_eq_Inr)
  then show ?case using 2 take_entry_listable by blast
qed simp

lemma Next_loop_ok:
  assumes "Next_loop fm k en e = Inr ((p, en'), e')" "walk_ok fm en"
  shows "walk_ok fm en' \<and> (p \<noteq> [] \<longrightarrow> current_directory_entry en' < length (directory_entries en') \<and>
    Append (root_path en') (en_name (directory_entries en' ! current_directory_entry en')) = Inr p)"
  using assms
proof (induction k arbitrary: en e)
  case 0
  then show ?case by simp
next
  case (Suc k)
  show ?case
  proof (cases "length (directory_entries en) \<le> current_directory_entry en")
    case False
    then show ?thesis using Suc.prems
      by (auto simp: io_bind_def io_lift_def bind_res_eq_Inr)
  next
    case True
    show ?thesis
    proof (cases "pending_paths en")
      case Nil
      then show ?thesis using Suc.prems True by simp
    next
      case (Cons dir pend)
      define en1 where "en1 = en\<lparr>root_path := StripTrailingSeparators dir, pending_paths := pend\<rparr>"
      have step: "io_bind (ReadDirectory k (root_path en1) (SHOW_SYM_LINKS (file_type en1))) (\<lambda>r. case r of
            None \<Rightarrow> Next_loop fm k en1
          | Some entries \<Rightarrow> io_bind (io_lift (take_entries fm
              (en1\<lparr>directory_entries := [], current_directory_entry := 0\<rparr>) entries)) (\<lambda>en. Next_loop fm k en)) e =
          Inr ((p, en'), e')"
        unfolding en1_def using Suc.prems(1) True Cons by (simp add: Let_def)
      then obtain r e1 where r: "ReadDirectory k (root_path en1) (SHOW_SYM_LINKS (file_type en1)) e = Inr (r, e1)"
        by (cases "ReadDirectory k (root_path en1) (SHOW_SYM_LINKS (file_type en1)) e") (auto simp: io_bind_def)
      show ?thesis
      proof (cases r)
        case None
        then have "Next_loop fm k en1 e1 = Inr ((p, en'), e')" using step r by simp
        moreover have "walk_ok fm en1" using True by (simp add: walk_ok_def en1_def)
        ultimately show ?thesis by (rule Suc.IH)
      next
        case (Some entries)
        then obtain en2 where t: "take_entries fm (en1\<lparr>directory_entries := [], current_directory_entry := 0\<rparr>) entries = Inr en2"
          "Next_loop fm k en2 e1 = Inr ((p, en'), e')"
          using step r by (auto simp: io_bind_def io_lift_def bind_res_eq_Inr)
        have "walk_ok fm en2" using take_entries_listable [OF t(1)] by (simp add: walk_ok_def)
        with t(2) show ?thesis by (rule Suc.IH)
      qed
    qed
  qed
qed

text \<open>
  Whatever the kernel does, every path the walk returns is an entry of a directory it has read, of a type that was asked for,
  matching the pattern if there is one, and never \<open>.\<close>, nor \<open>..\<close> unless that was asked for;
  and the invariant this rests on is kept by every step.
\<close>

lemma walk_lists_only_matches:
  assumes "walk_ok fm en" "Next fm fuel en e = Inr ((p, en'), e')"
  shows "walk_ok fm en' \<and> (p \<noteq> [] \<longrightarrow>
    (\<exists>i. GetInfo_entry en' = Inr i \<and> Append (root_path en') (en_name i) = Inr p \<and>
       (if IsDirectory i then DIRECTORIES (file_type en') else FILES (file_type en')) \<and>
       BaseName p \<noteq> ''.'' \<and> (BaseName p = ''..'' \<longrightarrow> INCLUDE_DOT_DOT (file_type en')) \<and>
       (pattern en' = [] \<or> \<not> fm (pattern en') p)))"
proof -
  have "walk_ok fm (en\<lparr>current_directory_entry := current_directory_entry en + 1\<rparr>)"
    using assms(1) by (auto simp: walk_ok_def listable_def ShouldSkip_def list_all_iff Let_def)
  then have r: "walk_ok fm en'" "p \<noteq> [] \<Longrightarrow> current_directory_entry en' < length (directory_entries en') \<and>
    Append (root_path en') (en_name (directory_entries en' ! current_directory_entry en')) = Inr p"
    using Next_loop_ok assms(2) by (auto simp: Next_def)
  have "\<exists>i. GetInfo_entry en' = Inr i \<and> Append (root_path en') (en_name i) = Inr p \<and>
       (if IsDirectory i then DIRECTORIES (file_type en') else FILES (file_type en')) \<and>
       BaseName p \<noteq> ''.'' \<and> (BaseName p = ''..'' \<longrightarrow> INCLUDE_DOT_DOT (file_type en')) \<and>
       (pattern en' = [] \<or> \<not> fm (pattern en') p)" if "p \<noteq> []"
  proof -
    let ?i = "directory_entries en' ! current_directory_entry en'"
    have c: "current_directory_entry en' < length (directory_entries en')"
      "Append (root_path en') (en_name ?i) = Inr p" using r(2) that by simp_all
    then have "listable fm en' ?i" using r(1) by (simp add: walk_ok_def list_all_length)
    then show ?thesis using c
      by (intro exI [of _ ?i]) (auto simp: listable_def GetInfo_entry_def IsDirectory_def ShouldSkip_def Let_def)
  qed
  then show ?thesis using r(1) by blast
qed

definition empty_kernel :: "syscall list \<Rightarrow> syscall \<Rightarrow> reply" where
  "empty_kernel h c = \<lparr>rp_ret = 0, rp_errno = 0, rp_data = [], rp_stat = zero_stat, rp_path = [], rp_value = 0\<rparr>"

end
