(* ===== verification/FileUtil.thy ===== *)
theory FileUtil
  imports FileEnum
begin

text \<open>
  \<open>base/file_util.cc\<close> and \<open>base/scoped_temp_dir.cc\<close>: whole-file operations over the system calls
  of theory \<open>Posix\<close>, the \<open>File\<close> class and the directory walk.  The iostream and stdio
  functions read an opened stream, which is its remaining contents and its flags
  (\<open>stream\<close>, \<open>stdio\<close>); what opening a path yields is an argument.  Loops that need not
  end take fuel.
\<close>

section \<open>Metadata\<close>

definition CallStat :: "file_path \<Rightarrow> (int \<times> stat) io" where
  "CallStat path = io_bind (sys (SysStat path)) (\<lambda>r. io_return (rp_ret r, rp_stat r))"

definition CallLstat :: "file_path \<Rightarrow> (int \<times> stat) io" where
  "CallLstat path = io_bind (sys (SysLstat path)) (\<lambda>r. io_return (rp_ret r, rp_stat r))"

definition DirectoryExists :: "file_path \<Rightarrow> bool io" where
  "DirectoryExists path =
     io_bind (CallStat path) (\<lambda>(r, st). io_return (if r = 0 then st_isdir st else False))"

definition PathExists :: "file_path \<Rightarrow> bool io" where
  "PathExists path = io_bind (sys_ret (SysAccess path)) (\<lambda>r. io_return (r = 0))"

definition GetFileInfo :: "file_path \<Rightarrow> file_info \<Rightarrow> (bool \<times> file_info) io" where
  "GetFileInfo path results =
     io_bind (CallStat path) (\<lambda>(r, st).
       if r \<noteq> 0 then io_return (False, results)
       else io_bind (io_lift (FromStat st)) (\<lambda>i. io_return (True, i)))"

definition GetFileSize :: "file_path \<Rightarrow> int \<Rightarrow> (bool \<times> int) io" where
  "GetFileSize path file_size =
     io_bind (GetFileInfo path Info_default) (\<lambda>(ok, info).
       if \<not> ok then io_return (False, file_size) else io_return (True, info_size info))"

definition TouchFile :: "file_path \<Rightarrow> Time \<Rightarrow> Time \<Rightarrow> bool io" where
  "TouchFile path accessed modified =
     io_bind (File_open path (FLAG_OPEN OR FLAG_WRITE_ATTRIBUTES)) (\<lambda>f.
       if \<not> IsValid f then io_return False
       else io_bind (SetTimes f accessed modified) (\<lambda>ok.
            io_bind (File_destroy f) (\<lambda>_. io_return ok)))"

definition SetNonBlocking :: "int \<Rightarrow> bool io" where
  "SetNonBlocking fd =
     io_bind (sys_ret (SysGetfl fd)) (\<lambda>flags.
       if flags = - 1 then io_return False
       else if flags AND O_NONBLOCK \<noteq> 0 then io_return True
       else io_bind (handle_eintr (sys_ret (SysSetfl fd (flags OR O_NONBLOCK)))) (\<lambda>r.
            io_return (r \<noteq> - 1)))"

definition MakeAbsoluteFilePath :: "file_path \<Rightarrow> file_path io" where
  "MakeAbsoluteFilePath input =
     io_bind (sys (SysRealpath input)) (\<lambda>r.
       io_return (if rp_ret r = 0 then [] else mk_path (rp_path r)))"

section \<open>Whole files through descriptors\<close>

definition ReadFile :: "file_path \<Rightarrow> byte list \<Rightarrow> int \<Rightarrow> (int \<times> byte list) io" where
  "ReadFile path data max_size =
     io_bind (handle_eintr (sys_ret (SysOpen path O_RDONLY 0))) (\<lambda>fd.
       if fd < 0 then io_return (- 1, data)
       else io_bind (with_buffer (read_into fd max_size 0) data) (\<lambda>(bytes_read, data).
            io_bind (ignore_eintr (sys_ret (SysClose fd))) (\<lambda>r.
              io_return (if r < 0 then - 1 else bytes_read, data))))"

fun write_all_loop :: "nat \<Rightarrow> int \<Rightarrow> byte list \<Rightarrow> int \<Rightarrow> int \<Rightarrow> bool io" where
  "write_all_loop 0 fd data sz sofar e = Inl OutOfFuel"
| "write_all_loop (Suc k) fd data sz sofar e =
     (if sofar < sz
      then bind_res (mem_read data (nat sofar) (nat (sz - sofar))) (\<lambda>bs.
             let c = SysWrite fd bs; partial = rp_ret (answer c e)
             in if partial < 0 then Inr (False, after c e)
                else write_all_loop k fd data sz (sofar + partial) (after c e))
      else Inr (True, e))"

definition WriteFileDecriptor :: "nat \<Rightarrow> int \<Rightarrow> byte list \<Rightarrow> int \<Rightarrow> bool io" where
  "WriteFileDecriptor fuel fd data sz = write_all_loop fuel fd data sz 0"

definition WriteFile :: "nat \<Rightarrow> file_path \<Rightarrow> byte list \<Rightarrow> int \<Rightarrow> int io" where
  "WriteFile fuel path data sz =
     io_bind (handle_eintr (sys_ret (SysCreat path 438))) (\<lambda>fd.
       if fd < 0 then io_return (- 1)
       else io_bind (WriteFileDecriptor fuel fd data sz) (\<lambda>ok.
            io_bind (ignore_eintr (sys_ret (SysClose fd))) (\<lambda>r.
              io_return (if r < 0 then - 1 else if ok then sz else - 1))))"

definition AppendToFile :: "nat \<Rightarrow> file_path \<Rightarrow> byte list \<Rightarrow> int \<Rightarrow> bool io" where
  "AppendToFile fuel path data sz =
     io_bind (handle_eintr (sys_ret (SysOpen path (O_WRONLY OR O_APPEND) 0))) (\<lambda>fd.
       if fd < 0 then io_return False
       else io_bind (WriteFileDecriptor fuel fd data sz) (\<lambda>ok.
            io_bind (ignore_eintr (sys_ret (SysClose fd))) (\<lambda>r. io_return (ok \<and> 0 \<le> r))))"

definition kCopyBuffer :: int where "kCopyBuffer = 32768"

fun copy_out_loop :: "nat \<Rightarrow> file_obj \<Rightarrow> byte list \<Rightarrow> int \<Rightarrow> int \<Rightarrow> bool io" where
  "copy_out_loop 0 outfile mem bytes_read written e = Inl OutOfFuel"
| "copy_out_loop (Suc k) outfile mem bytes_read written e =
     io_bind (WriteAtCurrentPos outfile (drop (nat written) mem) (bytes_read - written)) (\<lambda>partial.
       if partial < 0 then io_return False
       else if written + partial < bytes_read
            then copy_out_loop k outfile mem bytes_read (written + partial)
            else io_return True) e"

fun copy_loop :: "nat \<Rightarrow> file_obj \<Rightarrow> file_obj \<Rightarrow> byte list \<Rightarrow> bool io" where
  "copy_loop 0 infile outfile mem e = Inl OutOfFuel"
| "copy_loop (Suc k) infile outfile mem e =
     io_bind (ReadAtCurrentPos infile mem (int (length mem))) (\<lambda>(bytes_read, mem).
       if bytes_read < 0 then io_return False
       else if bytes_read = 0 then io_return True
       else io_bind (copy_out_loop k outfile mem bytes_read 0) (\<lambda>ok.
              if ok then copy_loop k infile outfile mem else io_return False)) e"

definition CopyFile :: "nat \<Rightarrow> file_path \<Rightarrow> file_path \<Rightarrow> bool io" where
  "CopyFile fuel from_path to_path =
     io_bind (File_open from_path (FLAG_OPEN OR FLAG_READ)) (\<lambda>infile.
       if \<not> IsValid infile then io_return False
       else io_bind (File_open to_path (FLAG_WRITE OR FLAG_CREATE_ALWAYS)) (\<lambda>outfile.
            if \<not> IsValid outfile
            then io_bind (File_destroy infile) (\<lambda>_. io_return False)
            else io_bind (copy_loop fuel infile outfile (replicate (nat kCopyBuffer) 0)) (\<lambda>ok.
                 io_bind (File_destroy outfile) (\<lambda>_.
                 io_bind (File_destroy infile) (\<lambda>_. io_return ok)))))"

section \<open>Directories\<close>

function ancestors :: "file_path \<Rightarrow> file_path list" where
  "ancestors last_path =
     (let path = DirName last_path in if path \<noteq> last_path then path # ancestors path else [])"
  by pat_completeness auto
termination by (relation "measure path_rank") (auto intro: DirName_rank)

declare ancestors.simps [simp del]

fun make_directories :: "file_path list \<Rightarrow> (bool \<times> file_error option) io" where
  "make_directories [] e = Inr ((True, None), e)"
| "make_directories (d # ds) e =
     io_bind (DirectoryExists d) (\<lambda>there.
       if there then make_directories ds
       else io_bind (sys_ret (SysMkdir d 448)) (\<lambda>r.
            if r = 0 then make_directories ds
            else io_bind get_errno (\<lambda>saved_errno.
                 io_bind (DirectoryExists d) (\<lambda>there.
                   if there then make_directories ds
                   else io_return (False, Some (OSErrorToFileError saved_errno)))))) e"

definition CreateDirectoryAndGetError :: "file_path \<Rightarrow> (bool \<times> file_error option) io" where
  "CreateDirectoryAndGetError full_path = make_directories (rev (full_path # ancestors full_path))"

definition CreateDirectory :: "file_path \<Rightarrow> bool io" where
  "CreateDirectory full_path =
     io_bind (CreateDirectoryAndGetError full_path) (\<lambda>(ok, err). io_return ok)"

definition deletion_types :: file_type where
  "deletion_types = \<lparr>FILES = True, DIRECTORIES = True, INCLUDE_DOT_DOT = False, SHOW_SYM_LINKS = True\<rparr>"

fun delete_walk :: "nat \<Rightarrow> enumerator \<Rightarrow> file_path list \<Rightarrow> (bool \<times> file_path list) io" where
  "delete_walk 0 en directories e = Inl OutOfFuel"
| "delete_walk (Suc k) en directories e =
     io_bind (Next (\<lambda>_ _. False) k en) (\<lambda>(current, en).
       if current = [] then io_return (True, directories)
       else io_bind (io_lift (GetInfo_entry en)) (\<lambda>i.
            if IsDirectory i then delete_walk k en (current # directories)
            else io_bind (sys_ret (SysUnlink current)) (\<lambda>r.
                 if r = 0 then delete_walk k en directories
                 else io_bind (Next (\<lambda>_ _. False) k en) (\<lambda>_. io_return (False, directories))))) e"

fun remove_directories :: "file_path list \<Rightarrow> bool io" where
  "remove_directories [] e = Inr (True, e)"
| "remove_directories (d # ds) e =
     io_bind (sys_ret (SysRmdir (mk_path d))) (\<lambda>r.
       if r = 0 then remove_directories ds else io_return False) e"

definition DeleteFile :: "nat \<Rightarrow> file_path \<Rightarrow> bool \<Rightarrow> bool io" where
  "DeleteFile fuel path recursively =
     io_bind (CallLstat path) (\<lambda>(test, st).
       if test \<noteq> 0
       then io_bind get_errno (\<lambda>n. io_return (n = ENOENT \<or> n = ENOTDIR))
       else if \<not> st_isdir st then io_bind (sys_ret (SysUnlink path)) (\<lambda>r. io_return (r = 0))
       else if \<not> recursively then io_bind (sys_ret (SysRmdir path)) (\<lambda>r. io_return (r = 0))
       else io_bind (io_lift (FileEnumerator path True deletion_types)) (\<lambda>en.
            io_bind (delete_walk fuel en [path]) (\<lambda>(success, directories).
              if success then remove_directories directories else io_return False)))"

fun size_loop :: "nat \<Rightarrow> enumerator \<Rightarrow> int \<Rightarrow> int io" where
  "size_loop 0 en sofar e = Inl OutOfFuel"
| "size_loop (Suc k) en sofar e =
     io_bind (Next (\<lambda>_ _. False) k en) (\<lambda>(current, en).
       if current = [] then io_return sofar
       else io_bind (io_lift (bind_res (GetInfo_entry en) (\<lambda>i. checked64 (sofar + GetSize i)))) (\<lambda>sofar.
            size_loop k en sofar)) e"

definition ComputeDirectorySize :: "nat \<Rightarrow> file_path \<Rightarrow> int io" where
  "ComputeDirectorySize fuel root =
     io_bind (io_lift (FileEnumerator root True
         \<lparr>FILES = True, DIRECTORIES = False, INCLUDE_DOT_DOT = False, SHOW_SYM_LINKS = False\<rparr>)) (\<lambda>en.
       size_loop fuel en 0)"

section \<open>Temporary files and directories\<close>

definition TempFileName :: string where "TempFileName = ''.org.ilikereader.com.XXXXXX''"

text \<open>\<open>mkstemp\<close> writes the name it chose into the path's own characters.\<close>

definition CreateAndOpenFdForTemporaryFile :: "file_path \<Rightarrow> (int \<times> file_path) io" where
  "CreateAndOpenFdForTemporaryFile directory =
     io_bind (io_lift (Append directory TempFileName)) (\<lambda>path.
     io_bind (handle_eintr (sys (SysMkstemp path))) (\<lambda>r. io_return (rp_ret r, rp_path r)))"

definition CreateTemporaryFileInDir :: "file_path \<Rightarrow> (bool \<times> file_path) io" where
  "CreateTemporaryFileInDir dir =
     io_bind (CreateAndOpenFdForTemporaryFile dir) (\<lambda>(fd, path).
       if 0 \<le> fd
       then io_bind (ignore_eintr (sys_ret (SysClose fd))) (\<lambda>r. io_return (r = 0, path))
       else io_return (False, path))"

definition GetTempDir :: "(bool \<times> file_path) io" where
  "GetTempDir =
     io_bind (sys (SysGetenv ''TMPDIR'')) (\<lambda>r.
       io_return (True, if rp_ret r \<noteq> 0 then mk_path (rp_path r) else ''/tmp''))"

definition has_template :: "string \<Rightarrow> bool" where
  "has_template s = list_ex (\<lambda>i. take 6 (drop i s) = ''XXXXXX'') [0..<Suc (length s)]"

definition CreateTemporaryDirInDirImpl :: "file_path \<Rightarrow> string \<Rightarrow> file_path \<Rightarrow> (bool \<times> file_path) io" where
  "CreateTemporaryDirInDirImpl base_dir name_tmpl new_dir =
     io_bind (io_check (has_template name_tmpl)) (\<lambda>_.
     io_bind (io_lift (Append base_dir name_tmpl)) (\<lambda>sub_dir.
     io_bind (sys (SysMkdtemp sub_dir)) (\<lambda>r.
       io_return (if rp_ret r = 0 then (False, new_dir) else (True, mk_path (rp_path r))))))"

definition CreateTemporaryDirInDir :: "file_path \<Rightarrow> string \<Rightarrow> file_path \<Rightarrow> (bool \<times> file_path) io" where
  "CreateTemporaryDirInDir base_dir prefix new_dir =
     CreateTemporaryDirInDirImpl base_dir (prefix @ ''XXXXXX'') new_dir"

definition CreateNewTempDirectory :: "string \<Rightarrow> file_path \<Rightarrow> (bool \<times> file_path) io" where
  "CreateNewTempDirectory prefix new_temp_path =
     io_bind GetTempDir (\<lambda>(ok, tmpdir).
       if \<not> ok then io_return (False, new_temp_path)
       else CreateTemporaryDirInDirImpl tmpdir TempFileName new_temp_path)"

text \<open>\<open>ScopedTempDir\<close>: the object is its path, empty while it owns nothing.\<close>

type_synonym scoped_temp_dir = file_path

definition CreateUniqueTempDir :: "scoped_temp_dir \<Rightarrow> (bool \<times> scoped_temp_dir) io" where
  "CreateUniqueTempDir path =
     (if path \<noteq> [] then io_return (False, path) else CreateNewTempDirectory ''scoped_dir'' path)"

definition CreateUniqueTempDirUnderPath :: "file_path \<Rightarrow> scoped_temp_dir \<Rightarrow> (bool \<times> scoped_temp_dir) io" where
  "CreateUniqueTempDirUnderPath base_path path =
     (if path \<noteq> [] then io_return (False, path)
      else io_bind (CreateDirectory base_path) (\<lambda>ok.
           if \<not> ok then io_return (False, path)
           else CreateTemporaryDirInDir base_path ''scoped_dir_'' path))"

definition temp_dir_Set :: "file_path \<Rightarrow> scoped_temp_dir \<Rightarrow> (bool \<times> scoped_temp_dir) io" where
  "temp_dir_Set new_path path =
     (if path \<noteq> [] then io_return (False, path)
      else io_bind (DirectoryExists new_path) (\<lambda>there.
           if there then io_return (True, new_path)
           else io_bind (CreateDirectory new_path) (\<lambda>ok.
                io_return (if ok then (True, new_path) else (False, path)))))"

definition temp_dir_Delete :: "nat \<Rightarrow> scoped_temp_dir \<Rightarrow> (bool \<times> scoped_temp_dir) io" where
  "temp_dir_Delete fuel path =
     (if path = [] then io_return (False, path)
      else io_bind (DeleteFile fuel path True) (\<lambda>ok. io_return (ok, if ok then [] else path)))"

definition temp_dir_Take :: "scoped_temp_dir \<Rightarrow> file_path \<times> scoped_temp_dir" where
  "temp_dir_Take path = (path, [])"

definition temp_dir_IsValid :: "scoped_temp_dir \<Rightarrow> bool io" where
  "temp_dir_IsValid path = (if path \<noteq> [] then DirectoryExists path else io_return False)"

definition temp_dir_destroy :: "nat \<Rightarrow> scoped_temp_dir \<Rightarrow> unit io" where
  "temp_dir_destroy fuel path =
     (if path \<noteq> [] then io_bind (temp_dir_Delete fuel path) (\<lambda>_. io_return ()) else io_return ())"

section \<open>Streams\<close>

text \<open>
  Streams the operations of stdio only pass on are handles, 0 being the null pointer.  \<open>OpenFile\<close>
  repeats an interrupted call for as long as there is fuel.
\<close>

definition TruncateFile :: "int \<Rightarrow> bool io" where
  "TruncateFile file =
     (if file = 0 then io_return False
      else io_bind (sys_ret (StdFtell file)) (\<lambda>current_offset.
        if current_offset = - 1 then io_return False
        else io_bind (sys_ret (StdFileno file)) (\<lambda>fd.
             io_bind (sys_ret (SysFtruncate fd current_offset)) (\<lambda>r.
               io_return (if r \<noteq> 0 then False else True)))))"

fun OpenFile :: "nat \<Rightarrow> file_path \<Rightarrow> string \<Rightarrow> int io" where
  "OpenFile 0 filename mode e = Inl OutOfFuel"
| "OpenFile (Suc k) filename mode e =
     io_bind (sys_ret (StdFopen filename mode)) (\<lambda>result. io_bind get_errno (\<lambda>n.
       if result = 0 \<and> n = EINTR then OpenFile k filename mode else io_return result)) e"

definition CloseFile :: "int \<Rightarrow> bool io" where
  "CloseFile file =
     (if file = 0 then io_return True
      else io_bind (sys_ret (StdFclose file)) (\<lambda>r. io_return (r = 0)))"

definition FileToFILE :: "file_obj \<Rightarrow> string \<Rightarrow> int io" where
  "FileToFILE f mode =
     io_bind (sys_ret (StdFdopen (GetPlatformFile f) mode)) (\<lambda>stream.
       let f = (if stream \<noteq> 0 then snd (TakePlatformFile f) else f)
       in io_bind (File_destroy f) (\<lambda>_. io_return stream))"

text \<open>An \<open>ifstream\<close>: what is left to read and the end-of-file flag.\<close>

record stream =
  left :: string
  eof :: bool

definition stream_read :: "nat \<Rightarrow> stream \<Rightarrow> string \<times> stream" where
  "stream_read n s =
     (if eof s then ([], s)
      else (take n (left s), \<lparr>left = drop n (left s), eof = (length (left s) < n)\<rparr>))"

definition stream_getline :: "stream \<Rightarrow> string \<times> stream" where
  "stream_getline s =
     (if eof s then ([], s)
      else let line = takeWhile (\<lambda>c. c \<noteq> CHR 0x0A) (left s)
           in (line, \<lparr>left = drop (Suc (length line)) (left s), eof = (length line = length (left s))\<rparr>))"

definition BUFFER_SIZE :: nat where "BUFFER_SIZE = 2056"

function contents_loop :: "stream \<Rightarrow> stream \<Rightarrow> bool" where
  "contents_loop s1 s2 =
     (let (b1, t1) = stream_read BUFFER_SIZE s1; (b2, t2) = stream_read BUFFER_SIZE s2
      in if eof t1 \<noteq> eof t2 \<or> length b1 \<noteq> length b2 \<or> b1 \<noteq> b2 then False
         else if \<not> eof t1 \<or> \<not> eof t2 then contents_loop t1 t2 else True)"
  by pat_completeness auto
termination
  by (relation "measure (\<lambda>(s1, s2). length (left s1))")
     (auto simp: stream_read_def BUFFER_SIZE_def split: if_splits)

declare contents_loop.simps [simp del]

definition ContentsEqual :: "(file_path \<Rightarrow> string option) \<Rightarrow> file_path \<Rightarrow> file_path \<Rightarrow> bool" where
  "ContentsEqual open_stream filename1 filename2 =
     (case (open_stream filename1, open_stream filename2) of
        (Some c1, Some c2) \<Rightarrow> contents_loop \<lparr>left = c1, eof = False\<rparr> \<lparr>left = c2, eof = False\<rparr>
      | _ \<Rightarrow> False)"

text \<open>\<open>find_last_not_of("\r\n")\<close> on a \<open>std::string\<close>.\<close>

definition last_text :: "string \<Rightarrow> size_t" where
  "last_text s = last_pos (\<lambda>c. c \<noteq> CHR 0x0D \<and> c \<noteq> CHR 0x0A) s npos"

definition cut_line :: "size_t \<Rightarrow> string \<Rightarrow> string" where
  "cut_line last_index line =
     (if last_index = npos then [] else if last_index + 1 < length line then take (last_index + 1) line else line)"

lemma getline_shorter:
  "(line, t) = stream_getline s \<Longrightarrow> \<not> eof t \<Longrightarrow> length (left t) < length (left s)"
  using length_takeWhile_le [of "\<lambda>c. c \<noteq> CHR 0x0A" "left s"]
  by (auto simp: stream_getline_def Let_def split: if_splits)

function text_loop :: "stream \<Rightarrow> stream \<Rightarrow> bool" where
  "text_loop s1 s2 =
     (let (line1, t1) = stream_getline s1; (line2, t2) = stream_getline s2
      in if eof t1 \<noteq> eof t2 then False
         else let line1 = cut_line (last_text line1) line1;
                  line2 = cut_line (last_text line1) line2
              in if line1 \<noteq> line2 then False
                 else if \<not> eof t1 \<or> \<not> eof t2 then text_loop t1 t2 else True)"
  by pat_completeness auto

termination
  by (relation "measure (\<lambda>(s1, s2). length (left s1))") (auto dest: getline_shorter)

declare text_loop.simps [simp del]

definition TextContentsEqual :: "(file_path \<Rightarrow> string option) \<Rightarrow> file_path \<Rightarrow> file_path \<Rightarrow> bool" where
  "TextContentsEqual open_stream filename1 filename2 =
     (case (open_stream filename1, open_stream filename2) of
        (Some c1, Some c2) \<Rightarrow> text_loop \<lparr>left = c1, eof = False\<rparr> \<lparr>left = c2, eof = False\<rparr>
      | _ \<Rightarrow> False)"

text \<open>A \<open>FILE\<close>: what is left to read, and whether reading it all ends in an error.\<close>

record stdio =
  io_left :: "byte list"
  io_error :: bool

definition kReadBuffer :: nat where "kReadBuffer = 65536"

function fread_loop :: "size_t \<Rightarrow> size_t \<Rightarrow> byte list \<Rightarrow> stdio \<Rightarrow> bool \<times> byte list \<times> stdio" where
  "fread_loop max_size sz contents f =
     (let mem = take kReadBuffer (io_left f); len = length mem;
          f' = f\<lparr>io_left := drop kReadBuffer (io_left f)\<rparr>
      in if 0 < len
         then let contents = contents @ take (min len (sz_sub max_size sz)) mem
              in if sz_sub max_size sz < len then (False, contents, f')
                 else fread_loop max_size (sz_add sz len) contents f'
         else (True, contents, f'))"
  by pat_completeness auto
termination
  by (relation "measure (\<lambda>(m, sz, c, f). length (io_left f))") (auto simp: kReadBuffer_def)

declare fread_loop.simps [simp del]

definition ReadFileToStringWithMaxSize ::
    "(file_path \<Rightarrow> stdio option) \<Rightarrow> file_path \<Rightarrow> size_t \<Rightarrow> bool \<times> byte list" where
  "ReadFileToStringWithMaxSize fopen path max_size =
     (if ReferencesParent path then (False, [])
      else case fopen path of
             None \<Rightarrow> (False, [])
           | Some f \<Rightarrow>
               let (read_status, contents, f) = fread_loop max_size 0 [] f
               in (read_status \<and> \<not> io_error f, contents))"

definition ReadFileToString :: "(file_path \<Rightarrow> stdio option) \<Rightarrow> file_path \<Rightarrow> bool \<times> byte list" where
  "ReadFileToString fopen path = ReadFileToStringWithMaxSize fopen path npos"

section \<open>Writing everything, or for ever\<close>

definition takes_some :: "(syscall list \<Rightarrow> syscall \<Rightarrow> reply) \<Rightarrow> int \<Rightarrow> bool" where
  "takes_some k fd \<longleftrightarrow> (\<forall>h bs. bs \<noteq> [] \<longrightarrow>
     1 \<le> rp_ret (k h (SysWrite fd bs)) \<and> rp_ret (k h (SysWrite fd bs)) \<le> int (length bs))"

definition takes_none :: "(syscall list \<Rightarrow> syscall \<Rightarrow> reply) \<Rightarrow> int \<Rightarrow> bool" where
  "takes_none k fd \<longleftrightarrow> (\<forall>h bs. rp_ret (k h (SysWrite fd bs)) = 0)"

text \<open>The bytes the kernel took from the writes of a run of calls.\<close>

primrec sent :: "(syscall list \<Rightarrow> syscall \<Rightarrow> reply) \<Rightarrow> syscall list \<Rightarrow> syscall list \<Rightarrow> byte list" where
  "sent k h [] = []"
| "sent k h (c # cs) =
     (case c of SysWrite fd bs \<Rightarrow> take (nat (rp_ret (k h c))) bs | _ \<Rightarrow> []) @ sent k (h @ [c]) cs"

lemma write_all_ok:
  assumes "takes_some (kernel e) fd" "0 \<le> n" "n \<le> int (length data)" "nat (int (length data) - n) < fuel"
  shows "\<exists>cs e'. write_all_loop fuel fd data (int (length data)) n e = Inr (True, e') \<and>
    kernel e' = kernel e \<and> trace e' = trace e @ cs \<and> sent (kernel e) (trace e) cs = drop (nat n) data"
  using assms
proof (induction fuel arbitrary: n e)
  case 0
  then show ?case by simp
next
  case (Suc k)
  let ?sz = "int (length data)"
  show ?case
  proof (cases "n < ?sz")
    case False
    then show ?thesis using Suc.prems(3) by (intro exI [of _ "[]"]) simp
  next
    case True
    define bs where "bs = drop (nat n) data"
    define c where "c = SysWrite fd bs"
    define rv where "rv = rp_ret (answer c e)"
    have lb: "length bs = length data - nat n" by (simp add: bs_def)
    have "length bs \<noteq> 0" using lb True Suc.prems(2) by linarith
    then have "bs \<noteq> []" by simp
    then have rv: "1 \<le> rv" "rv \<le> int (length bs)"
      using Suc.prems(1) unfolding takes_some_def rv_def c_def answer_def by blast+
    have "nat (?sz - n) = length data - nat n" using Suc.prems(2) by linarith
    then have m: "mem_read data (nat n) (nat (?sz - n)) = Inr bs"
      using True Suc.prems(2) by (simp add: mem_read_def bs_def)
    have n': "0 \<le> n + rv" "n + rv \<le> ?sz" "nat (?sz - (n + rv)) < k"
      using rv lb Suc.prems(2,4) True by linarith+
    obtain cs e' where e': "write_all_loop k fd data ?sz (n + rv) (after c e) = Inr (True, e')"
      "kernel e' = kernel e" "trace e' = (trace e @ [c]) @ cs"
      "sent (kernel e) (trace e @ [c]) cs = drop (nat (n + rv)) data"
      using Suc.IH [of "after c e" "n + rv"] Suc.prems(1) n' by auto
    have "write_all_loop (Suc k) fd data ?sz n e = Inr (True, e')"
      using True m rv e'(1) by (simp add: Let_def c_def [symmetric] rv_def [symmetric])
    moreover have "nat (n + rv) = nat rv + nat n" using rv Suc.prems(2) by linarith
    then have "take (nat rv) bs @ drop (nat (n + rv)) data = bs"
      by (simp only: bs_def drop_drop [symmetric] append_take_drop_id)
    then have "sent (kernel e) (trace e) (c # cs) = bs"
      using e'(4) by (simp add: c_def rv_def answer_def)
    ultimately show ?thesis using e'(2,3) by (intro exI [of _ "c # cs"] exI [of _ e']) (simp add: bs_def)
  qed
qed

lemma write_all_stuck:
  assumes "takes_none (kernel e) fd" "0 \<le> n" "n < sz" "nat sz \<le> length data"
  shows "write_all_loop fuel fd data sz n e = Inl OutOfFuel"
  using assms
proof (induction fuel arbitrary: e)
  case (Suc k)
  have "mem_read data (nat n) (nat (sz - n)) = Inr (take (nat (sz - n)) (drop (nat n) data))"
    using Suc.prems(2-4) by (intro mem_read_in) simp
  moreover have "rp_ret (answer (SysWrite fd bs) e) = 0" for bs
    using Suc.prems(1) by (simp add: takes_none_def answer_def)
  ultimately show ?case using Suc.IH [of "after _ e"] Suc.prems by (simp add: Let_def)
qed simp

text \<open>
  C25: if every \<open>write\<close> takes at least a byte, \<open>WriteFileDecriptor\<close> returns true within as many rounds
  as there are bytes, having sent exactly them in order; but it never returns, however many rounds it is
  given, from a descriptor whose \<open>write\<close> keeps taking nothing without failing.
\<close>

theorem write_descriptor_progress:
  "(takes_some (kernel e) fd \<longrightarrow> (\<exists>cs e'.
      WriteFileDecriptor (Suc (length data)) fd data (int (length data)) e = Inr (True, e') \<and>
      trace e' = trace e @ cs \<and> sent (kernel e) (trace e) cs = data)) \<and>
   (takes_none (kernel e) fd \<longrightarrow> data \<noteq> [] \<longrightarrow>
      (\<forall>fuel. WriteFileDecriptor fuel fd data (int (length data)) e = Inl OutOfFuel))"
  using write_all_ok [of e fd 0 data "Suc (length data)"] write_all_stuck [of e fd 0 "int (length data)" data]
  by (auto simp: WriteFileDecriptor_def)

definition sink_kernel :: "nat \<Rightarrow> syscall list \<Rightarrow> syscall \<Rightarrow> reply" where
  "sink_kernel n h c = (empty_kernel h c)
     \<lparr>rp_ret := (case c of SysWrite fd bs \<Rightarrow> int (min n (length bs)) | _ \<Rightarrow> 0)\<rparr>"

theorem write_descriptor_progress_witness:
  "(\<exists>cs e'. WriteFileDecriptor 4 7 [1, 2, 3] 3 \<lparr>kernel = sink_kernel 2, trace = [], errno = 0\<rparr> = Inr (True, e') \<and>
      trace e' = cs \<and> sent (sink_kernel 2) [] cs = [1, 2, 3]) \<and>
   (\<forall>fuel. WriteFileDecriptor fuel 7 [1, 2, 3] 3 \<lparr>kernel = sink_kernel 0, trace = [], errno = 0\<rparr> = Inl OutOfFuel)"
proof -
  have "takes_some (sink_kernel 2) 7" "takes_none (sink_kernel 0) 7"
    by (auto simp: takes_some_def takes_none_def sink_kernel_def min_def Suc_le_eq)
  then show ?thesis
    using write_descriptor_progress [of "\<lparr>kernel = sink_kernel 2, trace = [], errno = 0\<rparr>" 7 "[1, 2, 3]"]
      write_descriptor_progress [of "\<lparr>kernel = sink_kernel 0, trace = [], errno = 0\<rparr>" 7 "[1, 2, 3]"]
    by (simp add: numeral_eq_Suc)
qed

section \<open>Comparing contents\<close>

lemma contents_loop_eq:
  "contents_loop \<lparr>left = c1, eof = False\<rparr> \<lparr>left = c2, eof = False\<rparr> \<longleftrightarrow> c1 = c2"
proof (induction "length c1" arbitrary: c1 c2 rule: less_induct)
  case less
  let ?b = BUFFER_SIZE
  have b: "0 < ?b" by (simp add: BUFFER_SIZE_def)
  have r: "stream_read ?b \<lparr>left = c, eof = False\<rparr> =
      (take ?b c, \<lparr>left = drop ?b c, eof = (length c < ?b)\<rparr>)" for c
    by (simp add: stream_read_def)
  show ?case
  proof (cases "length c1 < ?b \<or> length c2 < ?b")
    case True
    then show ?thesis by (subst contents_loop.simps) (auto simp: r)
  next
    case False
    then have "length (drop ?b c1) < length c1" using b by (simp only: length_drop) linarith
    from less [OF this, of "drop ?b c2"] False
    have "contents_loop \<lparr>left = c1, eof = False\<rparr> \<lparr>left = c2, eof = False\<rparr> \<longleftrightarrow>
        take ?b c1 = take ?b c2 \<and> drop ?b c1 = drop ?b c2"
      by (subst contents_loop.simps) (auto simp: r not_less)
    then show ?thesis by (metis append_take_drop_id)
  qed
qed

text \<open>
  \<open>ContentsEqual\<close> terminates and is true exactly when both files can be opened and hold the same
  bytes, wherever their lengths fall between the boundaries of its buffer.
\<close>

theorem contents_equal_correct:
  "ContentsEqual open_stream f g \<longleftrightarrow> open_stream f \<noteq> None \<and> open_stream f = open_stream g"
  by (auto simp: ContentsEqual_def contents_loop_eq split: option.split)

definition trim_right :: "string \<Rightarrow> string" where
  "trim_right s = rev (dropWhile (\<lambda>c. c = CHR 0x0D \<or> c = CHR 0x0A) (rev s))"

function text_lines :: "string \<Rightarrow> string list" where
  "text_lines s =
     (let line = takeWhile (\<lambda>c. c \<noteq> CHR 0x0A) s
      in if length line = length s then [line] else line # text_lines (drop (Suc (length line)) s))"
  by pat_completeness auto
termination
proof (relation "measure length", goal_cases)
  case (2 s line)
  then have "s \<noteq> []" by auto
  then show ?case by simp
qed simp

declare text_lines.simps [simp del]

lemma text_lines_nonempty [simp]: "text_lines c \<noteq> []"
  by (subst text_lines.simps) (simp add: Let_def)

lemma cut_line_trim:
  assumes "length s < npos"
  shows "cut_line (last_text s) s = trim_right s"
proof -
  let ?P = "\<lambda>c. c \<noteq> CHR 0x0D \<and> c \<noteq> CHR 0x0A"
  define t where "t = trim_right s"
  define w where "w = rev (takeWhile (\<lambda>c. c = CHR 0x0D \<or> c = CHR 0x0A) (rev s))"
  have s: "s = t @ w" unfolding t_def w_def trim_right_def by (metis rev_append rev_rev_ident takeWhile_dropWhile_id)
  have w: "\<not> ?P c" if "c \<in> set w" for c using that by (auto simp: w_def dest: set_takeWhileD)
  have t: "?P (last t)" if "t \<noteq> []"
  proof -
    have "dropWhile (\<lambda>c. c = CHR 0x0D \<or> c = CHR 0x0A) (rev s) \<noteq> []" using that by (simp add: t_def trim_right_def)
    from hd_dropWhile [OF this] show ?thesis using that by (simp add: t_def trim_right_def last_rev)
  qed
  show ?thesis
  proof (cases "t = []")
    case True
    then have "\<not> ?P (s ! j)" if "j < length s" for j using that w [of "s ! j"] s by simp
    then have "last_text s = npos"
      using last_pos_greatest [of npos s ?P] by (auto simp: last_text_def is_greatest_below_def)
    then show ?thesis using True by (simp add: cut_line_def t_def)
  next
    case False
    have g: "is_greatest_below (length s) (\<lambda>j. ?P (s ! j)) (last_text s)"
      using last_pos_greatest [of npos s ?P] assms False s
      by (simp add: last_text_def min_def is_greatest_below_def)
    moreover have "is_greatest_below (length s) (\<lambda>j. ?P (s ! j)) (length t - 1)"
    proof -
      have "?P (s ! (length t - 1))" using t [OF False] False by (simp add: s nth_append last_conv_nth)
      moreover have "\<not> ?P (s ! j)" if "length t - 1 < j" "j < length s" for j
        using that w [of "s ! j"] False by (auto simp: s nth_append)
      moreover have "length t - 1 < length s" using False s by (cases t) simp_all
      ultimately show ?thesis unfolding is_greatest_below_def by blast
    qed
    ultimately have "last_text s = length t - 1" using assms by (intro greatest_unique) auto
    moreover have "length t - 1 \<noteq> npos" "0 < length t" using assms s False by auto
    ultimately have "cut_line (last_text s) s = t" using s False by (simp add: cut_line_def)
    then show ?thesis by (simp only: t_def)
  qed
qed

definition begins :: "string \<Rightarrow> string \<Rightarrow> bool" where
  "begins p s \<longleftrightarrow> take (length p) s = p"

lemma last_text_Nil [simp]: "last_text [] = npos"
  by (simp add: last_text_def)

lemma last_text_kept: "length s < npos \<Longrightarrow>
    last_text (trim_right s) = (if trim_right s = [] then npos else length (trim_right s) - 1)"
proof -
  assume "length s < npos"
  moreover have "length (trim_right s) \<le> length s"
    unfolding trim_right_def by (metis length_dropWhile_le length_rev)
  moreover have idem: "trim_right (trim_right s) = trim_right s" by (simp add: trim_right_def dropWhile_idem)
  ultimately have c: "cut_line (last_text (trim_right s)) (trim_right s) = trim_right s" "length (trim_right s) < npos"
    using cut_line_trim [of "trim_right s"] by simp_all
  have g: "is_greatest_below (length (trim_right s))
      (\<lambda>j. trim_right s ! j \<noteq> CHR 0x0D \<and> trim_right s ! j \<noteq> CHR 0x0A) (last_text (trim_right s))"
    using last_pos_greatest [of npos "trim_right s" "\<lambda>c. c \<noteq> CHR 0x0D \<and> c \<noteq> CHR 0x0A"] c(2)
    by (simp add: last_text_def min_def)
  show ?thesis
  proof (cases "trim_right s = []")
    case True
    then show ?thesis by (simp add: last_text_def)
  next
    case False
    then have n: "last_text (trim_right s) \<noteq> npos" using c(1) by (auto simp: cut_line_def)
    then have "last_text (trim_right s) < length (trim_right s)" using g by (simp add: is_greatest_below_def)
    moreover have "\<not> last_text (trim_right s) + 1 < length (trim_right s)"
      using arg_cong [OF c(1), of length] n by (auto simp: cut_line_def split: if_splits)
    ultimately have "last_text (trim_right s) = length (trim_right s) - 1" by linarith
    then show ?thesis using False by simp
  qed
qed

lemma cut_like:
  assumes "length l1 < npos"
  shows "trim_right l1 = cut_line (last_text (trim_right l1)) l2 \<longleftrightarrow> begins (trim_right l1) l2"
proof (cases "trim_right l1 = []")
  case True
  then show ?thesis by (simp add: last_text_kept [OF assms] cut_line_def begins_def)
next
  case False
  let ?n = "length (trim_right l1)"
  have le: "?n \<le> length l1" unfolding trim_right_def by (metis length_dropWhile_le length_rev)
  have "?n - 1 \<noteq> npos" using le assms by linarith
  then have "cut_line (last_text (trim_right l1)) l2 = take ?n l2"
    using False by (cases "?n < length l2") (simp_all add: last_text_kept [OF assms] cut_line_def)
  then show ?thesis by (auto simp: begins_def)
qed

lemma getline_fresh:
  "stream_getline \<lparr>left = c, eof = False\<rparr> =
     (let line = takeWhile (\<lambda>x. x \<noteq> CHR 0x0A) c
      in (line, \<lparr>left = drop (Suc (length line)) c, eof = (length line = length c)\<rparr>))"
  by (simp add: stream_getline_def Let_def)

lemma text_loop_eq:
  assumes "length c1 < npos"
  shows "text_loop \<lparr>left = c1, eof = False\<rparr> \<lparr>left = c2, eof = False\<rparr> \<longleftrightarrow>
    list_all2 (\<lambda>l1 l2. begins (trim_right l1) l2) (text_lines c1) (text_lines c2)"
  using assms
proof (induction "length c1" arbitrary: c1 c2 rule: less_induct)
  case less
  define l1 where "l1 = takeWhile (\<lambda>x. x \<noteq> CHR 0x0A) c1"
  define l2 where "l2 = takeWhile (\<lambda>x. x \<noteq> CHR 0x0A) c2"
  have n: "length l1 < npos" using less(2) length_takeWhile_le [of _ c1] unfolding l1_def by (rule le_less_trans [rotated])
  have step: "text_loop \<lparr>left = c1, eof = False\<rparr> \<lparr>left = c2, eof = False\<rparr> \<longleftrightarrow>
      (length l1 = length c1 \<longleftrightarrow> length l2 = length c2) \<and> begins (trim_right l1) l2 \<and>
      (length l1 = length c1 \<or> text_loop \<lparr>left = drop (Suc (length l1)) c1, eof = False\<rparr>
         \<lparr>left = drop (Suc (length l2)) c2, eof = False\<rparr>)"
    by (subst text_loop.simps)
       (auto simp: getline_fresh Let_def l1_def [symmetric] l2_def [symmetric] cut_line_trim [OF n] cut_like [OF n] eq_commute)
  have lines: "text_lines c1 = (if length l1 = length c1 then [l1] else l1 # text_lines (drop (Suc (length l1)) c1))"
    "text_lines c2 = (if length l2 = length c2 then [l2] else l2 # text_lines (drop (Suc (length l2)) c2))"
    by (subst text_lines.simps, simp add: Let_def l1_def l2_def)+
  show ?case
  proof (cases "length l1 = length c1")
    case True
    then show ?thesis using step lines by (auto simp: list_all2_Cons1)
  next
    case False
    then have "length (drop (Suc (length l1)) c1) < length c1" by (cases c1) (auto simp: l1_def)
    moreover have "length (drop (Suc (length l1)) c1) < npos" using less(2) by simp
    ultimately show ?thesis using less(1) False step lines by (auto simp: list_all2_Cons1)
  qed
qed

text \<open>
  \<open>TextContentsEqual\<close> terminates, and on files that open is true exactly when they have as many
  lines and each line of the first, less the carriage returns it ends in, is a prefix of the line of the
  second: the second line is cut where the first ends, so longer lines are taken for equal.
\<close>

theorem text_contents_prefix:
  assumes "open_stream f = Some c1" "open_stream g = Some c2" "length c1 < npos"
  shows "TextContentsEqual open_stream f g \<longleftrightarrow>
    list_all2 (\<lambda>l1 l2. begins (trim_right l1) l2) (text_lines c1) (text_lines c2)"
  using assms by (simp add: TextContentsEqual_def text_loop_eq)

theorem text_contents_prefix_witness:
  "TextContentsEqual [''a'' \<mapsto> ''x'', ''b'' \<mapsto> ''xyz''] ''a'' ''b'' \<and>
   \<not> TextContentsEqual [''a'' \<mapsto> ''x'', ''b'' \<mapsto> ''xyz''] ''b'' ''a''"
  using text_contents_prefix [of "[''a'' \<mapsto> ''x'', ''b'' \<mapsto> ''xyz'']" "''a''" "''x''" "''b''" "''xyz''"]
    text_contents_prefix [of "[''a'' \<mapsto> ''x'', ''b'' \<mapsto> ''xyz'']" "''b''" "''xyz''" "''a''" "''x''"]
  by (simp add: npos_def text_lines.simps trim_right_def begins_def)

section \<open>Reading whole files\<close>

lemma fread_loop_all:
  assumes "length c + length d < npos" "length c \<le> m" "m \<le> npos"
  shows "fst (fread_loop m (length c) c \<lparr>io_left = d, io_error = b\<rparr>) = (length c + length d \<le> m) \<and>
    fst (snd (fread_loop m (length c) c \<lparr>io_left = d, io_error = b\<rparr>)) = take m (c @ d) \<and>
    (length c + length d \<le> m \<longrightarrow> io_error (snd (snd (fread_loop m (length c) c \<lparr>io_left = d, io_error = b\<rparr>))) = b)"
  using assms
proof (induction "length d" arbitrary: c d rule: less_induct)
  case less
  let ?K = kReadBuffer
  define mem where "mem = take ?K d"
  define d' where "d' = drop ?K d"
  have d: "d = mem @ d'" by (simp add: mem_def d'_def)
  have sub: "sz_sub m (length c) = m - length c" using less(3,4) by (simp add: sz_sub_exact npos_def)
  show ?case
  proof (cases "mem = []")
    case True
    then have "d = []" by (simp add: mem_def kReadBuffer_def)
    then show ?thesis using less(3) by (subst (1 2 3) fread_loop.simps) (simp add: Let_def)
  next
    case False
    have step: "fread_loop m (length c) c \<lparr>io_left = d, io_error = b\<rparr> =
        (if m - length c < length mem then (False, c @ take (m - length c) mem, \<lparr>io_left = d', io_error = b\<rparr>)
         else fread_loop m (sz_add (length c) (length mem)) (c @ mem) \<lparr>io_left = d', io_error = b\<rparr>)"
      using False by (subst fread_loop.simps) (simp add: Let_def sub mem_def [symmetric] d'_def [symmetric] min_def)
    show ?thesis
    proof (cases "m - length c < length mem")
      case True
      then show ?thesis using step d less(3) by (auto simp: min_def)
    next
      case False
      have "sz_add (length c) (length mem) = length (c @ mem)"
        using less(2) d by (simp add: sz_add_exact npos_def)
      moreover have "length d' < length d" using \<open>mem \<noteq> []\<close> d by simp
      moreover have "length (c @ mem) + length d' < npos" "length (c @ mem) \<le> m" using less(2,3) d False by auto
      ultimately show ?thesis using less(1) [of d' "c @ mem"] less(4) step d False by (simp add: add.assoc)
    qed
  qed
qed

text \<open>
  For a path that is not below a parent reference, \<open>ReadFileToStringWithMaxSize\<close> terminates with the
  first \<open>max_size\<close> bytes of the file, and its answer is true exactly when these are all and reading
  them met no error, whatever the size is against the 64 KiB buffer.
\<close>

theorem read_to_string_prefix:
  assumes "\<not> ReferencesParent path" "fopen path = Some \<lparr>io_left = d, io_error = b\<rparr>" "length d < npos" "m \<le> npos"
  shows "ReadFileToStringWithMaxSize fopen path m = (length d \<le> m \<and> \<not> b, take m d)"
  using fread_loop_all [of "[]" d m b] assms
  by (auto simp: ReadFileToStringWithMaxSize_def Let_def split: prod.split)

theorem read_to_string_prefix_witness:
  "ReadFileToStringWithMaxSize [''a'' \<mapsto> \<lparr>io_left = [1, 2, 3], io_error = False\<rparr>] ''a'' 2 = (False, [1, 2])"
proof -
  have "\<not> ReferencesParent ''a''"
    by (simp add: ReferencesParent_def GetComponents_names wf_path_def path_names_def root_of_def
        relative_names_def segments_name [of "''a''" "[]", simplified] kParentDirectory_def)
  from read_to_string_prefix [OF this, of "[''a'' \<mapsto> \<lparr>io_left = [1, 2, 3], io_error = False\<rparr>]" "[1, 2, 3]" False 2]
  show ?thesis by (simp add: npos_def)
qed

end
