(* ===== verification/Machine.thy ===== *)
theory Machine
  imports Prelude
begin

text \<open>
  The contract that the components with state share.  A \<open>machine\<close> has states it may start in, a step
  relation and an invariant the steps keep; what it promises is that every reachable state has the
  invariant.  A \<open>live_machine\<close> also comes closer to its goal by some step until it is there, so no
  schedule can lead it where the goal is out of reach.  A \<open>refinement\<close> relates the operations of a
  component to those of an abstract one.  The components interpret the two on their own
  step relations.  The file also holds what they need of lists of threads.
\<close>

locale machine =
  fixes start :: "'s \<Rightarrow> bool"
    and step :: "'s \<Rightarrow> 's \<Rightarrow> bool"
    and inv :: "'s \<Rightarrow> bool"
  assumes start_inv: "start s \<Longrightarrow> inv s"
    and step_inv: "inv s \<Longrightarrow> step s t \<Longrightarrow> inv t"
begin

lemma run_inv: "rtranclp step s t \<Longrightarrow> inv s \<Longrightarrow> inv t"
  by (induction rule: rtranclp_induct) (auto intro: step_inv)

lemma reachable_inv: "start s \<Longrightarrow> rtranclp step s t \<Longrightarrow> inv t"
  using run_inv start_inv by blast

end

locale live_machine = machine start step inv
  for start :: "'s \<Rightarrow> bool" and step :: "'s \<Rightarrow> 's \<Rightarrow> bool" and inv :: "'s \<Rightarrow> bool" +
  fixes goal :: "'s \<Rightarrow> bool"
    and able :: "'s \<Rightarrow> bool"
    and distance :: "'s \<Rightarrow> nat"
  assumes closer: "inv s \<Longrightarrow> able s \<Longrightarrow> \<not> goal s \<Longrightarrow> \<exists>t. step s t \<and> able t \<and> distance t < distance s"
begin

lemma goal_from: "inv s \<Longrightarrow> able s \<Longrightarrow> \<exists>t. rtranclp step s t \<and> goal t \<and> inv t"
proof (induction "distance s" arbitrary: s rule: less_induct)
  case less
  show ?case
  proof (cases "goal s")
    case False
    then obtain t where t: "step s t" "able t" "distance t < distance s" using closer less.prems by blast
    then obtain u where "rtranclp step t u" "goal u" "inv u" using less step_inv by blast
    then show ?thesis using t(1) by (meson converse_rtranclp_into_rtranclp)
  qed (use less.prems in blast)
qed

lemma goal_reachable: "start s \<Longrightarrow> rtranclp step s t \<Longrightarrow> able t \<Longrightarrow> \<exists>u. rtranclp step t u \<and> goal u \<and> inv u"
  using goal_from reachable_inv by blast

end

section \<open>Refinement\<close>

primrec res_run :: "('op \<Rightarrow> 'c \<Rightarrow> 'c res) \<Rightarrow> 'op list \<Rightarrow> 'c \<Rightarrow> 'c res" where
  "res_run f [] c = Inr c"
| "res_run f (op # ops) c = bind_res (f op c) (res_run f ops)"

primrec opt_run :: "('op \<Rightarrow> 'a \<Rightarrow> 'a option) \<Rightarrow> 'op list \<Rightarrow> 'a \<Rightarrow> 'a option" where
  "opt_run f [] a = Some a"
| "opt_run f (op # ops) a = (case f op a of None \<Rightarrow> None | Some b \<Rightarrow> opt_run f ops b)"

text \<open>Operations that succeed wherever the abstract ones are defined, and agree with them.\<close>

locale refinement =
  fixes cdo :: "'op \<Rightarrow> 'c \<Rightarrow> 'c res"
    and ado :: "'op \<Rightarrow> 'a \<Rightarrow> 'a option"
    and abs :: "'c \<Rightarrow> 'a"
    and inv :: "'c \<Rightarrow> bool"
  assumes simulates: "inv c \<Longrightarrow> ado op (abs c) = Some a \<Longrightarrow> \<exists>c'. cdo op c = Inr c' \<and> inv c' \<and> abs c' = a"
begin

lemma run_simulates:
  "inv c \<Longrightarrow> opt_run ado ops (abs c) = Some a \<Longrightarrow> \<exists>c'. res_run cdo ops c = Inr c' \<and> inv c' \<and> abs c' = a"
proof (induction ops arbitrary: c)
  case (Cons op ops)
  then obtain b where "ado op (abs c) = Some b" "opt_run ado ops b = Some a" by (auto split: option.splits)
  then show ?case using simulates [OF Cons.prems(1)] Cons.IH by force
qed simp

end

section \<open>Lists of threads\<close>

definition tally :: "('a \<Rightarrow> bool) \<Rightarrow> 'a list \<Rightarrow> nat" where
  "tally P xs = length (filter P xs)"

lemma tally_update:
  "i < length xs \<Longrightarrow> tally P (xs[i := y]) + of_bool (P (xs ! i)) = tally P xs + of_bool (P y)"
proof (induction xs arbitrary: i)
  case (Cons x xs)
  then show ?case by (cases i) (auto simp: tally_def)
qed simp

lemma tally_pos: "0 < tally P xs \<longleftrightarrow> (\<exists>x\<in>set xs. P x)"
  by (auto simp: tally_def filter_empty_conv)

lemma tally_0: "tally P xs = 0 \<longleftrightarrow> (\<forall>x\<in>set xs. \<not> P x)"
  by (auto simp: tally_def filter_empty_conv)

lemma tally_map: "tally P (map f xs) = tally (\<lambda>x. P (f x)) xs"
  by (simp add: tally_def filter_map comp_def)

lemma tally_replicate [simp]: "tally P (replicate n x) = (if P x then n else 0)"
  by (simp add: tally_def)

lemma tally_append [simp]: "tally P (xs @ ys) = tally P xs + tally P ys"
  by (simp add: tally_def)

lemma tally_le: "(\<And>x. x \<in> set xs \<Longrightarrow> P x \<Longrightarrow> Q x) \<Longrightarrow> tally P xs \<le> tally Q xs"
  by (induction xs) (auto simp: tally_def)

text \<open>A thread that moves changes the weight of the list by the change of its own.\<close>

lemma sum_list_update_less:
  "i < length xs \<Longrightarrow> f y < f (xs ! i) \<Longrightarrow> sum_list (map f (xs[i := y])) < (sum_list (map f xs) :: nat)"
proof (induction xs arbitrary: i)
  case (Cons x xs)
  then show ?case by (cases i) auto
qed simp

lemma nth_update: "j < length xs \<Longrightarrow> xs[i := y] ! j = (if i = j then y else xs ! j)"
  by (auto simp: nth_list_update)

lemma ex_nth_in_set: "\<exists>x\<in>set xs. P x \<Longrightarrow> \<exists>i < length xs. P (xs ! i)"
  by (auto simp: in_set_conv_nth)

end
