(* ===== verification/Connection.thy ===== *)
theory Connection
  imports FileUtil Machine
begin

text \<open>
  \<open>net/connection.h\<close>, \<open>net/connection.cc\<close>, \<open>net/network_error.h\<close> and \<open>net/event_loop.h\<close>: one end of
  a stream, driven by an event loop.  The loop and the transfers of the subclass are abstract in the
  code; their answers are the kernel's (theory \<open>Posix\<close>).  What a subclass does to its connection while
  it handles data is a list of \<open>conn_action\<close>.  The close callback is the last thing its caller does, so
  the codes passed to it are returned to whoever called.
\<close>

section \<open>State\<close>

datatype net_error =
    OK | CONNECT_ERROR | READ_ERROR | WRITE_ERROR | CLOSE_ERROR | INVALID_CONNECTION | DUPLICATE_START
  | INVALID_PACKET | DUPLICATE_PACKET_ID | TIMEOUT

primrec net_error_int :: "net_error \<Rightarrow> int" where
  "net_error_int OK = 0"
| "net_error_int CONNECT_ERROR = 1"
| "net_error_int READ_ERROR = 2"
| "net_error_int WRITE_ERROR = 3"
| "net_error_int CLOSE_ERROR = 4"
| "net_error_int INVALID_CONNECTION = 5"
| "net_error_int DUPLICATE_START = 6"
| "net_error_int INVALID_PACKET = 7"
| "net_error_int DUPLICATE_PACKET_ID = 8"
| "net_error_int TIMEOUT = 9"

datatype loop_event =
  UNKNOWN_EVENT | READ_EVENT | WRITE_EVENT | SIGNAL_EVENT | TIMEOUT_EVENT | SYSTEM_ERROR_EVENT | NUM_EVENT_TYPES

record endpoint =
  endpoint_fd :: int
  unix_socket :: bool

definition Endpoint :: "bool \<Rightarrow> endpoint" where
  "Endpoint u = \<lparr>endpoint_fd = - 1, unix_socket = u\<rparr>"

definition set_fd :: "int \<Rightarrow> endpoint \<Rightarrow> endpoint" where
  "set_fd fd ep = ep\<lparr>endpoint_fd := fd\<rparr>"

text \<open>The address of an endpoint, with the text \<open>inet_ntop\<close> makes of a host, and its port.\<close>

definition ip_address :: "endpoint \<Rightarrow> sockaddr \<Rightarrow> string" where
  "ip_address ep addr =
     (if \<not> unix_socket ep then (case addr of SockInet port (Some host) \<Rightarrow> host | _ \<Rightarrow> [])
      else (case addr of SockUnix path \<Rightarrow> path | _ \<Rightarrow> []))"

definition endpoint_port :: "endpoint \<Rightarrow> sockaddr \<Rightarrow> int" where
  "endpoint_port ep addr =
     (if \<not> unix_socket ep then (case addr of SockInet port host \<Rightarrow> port | _ \<Rightarrow> 0) else - 1)"

datatype conn_state = INIT | CONNECTED | DISCONNECTED | DISCONNECTING

datatype rw_state = NOT_REGISTERED | READY | NOT_READY | ERROR

record connection =
  conn_fd :: int
  conn_state :: conn_state
  read_state :: rw_state
  write_state :: rw_state
  has_on_close :: bool
  can_close_connection :: bool

definition Connection_new :: "endpoint \<Rightarrow> connection" where
  "Connection_new ep =
     \<lparr>conn_fd = endpoint_fd ep, conn_state = INIT, read_state = NOT_REGISTERED,
      write_state = NOT_REGISTERED, has_on_close = False, can_close_connection = True\<rparr>"

definition Connection_destroy :: "connection \<Rightarrow> unit res" where
  "Connection_destroy c = check (conn_state c = INIT \<or> conn_state c = DISCONNECTED)"

section \<open>Operations\<close>

definition RegisterEndpointForRead :: "connection \<Rightarrow> (bool \<times> connection) io" where
  "RegisterEndpointForRead c =
     io_bind (sys_ret (LoopRegisterRead (conn_fd c) True)) (\<lambda>r.
       io_return (if r = 0 then (False, c) else (True, c\<lparr>read_state := NOT_READY\<rparr>)))"

definition UnregisterEndpointForRead :: "connection \<Rightarrow> (bool \<times> connection) io" where
  "UnregisterEndpointForRead c =
     io_bind (sys_ret (LoopUnregisterRead (conn_fd c))) (\<lambda>r.
       io_return (if r = 0 then (False, c) else (True, c\<lparr>read_state := NOT_REGISTERED\<rparr>)))"

text \<open>\<open>Start\<close> compares the truth value of the registration with zero by \<open><\<close>.\<close>

definition Connection_Start :: "connection \<Rightarrow> (bool \<times> connection) io" where
  "Connection_Start c =
     (if conn_state c \<noteq> INIT then io_return (False, c)
      else io_bind (RegisterEndpointForRead c) (\<lambda>(ok, c).
           if (if ok then 1 else 0) < (0 :: int) then io_return (False, c)
           else io_return (True, c\<lparr>conn_state := CONNECTED\<rparr>)))"

definition close_code :: "connection \<Rightarrow> net_error" where
  "close_code c =
     (if read_state c = ERROR then READ_ERROR else if write_state c = ERROR then WRITE_ERROR else OK)"

definition CloseInternal :: "connection \<Rightarrow> (connection \<times> net_error list) io" where
  "CloseInternal c =
     (if conn_state c \<noteq> DISCONNECTING then io_return (c, [])
      else if \<not> can_close_connection c then io_return (c, [])
      else let c = c\<lparr>conn_state := DISCONNECTED\<rparr>; code = close_code c
      in io_bind (if read_state c \<noteq> NOT_REGISTERED
                  then io_bind (UnregisterEndpointForRead c) (\<lambda>(ok, c). io_bind (io_check ok) (\<lambda>_. io_return c))
                  else io_return c) (\<lambda>c.
         io_bind (if write_state c = NOT_READY
                  then io_bind (sys_ret (LoopUnregisterWrite (conn_fd c))) (\<lambda>r.
                       let write_unsubscribe = (if r \<noteq> 0 then 1 else 0 :: int)
                       in io_bind (io_check (write_unsubscribe = 0)) (\<lambda>_. io_return c))
                  else io_return c) (\<lambda>c.
         let c = c\<lparr>write_state := NOT_REGISTERED\<rparr>
         in io_bind (sys_ret (SysClose (conn_fd c))) (\<lambda>retval.
              io_return (c, if has_on_close c then [if retval \<noteq> 0 then CLOSE_ERROR else code] else [])))))"

definition Connection_Close :: "connection \<Rightarrow> (connection \<times> net_error list) io" where
  "Connection_Close c =
     (if conn_state c \<noteq> CONNECTED then io_return (c, [])
      else CloseInternal (c\<lparr>conn_state := DISCONNECTING\<rparr>))"

definition RegisterForWrite :: "connection \<Rightarrow> (bool \<times> connection) io" where
  "RegisterForWrite c =
     (if conn_state c \<noteq> CONNECTED then io_return (False, c)
      else if write_state c = NOT_REGISTERED
           then io_bind (sys_ret (LoopRegisterWrite (conn_fd c) False)) (\<lambda>r.
                io_bind (io_check (r \<noteq> 0)) (\<lambda>_. io_return (True, c\<lparr>write_state := NOT_READY\<rparr>)))
           else io_return (True, c))"

definition RegisterForClose :: "bool \<Rightarrow> connection \<Rightarrow> connection" where
  "RegisterForClose callback c = c\<lparr>has_on_close := callback\<rparr>"

text \<open>What \<open>HandleDataRead\<close> and \<open>HandleDataWritten\<close> of a subclass may do to their connection.\<close>

datatype conn_action =
  ActStart | ActClose | ActRegisterForWrite | ActRegisterForClose bool | ActRegisterRead | ActUnregisterRead

primrec run_action :: "conn_action \<Rightarrow> connection \<Rightarrow> (connection \<times> net_error list) io" where
  "run_action ActStart c = io_bind (Connection_Start c) (\<lambda>(ok, c). io_return (c, []))"
| "run_action ActClose c = Connection_Close c"
| "run_action ActRegisterForWrite c = io_bind (RegisterForWrite c) (\<lambda>(ok, c). io_return (c, []))"
| "run_action (ActRegisterForClose b) c = io_return (RegisterForClose b c, [])"
| "run_action ActRegisterRead c = io_bind (RegisterEndpointForRead c) (\<lambda>(ok, c). io_return (c, []))"
| "run_action ActUnregisterRead c = io_bind (UnregisterEndpointForRead c) (\<lambda>(ok, c). io_return (c, []))"

primrec run_actions :: "conn_action list \<Rightarrow> connection \<Rightarrow> (connection \<times> net_error list) io" where
  "run_actions [] c = io_return (c, [])"
| "run_actions (a # as) c =
     io_bind (run_action a c) (\<lambda>(c, codes). io_bind (run_actions as c) (\<lambda>(c, codes').
       io_return (c, codes @ codes')))"

text \<open>What both handlers end with: the subclass handles the data, and closing waits for it.\<close>

definition finish_event :: "conn_action list \<Rightarrow> connection \<Rightarrow> (connection \<times> net_error list) io" where
  "finish_event handler c =
     (let prev = can_close_connection c
      in io_bind (run_actions handler (c\<lparr>can_close_connection := False\<rparr>)) (\<lambda>(c, codes).
           let c = c\<lparr>can_close_connection := prev\<rparr>
           in if conn_state c \<noteq> CONNECTED
              then io_bind (CloseInternal c) (\<lambda>(c, codes'). io_return (c, codes @ codes'))
              else io_return (c, codes)))"

definition write_event :: "connection \<Rightarrow> connection io" where
  "write_event c =
     io_bind (sys_ret (ConnWrite (conn_fd c))) (\<lambda>written.
       let c = (if written = 0 then c\<lparr>write_state := ERROR, conn_state := DISCONNECTING\<rparr> else c)
       in if conn_state c = CONNECTED \<and> write_state c = NOT_REGISTERED
          then io_bind (sys_ret (ConnHasData (conn_fd c))) (\<lambda>more.
               if more \<noteq> 0
               then let c = c\<lparr>write_state := NOT_READY\<rparr>
                    in io_bind (sys_ret (LoopRegisterWrite (conn_fd c) False)) (\<lambda>r.
                       io_bind (io_check (r \<noteq> 0)) (\<lambda>_. io_return c))
               else io_return c)
          else io_return c)"

definition HandleWrite :: "loop_event \<Rightarrow> conn_action list \<Rightarrow> connection \<Rightarrow> (connection \<times> net_error list) io" where
  "HandleWrite event handler c =
     io_bind (io_check (event = WRITE_EVENT)) (\<lambda>_.
       let c = c\<lparr>write_state := NOT_REGISTERED\<rparr>
       in if conn_state c \<noteq> CONNECTED then io_return (c, [])
          else io_bind (write_event c) (finish_event handler))"

definition HandleRead :: "loop_event \<Rightarrow> conn_action list \<Rightarrow> connection \<Rightarrow> (connection \<times> net_error list) io" where
  "HandleRead event handler c =
     io_bind (io_check (event = READ_EVENT)) (\<lambda>_.
       let c = c\<lparr>read_state := READY\<rparr>
       in io_bind (sys_ret (ConnRead (conn_fd c))) (\<lambda>ok.
            finish_event handler
              (if ok \<noteq> 0 then c\<lparr>read_state := NOT_READY\<rparr>
               else c\<lparr>read_state := ERROR, conn_state := DISCONNECTING\<rparr>)))"

section \<open>A connection and its event loop\<close>

text \<open>
  What can happen to a connection between two events of its loop.  The loop delivers a read event only
  while the connection is registered for reading, and a write event once for each registration.
\<close>

datatype conn_event =
    EvStart
  | EvClose
  | EvRegisterForWrite
  | EvRegisterForClose bool
  | EvRead "conn_action list"
  | EvWrite "conn_action list"

definition delivered :: "conn_event \<Rightarrow> connection \<Rightarrow> bool" where
  "delivered ev c = (case ev of
     EvRead h \<Rightarrow> read_state c \<noteq> NOT_REGISTERED
   | EvWrite h \<Rightarrow> write_state c = NOT_READY
   | _ \<Rightarrow> True)"

primrec handle_event :: "conn_event \<Rightarrow> connection \<Rightarrow> (connection \<times> net_error list) io" where
  "handle_event EvStart c = run_action ActStart c"
| "handle_event EvClose c = Connection_Close c"
| "handle_event EvRegisterForWrite c = run_action ActRegisterForWrite c"
| "handle_event (EvRegisterForClose b) c = io_return (RegisterForClose b c, [])"
| "handle_event (EvRead h) c = HandleRead READ_EVENT h c"
| "handle_event (EvWrite h) c = HandleWrite WRITE_EVENT h c"

record conn_run =
  conn :: connection
  world :: env
  told :: "net_error list"

inductive conn_step :: "conn_run \<Rightarrow> conn_run \<Rightarrow> bool" where
  "delivered ev (conn s) \<Longrightarrow> handle_event ev (conn s) (world s) = Inr ((c, codes), e) \<Longrightarrow>
   conn_step s \<lparr>conn = c, world = e, told = told s @ codes\<rparr>"

inductive_cases conn_stepE: "conn_step s t"

definition closes :: "int \<Rightarrow> env \<Rightarrow> nat" where
  "closes fd e = tally (\<lambda>c. c = SysClose fd) (trace e)"

definition conn_start :: "int \<Rightarrow> conn_run \<Rightarrow> bool" where
  "conn_start fd s \<longleftrightarrow> conn s = Connection_new (set_fd fd (Endpoint False)) \<and>
     SysClose fd \<notin> set (trace (world s)) \<and> told s = []"

definition conn_inv :: "int \<Rightarrow> conn_run \<Rightarrow> bool" where
  "conn_inv fd s \<longleftrightarrow> conn_fd (conn s) = fd \<and> can_close_connection (conn s) \<and>
     (case conn_state (conn s) of
        INIT \<Rightarrow> closes fd (world s) = 0 \<and> told s = [] \<and>
          read_state (conn s) = NOT_REGISTERED \<and> write_state (conn s) = NOT_REGISTERED
      | CONNECTED \<Rightarrow> closes fd (world s) = 0 \<and> told s = [] \<and>
          read_state (conn s) \<in> {NOT_REGISTERED, NOT_READY} \<and>
          write_state (conn s) \<in> {NOT_REGISTERED, NOT_READY}
      | DISCONNECTED \<Rightarrow> closes fd (world s) = 1 \<and> length (told s) \<le> 1 \<and>
          read_state (conn s) = NOT_REGISTERED \<and> write_state (conn s) = NOT_REGISTERED
      | DISCONNECTING \<Rightarrow> False)"

text \<open>While a handler runs.\<close>

definition mid_inv :: "int \<Rightarrow> connection \<Rightarrow> env \<Rightarrow> bool" where
  "mid_inv fd c e \<longleftrightarrow> conn_fd c = fd \<and> closes fd e = 0 \<and> write_state c \<noteq> READY \<and>
     (conn_state c = CONNECTED \<and> read_state c \<in> {NOT_REGISTERED, NOT_READY} \<and> write_state c \<noteq> ERROR \<or>
      conn_state c = DISCONNECTING)"

lemma closes_after [simp]: "closes fd (after c e) = closes fd e + of_bool (c = SysClose fd)"
  by (simp add: closes_def tally_def)

lemmas conn_ops = Connection_Start_def RegisterEndpointForRead_def UnregisterEndpointForRead_def
  RegisterForWrite_def RegisterForClose_def Connection_Close_def

lemma io_check_if: "io_check b e = (if b then Inr ((), e) else Inl CheckFailed)"
  by simp

lemma run_action_mid:
  assumes "mid_inv fd c e" "\<not> can_close_connection c" "run_action a c e = Inr ((c', codes), e')"
  shows "mid_inv fd c' e' \<and> \<not> can_close_connection c' \<and> codes = []"
proof (cases a)
  case ActClose
  then show ?thesis using assms by (auto simp: conn_ops CloseInternal_def mid_inv_def split: if_splits)
qed (use assms in \<open>auto simp: conn_ops mid_inv_def io_bind_apply io_check_if split: if_splits\<close>)

lemma run_actions_mid:
  "mid_inv fd c e \<Longrightarrow> \<not> can_close_connection c \<Longrightarrow> run_actions as c e = Inr ((c', codes), e') \<Longrightarrow>
   mid_inv fd c' e' \<and> codes = []"
proof (induction as arbitrary: c e c' codes e')
  case (Cons a as)
  then obtain c1 codes1 e1 where a: "run_action a c e = Inr ((c1, codes1), e1)"
    by (auto simp: io_bind_apply split: sum.splits)
  note m = run_action_mid [OF Cons.prems(1,2) a]
  then obtain codes2 where "run_actions as c1 e1 = Inr ((c', codes2), e')" "codes = codes1 @ codes2"
    using Cons.prems(3) a by (auto simp: io_bind_apply split: sum.splits)
  then show ?case using Cons.IH [of c1 e1 c' codes2 e'] m by simp
qed simp

lemma CloseInternal_closes:
  assumes "conn_fd c = fd" "conn_state c = DISCONNECTING" "can_close_connection c"
    "CloseInternal c e = Inr ((c', codes), e')"
  shows "conn_fd c' = fd \<and> conn_state c' = DISCONNECTED \<and> can_close_connection c' \<and>
    read_state c' = NOT_REGISTERED \<and> write_state c' = NOT_REGISTERED \<and>
    closes fd e' = Suc (closes fd e) \<and> length codes \<le> 1"
  using assms
  by (auto simp: CloseInternal_def Let_def io_bind_apply io_bind_check UnregisterEndpointForRead_def
      split: if_splits)

lemma finish_event_inv:
  assumes "mid_inv fd c e" "can_close_connection c" "finish_event h c e = Inr ((c', codes), e')"
  shows "conn_inv fd \<lparr>conn = c', world = e', told = codes\<rparr>"
proof -
  let ?c = "c\<lparr>can_close_connection := False\<rparr>"
  obtain c1 codes1 e1 where r: "run_actions h ?c e = Inr ((c1, codes1), e1)"
    using assms(3) by (auto simp: finish_event_def io_bind_apply split: sum.splits)
  have "mid_inv fd ?c e" using assms(1) by (simp add: mid_inv_def)
  then have m: "mid_inv fd c1 e1" "codes1 = []" using run_actions_mid r by auto
  let ?d = "c1\<lparr>can_close_connection := True\<rparr>"
  show ?thesis
  proof (cases "conn_state c1 = CONNECTED")
    case True
    then have "c' = ?d" "codes = []" "e' = e1"
      using assms(2,3) r m(2) by (simp_all add: finish_event_def Let_def)
    then show ?thesis using m(1) True by (cases "write_state c1") (auto simp: conn_inv_def mid_inv_def)
  next
    case False
    then have "conn_state ?d = DISCONNECTING" using m(1) by (simp add: mid_inv_def)
    moreover have "CloseInternal ?d e1 = Inr ((c', codes), e')"
      using assms(2,3) r m(2) False
      by (auto simp: finish_event_def Let_def io_bind_apply split: sum.splits)
    ultimately show ?thesis
      using CloseInternal_closes [of ?d fd e1 c' codes e'] m(1) by (simp add: conn_inv_def mid_inv_def)
  qed
qed

lemma write_event_mid:
  assumes "mid_inv fd c e" "conn_state c = CONNECTED" "write_event c e = Inr (c', e')"
  shows "mid_inv fd c' e' \<and> can_close_connection c' = can_close_connection c"
  using assms
  by (auto simp: write_event_def Let_def mid_inv_def io_bind_check split: if_splits)

lemma conn_step_inv: "conn_inv fd s \<Longrightarrow> conn_step s t \<Longrightarrow> conn_inv fd t"
proof -
  assume inv: "conn_inv fd s" and "conn_step s t"
  then obtain ev c codes e where ev: "delivered ev (conn s)"
    and h: "handle_event ev (conn s) (world s) = Inr ((c, codes), e)"
    and t: "t = \<lparr>conn = c, world = e, told = told s @ codes\<rparr>"
    by (auto elim: conn_stepE)
  note state = inv [unfolded conn_inv_def]
  show "conn_inv fd t"
  proof (cases ev)
    case EvClose
    show ?thesis
    proof (cases "conn_state (conn s) = CONNECTED")
      case True
      then show ?thesis
        using CloseInternal_closes [of "conn s\<lparr>conn_state := DISCONNECTING\<rparr>" fd "world s" c codes e] state h EvClose t
        by (simp add: conn_inv_def Connection_Close_def)
    qed (use inv h EvClose t in \<open>cases s; auto simp: Connection_Close_def\<close>)
  next
    case (EvRead a)
    then have "conn_state (conn s) = CONNECTED"
      using state ev by (auto simp: delivered_def split: conn_state.splits)
    define r where "r = rp_ret (answer (ConnRead fd) (world s))"
    define c1 where "c1 = (if r \<noteq> 0 then conn s\<lparr>read_state := NOT_READY\<rparr>
      else conn s\<lparr>read_state := ERROR, conn_state := DISCONNECTING\<rparr>)"
    let ?e = "after (ConnRead fd) (world s)"
    have "finish_event a c1 ?e = Inr ((c, codes), e)"
      using h EvRead state by (simp add: HandleRead_def Let_def c1_def r_def split: if_splits)
    moreover have "mid_inv fd c1 ?e" "can_close_connection c1"
      using state \<open>conn_state (conn s) = CONNECTED\<close> by (auto simp: mid_inv_def c1_def)
    ultimately have "conn_inv fd \<lparr>conn = c, world = e, told = codes\<rparr>" using finish_event_inv by blast
    then show ?thesis using state t \<open>conn_state (conn s) = CONNECTED\<close> by simp
  next
    case (EvWrite a)
    then have c: "conn_state (conn s) = CONNECTED"
      using state ev by (auto simp: delivered_def split: conn_state.splits)
    let ?c = "conn s\<lparr>write_state := NOT_REGISTERED\<rparr>"
    obtain c1 e1 where w: "write_event ?c (world s) = Inr (c1, e1)" "finish_event a c1 e1 = Inr ((c, codes), e)"
      using h EvWrite c by (auto simp: HandleWrite_def Let_def io_bind_apply split: sum.splits)
    have "mid_inv fd ?c (world s)" using state c by (simp add: mid_inv_def)
    then have "mid_inv fd c1 e1" "can_close_connection c1"
      using write_event_mid [OF _ _ w(1)] state c by auto
    from finish_event_inv [OF this w(2)] show ?thesis using state c t by simp
  qed (use inv h t in \<open>auto simp: conn_inv_def conn_ops io_bind_apply io_check_if split: conn_state.splits if_splits\<close>)
qed

lemma conn_start_inv: "conn_start fd s \<Longrightarrow> conn_inv fd s"
  by (auto simp: conn_start_def conn_inv_def Connection_new_def set_fd_def closes_def tally_0)

interpretation conn: machine "conn_start fd" conn_step "conn_inv fd" for fd
  by unfold_locales (auto intro: conn_start_inv conn_step_inv)

text \<open>
  C1: whatever the event loop, the descriptor and the handlers of the subclass do, including closing the
  connection from inside a handler, a connection closes its descriptor at most once, exactly when it
  becomes disconnected; it calls its close callback at most once and only then, and from then on neither
  the read nor the write event is registered.
\<close>

theorem connection_closes_once:
  assumes "conn_start fd s" "rtranclp conn_step s t"
  shows "closes fd (world t) = of_bool (conn_state (conn t) = DISCONNECTED) \<and>
    length (told t) \<le> of_bool (conn_state (conn t) = DISCONNECTED) \<and>
    (conn_state (conn t) = DISCONNECTED \<longrightarrow>
       read_state (conn t) = NOT_REGISTERED \<and> write_state (conn t) = NOT_REGISTERED)"
  using conn.reachable_inv [OF assms] by (auto simp: conn_inv_def split: conn_state.splits)

definition good_loop :: "syscall list \<Rightarrow> syscall \<Rightarrow> reply" where
  "good_loop h c = (empty_kernel h c)\<lparr>rp_ret := (case c of SysClose fd \<Rightarrow> 0 | ConnHasData fd \<Rightarrow> 0 | _ \<Rightarrow> 1)\<rparr>"

theorem connection_closes_once_witness:
  "\<exists>s t. conn_start 5 s \<and> rtranclp conn_step s t \<and> conn_state (conn t) = DISCONNECTED \<and>
     told t = [OK] \<and> closes 5 (world t) = 1"
proof -
  let ?e = "\<lparr>kernel = good_loop, trace = [], errno = 0\<rparr>"
  let ?c = "Connection_new (set_fd 5 (Endpoint False))"
  let ?s = "\<lparr>conn = ?c, world = ?e, told = []\<rparr>"
  have s: "conn_start 5 ?s" by (simp add: conn_start_def)
  let ?e1 = "after (LoopRegisterRead 5 True) ?e"
  let ?c1 = "?c\<lparr>read_state := NOT_READY, conn_state := CONNECTED, has_on_close := True\<rparr>"
  let ?c0 = "?c\<lparr>has_on_close := True\<rparr>"
  let ?e2 = "after (SysClose 5) (after (LoopUnregisterRead 5) (after (ConnRead 5) ?e1))"
  let ?c2 = "?c\<lparr>conn_state := DISCONNECTED, has_on_close := True\<rparr>"
  have step: "conn_step s' \<lparr>conn = c, world = e, told = told s' @ codes\<rparr>"
    if "delivered ev (conn s')" "handle_event ev (conn s') (world s') = Inr ((c, codes), e)" for ev s' c codes e
    using conn_step.intros that .
  have "conn_step ?s \<lparr>conn = ?c0, world = ?e, told = []\<rparr>"
    using step [of "EvRegisterForClose True" ?s ?c0 "[]" ?e] by (simp add: delivered_def RegisterForClose_def)
  moreover have "conn_step \<lparr>conn = ?c0, world = ?e, told = []\<rparr> \<lparr>conn = ?c1, world = ?e1, told = []\<rparr>"
    using step [of EvStart "\<lparr>conn = ?c0, world = ?e, told = []\<rparr>" ?c1 "[]" ?e1]
    by (simp add: delivered_def conn_ops Connection_new_def set_fd_def Endpoint_def answer_def good_loop_def)
  moreover have "conn_step \<lparr>conn = ?c1, world = ?e1, told = []\<rparr> \<lparr>conn = ?c2, world = ?e2, told = [OK]\<rparr>"
    using step [of "EvRead [ActClose]" "\<lparr>conn = ?c1, world = ?e1, told = []\<rparr>" ?c2 "[OK]" ?e2]
    by (simp add: delivered_def conn_ops HandleRead_def finish_event_def CloseInternal_def close_code_def Let_def
        Connection_new_def set_fd_def Endpoint_def answer_def good_loop_def empty_kernel_def)
  ultimately have t: "rtranclp conn_step ?s \<lparr>conn = ?c2, world = ?e2, told = [OK]\<rparr>"
    by (meson converse_rtranclp_into_rtranclp rtranclp.rtrancl_refl)
  from connection_closes_once [OF s t] show ?thesis
    using s t by (intro exI [of _ ?s] exI [of _ "\<lparr>conn = ?c2, world = ?e2, told = [OK]\<rparr>"])
      (simp add: Connection_new_def)
qed

text \<open>
  C32: four outcomes of single operations.  \<open>Start\<close> of a new connection reports success and connects even
  when the event loop refuses the registration.  \<open>Close\<close> with no write pending reports the outcome of
  \<open>close\<close>.  With a write pending it aborts the process as soon as the event loop does unregister the
  write, for the \<open>CHECK\<close> expects the truth value to be zero.  And a read event that still reaches a
  disconnected connection and fails closes the descriptor a second time.
\<close>

theorem connection_outcomes:
  "(conn_state c = INIT \<longrightarrow> (\<exists>c' e'. Connection_Start c e = Inr ((True, c'), e') \<and> conn_state c' = CONNECTED \<and>
      trace e' = trace e @ [LoopRegisterRead (conn_fd c) True])) \<and>
   (conn_state c = CONNECTED \<and> can_close_connection c \<and> has_on_close c \<and>
     read_state c = NOT_READY \<and> rp_ret (answer (LoopUnregisterRead (conn_fd c)) e) \<noteq> 0 \<longrightarrow>
     (let e1 = after (LoopUnregisterRead (conn_fd c)) e in
      (write_state c = NOT_REGISTERED \<longrightarrow>
        (\<exists>c'. Connection_Close c e = Inr ((c', [if rp_ret (answer (SysClose (conn_fd c)) e1) = 0 then OK else CLOSE_ERROR]),
          after (SysClose (conn_fd c)) e1) \<and> conn_state c' = DISCONNECTED)) \<and>
      (write_state c = NOT_READY \<and> rp_ret (answer (LoopUnregisterWrite (conn_fd c)) e1) \<noteq> 0 \<longrightarrow>
        Connection_Close c e = Inl CheckFailed))) \<and>
   (conn_state c = DISCONNECTED \<and> can_close_connection c \<and> write_state c = NOT_REGISTERED \<and>
     rp_ret (answer (ConnRead (conn_fd c)) e) = 0 \<and>
     rp_ret (answer (LoopUnregisterRead (conn_fd c)) (after (ConnRead (conn_fd c)) e)) \<noteq> 0 \<longrightarrow>
     (\<exists>c' codes e'. HandleRead READ_EVENT [] c e = Inr ((c', codes), e') \<and>
        closes (conn_fd c) e' = Suc (closes (conn_fd c) e)))"
  by (auto simp: conn_ops CloseInternal_def close_code_def HandleRead_def finish_event_def Let_def)

theorem connection_outcomes_witness:
  "Connection_Close \<lparr>conn_fd = 5, conn_state = CONNECTED, read_state = NOT_READY, write_state = NOT_READY,
     has_on_close = True, can_close_connection = True\<rparr> \<lparr>kernel = good_loop, trace = [], errno = 0\<rparr> = Inl CheckFailed"
  using connection_outcomes [of "\<lparr>conn_fd = 5, conn_state = CONNECTED, read_state = NOT_READY, write_state = NOT_READY,
     has_on_close = True, can_close_connection = True\<rparr>" "\<lparr>kernel = good_loop, trace = [], errno = 0\<rparr>"]
  by (simp add: answer_def good_loop_def Let_def)

end
