(* ===== verification/Sockets.thy ===== *)
theory Sockets
  imports FileUtil
begin

text \<open>
  \<open>net/network_options.cc\<close>, \<open>net/socket_util.cc\<close> and the parts of \<open>net/ip_util.cc\<close> the client uses: the
  options of an endpoint and those of its sockets, over the system calls of theory \<open>Posix\<close>.
\<close>

section \<open>Options\<close>

definition AF_UNIX :: int where "AF_UNIX = 1"
definition AF_INET :: int where "AF_INET = 2"

record network_options =
  opt_host :: string
  opt_port :: int
  opt_max_packet_size :: "32 word"
  opt_socket_family :: int
  opt_sin_path :: string

definition kDefaultHost :: string where "kDefaultHost = ''localhost''"
definition kDefaultPort :: int where "kDefaultPort = 8080"
definition kDefaultMaxPacketSize :: "32 word" where "kDefaultMaxPacketSize = 1024"
definition kDefaultSocketFamily :: int where "kDefaultSocketFamily = AF_INET"

definition NetworkOptions_default :: network_options where
  "NetworkOptions_default =
     \<lparr>opt_host = kDefaultHost, opt_port = kDefaultPort, opt_max_packet_size = kDefaultMaxPacketSize,
      opt_socket_family = kDefaultSocketFamily, opt_sin_path = []\<rparr>"

definition NetworkOptions_copy :: "network_options \<Rightarrow> network_options" where
  "NetworkOptions_copy other =
     \<lparr>opt_host = opt_host other, opt_port = opt_port other, opt_max_packet_size = opt_max_packet_size other,
      opt_socket_family = opt_socket_family other, opt_sin_path = opt_sin_path other\<rparr>"

definition set_host :: "string \<Rightarrow> network_options \<Rightarrow> network_options" where
  "set_host h o' = o'\<lparr>opt_host := h\<rparr>"
definition set_port :: "int \<Rightarrow> network_options \<Rightarrow> network_options" where
  "set_port p o' = o'\<lparr>opt_port := p\<rparr>"
definition set_max_packet_size :: "32 word \<Rightarrow> network_options \<Rightarrow> network_options" where
  "set_max_packet_size n o' = o'\<lparr>opt_max_packet_size := n\<rparr>"
definition set_socket_family :: "int \<Rightarrow> network_options \<Rightarrow> network_options" where
  "set_socket_family f o' = o'\<lparr>opt_socket_family := f\<rparr>"
definition set_sin_path :: "string \<Rightarrow> network_options \<Rightarrow> network_options" where
  "set_sin_path p o' = o'\<lparr>opt_sin_path := p\<rparr>"

section \<open>Socket options\<close>

definition SOL_SOCKET :: int where "SOL_SOCKET = 1"
definition SOL_TCP :: int where "SOL_TCP = 6"
definition IPPROTO_TCP :: int where "IPPROTO_TCP = 6"
definition SO_REUSEADDR :: int where "SO_REUSEADDR = 2"
definition SO_ERROR :: int where "SO_ERROR = 4"
definition SO_SNDBUF :: int where "SO_SNDBUF = 7"
definition SO_RCVBUF :: int where "SO_RCVBUF = 8"
definition SO_KEEPALIVE :: int where "SO_KEEPALIVE = 9"
definition TCP_NODELAY :: int where "TCP_NODELAY = 1"
definition TCP_KEEPIDLE :: int where "TCP_KEEPIDLE = 4"
definition TCP_KEEPINTVL :: int where "TCP_KEEPINTVL = 5"
definition TCP_KEEPCNT :: int where "TCP_KEEPCNT = 6"

definition kTcpKeepAliveSecs :: int where "kTcpKeepAliveSecs = 300"
definition kTcpKeepAliveProbeInterval :: int where "kTcpKeepAliveProbeInterval = 10"
definition kTcpKeepAliveProbes :: int where "kTcpKeepAliveProbes = 5"

definition socket_SetNonBlocking :: "int \<Rightarrow> bool io" where
  "socket_SetNonBlocking fd = SetNonBlocking fd"

text \<open>A buffer size is returned with the answer, absent when the call failed.\<close>

definition GetSendBufferSize :: "int \<Rightarrow> int option io" where
  "GetSendBufferSize fd = io_bind (sys (SysGetsockopt fd SOL_SOCKET SO_SNDBUF)) (\<lambda>r.
     io_return (if rp_ret r \<noteq> 0 then None else Some (rp_value r)))"

definition SetSendBufferSize :: "int \<Rightarrow> int \<Rightarrow> bool io" where
  "SetSendBufferSize fd sz = io_bind (sys_ret (SysSetsockopt fd SOL_SOCKET SO_SNDBUF sz)) (\<lambda>r. io_return (r = 0))"

definition GetRecvBufferSize :: "int \<Rightarrow> int option io" where
  "GetRecvBufferSize fd = io_bind (sys (SysGetsockopt fd SOL_SOCKET SO_RCVBUF)) (\<lambda>r.
     io_return (if rp_ret r \<noteq> 0 then None else Some (rp_value r)))"

definition SetRecvBufferSize :: "int \<Rightarrow> int \<Rightarrow> bool io" where
  "SetRecvBufferSize fd sz = io_bind (sys_ret (SysSetsockopt fd SOL_SOCKET SO_RCVBUF sz)) (\<lambda>r. io_return (r = 0))"

definition SetReuseAddress :: "int \<Rightarrow> bool io" where
  "SetReuseAddress fd = io_bind (sys_ret (SysSetsockopt fd SOL_SOCKET SO_REUSEADDR 1)) (\<lambda>r. io_return (r = 0))"

definition SetKeepAlive :: "int \<Rightarrow> bool io" where
  "SetKeepAlive fd = io_bind (sys_ret (SysSetsockopt fd SOL_SOCKET SO_KEEPALIVE 1)) (\<lambda>r. io_return (r = 0))"

definition SetKeepIdleTime :: "int \<Rightarrow> int \<Rightarrow> bool io" where
  "SetKeepIdleTime fd time = io_bind (sys_ret (SysSetsockopt fd SOL_TCP TCP_KEEPIDLE time)) (\<lambda>r. io_return (r = 0))"

definition SetKeepIdleCount :: "int \<Rightarrow> int \<Rightarrow> bool io" where
  "SetKeepIdleCount fd n = io_bind (sys_ret (SysSetsockopt fd SOL_TCP TCP_KEEPCNT n)) (\<lambda>r. io_return (r = 0))"

definition SetKeepIdleInterval :: "int \<Rightarrow> int \<Rightarrow> bool io" where
  "SetKeepIdleInterval fd interval =
     io_bind (sys_ret (SysSetsockopt fd SOL_TCP TCP_KEEPINTVL interval)) (\<lambda>r. io_return (r = 0))"

definition SetKeepIdleParams :: "int \<Rightarrow> int \<Rightarrow> int \<Rightarrow> int \<Rightarrow> bool io" where
  "SetKeepIdleParams fd time n interval =
     io_bind (SetKeepIdleTime fd time) (\<lambda>ok. if \<not> ok then io_return False else
     io_bind (SetKeepIdleCount fd n) (\<lambda>ok. if \<not> ok then io_return False else
     io_bind (SetKeepIdleInterval fd interval) (\<lambda>ok. if \<not> ok then io_return False else io_return True)))"

definition SetTCPNoDelay :: "int \<Rightarrow> bool io" where
  "SetTCPNoDelay fd = io_bind (sys_ret (SysSetsockopt fd IPPROTO_TCP TCP_NODELAY 1)) (\<lambda>r. io_return (r = 0))"

text \<open>
  Growing a buffer a hundredfold is arithmetic on \<open>int\<close>; its failures are ignored.
\<close>

definition grow_buffer :: "int option io \<Rightarrow> (int \<Rightarrow> bool io) \<Rightarrow> unit io" where
  "grow_buffer get set' = io_bind get (\<lambda>sz. case sz of
     None \<Rightarrow> io_return ()
   | Some n \<Rightarrow> io_bind (io_lift (checked32 (n * 100))) (\<lambda>n. io_bind (set' n) (\<lambda>_. io_return ())))"

definition SetSocketDefaults :: "int \<Rightarrow> bool io" where
  "SetSocketDefaults fd =
     io_bind (grow_buffer (GetSendBufferSize fd) (SetSendBufferSize fd)) (\<lambda>_.
     io_bind (grow_buffer (GetRecvBufferSize fd) (SetRecvBufferSize fd)) (\<lambda>_.
     io_bind (socket_SetNonBlocking fd) (\<lambda>ok. if \<not> ok then io_return False else
     io_bind (SetKeepAlive fd) (\<lambda>ok. if \<not> ok then io_return False else
     io_bind (SetKeepIdleParams fd kTcpKeepAliveSecs kTcpKeepAliveProbes kTcpKeepAliveProbeInterval) (\<lambda>ok.
       if \<not> ok then io_return False else
     io_bind (SetTCPNoDelay fd) (\<lambda>ok. if ok then io_return False else io_return True))))))"

section \<open>Addresses\<close>

definition CheckIPAddress :: "string \<Rightarrow> string set \<Rightarrow> bool" where
  "CheckIPAddress ip iset \<longleftrightarrow> ip \<in> iset"

text \<open>
  What \<open>getifaddrs\<close> lists of an interface: its name and, unless it has none, the family and the text of
  its address.  \<open>GetHostName\<close> has the host's name and what \<open>getaddrinfo\<close> answers on it: nothing when it
  fails or finds nothing, else the canonical name, which may be null.
\<close>

record interface =
  ifa_name :: string
  ifa_addr :: "(int \<times> string) option"

primrec list_addresses :: "interface list \<Rightarrow> string set \<Rightarrow> string set res" where
  "list_addresses [] iset = Inr iset"
| "list_addresses (ifa # ifas) iset = (case ifa_addr ifa of
     None \<Rightarrow> Inl NullDeref
   | Some (family, addr_buf) \<Rightarrow>
       list_addresses ifas (if family = AF_INET \<and> ''lo'' \<noteq> ifa_name ifa then insert addr_buf iset else iset))"

definition GetIPAddress :: "interface list \<Rightarrow> (bool \<times> string set) res" where
  "GetIPAddress ifas = bind_res (list_addresses ifas {}) (\<lambda>iset. Inr (iset \<noteq> {}, iset))"

definition GetHostName :: "string \<Rightarrow> string option option \<Rightarrow> string res" where
  "GetHostName hostname info = (case info of
     None \<Rightarrow> Inr hostname
   | Some None \<Rightarrow> Inl NullDeref
   | Some (Some name) \<Rightarrow> Inr name)"

definition GetIPAddressHost :: "interface list \<Rightarrow> string \<Rightarrow> string option option \<Rightarrow> (bool \<times> string set) res" where
  "GetIPAddressHost ifas hostname info =
     bind_res (GetIPAddress ifas) (\<lambda>(ok, iset).
       if \<not> ok then Inr (False, iset)
       else bind_res (GetHostName hostname info) (\<lambda>name. Inr (True, insert name iset)))"

text \<open>The out-parameter of \<open>GetAddressInfo\<close> keeps what it had when the lookup fails.\<close>

definition GetAddressInfo :: "string option \<Rightarrow> string \<Rightarrow> (bool \<times> string option) io" where
  "GetAddressInfo t host = io_bind (sys (SysGetaddrinfo host)) (\<lambda>r.
     io_return (if rp_ret r = 0 then (True, Some (rp_path r)) else (False, t)))"

definition htons :: "int \<Rightarrow> int" where
  "htons port = port mod 65536"

text \<open>\<open>snprintf\<close> cuts a path to the 108 bytes of \<open>sun_path\<close>, its terminator included.\<close>

definition sun_path :: "string \<Rightarrow> string" where
  "sun_path p = take 107 (takeWhile (\<lambda>c. c \<noteq> CHR 0x00) p)"

section \<open>The default options of a socket\<close>

lemma io_bind_Inr_iff:
  "io_bind m f e = Inr y \<longleftrightarrow> (\<exists>x e1. m e = Inr (x, e1) \<and> f x e1 = Inr y)"
  by (cases "m e") (auto simp: io_bind_apply split: prod.splits)

text \<open>The kernel lets the program turn off Nagle's algorithm on its sockets.\<close>

definition no_delay_works :: "(syscall list \<Rightarrow> syscall \<Rightarrow> reply) \<Rightarrow> bool" where
  "no_delay_works k \<longleftrightarrow> (\<forall>h fd. rp_ret (k h (SysSetsockopt fd IPPROTO_TCP TCP_NODELAY 1)) = 0)"

lemma io_lift_Inr_iff: "io_lift r e = Inr (x, e') \<longleftrightarrow> r = Inr x \<and> e' = e"
  by (cases r) auto

lemmas socket_ops = GetSendBufferSize_def SetSendBufferSize_def GetRecvBufferSize_def SetRecvBufferSize_def
  SetKeepAlive_def SetKeepIdleTime_def SetKeepIdleCount_def SetKeepIdleInterval_def SetKeepIdleParams_def
  SetTCPNoDelay_def socket_SetNonBlocking_def SetNonBlocking_def grow_buffer_def

text \<open>Calls leave the kernel itself alone.\<close>

definition keeps_kernel :: "'a io \<Rightarrow> bool" where
  "keeps_kernel m \<longleftrightarrow> (\<forall>e x e'. m e = Inr (x, e') \<longrightarrow> kernel e' = kernel e)"

lemma keeps_bind: "keeps_kernel m \<Longrightarrow> (\<And>x. keeps_kernel (f x)) \<Longrightarrow> keeps_kernel (io_bind m f)"
  unfolding keeps_kernel_def io_bind_Inr_iff by metis

lemma keeps_calls: "keeps_kernel (io_return x)" "keeps_kernel (sys c)" "keeps_kernel (sys_ret c)" "keeps_kernel (io_lift r)"
  by (auto simp: keeps_kernel_def io_lift_Inr_iff)

lemma keeps_if: "keeps_kernel a \<Longrightarrow> keeps_kernel b \<Longrightarrow> keeps_kernel (if c then a else b)"
  by simp

lemma keeps_option: "keeps_kernel a \<Longrightarrow> (\<And>y. keeps_kernel (b y)) \<Longrightarrow> keeps_kernel (case z of None \<Rightarrow> a | Some y \<Rightarrow> b y)"
  by (cases z) simp_all

lemmas keeps_intros = keeps_bind keeps_calls keeps_if keeps_option

lemma SetSocketDefaults_keeps: "keeps_kernel (SetSocketDefaults fd)"
  unfolding SetSocketDefaults_def socket_ops handle_eintr_def by (intro keeps_intros)

lemma SetSocketDefaults_kernel: "SetSocketDefaults fd e = Inr (ok, e') \<Longrightarrow> kernel e' = kernel e"
  using SetSocketDefaults_keeps by (simp add: keeps_kernel_def)

lemma SetSocketDefaults_accepted:
  "SetSocketDefaults fd e = Inr (True, e') \<Longrightarrow>
   \<exists>e1. e' = after (SysSetsockopt fd IPPROTO_TCP TCP_NODELAY 1) e1 \<and> kernel e1 = kernel e' \<and>
     rp_ret (kernel e' (trace e1) (SysSetsockopt fd IPPROTO_TCP TCP_NODELAY 1)) \<noteq> 0"
  by (auto simp: SetSocketDefaults_def io_bind_Inr_iff SetTCPNoDelay_def answer_def split: if_splits)

lemma SetSocketDefaults_refused:
  assumes "no_delay_works (kernel e)" "SetSocketDefaults fd e = Inr (ok, e')"
  shows "\<not> ok"
proof
  assume ok
  then have "SetSocketDefaults fd e = Inr (True, e')" using assms(2) by simp
  then show False using SetSocketDefaults_accepted SetSocketDefaults_kernel assms(1)
    unfolding no_delay_works_def by metis
qed

text \<open>A kernel that keeps Nagle's algorithm on, and where everything else works.\<close>

definition odd_kernel :: "syscall list \<Rightarrow> syscall \<Rightarrow> reply" where
  "odd_kernel h c = (empty_kernel h c)\<lparr>rp_ret := (case c of
     SysAccept fd \<Rightarrow> 7 | SysGetsockopt fd l n \<Rightarrow> if n = SO_ERROR then 0 else - 1 | SysClose fd \<Rightarrow> 0
   | SysConnect fd a \<Rightarrow> 0 | SysSetsockopt fd l n v \<Rightarrow> if n = TCP_NODELAY then - 1 else 0 | _ \<Rightarrow> 1)\<rparr>"

lemma SetSocketDefaults_odd:
  "kernel e = odd_kernel \<Longrightarrow> \<exists>e'. SetSocketDefaults fd e = Inr (True, e') \<and> kernel e' = odd_kernel"
  by (auto simp: SetSocketDefaults_def socket_ops handle_eintr_def answer_def odd_kernel_def empty_kernel_def io_bind_apply
      SO_ERROR_def SO_SNDBUF_def SO_RCVBUF_def SO_KEEPALIVE_def TCP_NODELAY_def TCP_KEEPIDLE_def TCP_KEEPCNT_def
      TCP_KEEPINTVL_def)

section \<open>Addresses of the host\<close>

text \<open>The addresses \<open>CheckIPAddress\<close> accepts among those \<open>GetIPAddressHost\<close> collects.\<close>

definition own_address :: "interface list \<Rightarrow> string \<Rightarrow> bool" where
  "own_address ifas ip \<longleftrightarrow> (\<exists>ifa\<in>set ifas. ifa_addr ifa = Some (AF_INET, ip) \<and> ifa_name ifa \<noteq> ''lo'')"

definition unnumbered :: "interface list \<Rightarrow> bool" where
  "unnumbered ifas \<longleftrightarrow> (\<exists>ifa\<in>set ifas. ifa_addr ifa = None)"

lemma own_address_Cons:
  "own_address (ifa # ifas) ip \<longleftrightarrow> ifa_addr ifa = Some (AF_INET, ip) \<and> ifa_name ifa \<noteq> ''lo'' \<or> own_address ifas ip"
  by (simp add: own_address_def)

lemma own_address_Nil: "own_address [] = (\<lambda>_. False)"
  by (simp add: own_address_def fun_eq_iff)

lemma list_addresses_eq:
  "list_addresses ifas iset = (if unnumbered ifas then Inl NullDeref else Inr (iset \<union> {ip. own_address ifas ip}))"
proof (induction ifas arbitrary: iset)
  case (Cons ifa ifas)
  show ?case
  proof (cases "ifa_addr ifa")
    case (Some fa)
    obtain family addr where fa: "fa = (family, addr)" by (cases fa)
    have "unnumbered (ifa # ifas) \<longleftrightarrow> unnumbered ifas" using Some by (simp add: unnumbered_def)
    moreover have "{ip. own_address (ifa # ifas) ip} =
        (if family = AF_INET \<and> ''lo'' \<noteq> ifa_name ifa then {addr} else {}) \<union> {ip. own_address ifas ip}"
      using Some fa by (auto simp: own_address_Cons)
    ultimately show ?thesis using Some fa Cons.IH by simp
  qed (simp add: unnumbered_def)
qed (simp add: own_address_Nil unnumbered_def)

text \<open>
  \<open>GetIPAddressHost\<close> succeeds exactly when some interface other than the loopback has an IPv4 address;
  then \<open>CheckIPAddress\<close> accepts those addresses and the host's name and nothing else.  An interface
  without an address (\<open>unnumbered\<close>) makes it read through a null pointer.
\<close>

theorem host_addresses:
  "(unnumbered ifas \<longrightarrow> GetIPAddressHost ifas hostname (Some (Some name)) = Inl NullDeref) \<and>
   (\<not> unnumbered ifas \<longrightarrow>
     (\<exists>iset. GetIPAddressHost ifas hostname (Some (Some name)) = Inr (\<exists>ip. own_address ifas ip, iset) \<and>
       ((\<exists>ip. own_address ifas ip) \<longrightarrow> (\<forall>ip. CheckIPAddress ip iset \<longleftrightarrow> ip = name \<or> own_address ifas ip))))"
  by (simp add: GetIPAddressHost_def GetIPAddress_def list_addresses_eq GetHostName_def CheckIPAddress_def)

theorem host_addresses_witness:
  "GetIPAddressHost [\<lparr>ifa_name = ''eth0'', ifa_addr = Some (AF_INET, ''10.0.0.1'')\<rparr>] ''h'' (Some (Some ''host'')) =
     Inr (True, {''host'', ''10.0.0.1''}) \<and>
   GetIPAddressHost [\<lparr>ifa_name = ''tun0'', ifa_addr = None\<rparr>] ''h'' (Some (Some ''host'')) = Inl NullDeref"
  using host_addresses [of "[\<lparr>ifa_name = ''tun0'', ifa_addr = None\<rparr>]" "''h''" "''host''"]
  by (simp add: unnumbered_def GetIPAddressHost_def GetIPAddress_def GetHostName_def)

end
