(* ===== verification/Contract.thy ===== *)
theory Contract
  imports Connection Sockets
begin

text \<open>
  What servers and clients ask of the connections they own, as an interface: an operation on a connection
  either leaves it open or closes it and calls the close callback exactly once, and never reaches for
  freed memory.  \<open>Close\<close> and the two event handlers of \<open>net/connection.cc\<close> provide it.
\<close>

section \<open>The interface\<close>

text \<open>
  A connection as its owner keeps it between events.  The contract of an operation on it: it leaves the
  connection so, or closes it and calls the callback exactly once.
\<close>

definition open_connection :: "connection \<Rightarrow> bool" where
  "open_connection c \<longleftrightarrow> conn_state c = CONNECTED \<and> can_close_connection c \<and> has_on_close c"

definition closed_once :: "connection \<Rightarrow> net_error list \<Rightarrow> bool" where
  "closed_once c codes \<longleftrightarrow> conn_state c = DISCONNECTED \<and> (\<exists>code. codes = [code])"

text \<open>Operations that never reach for a connection that is gone or was never there.\<close>

definition no_stray :: "'a io \<Rightarrow> bool" where
  "no_stray m \<longleftrightarrow> (\<forall>e. m e \<noteq> Inl OutOfBounds \<and> m e \<noteq> Inl NullDeref)"

lemma no_stray_bind: "no_stray m \<Longrightarrow> (\<And>x. no_stray (f x)) \<Longrightarrow> no_stray (io_bind m f)"
  by (auto simp: no_stray_def io_bind_apply split: sum.split)

lemma no_stray_calls: "no_stray (io_return x)" "no_stray (sys c)" "no_stray (sys_ret c)" "no_stray (io_check b)"
  "no_stray (io_lift (checked32 i))"
  by (auto simp: no_stray_def io_check_if io_lift_def checked_def)

lemma no_stray_if: "no_stray a \<Longrightarrow> no_stray b \<Longrightarrow> no_stray (if c then a else b)"
  by simp

lemma no_stray_option: "no_stray a \<Longrightarrow> (\<And>y. no_stray (b y)) \<Longrightarrow> no_stray (case z of None \<Rightarrow> a | Some y \<Rightarrow> b y)"
  by (cases z) simp_all

lemma no_stray_prod: "(\<And>x y. no_stray (f x y)) \<Longrightarrow> no_stray (case p of (x, y) \<Rightarrow> f x y)"
  by (cases p) simp

lemmas no_stray_intros = no_stray_bind no_stray_calls no_stray_if no_stray_option no_stray_prod

lemma connection_no_stray: "no_stray (CloseInternal c)" "no_stray (Connection_Close c)" "no_stray (Connection_Start c)"
proof -
  show c: "no_stray (CloseInternal c)" for c
    unfolding CloseInternal_def Let_def UnregisterEndpointForRead_def by (intro no_stray_intros)
  show "no_stray (Connection_Close c)" unfolding Connection_Close_def by (intro no_stray_intros c)
  show "no_stray (Connection_Start c)"
    unfolding Connection_Start_def RegisterEndpointForRead_def by (intro no_stray_intros)
qed

lemma run_action_no_stray: "no_stray (run_action a c)"
  by (cases a)
    (simp_all only: run_action.simps RegisterForWrite_def RegisterEndpointForRead_def UnregisterEndpointForRead_def,
      (intro no_stray_intros connection_no_stray)+)

lemma run_actions_no_stray: "no_stray (run_actions h c)"
  by (induction h arbitrary: c) (simp_all only: run_actions.simps, (intro no_stray_intros run_action_no_stray | assumption)+)

lemma finish_event_no_stray: "no_stray (finish_event h c)"
  unfolding finish_event_def Let_def
  by (intro no_stray_intros connection_no_stray run_actions_no_stray)

lemma Handle_no_stray: "no_stray (HandleRead ev h c)" "no_stray (HandleWrite ev h c)"
  unfolding HandleWrite_def HandleRead_def write_event_def Let_def
  by (intro no_stray_intros finish_event_no_stray)+

lemma SetSocketDefaults_no_stray: "no_stray (SetSocketDefaults fd)"
  unfolding SetSocketDefaults_def socket_ops handle_eintr_def by (intro no_stray_intros)


locale served =
  fixes m :: "connection \<Rightarrow> (connection \<times> net_error list) io"
  assumes keeps_or_closes: "open_connection c \<Longrightarrow> m c e = Inr ((c', codes), e') \<Longrightarrow>
    open_connection c' \<and> codes = [] \<or> closed_once c' codes"
    and never_strays: "no_stray (m c)"
begin

lemma reports_close:
  "open_connection c \<Longrightarrow> m c e = Inr ((c', codes), e') \<Longrightarrow> codes \<noteq> [] \<longleftrightarrow> conn_state c' = DISCONNECTED"
  using keeps_or_closes [of c e c' codes e'] by (auto simp: open_connection_def closed_once_def)

end

section \<open>The connection keeps the contract\<close>

text \<open>Handlers that leave the server's callback where it is.\<close>

definition keeps_callback :: "conn_action list \<Rightarrow> bool" where
  "keeps_callback h \<longleftrightarrow> ActRegisterForClose False \<notin> set h"

definition handling :: "connection \<Rightarrow> bool" where
  "handling c \<longleftrightarrow> has_on_close c \<and> (conn_state c = CONNECTED \<or> conn_state c = DISCONNECTING)"

lemma run_action_handling:
  assumes "handling c" "\<not> can_close_connection c" "a \<noteq> ActRegisterForClose False"
    "run_action a c e = Inr ((c', codes), e')"
  shows "handling c' \<and> \<not> can_close_connection c' \<and> codes = []"
proof (cases a)
  case ActClose
  then show ?thesis using assms by (auto simp: conn_ops CloseInternal_def handling_def split: if_splits)
next
  case (ActRegisterForClose b)
  then show ?thesis using assms by (cases b) (auto simp: conn_ops handling_def)
qed (use assms in \<open>auto simp: conn_ops handling_def io_bind_apply io_check_if split: if_splits\<close>)

lemma run_actions_handling:
  "handling c \<Longrightarrow> \<not> can_close_connection c \<Longrightarrow> keeps_callback h \<Longrightarrow> run_actions h c e = Inr ((c', codes), e') \<Longrightarrow>
   handling c' \<and> codes = []"
proof (induction h arbitrary: c e c' codes e')
  case (Cons a as)
  then obtain c1 codes1 e1 codes2 where a: "run_action a c e = Inr ((c1, codes1), e1)"
    "run_actions as c1 e1 = Inr ((c', codes2), e')" "codes = codes1 @ codes2"
    by (auto simp: io_bind_Inr_iff)
  moreover have "a \<noteq> ActRegisterForClose False" "keeps_callback as" using Cons.prems(3) by (auto simp: keeps_callback_def)
  ultimately show ?case
    using Cons.IH [of c1 e1 c' codes2 e'] run_action_handling [OF Cons.prems(1,2) _ a(1)] by simp
qed simp

lemma CloseInternal_closed_once:
  assumes "conn_state c = DISCONNECTING" "can_close_connection c" "has_on_close c"
    "CloseInternal c e = Inr ((c', codes), e')"
  shows "closed_once c' codes"
  using assms
  by (auto simp: CloseInternal_def Let_def io_bind_apply io_check_if UnregisterEndpointForRead_def closed_once_def
      split: if_splits)

lemma finish_event_contract:
  assumes "handling c" "can_close_connection c" "keeps_callback h" "finish_event h c e = Inr ((c', codes), e')"
  shows "open_connection c' \<and> codes = [] \<or> closed_once c' codes"
proof -
  let ?c = "c\<lparr>can_close_connection := False\<rparr>"
  obtain c1 codes1 e1 where r: "run_actions h ?c e = Inr ((c1, codes1), e1)"
    using assms(4) by (auto simp: finish_event_def Let_def io_bind_Inr_iff)
  have "handling ?c" using assms(1) by (simp add: handling_def)
  then have m: "handling c1" "codes1 = []" using run_actions_handling [OF _ _ assms(3) r] by auto
  show ?thesis
  proof (cases "conn_state c1 = CONNECTED")
    case True
    then show ?thesis using assms(2,4) r m by (auto simp: finish_event_def open_connection_def handling_def)
  next
    case False
    let ?d = "c1\<lparr>can_close_connection := True\<rparr>"
    have "CloseInternal ?d e1 = Inr ((c', codes), e')"
      using assms(2,4) r m(2) False by (auto simp: finish_event_def Let_def io_bind_Inr_iff)
    then have "closed_once c' codes" using CloseInternal_closed_once [of ?d] m(1) False by (simp add: handling_def)
    then show ?thesis ..
  qed
qed

lemma Close_contract:
  "open_connection c \<Longrightarrow> Connection_Close c e = Inr ((c', codes), e') \<Longrightarrow> closed_once c' codes"
  using CloseInternal_closed_once [of "c\<lparr>conn_state := DISCONNECTING\<rparr>"]
  by (simp add: Connection_Close_def open_connection_def)

lemma HandleRead_contract:
  assumes "keeps_callback h" "open_connection c" "HandleRead ev h c e = Inr ((c', codes), e')"
  shows "open_connection c' \<and> codes = [] \<or> closed_once c' codes"
proof -
  note o = assms(2) [unfolded open_connection_def]
  define r where "r = rp_ret (answer (ConnRead (conn_fd c)) e)"
  define c1 where "c1 = (if r \<noteq> 0 then c\<lparr>read_state := NOT_READY\<rparr>
    else c\<lparr>read_state := ERROR, conn_state := DISCONNECTING\<rparr>)"
  have "ev = READ_EVENT" using assms(3) by (auto simp: HandleRead_def io_bind_Inr_iff io_check_if split: if_splits)
  then have "finish_event h c1 (after (ConnRead (conn_fd c)) e) = Inr ((c', codes), e')"
    using assms(3) o by (simp add: HandleRead_def Let_def c1_def r_def split: if_splits)
  moreover have "handling c1" "can_close_connection c1" using o by (auto simp: handling_def c1_def)
  ultimately show ?thesis using finish_event_contract [OF _ _ assms(1)] by blast
qed

lemma write_event_handling:
  "open_connection c \<Longrightarrow> write_event c e = Inr (c', e') \<Longrightarrow> handling c' \<and> can_close_connection c'"
  by (auto simp: write_event_def Let_def io_bind_Inr_iff handling_def open_connection_def io_check_if split: if_splits)

lemma HandleWrite_contract:
  assumes "keeps_callback h" "open_connection c" "HandleWrite ev h c e = Inr ((c', codes), e')"
  shows "open_connection c' \<and> codes = [] \<or> closed_once c' codes"
proof -
  let ?c = "c\<lparr>write_state := NOT_REGISTERED\<rparr>"
  have "open_connection ?c" using assms(2) by (simp add: open_connection_def)
  moreover obtain c1 e1 where "write_event ?c e = Inr (c1, e1)" "finish_event h c1 e1 = Inr ((c', codes), e')"
    using assms(2,3) by (auto simp: HandleWrite_def Let_def io_bind_Inr_iff open_connection_def io_check_if split: if_splits)
  ultimately show ?thesis using write_event_handling finish_event_contract [OF _ _ assms(1)] by blast
qed

interpretation close: served Connection_Close
  by unfold_locales (auto dest: Close_contract intro: connection_no_stray)

text \<open>The event loop delivers a read or a write event to a connection, whose subclass then does \<open>h\<close>.\<close>

definition deliver :: "bool \<Rightarrow> conn_action list \<Rightarrow> connection \<Rightarrow> (connection \<times> net_error list) io" where
  "deliver write h = (if write then HandleWrite WRITE_EVENT h else HandleRead READ_EVENT h)"

lemma deliver_contract:
  assumes "keeps_callback h" "open_connection c" "deliver w h c e = Inr ((c', codes), e')"
  shows "open_connection c' \<and> codes = [] \<or> closed_once c' codes"
  using HandleRead_contract [OF assms(1,2)] HandleWrite_contract [OF assms(1,2)] assms(3)
  by (auto simp: deliver_def split: if_splits)

lemma deliver_no_stray: "no_stray (deliver w h c)"
  by (simp add: deliver_def Handle_no_stray)

lemma deliver_served: "keeps_callback h \<Longrightarrow> served (deliver w h)"
  by unfold_locales (auto intro: deliver_no_stray dest: deliver_contract)

lemma Connection_Start_new:
  "Connection_Start (RegisterForClose True (Connection_new ep)) e = Inr ((ok, c), e') \<Longrightarrow> ok \<and> open_connection c"
  by (auto simp: conn_ops open_connection_def Connection_new_def io_bind_Inr_iff split: if_splits)

end
