(* ===== verification/EventLoop.thy ===== *)
theory EventLoop
  imports Contract
begin

text \<open>
  What the event loop of \<open>net/event_loop.h\<close> holds for a connection: whether its read and its write event
  are registered.  The loop itself is abstract in the code, so its table is read off the calls that were
  made and the answers they got.  The connections of \<open>net/connection.cc\<close> keep their own account of the
  table (\<open>read_state_\<close> and \<open>write_state_\<close>); here it is shown to be true, and that a connection that has
  closed has left the table.
\<close>

section \<open>The table\<close>

type_synonym watch = "bool \<times> bool"

definition unwatched :: watch where "unwatched = (False, False)"

fun watch_call :: "watch \<Rightarrow> syscall \<times> int \<Rightarrow> watch" where
  "watch_call (r, w) (c, ret) = (case c of
     LoopRegisterRead fd persistent \<Rightarrow> (r \<or> ret \<noteq> 0, w)
   | LoopUnregisterRead fd \<Rightarrow> (r \<and> ret = 0, w)
   | LoopRegisterWrite fd persistent \<Rightarrow> (r, w \<or> ret \<noteq> 0)
   | LoopUnregisterWrite fd \<Rightarrow> (r, w \<and> ret = 0)
   | _ \<Rightarrow> (r, w))"

text \<open>The table after the calls from the \<open>n\<close>th on.\<close>

definition watch_from :: "nat \<Rightarrow> watch \<Rightarrow> env \<Rightarrow> watch" where
  "watch_from n w e = foldl watch_call w (drop n (answered e))"

text \<open>A read event stays registered when it is delivered; a write event was registered for once.\<close>

definition delivered_watch :: "bool \<Rightarrow> watch \<Rightarrow> watch" where
  "delivered_watch write w = (if write then (fst w, False) else w)"

text \<open>
  Unregistering a write event that is registered succeeds.  (The code takes that success for a failure and
  aborts: theory \<open>Connection\<close>.)
\<close>

definition unregisters_writes :: "(syscall list \<Rightarrow> syscall \<Rightarrow> reply) \<Rightarrow> bool" where
  "unregisters_writes k \<longleftrightarrow> (\<forall>h fd. rp_ret (k h (LoopUnregisterWrite fd)) \<noteq> 0)"

lemma watch_from_after [simp]:
  "n \<le> length (trace e) \<Longrightarrow> watch_from n w (after c e) = watch_call (watch_from n w e) (c, rp_ret (answer c e))"
  by (simp add: watch_from_def)

lemma watch_from_here [simp]: "watch_from (length (trace e)) w e = w"
  by (simp add: watch_from_def)

section \<open>Connections know what is registered for them\<close>

definition accounts :: "connection \<Rightarrow> watch \<Rightarrow> bool" where
  "accounts c w \<longleftrightarrow> (fst w \<longrightarrow> read_state c \<noteq> NOT_REGISTERED) \<and> (snd w \<longrightarrow> write_state c = NOT_READY)"

definition follows :: "nat \<Rightarrow> watch \<Rightarrow> connection \<Rightarrow> env \<Rightarrow> bool" where
  "follows n w c e \<longleftrightarrow> n \<le> length (trace e) \<and> accounts c (watch_from n w e)"

lemma accounts_unwatched [simp]: "accounts c unwatched"
  by (simp add: accounts_def unwatched_def)

lemma watch_call_simps:
  "fst (watch_call w (LoopRegisterRead fd p, r)) = (fst w \<or> r \<noteq> 0)" "snd (watch_call w (LoopRegisterRead fd p, r)) = snd w"
  "fst (watch_call w (LoopUnregisterRead fd, r)) = (fst w \<and> r = 0)" "snd (watch_call w (LoopUnregisterRead fd, r)) = snd w"
  "fst (watch_call w (LoopRegisterWrite fd p, r)) = fst w" "snd (watch_call w (LoopRegisterWrite fd p, r)) = (snd w \<or> r \<noteq> 0)"
  "fst (watch_call w (LoopUnregisterWrite fd, r)) = fst w" "snd (watch_call w (LoopUnregisterWrite fd, r)) = (snd w \<and> r = 0)"
  "watch_call w (SysClose fd, r) = w" "watch_call w (ConnRead fd, r) = w" "watch_call w (ConnWrite fd, r) = w"
  "watch_call w (ConnHasData fd, r) = w" "watch_call w (NotifyConnectionClose a k, r) = w"
  "watch_call w (NotifyNewConnection a, r) = w" "watch_call w (SysAccept fd, r) = w"
  "watch_call w (LoopRegisterTimer k, r) = w"
  by (cases w; simp)+

lemma run_action_follows:
  assumes "follows n w c e" "\<not> can_close_connection c" "run_action a c e = Inr ((c', codes), e')"
  shows "follows n w c' e' \<and> \<not> can_close_connection c' \<and> kernel e' = kernel e"
  using assms
  by (cases a) (auto simp: follows_def accounts_def conn_ops CloseInternal_def watch_call_simps io_bind_apply io_check_if
      split: if_splits)

lemma run_actions_follows:
  "follows n w c e \<Longrightarrow> \<not> can_close_connection c \<Longrightarrow> run_actions as c e = Inr ((c', codes), e') \<Longrightarrow>
   follows n w c' e' \<and> kernel e' = kernel e"
proof (induction as arbitrary: c e c' codes e')
  case (Cons a as)
  then obtain c1 codes1 e1 codes2 where "run_action a c e = Inr ((c1, codes1), e1)"
    "run_actions as c1 e1 = Inr ((c', codes2), e')"
    by (auto simp: io_bind_Inr_iff)
  then show ?case using run_action_follows [OF Cons.prems(1,2)] Cons.IH [of c1 e1 c' codes2 e'] by simp
qed simp

lemma CloseInternal_unwatches:
  assumes "follows n w c e" "conn_state c = DISCONNECTING" "can_close_connection c" "unregisters_writes (kernel e)"
    "CloseInternal c e = Inr ((c', codes), e')"
  shows "n \<le> length (trace e') \<and> watch_from n w e' = unwatched \<and> kernel e' = kernel e"
  using assms
  by (auto simp: CloseInternal_def Let_def io_bind_apply io_check_if UnregisterEndpointForRead_def follows_def accounts_def
      unwatched_def unregisters_writes_def answer_def watch_call_simps prod_eq_iff split: if_splits)

text \<open>After an operation the account is true, and a connection that closed is no longer in the table.\<close>

definition settled :: "nat \<Rightarrow> watch \<Rightarrow> connection \<Rightarrow> net_error list \<Rightarrow> env \<Rightarrow> bool" where
  "settled n w c codes e \<longleftrightarrow> (if codes = [] then follows n w c e else n \<le> length (trace e) \<and> watch_from n w e = unwatched)"

lemma Close_settled:
  assumes "open_connection c" "follows n w c e" "unregisters_writes (kernel e)" "Connection_Close c e = Inr ((c', codes), e')"
  shows "settled n w c' codes e' \<and> kernel e' = kernel e"
proof -
  have "follows n w (c\<lparr>conn_state := DISCONNECTING\<rparr>) e" using assms(2) by (simp add: follows_def accounts_def)
  then show ?thesis
    using CloseInternal_unwatches [of n w "c\<lparr>conn_state := DISCONNECTING\<rparr>" e c' codes e'] assms
    by (simp add: Connection_Close_def open_connection_def settled_def follows_def)
qed

lemma finish_event_settled:
  assumes "handling c" "can_close_connection c" "keeps_callback h" "follows n w c e" "unregisters_writes (kernel e)"
    "finish_event h c e = Inr ((c', codes), e')"
  shows "settled n w c' codes e' \<and> kernel e' = kernel e"
proof -
  let ?c = "c\<lparr>can_close_connection := False\<rparr>"
  obtain c1 codes1 e1 where r: "run_actions h ?c e = Inr ((c1, codes1), e1)"
    using assms(6) by (auto simp: finish_event_def Let_def io_bind_Inr_iff)
  have "handling ?c" "follows n w ?c e" using assms(1,4) by (simp_all add: handling_def follows_def accounts_def)
  then have m: "handling c1" "codes1 = []" and f: "follows n w c1 e1" "kernel e1 = kernel e"
    using run_actions_handling [OF _ _ assms(3) r] run_actions_follows [OF _ _ r] by auto
  let ?d = "c1\<lparr>can_close_connection := True\<rparr>"
  have d: "follows n w ?d e1" using f(1) by (simp add: follows_def accounts_def)
  show ?thesis
  proof (cases "conn_state c1 = CONNECTED")
    case True
    then have "c' = ?d" "codes = []" "e' = e1" using assms(2,6) r m(2) by (simp_all add: finish_event_def Let_def)
    then show ?thesis using d f(2) by (simp add: settled_def follows_def)
  next
    case False
    have "CloseInternal ?d e1 = Inr ((c', codes), e')"
      using assms(2,6) r m(2) False by (auto simp: finish_event_def Let_def io_bind_Inr_iff)
    then have "n \<le> length (trace e') \<and> watch_from n w e' = unwatched \<and> kernel e' = kernel e1"
      using CloseInternal_unwatches [OF d] m(1) f(2) assms(5) False by (simp add: handling_def)
    then show ?thesis using f(2) by (simp add: settled_def follows_def)
  qed
qed

lemma HandleRead_settled:
  assumes "keeps_callback h" "open_connection c" "follows n w c e" "fst (watch_from n w e)" "unregisters_writes (kernel e)"
    "HandleRead READ_EVENT h c e = Inr ((c', codes), e')"
  shows "settled n w c' codes e' \<and> kernel e' = kernel e"
proof -
  note o = assms(2) [unfolded open_connection_def]
  let ?e = "after (ConnRead (conn_fd c)) e"
  define r where "r = rp_ret (answer (ConnRead (conn_fd c)) e)"
  define c1 where "c1 = (if r \<noteq> 0 then c\<lparr>read_state := NOT_READY\<rparr>
    else c\<lparr>read_state := ERROR, conn_state := DISCONNECTING\<rparr>)"
  have "finish_event h c1 ?e = Inr ((c', codes), e')"
    using assms(6) o by (simp add: HandleRead_def Let_def c1_def r_def split: if_splits)
  moreover have "handling c1" "can_close_connection c1" using o by (auto simp: handling_def c1_def)
  moreover have "follows n w c1 ?e" using assms(3) by (auto simp: follows_def accounts_def c1_def watch_call_simps)
  ultimately show ?thesis using finish_event_settled [of c1 h n w ?e c' codes e'] assms(1,5) by simp
qed

lemma write_event_follows:
  assumes "follows n w c e" "write_state c = NOT_REGISTERED" "write_event c e = Inr (c', e')"
  shows "follows n w c' e' \<and> kernel e' = kernel e"
  using assms
  by (auto simp: write_event_def Let_def follows_def accounts_def watch_call_simps io_bind_Inr_iff io_check_if split: if_splits)

lemma HandleWrite_settled:
  assumes "keeps_callback h" "open_connection c" "follows n w c e" "\<not> snd (watch_from n w e)" "unregisters_writes (kernel e)"
    "HandleWrite WRITE_EVENT h c e = Inr ((c', codes), e')"
  shows "settled n w c' codes e' \<and> kernel e' = kernel e"
proof -
  let ?c = "c\<lparr>write_state := NOT_REGISTERED\<rparr>"
  have c: "open_connection ?c" "follows n w ?c e" using assms(2-4) by (simp_all add: open_connection_def follows_def accounts_def)
  obtain c1 e1 where w: "write_event ?c e = Inr (c1, e1)" "finish_event h c1 e1 = Inr ((c', codes), e')"
    using assms(2,6) by (auto simp: HandleWrite_def Let_def io_bind_Inr_iff open_connection_def)
  have "follows n w c1 e1" "kernel e1 = kernel e" using write_event_follows [OF c(2) _ w(1)] by simp_all
  then show ?thesis
    using write_event_handling [OF c(1) w(1)] finish_event_settled [of c1 h n w e1 c' codes e'] w(2) assms(1,5) by simp
qed

section \<open>The contract, with the table\<close>

locale watched = served m
  for m :: "connection \<Rightarrow> (connection \<times> net_error list) io" +
  fixes ready :: "watch \<Rightarrow> bool"
    and taken :: "watch \<Rightarrow> watch"
  assumes settles: "open_connection c \<Longrightarrow> accounts c w \<Longrightarrow> ready w \<Longrightarrow> unregisters_writes (kernel e) \<Longrightarrow>
    m c e = Inr ((c', codes), e') \<Longrightarrow>
    settled (length (trace e)) (taken w) c' codes e' \<and> kernel e' = kernel e"
begin

lemma closed_leaves_table:
  assumes "open_connection c" "accounts c w" "ready w" "unregisters_writes (kernel e)" "m c e = Inr ((c', codes), e')"
    "conn_state c' = DISCONNECTED"
  shows "watch_from (length (trace e)) (taken w) e' = unwatched"
  using settles [OF assms(1-5)] reports_close [OF assms(1,5)] assms(6) by (simp add: settled_def)

end

interpretation close_watched: watched Connection_Close "\<lambda>_. True" "\<lambda>w. w"
proof unfold_locales
  fix c :: connection and w e c' codes e'
  assume "open_connection c" "accounts c w" "unregisters_writes (kernel e)" "Connection_Close c e = Inr ((c', codes), e')"
  then show "settled (length (trace e)) w c' codes e' \<and> kernel e' = kernel e"
    using Close_settled [of c "length (trace e)" w e c' codes e'] by (simp add: follows_def)
qed

definition event_ready :: "bool \<Rightarrow> watch \<Rightarrow> bool" where
  "event_ready write w \<longleftrightarrow> (if write then snd w else fst w)"

lemma deliver_watched: "keeps_callback h \<Longrightarrow> watched (deliver w h) (event_ready w) (delivered_watch w)"
proof (intro watched.intro deliver_served watched_axioms.intro)
  fix c :: connection and W e c' codes e'
  assume h: "keeps_callback h" and c: "open_connection c" "accounts c W" "event_ready w W" "unregisters_writes (kernel e)"
    "deliver w h c e = Inr ((c', codes), e')"
  have f: "follows (length (trace e)) (delivered_watch w W) c e"
    using c(2) by (simp add: follows_def delivered_watch_def accounts_def)
  show "settled (length (trace e)) (delivered_watch w W) c' codes e' \<and> kernel e' = kernel e"
  proof (cases w)
    case True
    have "\<not> snd (watch_from (length (trace e)) (delivered_watch w W) e)" using True by (simp add: delivered_watch_def)
    then show ?thesis
      using HandleWrite_settled [of h c "length (trace e)" "delivered_watch w W" e c' codes e'] h c f True
      by (simp add: deliver_def)
  next
    case False
    have "fst (watch_from (length (trace e)) (delivered_watch w W) e)"
      using False c(3) by (simp add: delivered_watch_def event_ready_def)
    then show ?thesis
      using HandleRead_settled [of h c "length (trace e)" "delivered_watch w W" e c' codes e'] h c f False
      by (simp add: deliver_def)
  qed
qed

text \<open>A connection that has just started accounts for its read event.\<close>

lemma Connection_Start_settled:
  assumes "Connection_Start (RegisterForClose True (Connection_new ep)) e = Inr ((ok, c), e')" "n \<le> length (trace e)"
    "watch_from n w e = unwatched"
  shows "follows n w c e' \<and> kernel e' = kernel e"
  using assms
  by (auto simp: conn_ops Connection_new_def io_bind_Inr_iff follows_def accounts_def unwatched_def watch_call_simps
      prod_eq_iff split: if_splits)

section \<open>Calls that are not the loop's\<close>

definition loop_call :: "syscall \<Rightarrow> bool" where
  "loop_call c \<longleftrightarrow> (case c of
     LoopRegisterRead fd p \<Rightarrow> True | LoopUnregisterRead fd \<Rightarrow> True
   | LoopRegisterWrite fd p \<Rightarrow> True | LoopUnregisterWrite fd \<Rightarrow> True | _ \<Rightarrow> False)"

definition off_loop :: "'a io \<Rightarrow> bool" where
  "off_loop m \<longleftrightarrow> (\<forall>n w e x e'. n \<le> length (trace e) \<longrightarrow> m e = Inr (x, e') \<longrightarrow>
     n \<le> length (trace e') \<and> watch_from n w e' = watch_from n w e)"

lemma off_loopD:
  "off_loop m \<Longrightarrow> m e = Inr (x, e') \<Longrightarrow> n \<le> length (trace e) \<Longrightarrow>
   n \<le> length (trace e') \<and> watch_from n w e' = watch_from n w e"
  unfolding off_loop_def by blast

lemma off_loop_bind: "off_loop m \<Longrightarrow> (\<And>x. off_loop (f x)) \<Longrightarrow> off_loop (io_bind m f)"
  unfolding off_loop_def io_bind_Inr_iff by metis

lemma watch_call_off: "\<not> loop_call c \<Longrightarrow> watch_call w (c, r) = w"
  by (cases w; cases c) (simp_all add: loop_call_def)

lemma off_loop_calls:
  "off_loop (io_return x)" "off_loop (io_lift r)"
  "\<not> loop_call c \<Longrightarrow> off_loop (sys c)" "\<not> loop_call c \<Longrightarrow> off_loop (sys_ret c)"
  by (auto simp: off_loop_def io_lift_Inr_iff watch_call_off)

lemma off_loop_if: "off_loop a \<Longrightarrow> off_loop b \<Longrightarrow> off_loop (if c then a else b)"
  by simp

lemma off_loop_option: "off_loop a \<Longrightarrow> (\<And>y. off_loop (b y)) \<Longrightarrow> off_loop (case z of None \<Rightarrow> a | Some y \<Rightarrow> b y)"
  by (cases z) simp_all

lemma socket_calls_off_loop:
  "\<not> loop_call (SysGetsockopt fd l n)" "\<not> loop_call (SysSetsockopt fd l n v)" "\<not> loop_call (SysGetfl fd)"
  "\<not> loop_call (SysSetfl fd v)"
  by (simp_all add: loop_call_def)

lemma SetSocketDefaults_off_loop: "off_loop (SetSocketDefaults fd)"
  unfolding SetSocketDefaults_def socket_ops handle_eintr_def
  by (intro off_loop_bind off_loop_calls off_loop_if off_loop_option socket_calls_off_loop)

end
