(* ===== verification/Server.thy ===== *)
theory Server
  imports EventLoop
begin

text \<open>
  \<open>net/server.h\<close> and \<open>net/server.cc\<close>: the connections a server accepts and owns.  The heap gives each
  live connection by its address; a deleted one is gone, and reaching for it is a fault.  The order in
  which \<open>Stop\<close> meets the active connections is that of the list.  \<open>Init\<close> is declared and never defined
  in the repository; the operations start from any server.
\<close>

section \<open>Operations\<close>

record server =
  listen_fd :: int
  options :: network_options
  active_connections :: "nat list"
  live_connections :: "nat \<Rightarrow> connection option"

definition server_address :: "network_options \<Rightarrow> sockaddr" where
  "server_address o' =
     (if opt_socket_family o' = AF_INET then SockInet (htons (opt_port o')) (Some ''0.0.0.0'')
      else SockUnix (sun_path (opt_sin_path o')))"

definition close_and_fail :: "server \<Rightarrow> (bool \<times> server) io" where
  "close_and_fail s = io_bind (sys_ret (SysClose (listen_fd s))) (\<lambda>_. io_return (False, s))"

definition Server_Start :: "server \<Rightarrow> (bool \<times> server) io" where
  "Server_Start s =
     io_bind (set_errno 0) (\<lambda>_.
     io_bind (sys_ret (SysSocket (opt_socket_family (options s)))) (\<lambda>fd.
       let s = s\<lparr>listen_fd := fd\<rparr>
       in if fd < 0 then io_return (False, s)
          else io_bind (SetSocketDefaults fd) (\<lambda>ok. if \<not> ok then close_and_fail s else
               io_bind (sys_ret (SysBind fd (server_address (options s)))) (\<lambda>r. if r < 0 then close_and_fail s else
               io_bind (sys_ret (SysListen fd 100)) (\<lambda>r. if r < 0 then close_and_fail s else
               io_bind (sys_ret (LoopRegisterRead fd True)) (\<lambda>r. if r = 0 then close_and_fail s else
                 io_return (True, s)))))))"

definition delete_connection :: "nat \<Rightarrow> server \<Rightarrow> server io" where
  "delete_connection a s = (case live_connections s a of
     None \<Rightarrow> io_lift (Inl OutOfBounds)
   | Some c \<Rightarrow> io_bind (io_lift (Connection_destroy c)) (\<lambda>_.
       io_return (s\<lparr>live_connections := (live_connections s)(a := None)\<rparr>)))"

definition OnConnectionClose :: "nat \<Rightarrow> net_error \<Rightarrow> server \<Rightarrow> server io" where
  "OnConnectionClose a code s =
     (let (code, s) = (if a \<notin> set (active_connections s) then (INVALID_CONNECTION, s)
                       else (code, s\<lparr>active_connections := removeAll a (active_connections s)\<rparr>))
      in io_bind (sys_ret (NotifyConnectionClose a (net_error_int code))) (\<lambda>_. delete_connection a s))"

primrec tell_closed :: "nat \<Rightarrow> net_error list \<Rightarrow> server \<Rightarrow> server io" where
  "tell_closed a [] s = io_return s"
| "tell_closed a (code # codes) s = io_bind (OnConnectionClose a code s) (tell_closed a codes)"

text \<open>An operation on a live connection, with the callback it makes.\<close>

definition on_connection ::
    "(connection \<Rightarrow> (connection \<times> net_error list) io) \<Rightarrow> nat \<Rightarrow> server \<Rightarrow> server io" where
  "on_connection m a s = (case live_connections s a of
     None \<Rightarrow> io_lift (Inl OutOfBounds)
   | Some c \<Rightarrow> io_bind (m c) (\<lambda>(c, codes).
       tell_closed a codes (s\<lparr>live_connections := (live_connections s)(a \<mapsto> c)\<rparr>)))"

definition InternalCloseConnection :: "nat \<Rightarrow> server \<Rightarrow> server io" where
  "InternalCloseConnection a s =
     (if a \<notin> set (active_connections s) then io_return s else on_connection Connection_Close a s)"

definition CloseConnection :: "nat \<Rightarrow> server \<Rightarrow> server io" where
  "CloseConnection a s = InternalCloseConnection a s"

fun stop_loop :: "nat \<Rightarrow> server \<Rightarrow> server io" where
  "stop_loop 0 s e = Inl OutOfFuel"
| "stop_loop (Suc k) s e =
     (case active_connections s of
        [] \<Rightarrow> Inr (s, e)
      | a # _ \<Rightarrow> io_bind (on_connection Connection_Close a s) (stop_loop k) e)"

definition Server_Stop :: "nat \<Rightarrow> server \<Rightarrow> (bool \<times> server) io" where
  "Server_Stop fuel s =
     io_bind (sys_ret (LoopUnregisterRead (listen_fd s))) (\<lambda>r.
     io_bind (io_check (r \<noteq> 0)) (\<lambda>_.
     io_bind (sys_ret (SysClose (listen_fd s))) (\<lambda>_.
     io_bind (stop_loop fuel s) (\<lambda>s.
     io_bind (io_check (active_connections s = [])) (\<lambda>_. io_return (True, s))))))"

text \<open>\<open>CreateConnection\<close> of the subclass makes a connection at a free address.\<close>

definition OnNewConnection :: "nat \<Rightarrow> loop_event \<Rightarrow> server \<Rightarrow> server io" where
  "OnNewConnection a event s =
     (if event = READ_EVENT then
        let endpoint = Endpoint (opt_socket_family (options s) \<noteq> AF_INET)
        in io_bind (sys_ret (SysAccept (listen_fd s))) (\<lambda>fd.
             let endpoint = set_fd fd endpoint
             in if 0 < endpoint_fd endpoint
                then io_bind (SetSocketDefaults (endpoint_fd endpoint)) (\<lambda>ok.
                     if \<not> ok then io_bind (sys_ret (SysClose (endpoint_fd endpoint))) (\<lambda>_. io_return s)
                     else let c = RegisterForClose True (Connection_new endpoint)
                          in io_bind (Connection_Start c) (\<lambda>(ok, c).
                               let s = s\<lparr>live_connections := (live_connections s)(a \<mapsto> c)\<rparr>
                               in if \<not> ok
                                  then io_bind (sys_ret (SysClose (endpoint_fd endpoint))) (\<lambda>_. delete_connection a s)
                                  else let s = s\<lparr>active_connections := a # active_connections s\<rparr>
                                       in io_bind (sys_ret (NotifyNewConnection a)) (\<lambda>_. io_return s)))
                else io_bind (sys_ret (SysClose (endpoint_fd endpoint))) (\<lambda>_. io_return s))
      else io_return s)"

definition AddTimer :: "int \<Rightarrow> server \<Rightarrow> server io" where
  "AddTimer msecs s =
     io_bind (sys_ret (LoopRegisterTimer msecs)) (\<lambda>r. io_bind (io_check (r \<noteq> 0)) (\<lambda>_. io_return s))"


section \<open>The server owns its connections\<close>

definition server_inv :: "server \<Rightarrow> bool" where
  "server_inv s \<longleftrightarrow> distinct (active_connections s) \<and>
     (\<forall>a. a \<in> set (active_connections s) \<longleftrightarrow> live_connections s a \<noteq> None) \<and>
     (\<forall>a c. live_connections s a = Some c \<longrightarrow> open_connection c)"

context served begin

lemma on_connection_inv:
  assumes "server_inv s" "on_connection m a s e = Inr (s', e')"
  shows "server_inv s' \<and> set (active_connections s') \<subseteq> set (active_connections s)"
proof -
  obtain c where c: "live_connections s a = Some c" using assms(2) by (auto simp: on_connection_def split: option.splits)
  then have o: "open_connection c" "a \<in> set (active_connections s)" using assms(1) unfolding server_inv_def by blast+
  obtain c' codes e1 where m: "m c e = Inr ((c', codes), e1)"
    "tell_closed a codes (s\<lparr>live_connections := (live_connections s)(a \<mapsto> c')\<rparr>) e1 = Inr (s', e')"
    using assms(2) c by (auto simp: on_connection_def io_bind_Inr_iff)
  from keeps_or_closes [OF o(1) m(1)] show ?thesis
  proof
    assume "open_connection c' \<and> codes = []"
    then show ?thesis using m(2) assms(1) o(2) by (auto simp: server_inv_def split: if_splits)
  next
    assume "closed_once c' codes"
    then show ?thesis using m(2) assms(1) o(2)
      by (auto simp: closed_once_def OnConnectionClose_def Let_def delete_connection_def io_bind_Inr_iff
          io_lift_Inr_iff server_inv_def distinct_removeAll split: if_splits)
  qed
qed

lemma on_connection_no_fault:
  assumes "server_inv s" "a \<in> set (active_connections s)" "on_connection m a s e = Inl t"
  shows "\<exists>c. live_connections s a = Some c \<and> m c e = Inl t"
proof -
  obtain c where c: "live_connections s a = Some c" "open_connection c"
    using assms(1,2) unfolding server_inv_def by blast
  show ?thesis
  proof (cases "m c e")
    case (Inl u)
    then show ?thesis using c assms(3) by (simp add: on_connection_def)
  next
    case (Inr r)
    then obtain c' codes e1 where m: "m c e = Inr ((c', codes), e1)" by (cases r) auto
    from keeps_or_closes [OF c(2) m] show ?thesis
      using m assms(3) c
      by (auto simp: on_connection_def closed_once_def OnConnectionClose_def Let_def delete_connection_def
          Connection_destroy_def split: if_splits)
  qed
qed


lemma on_connection_no_stray:
  assumes "server_inv s" "a \<in> set (active_connections s)"
  shows "on_connection m a s e \<noteq> Inl OutOfBounds"
  using on_connection_no_fault [OF assms] never_strays unfolding no_stray_def by blast

end

context watched begin

text \<open>An operation on an active connection leaves the table of that address as the connection says, or empty.\<close>

lemma on_connection_table:
  assumes "live_connections s a = Some c" "open_connection c" "accounts c w" "ready w" "unregisters_writes (kernel e)"
    "on_connection m a s e = Inr (s', e')"
  shows "kernel e' = kernel e \<and> (\<forall>b. b \<noteq> a \<longrightarrow> live_connections s' b = live_connections s b) \<and>
    (case live_connections s' a of
       None \<Rightarrow> watch_from (length (trace e)) (taken w) e' = unwatched
     | Some c' \<Rightarrow> accounts c' (watch_from (length (trace e)) (taken w) e'))"
proof -
  obtain c' codes e1 where m: "m c e = Inr ((c', codes), e1)"
    "tell_closed a codes (s\<lparr>live_connections := (live_connections s)(a \<mapsto> c')\<rparr>) e1 = Inr (s', e')"
    using assms(1,6) by (auto simp: on_connection_def io_bind_Inr_iff)
  have k: "settled (length (trace e)) (taken w) c' codes e1" "kernel e1 = kernel e"
    using settles [OF assms(2-5) m(1)] by simp_all
  from keeps_or_closes [OF assms(2) m(1)] consider "codes = []" | code where "codes = [code]"
    by (auto simp: closed_once_def)
  then show ?thesis
  proof cases
    case 1
    then show ?thesis using m(2) k by (auto simp: settled_def follows_def)
  next
    case (2 code)
    then show ?thesis using m(2) k
      by (auto simp: settled_def OnConnectionClose_def Let_def delete_connection_def io_bind_Inr_iff io_lift_Inr_iff
          watch_call_simps split: if_splits)
  qed
qed

end

section \<open>Runs of the server\<close>

text \<open>
  The state of a run: the server, the world and, for each address, what the event loop has registered with
  the connection there (\<open>on_read_\<close> and \<open>on_write_\<close> capture the address).  The loop delivers what is
  registered, whether or not a connection still lives at the address.
\<close>

datatype server_event =
  SrvNewConnection nat loop_event | SrvDeliver bool "conn_action list" nat | SrvCloseConnection nat | SrvAddTimer int

type_synonym server_run = "server \<times> env \<times> (nat \<Rightarrow> watch)"

primrec server_event_ok :: "server_event \<Rightarrow> server \<Rightarrow> (nat \<Rightarrow> watch) \<Rightarrow> bool" where
  "server_event_ok (SrvNewConnection a event) s W \<longleftrightarrow> live_connections s a = None"
| "server_event_ok (SrvDeliver w h a) s W \<longleftrightarrow> keeps_callback h \<and> event_ready w (W a)"
| "server_event_ok (SrvCloseConnection a) s W \<longleftrightarrow> True"
| "server_event_ok (SrvAddTimer msecs) s W \<longleftrightarrow> True"

primrec serve :: "server_event \<Rightarrow> server \<Rightarrow> server io" where
  "serve (SrvNewConnection a event) s = OnNewConnection a event s"
| "serve (SrvDeliver w h a) s = on_connection (deliver w h) a s"
| "serve (SrvCloseConnection a) s = CloseConnection a s"
| "serve (SrvAddTimer msecs) s = AddTimer msecs s"

text \<open>The table after an event: its calls to the loop are those of the connection it was for.\<close>

primrec watch_after :: "server_event \<Rightarrow> env \<Rightarrow> env \<Rightarrow> (nat \<Rightarrow> watch) \<Rightarrow> nat \<Rightarrow> watch" where
  "watch_after (SrvNewConnection a event) e e' W = W(a := watch_from (length (trace e)) (W a) e')"
| "watch_after (SrvDeliver w h a) e e' W = W(a := watch_from (length (trace e)) (delivered_watch w (W a)) e')"
| "watch_after (SrvCloseConnection a) e e' W = W(a := watch_from (length (trace e)) (W a) e')"
| "watch_after (SrvAddTimer msecs) e e' W = W"

inductive server_step :: "server_run \<Rightarrow> server_run \<Rightarrow> bool" where
  "server_event_ok ev s W \<Longrightarrow> serve ev s e = Inr (s', e') \<Longrightarrow> server_step (s, e, W) (s', e', watch_after ev e e' W)"

inductive_cases server_stepE: "server_step (s, e, W) r"

definition server_start :: "server_run \<Rightarrow> bool" where
  "server_start r \<longleftrightarrow> (case r of (s, e, W) \<Rightarrow>
     active_connections s = [] \<and> live_connections s = (\<lambda>_. None) \<and> W = (\<lambda>_. unwatched))"

definition table_ok :: "server \<Rightarrow> (nat \<Rightarrow> watch) \<Rightarrow> bool" where
  "table_ok s W \<longleftrightarrow> (\<forall>a. case live_connections s a of None \<Rightarrow> W a = unwatched | Some c \<Rightarrow> accounts c (W a))"

definition run_inv :: "server_run \<Rightarrow> bool" where
  "run_inv r \<longleftrightarrow> (case r of (s, e, W) \<Rightarrow> server_inv s \<and> table_ok s W \<and> unregisters_writes (kernel e))"

lemma server_inv_insert:
  "server_inv s \<Longrightarrow> live_connections s a = None \<Longrightarrow> open_connection c \<Longrightarrow>
   server_inv (s\<lparr>live_connections := (live_connections s)(a \<mapsto> c), active_connections := a # active_connections s\<rparr>)"
  by (auto simp: server_inv_def)

lemma table_ok_upd:
  "table_ok s W \<Longrightarrow> (\<forall>b. b \<noteq> a \<longrightarrow> live_connections s' b = live_connections s b) \<Longrightarrow>
   (case live_connections s' a of None \<Rightarrow> w = unwatched | Some c \<Rightarrow> accounts c w) \<Longrightarrow> table_ok s' (W(a := w))"
  unfolding table_ok_def by (metis fun_upd_apply)

lemma table_ok_live: "table_ok s W \<Longrightarrow> W a \<noteq> unwatched \<Longrightarrow> live_connections s a \<noteq> None"
  unfolding table_ok_def by (metis option.simps(4))

text \<open>A new connection is added, with its read event in the table, or nothing changes.\<close>

lemma OnNewConnection_cases:
  assumes "OnNewConnection a event s e = Inr (s', e')" "live_connections s a = None"
  shows "kernel e' = kernel e \<and>
    (s' = s \<and> watch_from (length (trace e)) unwatched e' = unwatched \<or>
     (\<exists>c. s' = s\<lparr>live_connections := (live_connections s)(a \<mapsto> c), active_connections := a # active_connections s\<rparr> \<and>
        open_connection c \<and> accounts c (watch_from (length (trace e)) unwatched e')))"
proof -
  let ?n = "length (trace e)" and ?e = "after (SysAccept (listen_fd s)) e"
  define fd where "fd = rp_ret (answer (SysAccept (listen_fd s)) e)"
  let ?ep = "set_fd fd (Endpoint (opt_socket_family (options s) \<noteq> AF_INET))"
  have w: "watch_from ?n unwatched ?e = unwatched" by (simp add: watch_call_simps)
  show ?thesis
  proof (cases "event = READ_EVENT \<and> 0 < fd")
    case False
    then show ?thesis using assms by (auto simp: OnNewConnection_def Let_def fd_def set_fd_def watch_call_simps split: if_splits)
  next
    case True
    then obtain ok e1 where d: "SetSocketDefaults fd ?e = Inr (ok, e1)"
      using assms(1) by (auto simp: OnNewConnection_def Let_def io_bind_Inr_iff fd_def set_fd_def)
    have e1: "?n \<le> length (trace e1)" "watch_from ?n unwatched e1 = unwatched" "kernel e1 = kernel e"
      using off_loopD [OF SetSocketDefaults_off_loop d, of ?n unwatched] w SetSocketDefaults_kernel [OF d] by simp_all
    show ?thesis
    proof (cases ok)
      case False
      then show ?thesis using assms(1) True d e1
        by (auto simp: OnNewConnection_def Let_def io_bind_apply fd_def set_fd_def watch_call_simps)
    next
      case ok: True
      obtain ok' c e2 where c: "Connection_Start (RegisterForClose True (Connection_new ?ep)) e1 = Inr ((ok', c), e2)"
        using assms(1) True d ok by (auto simp: OnNewConnection_def Let_def io_bind_Inr_iff fd_def set_fd_def)
      have o: "ok'" "open_connection c" using Connection_Start_new [OF c] by simp_all
      have t: "follows ?n unwatched c e2" "kernel e2 = kernel e1" using Connection_Start_settled [OF c e1(1,2)] by simp_all
      have "s' = s\<lparr>live_connections := (live_connections s)(a \<mapsto> c), active_connections := a # active_connections s\<rparr>"
        "e' = after (NotifyNewConnection a) e2"
        using assms(1) True d ok c o by (auto simp: OnNewConnection_def Let_def io_bind_apply fd_def set_fd_def)
      then show ?thesis using o t e1(3) by (auto simp: follows_def watch_call_simps)
    qed
  qed
qed

lemma run_step_inv:
  assumes "run_inv (s, e, W)" "server_event_ok ev s W" "serve ev s e = Inr (s', e')"
  shows "run_inv (s', e', watch_after ev e e' W)"
proof -
  have inv: "server_inv s" "table_ok s W" "unregisters_writes (kernel e)" using assms(1) by (simp_all add: run_inv_def)
  have live: "\<exists>c. live_connections s a = Some c \<and> open_connection c \<and> accounts c (W a)" if "W a \<noteq> unwatched \<or> a \<in> set (active_connections s)" for a
    using that inv(1,2) spec [OF inv(2) [unfolded table_ok_def], of a] unfolding server_inv_def by (cases "live_connections s a") auto
  show ?thesis
  proof (cases ev)
    case (SrvNewConnection a event)
    then have n: "live_connections s a = None" "OnNewConnection a event s e = Inr (s', e')" using assms by simp_all
    moreover have "W a = unwatched" using spec [OF inv(2) [unfolded table_ok_def], of a] n(1) by simp
    ultimately show ?thesis
      using OnNewConnection_cases [OF n(2,1)] inv SrvNewConnection server_inv_insert [OF inv(1) n(1)]
      by (auto simp: run_inv_def intro!: table_ok_upd [OF inv(2)])
  next
    case (SrvDeliver w h a)
    then have h: "keeps_callback h" "event_ready w (W a)" "on_connection (deliver w h) a s e = Inr (s', e')" using assms by simp_all
    then have "W a \<noteq> unwatched" by (auto simp: event_ready_def unwatched_def split: if_splits)
    then obtain c where c: "live_connections s a = Some c" "open_connection c" "accounts c (W a)" using live by blast
    show ?thesis
      using watched.on_connection_table [OF deliver_watched [OF h(1)] c h(2) inv(3) h(3)]
        served.on_connection_inv [OF deliver_served [OF h(1)] inv(1) h(3)] inv SrvDeliver
      by (auto simp: run_inv_def intro!: table_ok_upd [OF inv(2)])
  next
    case (SrvCloseConnection a)
    show ?thesis
    proof (cases "a \<in> set (active_connections s)")
      case True
      then obtain c where c: "live_connections s a = Some c" "open_connection c" "accounts c (W a)" using live by blast
      have o: "on_connection Connection_Close a s e = Inr (s', e')"
        using assms(3) True SrvCloseConnection by (simp add: CloseConnection_def InternalCloseConnection_def)
      show ?thesis
        using close_watched.on_connection_table [OF c TrueI inv(3) o] close.on_connection_inv [OF inv(1) o] inv SrvCloseConnection
        by (auto simp: run_inv_def intro!: table_ok_upd [OF inv(2)])
    qed (use assms SrvCloseConnection in \<open>simp add: CloseConnection_def InternalCloseConnection_def\<close>)
  next
    case (SrvAddTimer msecs)
    then show ?thesis using assms by (auto simp: AddTimer_def io_bind_Inr_iff io_check_if run_inv_def split: if_splits)
  qed
qed

interpretation server: machine "\<lambda>r. server_start r \<and> unregisters_writes (kernel (fst (snd r)))" server_step run_inv
proof unfold_locales
  show "run_inv r" if "server_start r \<and> unregisters_writes (kernel (fst (snd r)))" for r
    using that by (auto simp: server_start_def run_inv_def server_inv_def table_ok_def)
  show "run_inv r'" if "run_inv r" "server_step r r'" for r r'
    using that by (cases r) (auto elim!: server_stepE intro: run_step_inv)
qed

lemma OnNewConnection_no_stray: "OnNewConnection a event s e \<noteq> Inl OutOfBounds"
proof
  let ?ep = "\<lambda>fd. set_fd fd (Endpoint (opt_socket_family (options s) \<noteq> AF_INET))"
  assume "OnNewConnection a event s e = Inl OutOfBounds"
  then consider fd e1 where "SetSocketDefaults fd e1 = Inl OutOfBounds"
    | fd e1 where "Connection_Start (RegisterForClose True (Connection_new (?ep fd))) e1 = Inl OutOfBounds"
    | fd e1 ok c e2 where "Connection_Start (RegisterForClose True (Connection_new (?ep fd))) e1 = Inr ((ok, c), e2)" "\<not> ok"
    by (auto simp: OnNewConnection_def Let_def io_bind_apply split: if_splits sum.splits)
  then show False
  proof cases
    case 3
    then show ?thesis using Connection_Start_new by blast
  qed (use SetSocketDefaults_no_stray connection_no_stray in \<open>auto simp: no_stray_def\<close>)
qed

lemma serve_no_stray:
  assumes "server_inv s" "table_ok s W" "server_event_ok ev s W"
  shows "serve ev s e \<noteq> Inl OutOfBounds"
proof (cases ev)
  case (SrvNewConnection a event)
  then show ?thesis using OnNewConnection_no_stray by simp
next
  case (SrvDeliver w h a)
  then have "W a \<noteq> unwatched" using assms(3) by (auto simp: event_ready_def unwatched_def split: if_splits)
  then have "live_connections s a \<noteq> None" by (rule table_ok_live [OF assms(2)])
  then have "a \<in> set (active_connections s)" using assms(1) unfolding server_inv_def by blast
  then show ?thesis
    using served.on_connection_no_stray [OF deliver_served assms(1)] assms(3) SrvDeliver by simp
next
  case (SrvCloseConnection a)
  then show ?thesis
    using close.on_connection_no_stray [OF assms(1)]
    by (simp add: CloseConnection_def InternalCloseConnection_def)
next
  case (SrvAddTimer msecs)
  have "no_stray (AddTimer msecs s)" unfolding AddTimer_def by (intro no_stray_intros)
  then show ?thesis using SrvAddTimer by (simp add: no_stray_def)
qed

text \<open>
  C5: a server owns exactly the connections that are alive, and the event loop knows no others.  After any
  sequence of accepted connections, delivered events, requested closes and timers, where the loop delivers
  whatever is registered with it and the subclass does anything to its connection but drop its close
  callback, the active connections are the live ones, none of them twice, each is connected and will report
  its close; every event that is still registered belongs to a live connection; and so no event, at whatever
  address the loop has it registered, reaches for a deleted connection.  The loop is one that can unregister
  a write event.
\<close>

theorem server_owns_its_connections:
  assumes "server_start r" "unregisters_writes (kernel (fst (snd r)))" "rtranclp server_step r (s, e, W)"
  shows "distinct (active_connections s) \<and>
    (\<forall>a. a \<in> set (active_connections s) \<longleftrightarrow> live_connections s a \<noteq> None) \<and>
    (\<forall>a c. live_connections s a = Some c \<longrightarrow> conn_state c = CONNECTED \<and> has_on_close c) \<and>
    (\<forall>a. fst (W a) \<or> snd (W a) \<longrightarrow> a \<in> set (active_connections s)) \<and>
    (server_event_ok ev s W \<longrightarrow> serve ev s e \<noteq> Inl OutOfBounds)"
proof -
  have inv: "server_inv s" "table_ok s W"
    using server.reachable_inv [OF conjI [OF assms(1,2)] assms(3)] by (simp_all add: run_inv_def)
  have "a \<in> set (active_connections s)" if "fst (W a) \<or> snd (W a)" for a
  proof -
    have "W a \<noteq> unwatched" using that by (auto simp: unwatched_def)
    then have "live_connections s a \<noteq> None" by (rule table_ok_live [OF inv(2)])
    then show ?thesis using inv(1) unfolding server_inv_def by blast
  qed
  then show ?thesis using serve_no_stray [OF inv] inv(1) by (auto simp: server_inv_def open_connection_def)
qed

theorem server_owns_its_connections_witness:
  "\<exists>r s e W. server_start r \<and> rtranclp server_step r (s, e, W) \<and> active_connections s = [3] \<and> fst (W 3) \<and>
     serve (SrvDeliver False [ActClose] 3) s e \<noteq> Inl OutOfBounds"
proof -
  let ?s = "\<lparr>listen_fd = 4, options = NetworkOptions_default, active_connections = [], live_connections = (\<lambda>_. None)\<rparr>"
  let ?e = "\<lparr>kernel = odd_kernel, trace = [], errno = 0\<rparr>" and ?W = "\<lambda>_::nat. unwatched"
  have st: "server_start (?s, ?e, ?W)" by (simp add: server_start_def)
  have k: "unregisters_writes (kernel (fst (snd (?s, ?e, ?W))))" by (simp add: unregisters_writes_def odd_kernel_def)
  obtain e1 where e1: "SetSocketDefaults 7 (after (SysAccept 4) ?e) = Inr (True, e1)" "kernel e1 = odd_kernel"
    using SetSocketDefaults_odd [of "after (SysAccept 4) ?e" 7] by auto
  have w: "watch_from 0 unwatched (after (SysAccept 4) ?e) = unwatched" by (simp add: watch_from_def answered_def watch_call_simps)
  have w1: "watch_from 0 unwatched e1 = unwatched"
    using off_loopD [OF SetSocketDefaults_off_loop e1(1), of 0 unwatched] w by simp
  have "\<exists>s' e'. serve (SrvNewConnection 3 READ_EVENT) ?s ?e = Inr (s', e') \<and> active_connections s' = [3] \<and>
      fst (watch_from 0 unwatched e')"
    using e1 w1
    by (simp add: OnNewConnection_def Let_def answer_def odd_kernel_def conn_ops Connection_new_def set_fd_def watch_call_simps)
  then obtain s' e' where s': "serve (SrvNewConnection 3 READ_EVENT) ?s ?e = Inr (s', e')" "active_connections s' = [3]"
    "fst (watch_from 0 unwatched e')"
    by blast
  define W where "W = watch_after (SrvNewConnection 3 READ_EVENT) ?e e' ?W"
  have W: "fst (W 3)" using s'(3) by (simp add: W_def)
  have "server_step (?s, ?e, ?W) (s', e', W)" unfolding W_def by (rule server_step.intros [OF _ s'(1)]) simp
  then have run: "rtranclp server_step (?s, ?e, ?W) (s', e', W)" by blast
  have "server_event_ok (SrvDeliver False [ActClose] 3) s' W" using W by (simp add: keeps_callback_def event_ready_def)
  then show ?thesis using server_owns_its_connections [OF st k run] st run s'(2) W by blast
qed

section \<open>Stopping\<close>

text \<open>A connection inside a handler of its own: closing it is put off, and it stays active.\<close>

definition busy :: "connection \<Rightarrow> bool" where
  "busy c \<longleftrightarrow> \<not> can_close_connection c"

text \<open>A server that is stopped from outside its connections' handlers, or from inside some of them.\<close>

definition stop_ready :: "server \<Rightarrow> bool" where
  "stop_ready s \<longleftrightarrow> distinct (active_connections s) \<and>
     (\<forall>a. a \<in> set (active_connections s) \<longleftrightarrow> live_connections s a \<noteq> None) \<and>
     (\<forall>a c. live_connections s a = Some c \<longrightarrow> open_connection c \<or> busy c)"

text \<open>What \<open>Stop\<close> does not get past: a connection inside its handler, or one with a write pending.\<close>

definition blocks_stop :: "server \<Rightarrow> nat \<Rightarrow> bool" where
  "blocks_stop s a \<longleftrightarrow> (case live_connections s a of None \<Rightarrow> False | Some c \<Rightarrow> busy c \<or> write_state c = NOT_READY)"

definition in_handler :: "server \<Rightarrow> nat \<Rightarrow> bool" where
  "in_handler s a \<longleftrightarrow> (case live_connections s a of None \<Rightarrow> False | Some c \<Rightarrow> busy c)"

definition without :: "nat \<Rightarrow> server \<Rightarrow> server" where
  "without a s = s\<lparr>active_connections := removeAll a (active_connections s),
     live_connections := (live_connections s)(a := None)\<rparr>"

text \<open>An event loop that can unregister what is registered.\<close>

definition loop_unregisters :: "(syscall list \<Rightarrow> syscall \<Rightarrow> reply) \<Rightarrow> bool" where
  "loop_unregisters k \<longleftrightarrow> (\<forall>h fd. rp_ret (k h (LoopUnregisterRead fd)) \<noteq> 0) \<and> unregisters_writes k"

lemma without_simps [simp]:
  "active_connections (without a s) = removeAll a (active_connections s)"
  "live_connections (without a s) = (live_connections s)(a := None)"
  by (simp_all add: without_def)

lemma stop_ready_without: "stop_ready s \<Longrightarrow> stop_ready (without a s)"
  by (auto simp: stop_ready_def distinct_removeAll split: if_splits)

lemma stop_ready_head:
  assumes "stop_ready s" "active_connections s = a # as"
  obtains c where "live_connections s a = Some c" "open_connection c \<or> busy c" "removeAll a (active_connections s) = as"
proof -
  obtain c where "live_connections s a = Some c" using assms unfolding stop_ready_def by fastforce
  moreover have "removeAll a (a # as) = as" using assms by (simp add: stop_ready_def)
  ultimately show ?thesis using that assms unfolding stop_ready_def by fastforce
qed

lemma on_connection_closed:
  assumes "a \<in> set (active_connections s)" "live_connections s a = Some c" "m c e = Inr ((c', codes), e1)" "closed_once c' codes"
  shows "\<exists>e2. on_connection m a s e = Inr (without a s, e2) \<and> kernel e2 = kernel e1"
  using assms by (auto simp: on_connection_def closed_once_def OnConnectionClose_def Let_def delete_connection_def
      Connection_destroy_def without_def)

lemma Close_quiet:
  assumes "open_connection c" "write_state c \<noteq> NOT_READY" "loop_unregisters (kernel e)"
  shows "\<exists>c' codes e'. Connection_Close c e = Inr ((c', codes), e') \<and> closed_once c' codes \<and> kernel e' = kernel e"
  using assms
  by (auto simp: Connection_Close_def CloseInternal_def open_connection_def closed_once_def Let_def
      UnregisterEndpointForRead_def loop_unregisters_def answer_def)

lemma Close_pending:
  assumes "open_connection c" "write_state c = NOT_READY" "loop_unregisters (kernel e)"
  shows "Connection_Close c e = Inl CheckFailed"
  using assms
  by (auto simp: Connection_Close_def CloseInternal_def open_connection_def Let_def io_bind_apply
      UnregisterEndpointForRead_def loop_unregisters_def unregisters_writes_def answer_def)

lemma Close_faults: "open_connection c \<Longrightarrow> Connection_Close c e = Inl t \<Longrightarrow> t = CheckFailed"
  by (auto simp: Connection_Close_def CloseInternal_def open_connection_def Let_def io_check_if
      UnregisterEndpointForRead_def io_bind_apply split: if_splits)

lemma Close_busy: "busy c \<Longrightarrow> \<exists>c'. Connection_Close c e = Inr ((c', []), e) \<and> busy c'"
  by (auto simp: Connection_Close_def CloseInternal_def busy_def)

lemma stop_loop_spins:
  "active_connections s = a # as \<Longrightarrow> live_connections s a = Some c \<Longrightarrow> busy c \<Longrightarrow> stop_loop k s e = Inl OutOfFuel"
proof (induction k arbitrary: s c)
  case (Suc k)
  then obtain c' where "Connection_Close c e = Inr ((c', []), e)" "busy c'" using Close_busy by blast
  then show ?case using Suc.IH [of "s\<lparr>live_connections := (live_connections s)(a \<mapsto> c')\<rparr>" c'] Suc.prems
    by (simp add: on_connection_def io_bind_apply)
qed simp

text \<open>One round over a connection that is not busy: it is closed and deleted, or the process aborts.\<close>

lemma stop_round:
  assumes "stop_ready s" "active_connections s = a # as" "\<not> in_handler s a"
  shows "stop_loop (Suc k) s e = Inl CheckFailed \<or>
    (\<exists>e'. stop_loop (Suc k) s e = stop_loop k (without a s) e' \<and> kernel e' = kernel e)"
proof -
  obtain c where c: "live_connections s a = Some c" "open_connection c"
    using stop_ready_head [OF assms(1,2)] assms(3) by (metis in_handler_def option.simps(5))
  show ?thesis
  proof (cases "Connection_Close c e")
    case (Inl t)
    then show ?thesis using Close_faults [OF c(2) Inl] c(1) assms(2) by (simp add: on_connection_def io_bind_apply)
  next
    case (Inr r)
    then obtain c' codes e1 where cl: "Connection_Close c e = Inr ((c', codes), e1)" by (cases r) auto
    then obtain e2 where "on_connection Connection_Close a s e = Inr (without a s, e2)" "kernel e2 = kernel e1"
      using on_connection_closed [where m = Connection_Close, OF _ c(1) cl Close_contract [OF c(2) cl]] assms(2) by auto
    moreover have "kernel e1 = kernel e" using cl c(2)
      by (auto simp: Connection_Close_def CloseInternal_def open_connection_def Let_def UnregisterEndpointForRead_def
          io_bind_Inr_iff io_check_if split: if_splits)
    ultimately show ?thesis using assms(2) by (auto simp: io_bind_apply)
  qed
qed

lemma stop_loop_ends:
  assumes "stop_ready s" "\<forall>a. \<not> in_handler s a" "length (active_connections s) < k"
  shows "stop_loop k s e \<noteq> Inl OutOfFuel"
  using assms
proof (induction k arbitrary: s e)
  case (Suc k)
  show ?case
  proof (cases "active_connections s")
    case (Cons a as)
    have "removeAll a (active_connections s) = as" using stop_ready_head [OF Suc.prems(1) Cons] .
    then have "length (active_connections (without a s)) < k" using Suc.prems(3) Cons by simp
    moreover have "\<forall>b. \<not> in_handler (without a s) b" using Suc.prems(2) by (simp add: in_handler_def)
    ultimately have "stop_loop k (without a s) e' \<noteq> Inl OutOfFuel" for e'
      using Suc.IH [OF stop_ready_without [OF Suc.prems(1)]] by blast
    then show ?thesis using stop_round [OF Suc.prems(1) Cons, of k e] Suc.prems(2) by auto
  qed simp
qed simp

lemma stop_loop_stuck: "stop_ready s \<Longrightarrow> in_handler s b \<Longrightarrow> stop_loop k s e \<noteq> Inr (s', e')"
proof (induction k arbitrary: s e)
  case (Suc k)
  have "b \<in> set (active_connections s)"
    using Suc.prems unfolding stop_ready_def by (auto simp: in_handler_def split: option.splits)
  then obtain a as where Cons: "active_connections s = a # as" by (cases "active_connections s") auto
  show ?case
  proof (cases "in_handler s a")
    case True
    then obtain c where "live_connections s a = Some c" "busy c" by (auto simp: in_handler_def split: option.splits)
    then have "stop_loop (Suc k) s e = Inl OutOfFuel" by (rule stop_loop_spins [OF Cons])
    then show ?thesis by simp
  next
    case False
    then have "in_handler (without a s) b" using Suc.prems(2) by (auto simp: in_handler_def)
    then show ?thesis
      using stop_round [OF Suc.prems(1) Cons False, of k e] Suc.IH [OF stop_ready_without [OF Suc.prems(1)]] by auto
  qed
qed simp

lemma blocks_stop_without: "b \<noteq> a \<Longrightarrow> blocks_stop (without a s) b = blocks_stop s b" "b \<noteq> a \<Longrightarrow> in_handler (without a s) b = in_handler s b"
  by (simp_all add: blocks_stop_def in_handler_def)

lemma stop_loop_outcome:
  assumes "stop_ready s" "loop_unregisters (kernel e)"
  shows "case find (blocks_stop s) (active_connections s) of
      None \<Rightarrow> length (active_connections s) < k \<longrightarrow>
        (\<exists>s' e'. stop_loop k s e = Inr (s', e') \<and> active_connections s' = [] \<and> live_connections s' = (\<lambda>_. None))
    | Some a \<Rightarrow> if in_handler s a then stop_loop k s e = Inl OutOfFuel
        else length (active_connections s) < k \<longrightarrow> stop_loop k s e = Inl CheckFailed"
  using assms
proof (induction k arbitrary: s e)
  case 0
  then show ?case by (simp split: option.split)
next
  case (Suc k)
  show ?case
  proof (cases "active_connections s")
    case Nil
    then show ?thesis using Suc.prems(1) by (simp add: stop_ready_def fun_eq_iff)
  next
    case (Cons a as)
    obtain c where c: "live_connections s a = Some c" "open_connection c \<or> busy c" "removeAll a (active_connections s) = as"
      using stop_ready_head [OF Suc.prems(1) Cons] .
    consider "busy c" | "\<not> busy c" "write_state c = NOT_READY" | "\<not> busy c" "write_state c \<noteq> NOT_READY" by blast
    then show ?thesis
    proof cases
      case 1
      then show ?thesis using Cons c stop_loop_spins [OF Cons c(1) 1] by (simp add: blocks_stop_def in_handler_def)
    next
      case 2
      then have "Connection_Close c e = Inl CheckFailed" using Close_pending c(2) Suc.prems(2) by blast
      then show ?thesis using Cons c(1) 2 by (simp add: blocks_stop_def in_handler_def on_connection_def io_bind_apply)
    next
      case 3
      then obtain c' codes e1 where cl: "Connection_Close c e = Inr ((c', codes), e1)" "closed_once c' codes" "kernel e1 = kernel e"
        using Close_quiet c(2) Suc.prems(2) by blast
      then obtain e2 where e2: "on_connection Connection_Close a s e = Inr (without a s, e2)" "kernel e2 = kernel e1"
        using on_connection_closed [where m = Connection_Close, OF _ c(1) cl(1,2)] Cons by auto
      have nb: "\<not> blocks_stop s a" using 3 c(1) by (simp add: blocks_stop_def)
      have na: "a \<notin> set as" using c(3) by auto
      have f: "find (blocks_stop (without a s)) as = find (blocks_stop s) as"
        using na by (intro find_cong blocks_stop_without refl) auto
      have h: "in_handler (without a s) b = in_handler s b" if "find (blocks_stop s) as = Some b" for b
        using that na by (auto simp: find_Some_iff intro!: blocks_stop_without)
      show ?thesis
        using Suc.IH [OF stop_ready_without [OF Suc.prems(1)], of e2 a] e2 cl(3) Suc.prems(2) Cons nb c(3) f h
        by (auto simp: io_bind_apply split: option.splits if_splits)
    qed
  qed
qed

text \<open>
  C18: what \<open>Stop\<close> does, wherever it is called.  Called from no handler it always ends, within as many
  rounds as there are active connections.  Called while some active connection, the first of the list or
  any other, is inside a handler of its own, it never returns, whatever the event loop does: that connection
  puts off its close and stays active.  With an event loop that unregisters what is registered the outcome
  is that of the first active connection that blocks: when it is inside a handler the loop of \<open>Stop\<close> never
  ends, when it has a write pending the process aborts, and when none blocks every connection is closed
  and deleted and \<open>Stop\<close> returns true.
\<close>

theorem server_stop:
  assumes "stop_ready s" "length (active_connections s) < fuel"
  shows "((\<forall>a. \<not> in_handler s a) \<longrightarrow> Server_Stop fuel s e \<noteq> Inl OutOfFuel) \<and>
    ((\<exists>a. in_handler s a) \<longrightarrow> (\<forall>k ok s' e'. Server_Stop k s e \<noteq> Inr ((ok, s'), e'))) \<and>
    (loop_unregisters (kernel e) \<longrightarrow> (case find (blocks_stop s) (active_connections s) of
        None \<Rightarrow> \<exists>s' e'. Server_Stop fuel s e = Inr ((True, s'), e') \<and> active_connections s' = [] \<and>
          live_connections s' = (\<lambda>_. None)
      | Some a \<Rightarrow> if in_handler s a then \<forall>k. Server_Stop k s e = Inl OutOfFuel
          else Server_Stop fuel s e = Inl CheckFailed))"
proof -
  let ?e = "after (SysClose (listen_fd s)) (after (LoopUnregisterRead (listen_fd s)) e)"
  let ?r = "rp_ret (answer (LoopUnregisterRead (listen_fd s)) e)"
  have eq: "Server_Stop k s e = (if ?r = 0 then Inl CheckFailed else io_bind (stop_loop k s)
      (\<lambda>s. io_bind (io_check (active_connections s = [])) (\<lambda>_. io_return (True, s))) ?e)" for k
    by (simp add: Server_Stop_def io_bind_apply)
  have "Server_Stop fuel s e \<noteq> Inl OutOfFuel" if "\<forall>a. \<not> in_handler s a"
    using stop_loop_ends [OF assms(1) that assms(2), of ?e] eq
    by (auto simp: io_bind_apply io_check_if split: sum.splits if_splits)
  moreover have "Server_Stop k s e \<noteq> Inr ((ok, s'), e')" if "in_handler s a" for a k ok s' e'
    using stop_loop_stuck [OF assms(1) that, of k ?e] eq by (auto simp: io_bind_Inr_iff)
  moreover have "case find (blocks_stop s) (active_connections s) of
        None \<Rightarrow> \<exists>s' e'. Server_Stop fuel s e = Inr ((True, s'), e') \<and> active_connections s' = [] \<and>
          live_connections s' = (\<lambda>_. None)
      | Some a \<Rightarrow> if in_handler s a then \<forall>k. Server_Stop k s e = Inl OutOfFuel
          else Server_Stop fuel s e = Inl CheckFailed" if "loop_unregisters (kernel e)"
  proof -
    have r: "?r \<noteq> 0" and k: "loop_unregisters (kernel ?e)" using that by (simp_all add: loop_unregisters_def answer_def)
    note outcome = stop_loop_outcome [OF assms(1) k]
    show ?thesis
    proof (cases "find (blocks_stop s) (active_connections s)")
      case None
      then show ?thesis using outcome [of fuel] assms(2) eq [of fuel] r by (auto simp: io_bind_apply)
    next
      case (Some a)
      then show ?thesis using outcome assms(2) eq r by (simp add: io_bind_apply)
    qed
  qed
  ultimately show ?thesis by blast
qed

theorem server_stop_witness:
  "(\<exists>s' e'. Server_Stop 2 \<lparr>listen_fd = 4, options = NetworkOptions_default, active_connections = [3],
      live_connections = [3 \<mapsto> \<lparr>conn_fd = 7, conn_state = CONNECTED, read_state = NOT_READY,
        write_state = NOT_REGISTERED, has_on_close = True, can_close_connection = True\<rparr>]\<rparr>
    \<lparr>kernel = odd_kernel, trace = [], errno = 0\<rparr> = Inr ((True, s'), e') \<and> active_connections s' = []) \<and>
   Server_Stop 9 \<lparr>listen_fd = 4, options = NetworkOptions_default, active_connections = [3, 5],
      live_connections = [3 \<mapsto> \<lparr>conn_fd = 7, conn_state = CONNECTED, read_state = NOT_READY,
        write_state = NOT_REGISTERED, has_on_close = True, can_close_connection = True\<rparr>,
       5 \<mapsto> \<lparr>conn_fd = 8, conn_state = CONNECTED, read_state = NOT_READY,
        write_state = NOT_REGISTERED, has_on_close = True, can_close_connection = False\<rparr>]\<rparr>
    \<lparr>kernel = odd_kernel, trace = [], errno = 0\<rparr> = Inl OutOfFuel"
proof -
  let ?c = "\<lparr>conn_fd = 7, conn_state = CONNECTED, read_state = NOT_READY,
        write_state = NOT_REGISTERED, has_on_close = True, can_close_connection = True\<rparr>"
  let ?d = "\<lparr>conn_fd = 8, conn_state = CONNECTED, read_state = NOT_READY,
        write_state = NOT_REGISTERED, has_on_close = True, can_close_connection = False\<rparr>"
  let ?s = "\<lparr>listen_fd = 4, options = NetworkOptions_default, active_connections = [3], live_connections = [3 \<mapsto> ?c]\<rparr>"
  let ?t = "\<lparr>listen_fd = 4, options = NetworkOptions_default, active_connections = [3, 5],
      live_connections = [3 \<mapsto> ?c, 5 \<mapsto> ?d]\<rparr>"
  let ?e = "\<lparr>kernel = odd_kernel, trace = [], errno = 0\<rparr>"
  have l: "loop_unregisters (kernel ?e)" by (simp add: loop_unregisters_def unregisters_writes_def odd_kernel_def)
  have s: "stop_ready ?s" "find (blocks_stop ?s) (active_connections ?s) = None"
    by (auto simp: stop_ready_def open_connection_def blocks_stop_def busy_def split: if_splits)
  have t: "stop_ready ?t" "find (blocks_stop ?t) (active_connections ?t) = Some 5" "in_handler ?t 5"
    by (auto simp: stop_ready_def open_connection_def blocks_stop_def in_handler_def busy_def split: if_splits)
  have "\<exists>s' e'. Server_Stop 2 ?s ?e = Inr ((True, s'), e') \<and> active_connections s' = []"
    using server_stop [OF s(1), of 2 ?e] l s(2) by auto
  moreover have "Server_Stop 9 ?t ?e = Inl OutOfFuel" using server_stop [OF t(1), of 3 ?e] l t(2,3) by auto
  ultimately show ?thesis by blast
qed

text \<open>
  C40: where the kernel grants \<open>TCP_NODELAY\<close>, which \<open>SetSocketDefaults\<close> takes for a failure, no server
  starts: \<open>Start\<close> returns false and has closed the socket it got, and a connection that is offered is
  never added.
\<close>

theorem server_cannot_start:
  assumes "no_delay_works (kernel e)"
  shows "(Server_Start s e = Inr ((ok, s'), e') \<longrightarrow> \<not> ok \<and>
      (0 \<le> listen_fd s' \<longrightarrow> last (trace e') = SysClose (listen_fd s'))) \<and>
    (OnNewConnection a event s e = Inr (s', e') \<longrightarrow> s' = s)"
proof -
  have refuse: "\<not> ok'" if "SetSocketDefaults fd e1 = Inr (ok', e2)" "kernel e1 = kernel e" for fd ok' e1 e2
    using SetSocketDefaults_refused [OF _ that(1)] that(2) assms by simp
  have "\<not> ok \<and> (0 \<le> listen_fd s' \<longrightarrow> last (trace e') = SysClose (listen_fd s'))"
    if start: "Server_Start s e = Inr ((ok, s'), e')"
  proof -
    let ?e = "after (SysSocket (opt_socket_family (options s))) (e\<lparr>errno := 0\<rparr>)"
    define fd where "fd = rp_ret (answer (SysSocket (opt_socket_family (options s))) (e\<lparr>errno := 0\<rparr>))"
    show ?thesis
    proof (cases "fd < 0")
      case True
      then show ?thesis using start by (auto simp: Server_Start_def Let_def fd_def)
    next
      case False
      then obtain ok' e2 where d: "SetSocketDefaults fd ?e = Inr (ok', e2)"
        using start by (auto simp: Server_Start_def Let_def io_bind_Inr_iff fd_def)
      have "\<not> ok'" by (rule refuse [OF d]) simp
      then have "close_and_fail (s\<lparr>listen_fd := fd\<rparr>) e2 = Inr ((ok, s'), e')"
        using start False d by (simp add: Server_Start_def Let_def io_bind_apply fd_def)
      then show ?thesis by (auto simp: close_and_fail_def)
    qed
  qed
  moreover have "s' = s" if new: "OnNewConnection a event s e = Inr (s', e')"
  proof (cases "event = READ_EVENT")
    case True
    let ?e = "after (SysAccept (listen_fd s)) e"
    define fd where "fd = rp_ret (answer (SysAccept (listen_fd s)) e)"
    show ?thesis
    proof (cases "0 < fd")
      case True
      then obtain ok' e2 where d: "SetSocketDefaults fd ?e = Inr (ok', e2)"
        using new \<open>event = READ_EVENT\<close> by (auto simp: OnNewConnection_def Let_def io_bind_Inr_iff fd_def set_fd_def)
      have "\<not> ok'" by (rule refuse [OF d]) simp
      then show ?thesis using new \<open>event = READ_EVENT\<close> True d
        by (simp add: OnNewConnection_def Let_def io_bind_apply fd_def set_fd_def)
    qed (use new True in \<open>auto simp: OnNewConnection_def Let_def fd_def set_fd_def\<close>)
  qed (use new in \<open>simp add: OnNewConnection_def\<close>)
  ultimately show ?thesis by blast
qed

theorem server_cannot_start_witness:
  "\<exists>s' e'. Server_Start \<lparr>listen_fd = - 1, options = NetworkOptions_default, active_connections = [],
      live_connections = (\<lambda>_. None)\<rparr> \<lparr>kernel = empty_kernel, trace = [], errno = 0\<rparr> = Inr ((False, s'), e') \<and>
    listen_fd s' = 0 \<and> last (trace e') = SysClose 0"
proof -
  let ?s = "\<lparr>listen_fd = - 1, options = NetworkOptions_default, active_connections = [],
      live_connections = (\<lambda>_. None)\<rparr>"
  let ?e = "\<lparr>kernel = empty_kernel, trace = [], errno = 0\<rparr>"
  have "\<exists>ok s' e'. Server_Start ?s ?e = Inr ((ok, s'), e') \<and> listen_fd s' = 0"
    by (auto simp: Server_Start_def Let_def SetSocketDefaults_def socket_ops handle_eintr_def answer_def
        close_and_fail_def empty_kernel_def io_bind_apply io_lift_def checked_def in_range_def int32_min_def int32_max_def)
  then obtain ok s' e' where r: "Server_Start ?s ?e = Inr ((ok, s'), e')" "listen_fd s' = 0" by blast
  have "no_delay_works (kernel ?e)" by (simp add: no_delay_works_def empty_kernel_def)
  then show ?thesis using server_cannot_start [of ?e ?s ok s' e' 0 READ_EVENT] r by auto
qed

end
