(* ===== verification/Client.thy ===== *)
theory Client
  imports Contract
begin

text \<open>
  \<open>net/client.h\<close> and \<open>net/client.cc\<close>: a client and the connection it owns.  As in theory \<open>Server\<close>, the
  heap gives each live connection by its address.  Between \<open>Start\<close> and \<open>OnConnect\<close> the socket belongs to
  a callback of the event loop; \<open>Start\<close> returns it here.
\<close>

section \<open>Operations\<close>

datatype client_state = C_DISCONNECTED | C_CONNECTING | C_CONNECTED

record client =
  client_options :: network_options
  client_conn :: "nat option"
  client_state :: client_state
  client_max_packet_size :: "32 word"
  client_connections :: "nat \<Rightarrow> connection option"

definition Client_new :: "network_options \<Rightarrow> client" where
  "Client_new o' =
     \<lparr>client_options = o', client_conn = None, client_state = C_DISCONNECTED,
      client_max_packet_size = opt_max_packet_size o', client_connections = (\<lambda>_. None)\<rparr>"

definition notify_connect :: "net_error \<Rightarrow> 'a \<Rightarrow> 'a io" where
  "notify_connect code x = io_bind (sys_ret (NotifyConnect (net_error_int code))) (\<lambda>_. io_return x)"

text \<open>
  The address \<open>Start\<close> connects to; \<open>None\<close> when it gives up.  \<open>GetAddressInfo\<close> returns true when it found
  the host, and its result is used as an error code.
\<close>

definition client_address :: "network_options \<Rightarrow> sockaddr option io" where
  "client_address o' =
     (if opt_socket_family o' = AF_INET
      then io_bind (GetAddressInfo None (opt_host o')) (\<lambda>(ok, t).
           let err = (if ok then 1 else 0 :: int)
           in io_return (if err \<noteq> 0 then None else Some (SockInet (htons (opt_port o')) t)))
      else io_return (Some (SockUnix (sun_path (opt_sin_path o')))))"

definition Client_Start :: "client \<Rightarrow> int option io" where
  "Client_Start c =
     (if client_state c \<noteq> C_DISCONNECTED then notify_connect DUPLICATE_START None
      else io_bind (sys_ret (SysSocket (opt_socket_family (client_options c)))) (\<lambda>fd.
        if fd < 0 then notify_connect CONNECT_ERROR None
        else io_bind (SetSocketDefaults fd) (\<lambda>ok.
          if \<not> ok then io_bind (sys_ret (SysClose fd)) (\<lambda>_. notify_connect CONNECT_ERROR None)
          else io_bind (client_address (client_options c)) (\<lambda>addr. case addr of
            None \<Rightarrow> io_bind (sys_ret (SysClose fd)) (\<lambda>_. notify_connect CONNECT_ERROR None)
          | Some addr \<Rightarrow>
              io_bind (set_errno 0) (\<lambda>_.
              io_bind (sys_ret (SysConnect fd addr)) (\<lambda>r.
              io_bind get_errno (\<lambda>n.
                if r = 0 \<or> n = EINPROGRESS
                then io_bind (sys_ret (LoopRegisterWrite fd False)) (\<lambda>r.
                     io_bind (io_check (r \<noteq> 0)) (\<lambda>_. io_return (Some fd)))
                else io_bind (sys_ret (SysClose fd)) (\<lambda>_. notify_connect CONNECT_ERROR None))))))))"

definition delete_conn :: "client \<Rightarrow> client io" where
  "delete_conn c = (case client_conn c of
     None \<Rightarrow> io_return c
   | Some a \<Rightarrow> (case client_connections c a of
       None \<Rightarrow> io_lift (Inl OutOfBounds)
     | Some x \<Rightarrow> io_bind (io_lift (Connection_destroy x)) (\<lambda>_.
         io_return (c\<lparr>client_connections := (client_connections c)(a := None)\<rparr>))))"

definition OnClose :: "net_error \<Rightarrow> client \<Rightarrow> client io" where
  "OnClose code c =
     io_bind (delete_conn c) (\<lambda>c.
       let c = c\<lparr>client_conn := None, client_state := C_DISCONNECTED\<rparr>
       in io_bind (sys_ret (NotifyClose (net_error_int code))) (\<lambda>_. io_return c))"

primrec tell_client :: "net_error list \<Rightarrow> client \<Rightarrow> client io" where
  "tell_client [] c = io_return c"
| "tell_client (code # codes) c = io_bind (OnClose code c) (tell_client codes)"

text \<open>An operation on a live connection of the client, with the callback it makes.\<close>

definition on_client_connection ::
    "(connection \<Rightarrow> (connection \<times> net_error list) io) \<Rightarrow> nat \<Rightarrow> client \<Rightarrow> client io" where
  "on_client_connection m a c = (case client_connections c a of
     None \<Rightarrow> io_lift (Inl OutOfBounds)
   | Some x \<Rightarrow> io_bind (m x) (\<lambda>(x, codes).
       tell_client codes (c\<lparr>client_connections := (client_connections c)(a \<mapsto> x)\<rparr>)))"

definition Client_Stop :: "client \<Rightarrow> client io" where
  "Client_Stop c =
     (if client_state c = C_DISCONNECTED \<or> client_state c = C_CONNECTING then io_return c
      else let c = c\<lparr>client_state := C_DISCONNECTED\<rparr>
      in case client_conn c of
           None \<Rightarrow> io_lift (Inl NullDeref)
         | Some a \<Rightarrow> on_client_connection Connection_Close a c)"

text \<open>\<open>CreateConnection\<close> of the subclass makes a connection at a free address \<open>a\<close>.\<close>

definition OnConnect :: "nat \<Rightarrow> int \<Rightarrow> loop_event \<Rightarrow> client \<Rightarrow> client io" where
  "OnConnect a fd event c =
     io_bind (if event \<noteq> WRITE_EVENT then io_return True
              else io_bind (sys (SysGetsockopt fd SOL_SOCKET SO_ERROR)) (\<lambda>r.
                   io_return (rp_ret r < 0 \<or> rp_value r \<noteq> 0))) (\<lambda>failed.
       if failed
       then io_bind (sys_ret (SysClose fd)) (\<lambda>_. notify_connect CONNECT_ERROR (c\<lparr>client_state := C_DISCONNECTED\<rparr>))
       else let ep = set_fd fd (Endpoint (opt_socket_family (client_options c) \<noteq> AF_INET));
                c = c\<lparr>client_conn := Some a\<rparr>
            in io_bind (Connection_Start (Connection_new ep)) (\<lambda>(ok, x).
                 let c = c\<lparr>client_connections := (client_connections c)(a \<mapsto> x)\<rparr>
                 in if \<not> ok
                    then io_bind (sys_ret (SysClose fd)) (\<lambda>_.
                         io_bind (delete_conn c) (\<lambda>c.
                           notify_connect CONNECT_ERROR (c\<lparr>client_conn := None, client_state := C_DISCONNECTED\<rparr>)))
                    else notify_connect OK
                      (c\<lparr>client_state := C_CONNECTED,
                         client_connections := (client_connections c)(a \<mapsto> RegisterForClose True x)\<rparr>)))"

definition Client_AddTimer :: "int \<Rightarrow> client \<Rightarrow> int io" where
  "Client_AddTimer msecs c =
     io_bind (sys_ret (LoopRegisterTimer msecs)) (\<lambda>timer_id.
     io_bind (io_check (0 < timer_id)) (\<lambda>_. io_return timer_id))"

definition Client_RemoveTimer :: "int \<Rightarrow> client \<Rightarrow> int io" where
  "Client_RemoveTimer timer_id c = io_bind (sys_ret (LoopUnregisterTimer timer_id)) (\<lambda>r.
     io_return (if r \<noteq> 0 then 1 else 0))"

section \<open>Runs of the client\<close>

context served begin

lemma on_client_connection_inv:
  assumes "client_conn c = Some a" "client_connections c = [a \<mapsto> x]" "open_connection x"
    "on_client_connection m b c e = Inr (c', e')"
  shows "(\<exists>x'. c' = c\<lparr>client_connections := [a \<mapsto> x']\<rparr> \<and> open_connection x') \<or>
    client_conn c' = None \<and> client_state c' = C_DISCONNECTED \<and> client_connections c' = (\<lambda>_. None)"
proof -
  have b: "b = a" using assms(2,4) by (auto simp: on_client_connection_def split: if_splits)
  then obtain x' codes e1 where m: "m x e = Inr ((x', codes), e1)"
    "tell_client codes (c\<lparr>client_connections := [a \<mapsto> x']\<rparr>) e1 = Inr (c', e')"
    using assms(2,4) by (auto simp: on_client_connection_def io_bind_Inr_iff)
  from keeps_or_closes [OF assms(3) m(1)] show ?thesis
  proof
    assume "closed_once x' codes"
    then show ?thesis using m(2) assms(1)
      by (auto simp: closed_once_def OnClose_def delete_conn_def Let_def io_bind_Inr_iff io_lift_Inr_iff)
  qed (use m(2) in auto)
qed

lemma on_client_connection_no_stray:
  assumes "client_conn c = Some a" "client_connections c = [a \<mapsto> x]" "open_connection x"
  shows "on_client_connection m a c e \<noteq> Inl OutOfBounds \<and> on_client_connection m a c e \<noteq> Inl NullDeref"
proof (rule ccontr)
  assume "\<not> ?thesis"
  then obtain f where stray: "on_client_connection m a c e = Inl f" "f = OutOfBounds \<or> f = NullDeref" by blast
  obtain x' codes e1 where m: "m x e = Inr ((x', codes), e1)"
    using never_strays [of x] stray assms(2)
    by (cases "m x e") (auto simp: on_client_connection_def no_stray_def)
  from keeps_or_closes [OF assms(3) m] show False
    using m stray assms
    by (auto simp: on_client_connection_def closed_once_def OnClose_def delete_conn_def Let_def Connection_destroy_def)
qed

lemma on_client_connection_closes:
  assumes "client_conn c = Some a" "client_connections c = [a \<mapsto> x]" "m x e = Inr ((x', codes), e1)" "closed_once x' codes"
  shows "\<exists>code. codes = [code] \<and> on_client_connection m a c e =
    Inr (c\<lparr>client_conn := None, client_state := C_DISCONNECTED, client_connections := (\<lambda>_. None)\<rparr>,
      after (NotifyClose (net_error_int code)) e1)"
  using assms
  by (auto simp: on_client_connection_def closed_once_def OnClose_def delete_conn_def Let_def Connection_destroy_def)

end

text \<open>
  The second component are the sockets whose connecting is pending in the event loop.  With \<open>once\<close> the
  program does not start again while one is.
\<close>

inductive client_step :: "bool \<Rightarrow> client \<times> int list \<times> env \<Rightarrow> client \<times> int list \<times> env \<Rightarrow> bool" for once where
  step_start: "(once \<longrightarrow> ps = []) \<Longrightarrow> Client_Start c e = Inr (p, e') \<Longrightarrow>
    client_step once (c, ps, e) (c, ps @ (case p of None \<Rightarrow> [] | Some fd \<Rightarrow> [fd]), e')"
| step_connect: "fd \<in> set ps \<Longrightarrow> client_connections c a = None \<Longrightarrow> OnConnect a fd event c e = Inr (c', e') \<Longrightarrow>
    client_step once (c, ps, e) (c', remove1 fd ps, e')"
| step_deliver: "keeps_callback h \<Longrightarrow> on_client_connection (deliver w h) a c e = Inr (c', e') \<Longrightarrow>
    client_step once (c, ps, e) (c', ps, e')"
| step_stop: "Client_Stop c e = Inr (c', e') \<Longrightarrow> client_step once (c, ps, e) (c', ps, e')"

definition client_inv :: "client \<times> int list \<times> env \<Rightarrow> bool" where
  "client_inv r = (case r of (c, ps, e) \<Rightarrow> length ps \<le> 1 \<and> (case client_conn c of
     None \<Rightarrow> client_state c = C_DISCONNECTED \<and> client_connections c = (\<lambda>_. None)
   | Some a \<Rightarrow> client_state c = C_CONNECTED \<and> ps = [] \<and>
       (\<exists>x. client_connections c = [a \<mapsto> x] \<and> open_connection x)))"

definition client_start :: "client \<times> int list \<times> env \<Rightarrow> bool" where
  "client_start r = (case r of (c, ps, e) \<Rightarrow> (\<exists>o'. c = Client_new o') \<and> ps = [])"

lemma Client_Start_pending: "Client_Start c e = Inr (Some fd, e') \<Longrightarrow> client_state c = C_DISCONNECTED"
  by (auto simp: Client_Start_def notify_connect_def io_bind_Inr_iff split: if_splits)

lemma OnConnect_result:
  assumes "client_conn c = None" "client_state c = C_DISCONNECTED" "client_connections c = (\<lambda>_. None)"
    "OnConnect a fd event c e = Inr (c', e')"
  shows "c' = c \<or> client_conn c' = Some a \<and> client_state c' = C_CONNECTED \<and>
    (\<exists>x. client_connections c' = [a \<mapsto> x] \<and> open_connection x)"
  using assms
  by (auto simp: OnConnect_def notify_connect_def io_bind_Inr_iff Let_def delete_conn_def conn_ops open_connection_def
      Connection_new_def split: if_splits)

lemma Client_Stop_result:
  assumes "client_conn c = Some a" "client_connections c = [a \<mapsto> x]" "open_connection x"
    "client_state c = C_CONNECTED" "Client_Stop c e = Inr (c', e')"
  shows "client_conn c' = None \<and> client_state c' = C_DISCONNECTED \<and> client_connections c' = (\<lambda>_. None)"
proof -
  let ?c = "c\<lparr>client_state := C_DISCONNECTED\<rparr>"
  have s: "on_client_connection Connection_Close a ?c e = Inr (c', e')"
    using assms by (simp add: Client_Stop_def Let_def)
  then obtain x' codes e1 where cl: "Connection_Close x e = Inr ((x', codes), e1)"
    using assms(2) by (auto simp: on_client_connection_def io_bind_Inr_iff)
  obtain code where "on_client_connection Connection_Close a ?c e =
    Inr (?c\<lparr>client_conn := None, client_state := C_DISCONNECTED, client_connections := (\<lambda>_. None)\<rparr>,
      after (NotifyClose (net_error_int code)) e1)"
    using close.on_client_connection_closes [of ?c a x e, OF _ _ cl Close_contract [OF assms(3) cl]] assms(1,2) by auto
  then show ?thesis using s by auto
qed

lemma client_step_inv:
  assumes inv: "client_inv r" and step: "client_step True r r'"
  shows "client_inv r'"
  using step
proof (cases rule: client_step.cases)
  case (step_start ps c e p e')
  then show ?thesis using inv Client_Start_pending [of c e]
    by (cases p; cases "client_conn c") (auto simp: client_inv_def)
next
  case (step_connect fd ps c a event e c' e')
  then have d: "client_conn c = None" "length ps = 1" "client_state c = C_DISCONNECTED" "client_connections c = (\<lambda>_. None)"
    using inv by (auto simp: client_inv_def le_Suc_eq split: option.splits)
  from d(2) obtain fd' where "ps = [fd']" by (auto simp: length_Suc_conv)
  then show ?thesis using OnConnect_result [OF d(1,3,4) step_connect(5)] d step_connect
    by (auto simp: client_inv_def)
next
  case (step_deliver h w a c e c' e' ps)
  then obtain b x where x: "client_conn c = Some b" "client_connections c = [b \<mapsto> x]" "open_connection x" "ps = []"
      "client_state c = C_CONNECTED"
    using inv by (auto simp: client_inv_def on_client_connection_def split: option.splits)
  show ?thesis
    using served.on_client_connection_inv [OF deliver_served [OF step_deliver(3)] x(1-3) step_deliver(4)] x step_deliver(2)
    by (auto simp: client_inv_def)
next
  case (step_stop c e c' e' ps)
  show ?thesis
  proof (cases "client_conn c")
    case None
    then show ?thesis using inv step_stop by (auto simp: client_inv_def Client_Stop_def)
  next
    case (Some a)
    then obtain x where "client_connections c = [a \<mapsto> x]" "open_connection x" "ps = []" "client_state c = C_CONNECTED"
      using inv step_stop by (auto simp: client_inv_def)
    then show ?thesis using Client_Stop_result [OF Some _ _ _ step_stop(3)] step_stop by (auto simp: client_inv_def)
  qed
qed

interpretation client: machine client_start "client_step True" client_inv
proof unfold_locales
  show "client_start r \<Longrightarrow> client_inv r" for r by (auto simp: client_start_def client_inv_def Client_new_def)
qed (rule client_step_inv)

text \<open>
  C12: a client that does not start again while its connecting is pending owns at most one connection.
  In every state it reaches it is disconnected with no connection alive, or connected with exactly its own,
  which is open and will report its close; the state \<open>CONNECTING\<close> is never entered; no event and no \<open>Stop\<close>
  reaches for a deleted connection, and a \<open>Stop\<close> that returns leaves the client disconnected with
  nothing alive.
\<close>

theorem client_owns_its_connection:
  assumes "client_start r" "rtranclp (client_step True) r (c, ps, e)"
  shows "client_state c \<noteq> C_CONNECTING \<and>
    (client_state c = C_DISCONNECTED \<longrightarrow> client_conn c = None \<and> client_connections c = (\<lambda>_. None)) \<and>
    (client_state c = C_CONNECTED \<longrightarrow> (\<exists>a x. client_conn c = Some a \<and> client_connections c = [a \<mapsto> x] \<and>
       conn_state x = CONNECTED \<and> has_on_close x \<and>
       (keeps_callback h \<longrightarrow> on_client_connection (deliver w h) a c e \<noteq> Inl OutOfBounds))) \<and>
    Client_Stop c e \<notin> {Inl OutOfBounds, Inl NullDeref} \<and>
    (Client_Stop c e = Inr (c', e') \<longrightarrow>
       client_state c' = C_DISCONNECTED \<and> client_conn c' = None \<and> client_connections c' = (\<lambda>_. None))"
proof (cases "client_conn c")
  case None
  then show ?thesis using client.reachable_inv [OF assms] by (auto simp: client_inv_def Client_Stop_def)
next
  case (Some a)
  then obtain x where x: "client_connections c = [a \<mapsto> x]" "open_connection x" "client_state c = C_CONNECTED"
    using client.reachable_inv [OF assms] by (auto simp: client_inv_def)
  have "on_client_connection (deliver w h) a c e \<noteq> Inl OutOfBounds" if "keeps_callback h"
    using served.on_client_connection_no_stray [OF deliver_served [OF that] Some x(1,2)] by blast
  moreover have "Client_Stop c e \<noteq> Inl OutOfBounds \<and> Client_Stop c e \<noteq> Inl NullDeref"
    using close.on_client_connection_no_stray [of "c\<lparr>client_state := C_DISCONNECTED\<rparr>" a x e] Some x
    by (simp add: Client_Stop_def Let_def)
  moreover have "client_state c' = C_DISCONNECTED \<and> client_conn c' = None \<and> client_connections c' = (\<lambda>_. None)"
    if "Client_Stop c e = Inr (c', e')" using Client_Stop_result [OF Some x(1,2,3) that] by blast
  ultimately show ?thesis using Some x by (auto simp: open_connection_def)
qed

section \<open>Two starts\<close>

lemma Client_Start_odd:
  assumes "kernel e = odd_kernel" "client_state c = C_DISCONNECTED"
  shows "\<exists>e'. Client_Start c e = Inr (Some 1, e') \<and> kernel e' = odd_kernel"
proof -
  let ?e = "after (SysSocket (opt_socket_family (client_options c))) e"
  obtain e1 where e1: "SetSocketDefaults 1 ?e = Inr (True, e1)" "kernel e1 = odd_kernel"
    using SetSocketDefaults_odd [of ?e 1] assms(1) by auto
  obtain addr e2 where e2: "client_address (client_options c) e1 = Inr (Some addr, e2)" "kernel e2 = odd_kernel"
    using e1(2) by (cases "opt_socket_family (client_options c) = AF_INET")
      (simp_all add: client_address_def GetAddressInfo_def answer_def odd_kernel_def)
  have "rp_ret (answer (SysSocket (opt_socket_family (client_options c))) e) = 1" using assms(1)
    by (simp add: answer_def odd_kernel_def)
  then show ?thesis using assms(2) e1(1) e2 by (simp add: Client_Start_def answer_def odd_kernel_def)
qed

lemma OnConnect_odd:
  assumes "kernel e = odd_kernel"
  shows "\<exists>e' x. OnConnect a fd WRITE_EVENT c e = Inr (c\<lparr>client_conn := Some a, client_state := C_CONNECTED,
      client_connections := (client_connections c)(a \<mapsto> x)\<rparr>, e') \<and> kernel e' = odd_kernel \<and>
      open_connection x \<and> read_state x = NOT_READY \<and> write_state x = NOT_REGISTERED"
  using assms
  by (auto simp: OnConnect_def notify_connect_def Let_def answer_def odd_kernel_def empty_kernel_def conn_ops
      Connection_new_def set_fd_def Endpoint_def open_connection_def io_bind_apply)

lemma odd_two_connections:
  assumes "kernel e = odd_kernel"
  shows "\<exists>e' x y. rtranclp (client_step False) (Client_new o', [], e)
      ((Client_new o')\<lparr>client_conn := Some 2, client_state := C_CONNECTED, client_connections := [1 \<mapsto> x, 2 \<mapsto> y]\<rparr>, [], e') \<and>
    kernel e' = odd_kernel \<and> open_connection x \<and> read_state x = NOT_READY \<and> write_state x = NOT_REGISTERED \<and>
    open_connection y"
proof -
  let ?c = "Client_new o'"
  have d: "client_state ?c = C_DISCONNECTED" by (simp add: Client_new_def)
  obtain e1 where e1: "Client_Start ?c e = Inr (Some 1, e1)" "kernel e1 = odd_kernel"
    using Client_Start_odd [OF assms d] by blast
  obtain e2 where e2: "Client_Start ?c e1 = Inr (Some 1, e2)" "kernel e2 = odd_kernel"
    using Client_Start_odd [OF e1(2) d] by blast
  obtain e3 x where e3: "OnConnect 1 1 WRITE_EVENT ?c e2 = Inr (?c\<lparr>client_conn := Some 1, client_state := C_CONNECTED,
      client_connections := [1 \<mapsto> x]\<rparr>, e3)" "kernel e3 = odd_kernel" and x: "open_connection x" "read_state x = NOT_READY"
      "write_state x = NOT_REGISTERED"
    using OnConnect_odd [OF e2(2), of 1 1 ?c] by (auto simp: Client_new_def)
  let ?d = "?c\<lparr>client_conn := Some 1, client_state := C_CONNECTED, client_connections := [1 \<mapsto> x]\<rparr>"
  obtain e4 y where e4: "OnConnect 2 1 WRITE_EVENT ?d e3 = Inr (?c\<lparr>client_conn := Some 2, client_state := C_CONNECTED,
      client_connections := [1 \<mapsto> x, 2 \<mapsto> y]\<rparr>, e4)" "kernel e4 = odd_kernel" "open_connection y"
    using OnConnect_odd [OF e3(2), of 2 1 ?d] by auto
  have "client_step False (?c, [], e) (?c, [1], e1)" using step_start [OF _ e1(1), of False "[]"] by simp
  moreover have "client_step False (?c, [1], e1) (?c, [1, 1], e2)" using step_start [OF _ e2(1), of False "[1]"] by simp
  moreover have "client_step False (?c, [1, 1], e2) (?d, [1], e3)"
    using step_connect [OF _ _ e3(1), of "[1, 1]" False] by (simp add: Client_new_def)
  moreover have "client_step False (?d, [1], e3) (?c\<lparr>client_conn := Some 2, client_state := C_CONNECTED,
      client_connections := [1 \<mapsto> x, 2 \<mapsto> y]\<rparr>, [], e4)"
    using step_connect [OF _ _ e4(1), of "[1]" False] by simp
  ultimately have "rtranclp (client_step False) (?c, [], e) (?c\<lparr>client_conn := Some 2, client_state := C_CONNECTED,
      client_connections := [1 \<mapsto> x, 2 \<mapsto> y]\<rparr>, [], e4)"
    by (meson converse_rtranclp_into_rtranclp rtranclp.rtrancl_refl)
  then show ?thesis using e4 x by blast
qed

text \<open>
  C38: the guard of \<open>Start\<close> does not cover a connecting that is pending, for the state stays
  \<open>DISCONNECTED\<close> until \<open>OnConnect\<close>.  Started twice, the client can come to own the second connection
  while the first is alive and unreachable; when the first is then closed from its handler, its callback
  deletes the second one, which is connected, and the process aborts.
\<close>

theorem client_second_start:
  "\<exists>c e. rtranclp (client_step False) (Client_new o', [], \<lparr>kernel = odd_kernel, trace = h, errno = n\<rparr>) (c, [], e) \<and>
     client_conn c = Some 2 \<and> client_connections c 1 \<noteq> None \<and>
     on_client_connection (deliver False [ActClose]) 1 c e = Inl CheckFailed"
proof -
  let ?e = "\<lparr>kernel = odd_kernel, trace = h, errno = n\<rparr>"
  obtain e' x y where r: "rtranclp (client_step False) (Client_new o', [], ?e)
      ((Client_new o')\<lparr>client_conn := Some 2, client_state := C_CONNECTED, client_connections := [1 \<mapsto> x, 2 \<mapsto> y]\<rparr>, [], e')"
    and k: "kernel e' = odd_kernel" and x: "open_connection x" "read_state x = NOT_READY" "write_state x = NOT_REGISTERED"
    and y: "open_connection y"
    using odd_two_connections [of ?e o'] by auto
  let ?c = "(Client_new o')\<lparr>client_conn := Some 2, client_state := C_CONNECTED, client_connections := [1 \<mapsto> x, 2 \<mapsto> y]\<rparr>"
  have "\<exists>x' code e1. deliver False [ActClose] x e' = Inr ((x', [code]), e1)"
    using k x by (auto simp: deliver_def HandleRead_def finish_event_def Connection_Close_def CloseInternal_def
        UnregisterEndpointForRead_def open_connection_def answer_def odd_kernel_def Let_def)
  then have "on_client_connection (deliver False [ActClose]) 1 ?c e' = Inl CheckFailed"
    using y by (auto simp: on_client_connection_def OnClose_def delete_conn_def Connection_destroy_def open_connection_def)
  then show ?thesis using r by (intro exI [of _ ?c] exI [of _ e']) simp
qed

lemma odd_first_connection:
  assumes "kernel e = odd_kernel"
  shows "\<exists>e' x. rtranclp (client_step once) (Client_new o', [], e)
      ((Client_new o')\<lparr>client_conn := Some 1, client_state := C_CONNECTED, client_connections := [1 \<mapsto> x]\<rparr>, [], e') \<and>
    open_connection x"
proof -
  let ?c = "Client_new o'"
  have d: "client_state ?c = C_DISCONNECTED" by (simp add: Client_new_def)
  obtain e1 where e1: "Client_Start ?c e = Inr (Some 1, e1)" "kernel e1 = odd_kernel"
    using Client_Start_odd [OF assms d] by blast
  obtain e2 x where e2: "OnConnect 1 1 WRITE_EVENT ?c e1 = Inr (?c\<lparr>client_conn := Some 1, client_state := C_CONNECTED,
      client_connections := (client_connections ?c)(1 \<mapsto> x)\<rparr>, e2)" "open_connection x"
    using OnConnect_odd [OF e1(2)] by blast
  have "client_step once (?c, [], e) (?c, [1], e1)" using step_start [OF _ e1(1), of once "[]"] by simp
  moreover have "client_step once (?c, [1], e1) (?c\<lparr>client_conn := Some 1, client_state := C_CONNECTED,
      client_connections := (client_connections ?c)(1 \<mapsto> x)\<rparr>, [], e2)"
    using step_connect [OF _ _ e2(1), of "[1]" once] by (simp add: Client_new_def)
  ultimately have "rtranclp (client_step once) (?c, [], e) (?c\<lparr>client_conn := Some 1, client_state := C_CONNECTED,
      client_connections := (client_connections ?c)(1 \<mapsto> x)\<rparr>, [], e2)"
    by (meson converse_rtranclp_into_rtranclp rtranclp.rtrancl_refl)
  then show ?thesis using e2(2) by (auto simp: Client_new_def)
qed

theorem client_owns_its_connection_witness:
  "\<exists>r c e. client_start r \<and> rtranclp (client_step True) r (c, [], e) \<and> client_state c = C_CONNECTED \<and>
     Client_Stop c e \<noteq> Inl OutOfBounds"
proof -
  let ?r = "(Client_new NetworkOptions_default, [] :: int list, \<lparr>kernel = odd_kernel, trace = [], errno = 0\<rparr>)"
  have st: "client_start ?r" by (auto simp: client_start_def)
  obtain c e where r: "rtranclp (client_step True) ?r (c, [], e)" "client_state c = C_CONNECTED"
    using odd_first_connection [of "\<lparr>kernel = odd_kernel, trace = [], errno = 0\<rparr>" True NetworkOptions_default] by auto
  show ?thesis using client_owns_its_connection [OF st r(1)] st r by blast
qed

section \<open>What \<open>Start\<close> does\<close>

text \<open>The calls an operation may add to the trace.\<close>

definition only_calls :: "(syscall \<Rightarrow> bool) \<Rightarrow> 'a io \<Rightarrow> bool" where
  "only_calls P m \<longleftrightarrow> (\<forall>e x e'. m e = Inr (x, e') \<longrightarrow> (\<exists>cs. trace e' = trace e @ cs \<and> list_all P cs))"

lemma only_calls_bind:
  assumes "only_calls P m" "\<And>x e e'. m e = Inr (x, e') \<Longrightarrow> only_calls P (f x)"
  shows "only_calls P (io_bind m f)"
  unfolding only_calls_def
proof (intro allI impI)
  fix e y e' assume "io_bind m f e = Inr (y, e')"
  then obtain x e1 where m: "m e = Inr (x, e1)" "f x e1 = Inr (y, e')" by (auto simp: io_bind_Inr_iff)
  obtain cs where "trace e1 = trace e @ cs" "list_all P cs" using assms(1) m(1) unfolding only_calls_def by blast
  moreover obtain ds where "trace e' = trace e1 @ ds" "list_all P ds" using assms(2) [OF m(1)] m(2) unfolding only_calls_def by blast
  ultimately show "\<exists>cs. trace e' = trace e @ cs \<and> list_all P cs" by (intro exI [of _ "cs @ ds"]) simp
qed

lemma only_calls_calls:
  "only_calls P (io_return x)" "only_calls P (io_lift r)" "only_calls P (io_check b)" "only_calls P (set_errno n)"
  "only_calls P get_errno" "P c \<Longrightarrow> only_calls P (sys c)" "P c \<Longrightarrow> only_calls P (sys_ret c)"
  by (auto simp: only_calls_def io_lift_Inr_iff io_check_if split: if_splits)

lemma only_calls_if: "(b \<Longrightarrow> only_calls P m) \<Longrightarrow> (\<not> b \<Longrightarrow> only_calls P m') \<Longrightarrow> only_calls P (if b then m else m')"
  by simp

lemma only_calls_option:
  "(z = None \<Longrightarrow> only_calls P m) \<Longrightarrow> (\<And>y. z = Some y \<Longrightarrow> only_calls P (f y)) \<Longrightarrow>
   only_calls P (case z of None \<Rightarrow> m | Some y \<Rightarrow> f y)"
  by (cases z) simp_all

lemmas only_calls_intros = only_calls_bind only_calls_calls only_calls_if only_calls_option

definition known_inet :: "sockaddr \<Rightarrow> bool" where
  "known_inet a \<longleftrightarrow> (\<exists>port h. a = SockInet port (Some h))"

abbreviation no_known_connect :: "syscall \<Rightarrow> bool" where
  "no_known_connect c \<equiv> \<forall>fd a. c = SysConnect fd a \<longrightarrow> \<not> known_inet a"

lemma SetSocketDefaults_calls: "only_calls no_known_connect (SetSocketDefaults fd)"
  unfolding SetSocketDefaults_def socket_ops handle_eintr_def by (intro only_calls_intros) simp_all

lemma client_address_calls: "only_calls no_known_connect (client_address o')"
  unfolding client_address_def GetAddressInfo_def Let_def
  by (intro only_calls_intros) (auto intro!: only_calls_intros split: prod.split)

lemma client_address_unknown: "client_address o' e = Inr (Some a, e') \<Longrightarrow> \<not> known_inet a"
  by (auto simp: client_address_def GetAddressInfo_def known_inet_def io_bind_Inr_iff split: if_splits)

lemma Client_Start_calls: "only_calls no_known_connect (Client_Start c)"
  unfolding Client_Start_def notify_connect_def Let_def
  by (intro only_calls_intros SetSocketDefaults_calls client_address_calls) (auto dest: client_address_unknown)

text \<open>
  C31: every outcome of \<open>Start\<close>.  A client that is not disconnected is told \<open>DUPLICATE_START\<close> and nothing
  else happens.  A failure is the last thing the client is told; otherwise the last call registers the
  socket for writing.  Where the kernel grants \<open>TCP_NODELAY\<close> every start fails.  And over \<open>AF_INET\<close> the
  client never connects to an address the resolver found: it gives up on success and goes on, with an
  address that was never set, on failure.
\<close>

theorem client_start_outcomes:
  assumes "Client_Start c e = Inr (p, e')"
  shows "(client_state c \<noteq> C_DISCONNECTED \<longrightarrow> p = None \<and> trace e' = trace e @ [NotifyConnect (net_error_int DUPLICATE_START)]) \<and>
    (case p of
       None \<Rightarrow> client_state c = C_DISCONNECTED \<longrightarrow> last (trace e') = NotifyConnect (net_error_int CONNECT_ERROR)
     | Some fd \<Rightarrow> last (trace e') = LoopRegisterWrite fd False) \<and>
    (no_delay_works (kernel e) \<longrightarrow> p = None) \<and>
    (\<exists>cs. trace e' = trace e @ cs \<and> (\<forall>fd port h. SysConnect fd (SockInet port (Some h)) \<notin> set cs))"
proof -
  have "client_state c \<noteq> C_DISCONNECTED \<longrightarrow> p = None \<and> trace e' = trace e @ [NotifyConnect (net_error_int DUPLICATE_START)]"
    using assms by (auto simp: Client_Start_def notify_connect_def)
  moreover have "case p of
       None \<Rightarrow> client_state c = C_DISCONNECTED \<longrightarrow> last (trace e') = NotifyConnect (net_error_int CONNECT_ERROR)
     | Some fd \<Rightarrow> last (trace e') = LoopRegisterWrite fd False"
    using assms by (auto simp: Client_Start_def notify_connect_def io_bind_Inr_iff io_check_if split: if_splits option.splits)
  moreover have "p = None" if works: "no_delay_works (kernel e)"
  proof -
    let ?e = "after (SysSocket (opt_socket_family (client_options c))) e"
    have "\<not> ok" if "SetSocketDefaults fd ?e = Inr (ok, e2)" for fd ok e2
      by (rule SetSocketDefaults_refused [OF _ that]) (use works in simp)
    then show ?thesis using assms
      by (auto simp: Client_Start_def notify_connect_def io_bind_Inr_iff split: if_splits)
  qed
  moreover obtain cs where "trace e' = trace e @ cs" "list_all no_known_connect cs"
    using Client_Start_calls assms unfolding only_calls_def by blast
  then have "\<exists>cs. trace e' = trace e @ cs \<and> (\<forall>fd port h. SysConnect fd (SockInet port (Some h)) \<notin> set cs)"
    by (auto simp: list_all_iff known_inet_def)
  ultimately show ?thesis by blast
qed

theorem client_start_outcomes_witness:
  "\<exists>e'. Client_Start (Client_new NetworkOptions_default) \<lparr>kernel = odd_kernel, trace = [], errno = 0\<rparr> = Inr (Some 1, e') \<and>
     last (trace e') = LoopRegisterWrite 1 False"
proof -
  let ?c = "Client_new NetworkOptions_default" and ?e = "\<lparr>kernel = odd_kernel, trace = [], errno = 0\<rparr>"
  obtain e' where "Client_Start ?c ?e = Inr (Some 1, e')"
    using Client_Start_odd [of ?e ?c] by (auto simp: Client_new_def)
  then show ?thesis using client_start_outcomes [of ?c ?e "Some 1" e'] by auto
qed

end
