(* ===== verification/Monitors.thy ===== *)
theory Monitors
  imports Machine "HOL-Library.Multiset"
begin

text \<open>
  \<open>net/count_down_latch.cc\<close> and \<open>net/pc_queue.cc\<close>: monitors, a mutex with a condition variable.  What
  a thread does between taking the mutex and giving it up is one step; \<open>wait\<close> gives it up and leaves
  the thread blocked, until a notification or a spurious wake-up lets it try again.
\<close>

section \<open>The latch\<close>

text \<open>
  The threads around a latch: about to call \<open>Wait\<close>, blocked in it, awake again in it, or returned from
  it; about to call \<open>CountDown\<close>, or returned from it.
\<close>

datatype latch_pc = WaitCall | Blocked | Awake | Passed | DownCall | Counted

definition Latch_count_down :: "32 word \<Rightarrow> 32 word \<times> bool" where
  "Latch_count_down n =
     (if n = 0 then (n, False) else let n = n - 1 in (n, n = 0))"

definition Latch_wait :: "32 word \<Rightarrow> latch_pc" where
  "Latch_wait n = (if 0 < n then Blocked else Passed)"

definition notify_all :: "latch_pc list \<Rightarrow> latch_pc list" where
  "notify_all ps = map (\<lambda>p. if p = Blocked then Awake else p) ps"

record latch =
  latch_count :: "32 word"
  threads :: "latch_pc list"

inductive latch_step :: "latch \<Rightarrow> latch \<Rightarrow> bool" where
  wait: "i < length (threads s) \<Longrightarrow> threads s ! i \<in> {WaitCall, Awake} \<Longrightarrow>
    latch_step s (s\<lparr>threads := (threads s)[i := Latch_wait (latch_count s)]\<rparr>)"
| spurious: "i < length (threads s) \<Longrightarrow> threads s ! i = Blocked \<Longrightarrow>
    latch_step s (s\<lparr>threads := (threads s)[i := Awake]\<rparr>)"
| count_down: "i < length (threads s) \<Longrightarrow> threads s ! i = DownCall \<Longrightarrow>
    Latch_count_down (latch_count s) = (c, notify) \<Longrightarrow>
    latch_step s \<lparr>latch_count = c,
      threads = (if notify then notify_all else id) ((threads s)[i := Counted])\<rparr>"

definition latch_start :: "32 word \<Rightarrow> latch \<Rightarrow> bool" where
  "latch_start n s \<longleftrightarrow> latch_count s = n \<and> set (threads s) \<subseteq> {WaitCall, DownCall}"

definition counted :: "latch \<Rightarrow> nat" where
  "counted s = tally (\<lambda>p. p = Counted) (threads s)"

definition latch_inv :: "32 word \<Rightarrow> latch \<Rightarrow> bool" where
  "latch_inv n s \<longleftrightarrow> unat (latch_count s) = unat n - counted s \<and>
     (Blocked \<in> set (threads s) \<longrightarrow> latch_count s \<noteq> 0) \<and>
     (Passed \<in> set (threads s) \<longrightarrow> latch_count s = 0)"

lemma set_update_cases: "x \<in> set (xs[i := y]) \<Longrightarrow> x = y \<or> x \<in> set xs"
  using set_update_subset_insert [of xs i y] by blast

lemma set_notify_all: "set (notify_all ps) = (if Blocked \<in> set ps then insert Awake (set ps - {Blocked}) else set ps)"
  by (auto simp: notify_all_def)

lemma tally_notify_all: "tally (\<lambda>p. p = Counted) (notify_all ps) = tally (\<lambda>p. p = Counted) ps"
  unfolding notify_all_def tally_map by (rule arg_cong [where f = "\<lambda>P. tally P ps"]) auto

lemma word_pred: "(w :: 32 word) \<noteq> 0 \<Longrightarrow> unat (w - 1) = unat w - 1"
  by (simp add: unat_minus_one)

lemma latch_step_inv: "latch_inv n s \<Longrightarrow> latch_step s t \<Longrightarrow> latch_inv n t"
proof -
  assume inv: "latch_inv n s" and "latch_step s t"
  from this(2) show "latch_inv n t"
  proof cases
    case (wait i)
    have "counted t = counted s"
      using wait tally_update [of i "threads s" "\<lambda>p. p = Counted" "Latch_wait (latch_count s)"]
      by (auto simp: counted_def Latch_wait_def split: if_splits)
    then show ?thesis using inv wait
      by (auto simp: latch_inv_def Latch_wait_def word_gt_0 dest!: set_update_cases split: if_splits)
  next
    case (spurious i)
    have "counted t = counted s"
      using spurious tally_update [of i "threads s" "\<lambda>p. p = Counted" Awake] by (auto simp: counted_def)
    then show ?thesis using inv spurious by (auto simp: latch_inv_def dest!: set_update_cases)
  next
    case (count_down i c notify)
    let ?ps = "(threads s)[i := Counted]"
    have "counted t = Suc (counted s)"
      using count_down tally_update [of i "threads s" "\<lambda>p. p = Counted" Counted]
      by (auto simp: counted_def tally_notify_all)
    moreover have "unat c = unat (latch_count s) - 1" "notify \<longleftrightarrow> c = 0 \<and> latch_count s \<noteq> 0"
      "latch_count s = 0 \<longrightarrow> c = 0"
      using count_down(4) by (auto simp: Latch_count_down_def Let_def word_pred split: if_splits)
    ultimately show ?thesis using inv count_down(1)
      by (auto simp: latch_inv_def set_notify_all dest!: set_update_cases split: if_splits)
  qed
qed

text \<open>Everyone is through, and enough threads are there to count down.\<close>

definition all_through :: "latch \<Rightarrow> bool" where
  "all_through s \<longleftrightarrow> set (threads s) \<subseteq> {Passed, Counted}"

definition enough :: "32 word \<Rightarrow> latch \<Rightarrow> bool" where
  "enough n s \<longleftrightarrow> unat n \<le> tally (\<lambda>p. p \<in> {DownCall, Counted}) (threads s)"

definition still_inside :: "latch \<Rightarrow> nat" where
  "still_inside s = tally (\<lambda>p. p \<notin> {Passed, Counted}) (threads s)"

lemma latch_start_inv: "latch_start n s \<Longrightarrow> latch_inv n s"
proof -
  assume s: "latch_start n s"
  then have "Blocked \<notin> set (threads s)" "Passed \<notin> set (threads s)" "Counted \<notin> set (threads s)"
    by (auto simp: latch_start_def)
  moreover from this have "counted s = 0" unfolding counted_def tally_0 by blast
  ultimately show ?thesis using s by (simp add: latch_inv_def latch_start_def)
qed

lemma tally_update_less:
  "i < length xs \<Longrightarrow> P (xs ! i) \<Longrightarrow> \<not> P y \<Longrightarrow> tally P (xs[i := y]) < tally P xs"
  using tally_update [of i xs P y] by simp

lemma tally_update_same:
  "i < length xs \<Longrightarrow> P (xs ! i) = P y \<Longrightarrow> tally P (xs[i := y]) = tally P xs"
  using tally_update [of i xs P y] by simp

lemma tally_notify_same:
  "P Blocked = P Awake \<Longrightarrow> tally P (notify_all ps) = tally P ps"
  unfolding notify_all_def tally_map by (rule arg_cong [where f = "\<lambda>P. tally P ps"]) auto

lemma latch_closer:
  assumes "latch_inv n s" "enough n s" "\<not> all_through s"
  shows "\<exists>t. latch_step s t \<and> enough n t \<and> still_inside t < still_inside s"
proof (cases "DownCall \<in> set (threads s)")
  case True
  then obtain i where i: "i < length (threads s)" "threads s ! i = DownCall" by (auto simp: in_set_conv_nth)
  obtain c notify where c: "Latch_count_down (latch_count s) = (c, notify)" by fastforce
  let ?t = "\<lparr>latch_count = c, threads = (if notify then notify_all else id) ((threads s)[i := Counted])\<rparr>"
  have "latch_step s ?t" using latch_step.count_down [OF i c] .
  moreover have "enough n ?t" using assms(2) i
    by (simp add: enough_def tally_notify_same tally_update_same)
  moreover have "still_inside ?t < still_inside s" using i
    by (simp add: still_inside_def tally_notify_same tally_update_less)
  ultimately show ?thesis by blast
next
  case False
  then have "tally (\<lambda>p. p \<in> {DownCall, Counted}) (threads s) = counted s"
    unfolding counted_def tally_def by (intro arg_cong [where f = length] filter_cong) auto
  then have zero: "latch_count s = 0" using assms(1,2) by (simp add: latch_inv_def enough_def unat_eq_zero)
  then have "Blocked \<notin> set (threads s)" using assms(1) by (simp add: latch_inv_def)
  then obtain p where "p \<in> set (threads s)" "p \<in> {WaitCall, Awake}"
    using assms(3) False unfolding all_through_def by (metis (full_types) insertCI latch_pc.exhaust subsetI)
  then obtain i where i: "i < length (threads s)" "threads s ! i \<in> {WaitCall, Awake}" by (auto simp: in_set_conv_nth)
  let ?t = "s\<lparr>threads := (threads s)[i := Passed]\<rparr>"
  have "latch_step s ?t" using latch_step.wait [OF i] zero by (simp add: Latch_wait_def)
  moreover have "enough n ?t" using assms(2) i by (auto simp: enough_def tally_update_same)
  moreover have "still_inside ?t < still_inside s" using i by (auto simp: still_inside_def tally_update_less)
  ultimately show ?thesis by blast
qed

interpretation latch: live_machine "latch_start n" latch_step "latch_inv n" all_through "enough n" still_inside for n
  by unfold_locales (auto intro: latch_start_inv latch_step_inv latch_closer)

lemma enough_kept: "latch_step s t \<Longrightarrow> enough n s \<Longrightarrow> enough n t"
  by (erule latch_step.cases) (auto simp: enough_def tally_notify_same tally_update_same Latch_wait_def)

lemma enough_run: "rtranclp latch_step s t \<Longrightarrow> enough n s \<Longrightarrow> enough n t"
  by (induction rule: rtranclp_induct) (auto intro: enough_kept)

text \<open>
  C15: however \<open>Wait\<close>, \<open>CountDown\<close> and spurious wake-ups interleave on a latch of \<open>n\<close>, its count is \<open>n\<close> less the
  calls of \<open>CountDown\<close> that returned and never wraps; \<open>Wait\<close> returns only after \<open>n\<close> of them, nobody is left
  blocked after that many, and when there are that many everybody can return from every state reached.
\<close>

theorem latch_counts_and_releases:
  assumes "latch_start n s" "rtranclp latch_step s t"
  shows "unat (latch_count t) = unat n - counted t \<and>
    (Passed \<in> set (threads t) \<longrightarrow> unat n \<le> counted t) \<and>
    (Blocked \<in> set (threads t) \<longrightarrow> counted t < unat n) \<and>
    (enough n s \<longrightarrow> (\<exists>u. rtranclp latch_step t u \<and> all_through u))"
proof -
  have inv: "latch_inv n t" by (rule latch.reachable_inv [OF assms])
  then have "unat (latch_count t) = unat n - counted t" by (simp add: latch_inv_def)
  moreover have "Passed \<in> set (threads t) \<longrightarrow> unat n \<le> counted t"
    using inv by (auto simp: latch_inv_def)
  moreover have "Blocked \<in> set (threads t) \<longrightarrow> counted t < unat n"
    using inv by (auto simp: latch_inv_def unat_eq_zero [symmetric] simp del: unat_eq_zero)
  moreover have "enough n s \<longrightarrow> (\<exists>u. rtranclp latch_step t u \<and> all_through u)"
    using enough_run [OF assms(2)] latch.goal_from [OF inv] by blast
  ultimately show ?thesis by blast
qed

theorem latch_counts_and_releases_witness:
  "\<exists>s t u. latch_start 1 s \<and> threads s = [WaitCall, DownCall] \<and> Blocked \<in> set (threads t) \<and>
     rtranclp latch_step s t \<and> counted t < 1 \<and> rtranclp latch_step t u \<and> all_through u"
proof -
  let ?s = "\<lparr>latch_count = 1, threads = [WaitCall, DownCall]\<rparr>"
  let ?t = "\<lparr>latch_count = 1, threads = [Blocked, DownCall]\<rparr>"
  have s: "latch_start 1 ?s" "enough 1 ?s" by (simp_all add: latch_start_def enough_def tally_def)
  have "latch_step ?s ?t" using latch_step.wait [of 0 ?s] by (simp add: Latch_wait_def)
  then have t: "rtranclp latch_step ?s ?t" by blast
  from latch_counts_and_releases [OF s(1) t] s(2)
  obtain u where "rtranclp latch_step ?t u" "all_through u" by blast
  moreover have "counted ?t < 1" by (simp add: counted_def tally_def)
  ultimately show ?thesis using s(1) t by (intro exI [of _ ?s] exI [of _ ?t] exI [of _ u]) simp
qed

section \<open>The producer-consumer queue\<close>

text \<open>The sections of code under the mutex, on the queue's items, front first; an item is a pointer.\<close>

type_synonym pointer = nat

definition Enqueue :: "pointer \<Rightarrow> pointer list \<Rightarrow> pointer list" where
  "Enqueue item q = q @ [item]"

function enqueue_loop :: "pointer \<Rightarrow> int \<Rightarrow> int \<Rightarrow> pointer list \<Rightarrow> pointer list" where
  "enqueue_loop item ntimes i q = (if i < ntimes then enqueue_loop item ntimes (i + 1) (q @ [item]) else q)"
  by pat_completeness auto
termination by (relation "measure (\<lambda>(item, ntimes, i, q). nat (ntimes - i))") auto

declare enqueue_loop.simps [simp del]

definition EnqueueN :: "pointer \<Rightarrow> int \<Rightarrow> pointer list \<Rightarrow> pointer list" where
  "EnqueueN item ntimes q = enqueue_loop item ntimes 0 q"

definition TryDequeue :: "pointer list \<Rightarrow> (pointer option \<times> bool) \<times> pointer list" where
  "TryDequeue q = (case q of [] \<Rightarrow> ((None, False), []) | item # q' \<Rightarrow> ((Some item, True), q'))"

fun dequeue_loop :: "32 word \<Rightarrow> 32 word \<Rightarrow> pointer list \<Rightarrow> pointer list \<Rightarrow> (32 word \<times> pointer list) \<times> pointer list" where
  "dequeue_loop n dequeued retval [] = ((dequeued, retval), [])"
| "dequeue_loop n dequeued retval (item # q) =
     (if dequeued < n then dequeue_loop n (dequeued + 1) (retval @ [item]) q
      else ((dequeued, retval), item # q))"

definition TryDequeueN :: "32 word \<Rightarrow> pointer list \<Rightarrow> pointer list \<Rightarrow> (32 word \<times> pointer list) \<times> pointer list" where
  "TryDequeueN n retval q = dequeue_loop n 0 retval q"

definition queue_size :: "pointer list \<Rightarrow> int" where
  "queue_size q = to_int32 (int (length q))"

lemma EnqueueN_replicate: "EnqueueN item n q = q @ replicate (nat n) item"
proof -
  have "enqueue_loop item n i q = q @ replicate (nat (n - i)) item" for i
  proof (induction item n i q rule: enqueue_loop.induct)
    case (1 item n i q)
    show ?case
    proof (cases "i < n")
      case True
      then have "nat (n - i) = Suc (nat (n - (i + 1)))" by simp
      then show ?thesis using 1 True by (simp add: enqueue_loop.simps [of item n i q])
    qed (simp add: enqueue_loop.simps [of item n i q])
  qed
  from this [of 0] show ?thesis by (simp add: EnqueueN_def)
qed

lemma dequeue_loop_splits: "dequeue_loop n d r q = ((m, r'), q') \<Longrightarrow> r' @ q' = r @ q"
  by (induction n d r q rule: dequeue_loop.induct) (auto split: if_splits)

text \<open>
  The threads around a queue: calls about to be made, consumers blocked or awake in \<open>Dequeue\<close>, and calls
  that returned, with the items they took.  \<open>pushed\<close> and \<open>popped\<close> record the items in the order
  they entered and left the queue.
\<close>

datatype queue_pc =
    CallEnqueue pointer
  | CallEnqueueN pointer int
  | CallDequeue
  | Asleep
  | Woken
  | CallTryDequeue
  | CallTryDequeueN "32 word"
  | Took "pointer list"

record pc_queue =
  queue :: "pointer list"
  workers :: "queue_pc list"
  pushed :: "pointer list"
  popped :: "pointer list"

definition notify_one :: "queue_pc list \<Rightarrow> queue_pc list \<Rightarrow> bool" where
  "notify_one ps ps' \<longleftrightarrow>
     (if Asleep \<in> set ps then \<exists>j < length ps. ps ! j = Asleep \<and> ps' = ps[j := Woken] else ps' = ps)"

inductive queue_step :: "pc_queue \<Rightarrow> pc_queue \<Rightarrow> bool" where
  enqueue: "i < length (workers s) \<Longrightarrow> workers s ! i = CallEnqueue v \<Longrightarrow>
    notify_one ((workers s)[i := Took []]) ps \<Longrightarrow>
    queue_step s (s\<lparr>queue := Enqueue v (queue s), workers := ps, pushed := pushed s @ [v]\<rparr>)"
| enqueue_n: "i < length (workers s) \<Longrightarrow> workers s ! i = CallEnqueueN v n \<Longrightarrow>
    notify_one ((workers s)[i := Took []]) ps \<Longrightarrow>
    queue_step s (s\<lparr>queue := EnqueueN v n (queue s), workers := ps,
      pushed := pushed s @ replicate (nat n) v\<rparr>)"
| sleep: "i < length (workers s) \<Longrightarrow> workers s ! i \<in> {CallDequeue, Woken} \<Longrightarrow> queue s = [] \<Longrightarrow>
    queue_step s (s\<lparr>workers := (workers s)[i := Asleep]\<rparr>)"
| dequeue: "i < length (workers s) \<Longrightarrow> workers s ! i \<in> {CallDequeue, Woken} \<Longrightarrow> queue s = v # q \<Longrightarrow>
    queue_step s (s\<lparr>queue := q, workers := (workers s)[i := Took [v]], popped := popped s @ [v]\<rparr>)"
| spurious: "i < length (workers s) \<Longrightarrow> workers s ! i = Asleep \<Longrightarrow>
    queue_step s (s\<lparr>workers := (workers s)[i := Woken]\<rparr>)"
| try_dequeue: "i < length (workers s) \<Longrightarrow> workers s ! i = CallTryDequeue \<Longrightarrow>
    TryDequeue (queue s) = ((item, ok), q) \<Longrightarrow> vs = (if ok then [the item] else []) \<Longrightarrow>
    queue_step s (s\<lparr>queue := q, workers := (workers s)[i := Took vs], popped := popped s @ vs\<rparr>)"
| try_dequeue_n: "i < length (workers s) \<Longrightarrow> workers s ! i = CallTryDequeueN n \<Longrightarrow>
    TryDequeueN n [] (queue s) = ((m, vs), q) \<Longrightarrow>
    queue_step s (s\<lparr>queue := q, workers := (workers s)[i := Took vs], popped := popped s @ vs\<rparr>)"

fun took :: "queue_pc \<Rightarrow> pointer multiset" where
  "took (Took vs) = mset vs"
| "took _ = {#}"

definition all_took :: "queue_pc list \<Rightarrow> pointer multiset" where
  "all_took ps = sum_list (map took ps)"

lemma all_took_update: "i < length ps \<Longrightarrow> took (ps ! i) = {#} \<Longrightarrow> all_took (ps[i := p]) = all_took ps + took p"
proof (induction ps arbitrary: i)
  case (Cons x ps)
  then show ?case by (cases i) (auto simp: all_took_def ac_simps)
qed simp

lemma all_took_notify: "notify_one ps ps' \<Longrightarrow> all_took ps' = all_took ps"
  by (auto simp: notify_one_def all_took_update split: if_splits)

definition queue_start :: "pc_queue \<Rightarrow> bool" where
  "queue_start s \<longleftrightarrow> queue s = [] \<and> pushed s = [] \<and> popped s = [] \<and>
     (\<forall>p\<in>set (workers s). p \<notin> {Asleep, Woken} \<and> took p = {#} \<and> (\<forall>vs. p \<noteq> Took vs))"

definition queue_inv :: "pc_queue \<Rightarrow> bool" where
  "queue_inv s \<longleftrightarrow> pushed s = popped s @ queue s \<and> all_took (workers s) = mset (popped s)"

lemma queue_start_inv: "queue_start s \<Longrightarrow> queue_inv s"
proof -
  assume s: "queue_start s"
  then have "map took (workers s) = map (\<lambda>_. {#}) (workers s)" by (simp add: queue_start_def)
  then have "all_took (workers s) = {#}" unfolding all_took_def by (simp only: sum_list_0)
  then show ?thesis using s by (simp add: queue_inv_def queue_start_def)
qed

lemma queue_step_inv: "queue_inv s \<Longrightarrow> queue_step s t \<Longrightarrow> queue_inv t"
proof -
  assume inv: "queue_inv s" and "queue_step s t"
  from this(2) show "queue_inv t"
  proof cases
    case (try_dequeue i item ok q vs)
    then have "queue s = vs @ q" by (auto simp: TryDequeue_def split: list.splits)
    then show ?thesis using inv try_dequeue by (simp add: queue_inv_def all_took_update)
  next
    case (try_dequeue_n i n m vs q)
    then have "queue s = vs @ q" using dequeue_loop_splits [of n 0 "[]" "queue s"] by (simp add: TryDequeueN_def)
    then show ?thesis using inv try_dequeue_n by (simp add: queue_inv_def all_took_update)
  qed (use inv in \<open>auto simp: queue_inv_def all_took_update all_took_notify Enqueue_def EnqueueN_replicate\<close>)
qed

interpretation queue: machine queue_start queue_step queue_inv
  by unfold_locales (auto intro: queue_start_inv queue_step_inv)

text \<open>
  C8: in every interleaving of producers and consumers, what left the queue followed by what is in it is
  what entered it, in the order it entered, and the items the consumers took are exactly what left:
  nothing is lost, duplicated or reordered.
\<close>

theorem queue_fifo:
  assumes "queue_start s" "rtranclp queue_step s t"
  shows "pushed t = popped t @ queue t \<and> all_took (workers t) = mset (popped t)"
  using queue.reachable_inv [OF assms] by (simp add: queue_inv_def)

theorem queue_fifo_witness:
  "\<exists>s t. queue_start s \<and> rtranclp queue_step s t \<and> queue t = [7] \<and> popped t = [7] \<and>
     pushed t = popped t @ queue t"
proof -
  let ?s = "\<lparr>queue = [], workers = [CallEnqueueN 7 2, CallDequeue], pushed = [], popped = []\<rparr>"
  let ?t = "\<lparr>queue = [7, 7], workers = [Took [], CallDequeue], pushed = [7, 7], popped = []\<rparr>"
  let ?u = "\<lparr>queue = [7], workers = [Took [], Took [7]], pushed = [7, 7], popped = [7]\<rparr>"
  have s: "queue_start ?s" by (simp add: queue_start_def)
  have "queue_step ?s ?t"
    using queue_step.enqueue_n [of 0 ?s 7 2 "[Took [], CallDequeue]"]
    by (simp add: notify_one_def EnqueueN_replicate numeral_2_eq_2)
  moreover have "queue_step ?t ?u" using queue_step.dequeue [of 1 ?t 7 "[7]"] by simp
  ultimately have t: "rtranclp queue_step ?s ?u" by (meson converse_rtranclp_into_rtranclp rtranclp.rtrancl_refl)
  then show ?thesis using queue_fifo [OF s t] s by (intro exI [of _ ?s] exI [of _ ?u]) simp
qed

text \<open>A queue used without \<open>EnqueueN\<close> for more than one item.\<close>

definition single_items :: "pc_queue \<Rightarrow> bool" where
  "single_items s \<longleftrightarrow> (\<forall>v n. CallEnqueueN v n \<in> set (workers s) \<longrightarrow> n \<le> 1)"

definition wake_inv :: "pc_queue \<Rightarrow> bool" where
  "wake_inv s \<longleftrightarrow> single_items s \<and>
     (Asleep \<in> set (workers s) \<longrightarrow> length (queue s) \<le> tally (\<lambda>p. p = Woken) (workers s))"

definition settled :: "pc_queue \<Rightarrow> bool" where
  "settled s \<longleftrightarrow> (\<forall>p\<in>set (workers s). p = Asleep \<or> (\<exists>vs. p = Took vs))"

lemma single_items_update: "single_items s \<Longrightarrow> (\<And>v n. p \<noteq> CallEnqueueN v n) \<Longrightarrow>
    single_items (s\<lparr>workers := (workers s)[i := p]\<rparr>)"
  by (auto simp: single_items_def dest!: set_update_cases)

lemma push_wakes:
  assumes "wake_inv s" "i < length (workers s)" "workers s ! i \<notin> {Asleep, Woken}"
    "notify_one ((workers s)[i := Took []]) ps" "length q \<le> Suc (length (queue s))"
  shows "wake_inv (s\<lparr>queue := q, workers := ps, pushed := p\<rparr>)"
proof -
  let ?ps = "(workers s)[i := Took []]"
  have single: "single_items (s\<lparr>workers := ?ps\<rparr>)"
    using assms(1) single_items_update [of s "Took []" i] by (simp add: wake_inv_def)
  have t: "tally (\<lambda>p. p = Woken) ?ps = tally (\<lambda>p. p = Woken) (workers s)"
    using assms(2,3) by (auto simp: tally_update_same)
  show ?thesis
  proof (cases "Asleep \<in> set ?ps")
    case True
    then have "Asleep \<in> set (workers s)" by (auto dest!: set_update_cases)
    then have le: "length (queue s) \<le> tally (\<lambda>p. p = Woken) (workers s)" using assms(1) by (simp add: wake_inv_def)
    obtain j where j: "j < length ?ps" "?ps ! j = Asleep" "ps = ?ps[j := Woken]"
      using assms(4) True by (auto simp: notify_one_def)
    have "tally (\<lambda>p. p = Woken) ps = Suc (tally (\<lambda>p. p = Woken) ?ps)"
      using tally_update [of j ?ps "\<lambda>p. p = Woken" Woken] j by simp
    moreover have "single_items (s\<lparr>workers := ps\<rparr>)"
      using single single_items_update [of "s\<lparr>workers := ?ps\<rparr>" Woken j] j(3) by simp
    ultimately show ?thesis using le t assms(5) by (simp add: wake_inv_def single_items_def)
  next
    case False
    then have "ps = ?ps" using assms(4) by (simp add: notify_one_def)
    then show ?thesis using False single by (simp add: wake_inv_def single_items_def)
  qed
qed

lemma wake_step_inv: "wake_inv s \<Longrightarrow> queue_step s t \<Longrightarrow> wake_inv t"
proof -
  assume inv: "wake_inv s" and "queue_step s t"
  then have single: "single_items s" by (simp add: wake_inv_def)
  note move = single_items_update [OF single, unfolded single_items_def, simplified]
  from \<open>queue_step s t\<close> show "wake_inv t"
  proof cases
    case (enqueue i v ps)
    then show ?thesis using push_wakes [OF inv] by (simp add: Enqueue_def)
  next
    case (enqueue_n i v n ps)
    then have "n \<le> 1" using single nth_mem [of i "workers s"] by (auto simp: single_items_def)
    then show ?thesis using enqueue_n push_wakes [OF inv] by (simp add: EnqueueN_replicate)
  next
    case (sleep i)
    then show ?thesis using move [of Asleep i] by (simp add: wake_inv_def single_items_def)
  next
    case (dequeue i v q)
    then show ?thesis using inv move tally_update [of i "workers s" "\<lambda>p. p = Woken" "Took [v]"]
      by (auto simp: wake_inv_def single_items_def dest!: set_update_cases split: if_splits)
  next
    case (spurious i)
    then show ?thesis using inv move tally_update [of i "workers s" "\<lambda>p. p = Woken" Woken]
      by (auto simp: wake_inv_def single_items_def dest!: set_update_cases)
  next
    case (try_dequeue i item ok q vs)
    then have "length q \<le> length (queue s)" by (auto simp: TryDequeue_def split: list.splits)
    then show ?thesis using try_dequeue inv move tally_update_same [of i "workers s" "\<lambda>p. p = Woken" "Took vs"]
      by (auto simp: wake_inv_def single_items_def dest!: set_update_cases)
  next
    case (try_dequeue_n i n m vs q)
    then have "queue s = vs @ q" using dequeue_loop_splits [of n 0 "[]" "queue s"] by (simp add: TryDequeueN_def)
    then show ?thesis using try_dequeue_n inv move tally_update_same [of i "workers s" "\<lambda>p. p = Woken" "Took vs"]
      by (auto simp: wake_inv_def single_items_def dest!: set_update_cases)
  qed
qed

definition single_start :: "pc_queue \<Rightarrow> bool" where
  "single_start s \<longleftrightarrow> queue_start s \<and> single_items s"

lemma single_start_inv: "single_start s \<Longrightarrow> wake_inv s"
  by (auto simp: single_start_def wake_inv_def queue_start_def)

interpretation wakes: machine single_start queue_step wake_inv
  by unfold_locales (auto intro: single_start_inv wake_step_inv)

text \<open>
  C16: while nobody enqueues more than one item at a time no wake-up is lost: once all other calls have
  returned, a consumer is asleep only if the queue is empty.  \<open>EnqueueN\<close> notifies one consumer for all its
  items: two consumers and an \<open>EnqueueN\<close> of two items can come to rest with one consumer asleep and an item
  in the queue.
\<close>

theorem queue_wakeups:
  assumes "queue_start s" "single_items s" "rtranclp queue_step s t" "settled t"
  shows "(Asleep \<in> set (workers t) \<longrightarrow> queue t = []) \<and>
    (\<exists>s' t'. queue_start s' \<and> workers s' = [CallDequeue, CallDequeue, CallEnqueueN v 2] \<and>
       rtranclp queue_step s' t' \<and> settled t' \<and> Asleep \<in> set (workers t') \<and> queue t' = [v])"
proof
  have "wake_inv t" using wakes.reachable_inv [OF _ assms(3)] assms(1,2) by (simp add: single_start_def)
  moreover have "tally (\<lambda>p. p = Woken) (workers t) = 0" unfolding tally_0 using assms(4) by (auto simp: settled_def)
  ultimately show "Asleep \<in> set (workers t) \<longrightarrow> queue t = []" by (simp add: wake_inv_def)
next
  let ?s = "\<lparr>queue = [], workers = [CallDequeue, CallDequeue, CallEnqueueN v 2], pushed = [], popped = []\<rparr>"
  let ?a = "?s\<lparr>workers := [Asleep, CallDequeue, CallEnqueueN v 2]\<rparr>"
  let ?b = "?s\<lparr>workers := [Asleep, Asleep, CallEnqueueN v 2]\<rparr>"
  let ?c = "\<lparr>queue = [v, v], workers = [Woken, Asleep, Took []], pushed = [v, v], popped = []\<rparr>"
  let ?d = "\<lparr>queue = [v], workers = [Took [v], Asleep, Took []], pushed = [v, v], popped = [v]\<rparr>"
  have "queue_step ?s ?a" using queue_step.sleep [of 0 ?s] by simp
  moreover have "queue_step ?a ?b" using queue_step.sleep [of 1 ?a] by simp
  moreover have "notify_one [Asleep, Asleep, Took []] [Woken, Asleep, Took []]"
    by (auto simp: notify_one_def intro!: exI [of _ 0])
  then have "queue_step ?b ?c"
    using queue_step.enqueue_n [of 2 ?b v 2 "[Woken, Asleep, Took []]"]
    by (simp add: EnqueueN_replicate numeral_2_eq_2)
  moreover have "queue_step ?c ?d" using queue_step.dequeue [of 0 ?c v "[v]"] by simp
  ultimately have "rtranclp queue_step ?s ?d" by (meson converse_rtranclp_into_rtranclp rtranclp.rtrancl_refl)
  moreover have "queue_start ?s" "settled ?d" by (simp_all add: queue_start_def settled_def)
  ultimately show "\<exists>s' t'. queue_start s' \<and> workers s' = [CallDequeue, CallDequeue, CallEnqueueN v 2] \<and>
      rtranclp queue_step s' t' \<and> settled t' \<and> Asleep \<in> set (workers t') \<and> queue t' = [v]"
    by (intro exI [of _ ?s] exI [of _ ?d]) simp
qed

theorem queue_wakeups_witness:
  "\<exists>s t. queue_start s \<and> single_items s \<and> rtranclp queue_step s t \<and> settled t \<and>
     Asleep \<in> set (workers t) \<and> queue t = []"
proof -
  let ?s = "\<lparr>queue = [], workers = [CallDequeue], pushed = [], popped = []\<rparr>"
  let ?t = "?s\<lparr>workers := [Asleep]\<rparr>"
  have "queue_step ?s ?t" using queue_step.sleep [of 0 ?s] by simp
  then have t: "rtranclp queue_step ?s ?t" by blast
  have s: "queue_start ?s" "single_items ?s" "settled ?t"
    by (simp_all add: queue_start_def single_items_def settled_def)
  from queue_wakeups [OF s(1,2) t s(3)] have "queue ?t = []" by simp
  then show ?thesis using s t by (intro exI [of _ ?s] exI [of _ ?t]) simp
qed

end
