(* ===== verification/Once.thy ===== *)
theory Once
  imports Machine
begin

text \<open>
  \<open>base/atomicops.h\<close>, \<open>base/once.h\<close>, \<open>base/once.cc\<close> and \<open>base/singleton.h\<close>: one-time
  initialisation by threads that share a word.  Each access to the word is one atomic step, and the
  threads interleave in any order (\<open>once_step\<close>).
\<close>

section \<open>Atomic operations on a word\<close>

text \<open>
  What each operation returns and leaves in the word, at both widths.  An access is indivisible and the
  next one of any thread sees it; the memory orders the code asks for are not told apart.
\<close>

definition Acquire_Load :: "'a::len word \<Rightarrow> 'a word" where
  "Acquire_Load w = w"

definition Release_Store :: "'a::len word \<Rightarrow> 'a word \<Rightarrow> 'a word" where
  "Release_Store w value = value"

definition Acquire_CompareAndSwap :: "'a::len word \<Rightarrow> 'a word \<Rightarrow> 'a word \<Rightarrow> 'a word \<times> 'a word" where
  "Acquire_CompareAndSwap w old_value new_value = (w, if w = old_value then new_value else w)"

definition NoBarrier_AtomicExchange :: "'a::len word \<Rightarrow> 'a word \<Rightarrow> 'a word \<times> 'a word" where
  "NoBarrier_AtomicExchange w new_value = (w, new_value)"

definition NoBarrier_AtomicIncrement :: "'a::len word \<Rightarrow> 'a word \<Rightarrow> 'a word \<times> 'a word" where
  "NoBarrier_AtomicIncrement w increment = (increment + w, w + increment)"

definition Barrier_AtomicIncrement :: "'a::len word \<Rightarrow> 'a word \<Rightarrow> 'a word \<times> 'a word" where
  "Barrier_AtomicIncrement w increment = (increment + w, w + increment)"

text \<open>The variants that differ in the memory order they ask for.\<close>

definition NoBarrier_Load :: "'a::len word \<Rightarrow> 'a word" where
  "NoBarrier_Load w = w"

definition Release_Load :: "'a::len word \<Rightarrow> 'a word" where
  "Release_Load w = w"

definition NoBarrier_Store :: "'a::len word \<Rightarrow> 'a word \<Rightarrow> 'a word" where
  "NoBarrier_Store w value = value"

definition Acquire_Store :: "'a::len word \<Rightarrow> 'a word \<Rightarrow> 'a word" where
  "Acquire_Store w value = value"

definition NoBarrier_CompareAndSwap :: "'a::len word \<Rightarrow> 'a word \<Rightarrow> 'a word \<Rightarrow> 'a word \<times> 'a word" where
  "NoBarrier_CompareAndSwap w old_value new_value = (w, if w = old_value then new_value else w)"

definition Release_CompareAndSwap :: "'a::len word \<Rightarrow> 'a word \<Rightarrow> 'a word \<Rightarrow> 'a word \<times> 'a word" where
  "Release_CompareAndSwap w old_value new_value = (w, if w = old_value then new_value else w)"

section \<open>Initialising once\<close>

definition ONCE_STATE_UNINITIALIZED :: "64 word" where "ONCE_STATE_UNINITIALIZED = 0"
definition ONCE_STATE_EXECUTING_CLOSURE :: "64 word" where "ONCE_STATE_EXECUTING_CLOSURE = 1"
definition ONCE_STATE_DONE :: "64 word" where "ONCE_STATE_DONE = 2"

lemmas once_states = ONCE_STATE_UNINITIALIZED_def ONCE_STATE_EXECUTING_CLOSURE_def ONCE_STATE_DONE_def

text \<open>
  Where a thread stands: before the load of \<open>OnceInit\<close>, before the load and the exchange of
  \<open>OnceInitImpl\<close>, about to run the closure, about to publish, in the waiting loop, returned, or gone
  by an exception of the closure.
\<close>

datatype once_pc = Enter | Load | Swap | Run | Publish | Spin | Returned | Threw

text \<open>One step of a thread: the word it leaves, where it stands next, and the closures it has run.\<close>

fun once_act :: "bool \<Rightarrow> once_pc \<Rightarrow> 64 word \<Rightarrow> 64 word \<times> once_pc \<times> nat" where
  "once_act throws Enter w = (w, if Acquire_Load w \<noteq> ONCE_STATE_DONE then Load else Returned, 0)"
| "once_act throws Load w = (w, if Acquire_Load w = ONCE_STATE_DONE then Returned else Swap, 0)"
| "once_act throws Swap w =
     (let (state, w') = Acquire_CompareAndSwap w ONCE_STATE_UNINITIALIZED ONCE_STATE_EXECUTING_CLOSURE
      in (w', if state = ONCE_STATE_UNINITIALIZED then Run
              else if state = ONCE_STATE_EXECUTING_CLOSURE then Spin else Returned, 0))"
| "once_act throws Run w = (w, if throws then Threw else Publish, 1)"
| "once_act throws Publish w = (Release_Store w ONCE_STATE_DONE, Returned, 0)"
| "once_act throws Spin w =
     (w, if Acquire_Load w = ONCE_STATE_EXECUTING_CLOSURE then Spin else Returned, 0)"
| "once_act throws Returned w = (w, Returned, 0)"
| "once_act throws Threw w = (w, Threw, 0)"

record once =
  once_word :: "64 word"
  callers :: "once_pc list"
  runs :: nat

definition ONCE_INIT :: "64 word" where "ONCE_INIT = ONCE_STATE_UNINITIALIZED"

definition once_start :: "once \<Rightarrow> bool" where
  "once_start s \<longleftrightarrow> once_word s = ONCE_INIT \<and> set (callers s) \<subseteq> {Enter} \<and> runs s = 0"

inductive once_step :: "once \<Rightarrow> once \<Rightarrow> bool" where
  "i < length (callers s) \<Longrightarrow> callers s ! i \<notin> {Returned, Threw} \<Longrightarrow>
   once_act throws (callers s ! i) (once_word s) = (w, p, r) \<Longrightarrow>
   once_step s \<lparr>once_word = w, callers = (callers s)[i := p], runs = runs s + r\<rparr>"

inductive_cases once_stepE: "once_step s t"

text \<open>
  The invariant: nobody has passed while the word is fresh; one thread has it while it is taken; the
  closure has run to its end when it is published.
\<close>

definition all_in :: "once_pc set \<Rightarrow> once_pc list \<Rightarrow> bool" where
  "all_in A ps \<longleftrightarrow> (\<forall>j < length ps. ps ! j \<in> A)"

definition fresh :: "once \<Rightarrow> bool" where
  "fresh s \<longleftrightarrow> once_word s = ONCE_STATE_UNINITIALIZED \<and> runs s = 0 \<and> all_in {Enter, Load, Swap} (callers s)"

definition taken :: "nat \<Rightarrow> once \<Rightarrow> bool" where
  "taken k s \<longleftrightarrow> once_word s = ONCE_STATE_EXECUTING_CLOSURE \<and> k < length (callers s) \<and>
     (callers s ! k = Run \<and> runs s = 0 \<or> callers s ! k \<in> {Publish, Threw} \<and> runs s = 1) \<and>
     (\<forall>j < length (callers s). j \<noteq> k \<longrightarrow> callers s ! j \<in> {Enter, Load, Swap, Spin})"

definition published :: "once \<Rightarrow> bool" where
  "published s \<longleftrightarrow> once_word s = ONCE_STATE_DONE \<and> runs s = 1 \<and>
     all_in {Enter, Load, Swap, Spin, Returned} (callers s)"

definition once_inv :: "once \<Rightarrow> bool" where
  "once_inv s \<longleftrightarrow> fresh s \<or> (\<exists>k. taken k s) \<or> published s"

definition once_weight :: "once_pc \<Rightarrow> nat" where
  "once_weight p = (case p of Enter \<Rightarrow> 6 | Load \<Rightarrow> 5 | Swap \<Rightarrow> 4 | Run \<Rightarrow> 3 | Publish \<Rightarrow> 2 | Spin \<Rightarrow> 1 | _ \<Rightarrow> 0)"

lemma once_states_differ [simp]:
  "ONCE_STATE_UNINITIALIZED \<noteq> ONCE_STATE_EXECUTING_CLOSURE" "ONCE_STATE_UNINITIALIZED \<noteq> ONCE_STATE_DONE"
  "ONCE_STATE_EXECUTING_CLOSURE \<noteq> ONCE_STATE_UNINITIALIZED" "ONCE_STATE_EXECUTING_CLOSURE \<noteq> ONCE_STATE_DONE"
  "ONCE_STATE_DONE \<noteq> ONCE_STATE_UNINITIALIZED" "ONCE_STATE_DONE \<noteq> ONCE_STATE_EXECUTING_CLOSURE"
  by (simp_all add: once_states)

lemmas atomic_defs = Acquire_Load_def Release_Store_def Acquire_CompareAndSwap_def

lemma all_in_update: "all_in A ps \<Longrightarrow> p \<in> A \<Longrightarrow> all_in A (ps[i := p])"
  by (simp add: all_in_def nth_update)

text \<open>What a step does in each of the three situations.\<close>

lemma fresh_step:
  assumes "fresh s" "i < length (callers s)" "once_act throws (callers s ! i) (once_word s) = (w, p, r)"
  defines "t \<equiv> \<lparr>once_word = w, callers = (callers s)[i := p], runs = runs s + r\<rparr>"
  shows "fresh t \<or> taken i t"
proof (cases "callers s ! i = Swap")
  case True
  then have "taken i t" using assms(1-3)
    by (auto simp: t_def fresh_def taken_def all_in_def atomic_defs nth_update)
  then show ?thesis ..
next
  case False
  moreover have "callers s ! i \<in> {Enter, Load, Swap}" using assms(1,2) by (auto simp: fresh_def all_in_def)
  ultimately have "w = once_word s" "r = 0" "p \<in> {Enter, Load, Swap}"
    using assms(1,3) by (auto simp: atomic_defs fresh_def)
  then have "fresh t" using assms(1) all_in_update [of _ "callers s" p i] by (simp add: t_def fresh_def)
  then show ?thesis ..
qed

lemma taken_step:
  assumes "taken k s" "i < length (callers s)" "callers s ! i \<notin> {Returned, Threw}"
    "once_act throws (callers s ! i) (once_word s) = (w, p, r)"
  defines "t \<equiv> \<lparr>once_word = w, callers = (callers s)[i := p], runs = runs s + r\<rparr>"
  shows "taken k t \<or> published t"
proof (cases "i = k")
  case True
  have others: "callers s ! j \<in> {Enter, Load, Swap, Spin}" if "j < length (callers s)" "j \<noteq> k" for j
    using assms(1) that unfolding taken_def by meson
  consider "callers s ! k = Run" "runs s = 0" | "callers s ! k = Publish" "runs s = 1"
    using assms(1,3) True by (auto simp: taken_def)
  then show ?thesis
  proof cases
    case 1
    then have "w = once_word s" "r = 1" "p \<in> {Publish, Threw}" using assms(4) True by auto
    then show ?thesis using assms(1,2) 1 others by (simp add: t_def taken_def nth_update True)
  next
    case 2
    then have "w = ONCE_STATE_DONE" "r = 0" "p = Returned" using assms(4) True by (auto simp: atomic_defs)
    then have "published t" using 2 others by (auto simp: t_def published_def all_in_def nth_update True)
    then show ?thesis ..
  qed
next
  case False
  then have "callers s ! i \<in> {Enter, Load, Swap, Spin}" using assms(1,2) by (simp add: taken_def)
  then have "w = once_word s" "r = 0" "p \<in> {Enter, Load, Swap, Spin}"
    using assms(1,4) by (auto simp: atomic_defs taken_def)
  then show ?thesis using assms(1) False by (simp add: t_def taken_def nth_update)
qed

lemma published_step:
  assumes "published s" "i < length (callers s)" "callers s ! i \<notin> {Returned, Threw}"
    "once_act throws (callers s ! i) (once_word s) = (w, p, r)"
  shows "published \<lparr>once_word = w, callers = (callers s)[i := p], runs = runs s + r\<rparr>"
proof -
  have "callers s ! i \<in> {Enter, Load, Swap, Spin, Returned}" using assms(1,2) by (simp add: published_def all_in_def)
  then have "w = once_word s" "r = 0" "p \<in> {Enter, Load, Swap, Spin, Returned}"
    using assms(1,3,4) by (auto simp: atomic_defs published_def)
  then show ?thesis using assms(1) all_in_update [of _ "callers s" p i] by (simp add: published_def)
qed

lemma once_step_inv: "once_inv s \<Longrightarrow> once_step s t \<Longrightarrow> once_inv t"
proof -
  assume inv: "once_inv s" and "once_step s t"
  then obtain i throws w p r where i: "i < length (callers s)" "callers s ! i \<notin> {Returned, Threw}"
    "once_act throws (callers s ! i) (once_word s) = (w, p, r)"
    and t: "t = \<lparr>once_word = w, callers = (callers s)[i := p], runs = runs s + r\<rparr>"
    by (auto elim: once_stepE)
  from inv show "once_inv t"
    unfolding once_inv_def t using fresh_step [OF _ i(1,3)] taken_step [OF _ i] published_step [OF _ i] by blast
qed

lemma once_start_inv: "once_start s \<Longrightarrow> once_inv s"
  by (auto simp: once_start_def once_inv_def fresh_def all_in_def ONCE_INIT_def subset_iff in_set_conv_nth)

interpretation once: machine once_start once_step once_inv
  by unfold_locales (auto intro: once_start_inv once_step_inv)

text \<open>Everybody has returned; nobody has thrown.\<close>

definition all_returned :: "once \<Rightarrow> bool" where
  "all_returned s \<longleftrightarrow> set (callers s) \<subseteq> {Returned}"

definition nobody_threw :: "once \<Rightarrow> bool" where
  "nobody_threw s \<longleftrightarrow> Threw \<notin> set (callers s)"

definition once_distance :: "once \<Rightarrow> nat" where
  "once_distance s = sum_list (map once_weight (callers s))"

lemma once_advance:
  assumes "i < length (callers s)" "callers s ! i \<notin> {Returned, Threw}"
    "callers s ! i = Spin \<longrightarrow> once_word s \<noteq> ONCE_STATE_EXECUTING_CLOSURE"
    "nobody_threw s"
  shows "\<exists>t. once_step s t \<and> nobody_threw t \<and> once_distance t < once_distance s"
proof -
  obtain w p r where act: "once_act False (callers s ! i) (once_word s) = (w, p, r)"
    by (metis prod_cases3)
  let ?t = "\<lparr>once_word = w, callers = (callers s)[i := p], runs = runs s + r\<rparr>"
  have p: "p \<noteq> Threw" "once_weight p < once_weight (callers s ! i)"
    using act assms(2,3)
    by (cases "callers s ! i"; simp add: once_weight_def atomic_defs split: if_splits prod.splits; fail)+
  have "once_step s ?t" by (rule once_step.intros [OF assms(1,2) act])
  moreover have "nobody_threw ?t" using assms(4) p(1) set_update_subset_insert [of "callers s" i p]
    by (auto simp: nobody_threw_def)
  moreover have "once_distance ?t < once_distance s"
    using sum_list_update_less [OF assms(1)] p(2) by (simp add: once_distance_def)
  ultimately show ?thesis by blast
qed

interpretation once: live_machine once_start once_step once_inv all_returned nobody_threw once_distance
proof
  fix s assume s: "once_inv s" "nobody_threw s" "\<not> all_returned s"
  then obtain i where i: "i < length (callers s)" "callers s ! i \<noteq> Returned" "callers s ! i \<noteq> Threw"
    unfolding all_returned_def nobody_threw_def by (metis in_set_conv_nth singletonI subsetI)
  show "\<exists>t. once_step s t \<and> nobody_threw t \<and> once_distance t < once_distance s"
  proof (cases "\<exists>k. taken k s")
    case True
    then obtain k where k: "k < length (callers s)" "callers s ! k \<in> {Run, Publish, Threw}"
      by (auto simp: taken_def)
    then have "callers s ! k \<noteq> Threw" using s(2) nth_mem [of k "callers s"] by (metis nobody_threw_def)
    then show ?thesis using once_advance [OF k(1)] k(2) s(2) by auto
  next
    case False
    then have "once_word s \<noteq> ONCE_STATE_EXECUTING_CLOSURE"
      using s(1) by (auto simp: once_inv_def fresh_def published_def)
    then show ?thesis using once_advance [OF i(1)] i s(2) by blast
  qed
qed

lemma once_inv_facts:
  assumes "once_inv s"
  shows "runs s \<le> 1" "Returned \<in> set (callers s) \<Longrightarrow> runs s = 1 \<and> once_word s = ONCE_STATE_DONE"
    "Threw \<in> set (callers s) \<Longrightarrow> Returned \<notin> set (callers s)"
  using assms by (auto simp: once_inv_def fresh_def taken_def published_def all_in_def in_set_conv_nth)

lemma threw_stays: "rtranclp once_step s t \<Longrightarrow> Threw \<in> set (callers s) \<Longrightarrow> Threw \<in> set (callers t)"
proof (induction rule: rtranclp_induct)
  case (step t u)
  from step.hyps(2) step.IH [OF step.prems] show ?case
  proof (cases rule: once_step.cases)
    case (1 i throws w p r)
    obtain j where j: "j < length (callers t)" "callers t ! j = Threw"
      using step.IH [OF step.prems] by (auto simp: in_set_conv_nth)
    then have "j \<noteq> i" using 1 by auto
    then have "callers u ! j = Threw" "j < length (callers u)" using 1 j by (simp_all add: nth_update)
    then show ?thesis using nth_mem by metis
  qed
qed simp

text \<open>
  C3: whatever the number of threads that call \<open>OnceInit\<close> and however they interleave, the closure is
  started at most once, and a caller returns only after it has run to its end.  If it does not throw,
  every caller can still return from every state reached; if it throws, no caller ever returns.
\<close>

theorem once_runs_once:
  assumes "once_start s" "rtranclp once_step s t"
  shows "runs t \<le> 1 \<and> (Returned \<in> set (callers t) \<longrightarrow> runs t = 1 \<and> once_word t = ONCE_STATE_DONE) \<and>
    (nobody_threw t \<longrightarrow> (\<exists>u. rtranclp once_step t u \<and> all_returned u)) \<and>
    (\<not> nobody_threw t \<longrightarrow> (\<forall>u. rtranclp once_step t u \<longrightarrow> Returned \<notin> set (callers u)))"
proof -
  note inv = once.reachable_inv [OF assms]
  moreover have "Returned \<notin> set (callers u)" if "\<not> nobody_threw t" "rtranclp once_step t u" for u
    using that threw_stays once.run_inv [OF _ inv] once_inv_facts(3) by (auto simp: nobody_threw_def)
  ultimately show ?thesis using once_inv_facts [OF inv] once.goal_reachable [OF assms] by blast
qed

theorem once_runs_once_witness:
  "\<exists>s t. once_start s \<and> rtranclp once_step s t \<and> length (callers t) = 2 \<and> runs t \<le> 1 \<and>
     (\<exists>u. rtranclp once_step t u \<and> all_returned u)"
proof -
  let ?s = "\<lparr>once_word = ONCE_INIT, callers = [Enter, Enter], runs = 0\<rparr>"
  let ?t = "\<lparr>once_word = ONCE_INIT, callers = [Load, Enter], runs = 0\<rparr>"
  have "once_step ?s ?t"
    using once_step.intros [of 0 ?s False ONCE_INIT Load 0] by (simp add: atomic_defs ONCE_INIT_def)
  then have "once_start ?s" "rtranclp once_step ?s ?t" by (auto simp: once_start_def)
  then show ?thesis using once_runs_once [of ?s ?t] by (force simp: nobody_threw_def)
qed

section \<open>Singletons\<close>

text \<open>
  \<open>Singleton\<close>: its word and its instance, here the address that \<open>new\<close> gave.  \<open>ShutDown\<close> clears the
  instance and leaves the word.
\<close>

record singleton =
  single_once :: "64 word"
  single_instance :: "nat option"

definition OnceInit :: "64 word \<Rightarrow> bool \<times> 64 word" where
  "OnceInit w =
     (if Acquire_Load w \<noteq> ONCE_STATE_DONE
      then let (state, w') = Acquire_CompareAndSwap w ONCE_STATE_UNINITIALIZED ONCE_STATE_EXECUTING_CLOSURE
           in if state = ONCE_STATE_UNINITIALIZED then (True, Release_Store w' ONCE_STATE_DONE) else (False, w')
      else (False, w))"

text \<open>
  \<open>OnceInit\<close> is the summary of one caller with nobody beside it: whether it runs the closure, and the word
  it leaves.  It is what the steps of \<open>once_step\<close> come to, unless the closure is being run: then the caller
  waits in the loop.
\<close>

lemma OnceInit_alone:
  assumes "w \<in> {ONCE_STATE_UNINITIALIZED, ONCE_STATE_DONE}" "OnceInit w = (runs_it, w')"
  shows "rtranclp once_step \<lparr>once_word = w, callers = [Enter], runs = n\<rparr>
    \<lparr>once_word = w', callers = [Returned], runs = n + (if runs_it then 1 else 0)\<rparr>"
proof -
  let ?s = "\<lambda>v p n. \<lparr>once_word = v, callers = [p], runs = n\<rparr>"
  have step: "once_step (?s v p n) (?s v' q (n + r))"
    if "once_act False p v = (v', q, r)" "p \<notin> {Returned, Threw}" for v p n v' q r
    using once_step.intros [of 0 "?s v p n" False v' q r] that by simp
  show ?thesis
  proof (cases "w = ONCE_STATE_DONE")
    case True
    then have "\<not> runs_it" "w' = w" using assms(2) by (simp_all add: OnceInit_def atomic_defs)
    then show ?thesis using step [of Enter w w Returned 0 n] True by (auto simp: atomic_defs)
  next
    case False
    then have w: "w = ONCE_STATE_UNINITIALIZED" using assms(1) by simp
    then have r: "runs_it" "w' = ONCE_STATE_DONE" using assms(2) by (simp_all add: OnceInit_def atomic_defs)
    let ?e = ONCE_STATE_EXECUTING_CLOSURE
    have "once_step (?s w Enter n) (?s w Load n)" "once_step (?s w Load n) (?s w Swap n)"
      "once_step (?s w Swap n) (?s ?e Run n)" "once_step (?s ?e Run n) (?s ?e Publish (n + 1))"
      "once_step (?s ?e Publish (n + 1)) (?s w' Returned (n + 1))"
      using step [of Enter w w Load 0 n] step [of Load w w Swap 0 n] step [of Swap w ?e Run 0 n]
        step [of Run ?e ?e Publish 1 n] step [of Publish ?e w' Returned 0 "n + 1"] w r
      by (simp_all add: atomic_defs)
    then show ?thesis using r(1) by (auto intro: converse_rtranclp_into_rtranclp)
  qed
qed

definition GetInstance :: "nat \<Rightarrow> singleton \<Rightarrow> nat option \<times> singleton" where
  "GetInstance new_address s =
     (let (ran, w) = OnceInit (single_once s);
          s' = s\<lparr>single_once := w, single_instance := (if ran then Some new_address else single_instance s)\<rparr>
      in (single_instance s', s'))"

definition ShutDown :: "singleton \<Rightarrow> singleton" where
  "ShutDown s = s\<lparr>single_instance := None\<rparr>"

lemma singleton_after_shutdown:
  assumes "single_once s = ONCE_INIT"
  shows "fst (GetInstance a s) = Some a \<and> fst (GetInstance b (snd (GetInstance a s))) = Some a \<and>
    fst (GetInstance b (ShutDown (snd (GetInstance a s)))) = None"
  using assms by (simp add: GetInstance_def OnceInit_def ShutDown_def atomic_defs ONCE_INIT_def)

end
