(* ===== verification/Refs.thy ===== *)
theory Refs
  imports Once Timing
begin

text \<open>
  \<open>base/ref_counted.h\<close>, \<open>base/ref_counted.cc\<close> and \<open>base/atomic_ref_count.h\<close>: intrusive reference
  counts and the pointers that keep them.  The heap gives each live object its count; an object whose
  count reaches zero is deleted, and touching it afterwards is a fault.  The thread-safe counts are
  here as operations on one word; theory \<open>SharedRefs\<close> has the threads that share them.
\<close>

section \<open>Counts\<close>

definition RefCounted_AddRef :: "int \<Rightarrow> int res" where
  "RefCounted_AddRef ref_count = checked32 (ref_count + 1)"

definition RefCounted_Release :: "int \<Rightarrow> (bool \<times> int) res" where
  "RefCounted_Release ref_count = bind_res (checked32 (ref_count - 1)) (\<lambda>n. Inr (n = 0, n))"

definition RefCounted_HasOneRef :: "int \<Rightarrow> bool" where
  "RefCounted_HasOneRef ref_count \<longleftrightarrow> ref_count = 1"

definition AtomicRefCountIncN :: "32 word \<Rightarrow> 32 word \<Rightarrow> 32 word" where
  "AtomicRefCountIncN w increment = snd (NoBarrier_AtomicIncrement w increment)"

definition AtomicRefCountDecN :: "32 word \<Rightarrow> 32 word \<Rightarrow> bool \<times> 32 word" where
  "AtomicRefCountDecN w decrement = (let (n, w') = Barrier_AtomicIncrement w (- decrement) in (n \<noteq> 0, w'))"

definition AtomicRefCountInc :: "32 word \<Rightarrow> 32 word" where
  "AtomicRefCountInc w = AtomicRefCountIncN w 1"

definition AtomicRefCountDec :: "32 word \<Rightarrow> bool \<times> 32 word" where
  "AtomicRefCountDec w = AtomicRefCountDecN w 1"

definition AtomicRefCountIsOne :: "32 word \<Rightarrow> bool" where
  "AtomicRefCountIsOne w \<longleftrightarrow> Acquire_Load w = 1"

definition AtomicRefCountIsZero :: "32 word \<Rightarrow> bool" where
  "AtomicRefCountIsZero w \<longleftrightarrow> Acquire_Load w = 0"

definition ThreadSafe_AddRef :: "32 word \<Rightarrow> 32 word" where
  "ThreadSafe_AddRef ref_count = AtomicRefCountInc ref_count"

definition ThreadSafe_Release :: "32 word \<Rightarrow> bool \<times> 32 word" where
  "ThreadSafe_Release ref_count = (let (left, w) = AtomicRefCountDec ref_count in (\<not> left, w))"

definition ThreadSafe_HasOneRef :: "32 word \<Rightarrow> bool" where
  "ThreadSafe_HasOneRef ref_count \<longleftrightarrow> AtomicRefCountIsOne ref_count"

section \<open>The smart pointer\<close>

type_synonym address = nat
type_synonym counts = "address \<Rightarrow> int option"

definition ref_AddRef :: "address \<Rightarrow> counts \<Rightarrow> counts res" where
  "ref_AddRef p h = (case h p of
     None \<Rightarrow> Inl OutOfBounds
   | Some n \<Rightarrow> bind_res (RefCounted_AddRef n) (\<lambda>n. Inr (h(p \<mapsto> n))))"

definition ref_Release :: "address \<Rightarrow> counts \<Rightarrow> counts res" where
  "ref_Release p h = (case h p of
     None \<Rightarrow> Inl OutOfBounds
   | Some n \<Rightarrow> bind_res (RefCounted_Release n) (\<lambda>(dead, n). Inr (if dead then h(p := None) else h(p \<mapsto> n))))"

definition add_opt :: "address option \<Rightarrow> counts \<Rightarrow> counts res" where
  "add_opt p h = (case p of None \<Rightarrow> Inr h | Some a \<Rightarrow> ref_AddRef a h)"

definition release_opt :: "address option \<Rightarrow> counts \<Rightarrow> counts res" where
  "release_opt p h = (case p of None \<Rightarrow> Inr h | Some a \<Rightarrow> ref_Release a h)"

text \<open>
  The pointers of the program in the order they were constructed, null where the pointer is null or
  has been destroyed.
\<close>

record refs =
  counts :: counts
  ptrs :: "address option list"

definition ptr_from_raw :: "address option \<Rightarrow> refs \<Rightarrow> refs res" where
  "ptr_from_raw p s = bind_res (add_opt p (counts s)) (\<lambda>h. Inr \<lparr>counts = h, ptrs = ptrs s @ [p]\<rparr>)"

definition ptr_copy :: "nat \<Rightarrow> refs \<Rightarrow> refs res" where
  "ptr_copy r s = bind_res (array_get (ptrs s) r) (\<lambda>p. ptr_from_raw p s)"

definition ptr_move :: "nat \<Rightarrow> refs \<Rightarrow> refs res" where
  "ptr_move r s = bind_res (array_get (ptrs s) r) (\<lambda>p. Inr (s\<lparr>ptrs := (ptrs s)[r := None] @ [p]\<rparr>))"

definition ptr_destroy :: "nat \<Rightarrow> refs \<Rightarrow> refs res" where
  "ptr_destroy i s = bind_res (array_get (ptrs s) i) (\<lambda>p.
     bind_res (release_opt p (counts s)) (\<lambda>h. Inr \<lparr>counts = h, ptrs = (ptrs s)[i := None]\<rparr>))"

definition ptr_assign :: "nat \<Rightarrow> address option \<Rightarrow> refs \<Rightarrow> refs res" where
  "ptr_assign i p s = bind_res (array_get (ptrs s) i) (\<lambda>old_ptr.
     bind_res (add_opt p (counts s)) (\<lambda>h.
     bind_res (release_opt old_ptr h) (\<lambda>h. Inr \<lparr>counts = h, ptrs = (ptrs s)[i := p]\<rparr>)))"

definition ptr_copy_assign :: "nat \<Rightarrow> nat \<Rightarrow> refs \<Rightarrow> refs res" where
  "ptr_copy_assign i r s = bind_res (array_get (ptrs s) r) (\<lambda>p. ptr_assign i p s)"

definition ptr_swap :: "nat \<Rightarrow> nat \<Rightarrow> refs \<Rightarrow> refs res" where
  "ptr_swap i r s =
     bind_res (array_get (ptrs s) i) (\<lambda>p. bind_res (array_get (ptrs s) r) (\<lambda>q.
       Inr (s\<lparr>ptrs := (ptrs s)[i := q, r := p]\<rparr>)))"

text \<open>Assignment from a temporary moves into a new pointer, swaps with it and destroys it.\<close>

definition ptr_move_assign :: "nat \<Rightarrow> nat \<Rightarrow> refs \<Rightarrow> refs res" where
  "ptr_move_assign i r s =
     bind_res (ptr_move r s) (\<lambda>s. let temp = length (ptrs s) - 1 in
     bind_res (ptr_swap temp i s) (\<lambda>s.
     bind_res (ptr_destroy temp s) (\<lambda>s. Inr (s\<lparr>ptrs := take temp (ptrs s)\<rparr>))))"

text \<open>What a pointer answers.\<close>

definition ptr_default :: "refs \<Rightarrow> refs" where
  "ptr_default s = s\<lparr>ptrs := ptrs s @ [None]\<rparr>"

definition ptr_get :: "nat \<Rightarrow> refs \<Rightarrow> address option res" where
  "ptr_get i s = array_get (ptrs s) i"

definition ptr_deref :: "nat \<Rightarrow> refs \<Rightarrow> address res" where
  "ptr_deref i s = bind_res (ptr_get i s) (\<lambda>p. case p of None \<Rightarrow> Inl CheckFailed | Some a \<Rightarrow> Inr a)"

definition ptr_bool :: "nat \<Rightarrow> refs \<Rightarrow> bool res" where
  "ptr_bool i s = bind_res (ptr_get i s) (\<lambda>p. Inr (p \<noteq> None))"

definition ptr_eq :: "nat \<Rightarrow> nat \<Rightarrow> refs \<Rightarrow> bool res" where
  "ptr_eq i r s = bind_res (ptr_get i s) (\<lambda>p. bind_res (ptr_get r s) (\<lambda>q. Inr (p = q)))"

definition ptr_ne :: "nat \<Rightarrow> nat \<Rightarrow> refs \<Rightarrow> bool res" where
  "ptr_ne i r s = bind_res (ptr_eq i r s) (\<lambda>b. Inr (\<not> b))"

section \<open>Programs over pointers\<close>

text \<open>
  What a program may do.  A raw pointer it hands over is null or points to a live object; anything else
  is the program's error (\<open>InvalidValue\<close>), as is allocating where an object lives.
\<close>

datatype ref_op =
    New address
  | Default
  | FromRaw "address option"
  | Copy nat
  | MoveOut nat
  | Destroy nat
  | Assign nat "address option"
  | CopyAssign nat nat
  | MoveAssign nat nat
  | SwapPtrs nat nat

definition live_raw :: "address option \<Rightarrow> refs \<Rightarrow> bool" where
  "live_raw p s \<longleftrightarrow> (case p of None \<Rightarrow> True | Some a \<Rightarrow> counts s a \<noteq> None)"

definition valid_op :: "ref_op \<Rightarrow> refs \<Rightarrow> bool" where
  "valid_op op s = (case op of
     New a \<Rightarrow> counts s a = None
   | Default \<Rightarrow> True
   | FromRaw p \<Rightarrow> live_raw p s
   | Copy r \<Rightarrow> r < length (ptrs s)
   | MoveOut r \<Rightarrow> r < length (ptrs s)
   | Destroy i \<Rightarrow> i < length (ptrs s)
   | Assign i p \<Rightarrow> i < length (ptrs s) \<and> live_raw p s
   | CopyAssign i r \<Rightarrow> i < length (ptrs s) \<and> r < length (ptrs s)
   | MoveAssign i r \<Rightarrow> i < length (ptrs s) \<and> r < length (ptrs s)
   | SwapPtrs i r \<Rightarrow> i < length (ptrs s) \<and> r < length (ptrs s))"

fun ref_do :: "ref_op \<Rightarrow> refs \<Rightarrow> refs res" where
  "ref_do (New a) s = Inr (s\<lparr>counts := (counts s)(a \<mapsto> 0)\<rparr>)"
| "ref_do Default s = Inr (ptr_default s)"
| "ref_do (FromRaw p) s = ptr_from_raw p s"
| "ref_do (Copy r) s = ptr_copy r s"
| "ref_do (MoveOut r) s = ptr_move r s"
| "ref_do (Destroy i) s = ptr_destroy i s"
| "ref_do (Assign i p) s = ptr_assign i p s"
| "ref_do (CopyAssign i r) s = ptr_copy_assign i r s"
| "ref_do (MoveAssign i r) s = ptr_move_assign i r s"
| "ref_do (SwapPtrs i r) s = ptr_swap i r s"

fun ref_run :: "ref_op list \<Rightarrow> refs \<Rightarrow> refs res" where
  "ref_run [] s = Inr s"
| "ref_run (op # ops) s =
     (if valid_op op s then bind_res (ref_do op s) (ref_run ops) else Inl InvalidValue)"

text \<open>Each live object's count is the number of pointers to it; nothing points to a dead one.\<close>

definition owners :: "address \<Rightarrow> address option list \<Rightarrow> nat" where
  "owners a ps = tally (\<lambda>p. p = Some a) ps"

definition counted_by :: "counts \<Rightarrow> (address \<Rightarrow> nat) \<Rightarrow> bool" where
  "counted_by h f \<longleftrightarrow> (\<forall>a. case h a of None \<Rightarrow> f a = 0 | Some n \<Rightarrow> n = int (f a) \<and> n < 2 ^ 31)"

definition refs_inv :: "refs \<Rightarrow> bool" where
  "refs_inv s \<longleftrightarrow> counted_by (counts s) (\<lambda>a. owners a (ptrs s))"

text \<open>An operation's result: the invariant again, or the overflow of a count of \<open>int\<close>.\<close>

definition refs_ok :: "refs res \<Rightarrow> bool" where
  "refs_ok r \<longleftrightarrow> (case r of Inl t \<Rightarrow> t = SignedOverflow | Inr s \<Rightarrow> refs_inv s)"

lemma refs_ok_simps [simp]: "refs_ok (Inl t) \<longleftrightarrow> t = SignedOverflow" "refs_ok (Inr s) \<longleftrightarrow> refs_inv s"
  by (simp_all add: refs_ok_def)

lemma counted_live: "counted_by h f \<Longrightarrow> 0 < f a \<Longrightarrow> \<exists>n. h a = Some n \<and> n = int (f a) \<and> n < 2 ^ 31"
  by (auto simp: counted_by_def split: option.splits)

lemma counted_upd:
  "counted_by h f \<Longrightarrow> n = int (g a) \<Longrightarrow> n < 2 ^ 31 \<Longrightarrow> (\<And>b. b \<noteq> a \<Longrightarrow> g b = f b) \<Longrightarrow> counted_by (h(a \<mapsto> n)) g"
proof -
  assume h: "counted_by h f" "n = int (g a)" "n < 2 ^ 31" "\<And>b. b \<noteq> a \<Longrightarrow> g b = f b"
  have "case (h(a \<mapsto> n)) b of None \<Rightarrow> g b = 0 | Some n \<Rightarrow> n = int (g b) \<and> n < 2 ^ 31" for b
    using h spec [OF h(1) [unfolded counted_by_def], of b] by (cases "b = a") (simp_all split: option.splits)
  then show ?thesis unfolding counted_by_def by blast
qed

lemma counted_gone:
  "counted_by h f \<Longrightarrow> g a = 0 \<Longrightarrow> (\<And>b. b \<noteq> a \<Longrightarrow> g b = f b) \<Longrightarrow> counted_by (h(a := None)) g"
proof -
  assume h: "counted_by h f" "g a = 0" "\<And>b. b \<noteq> a \<Longrightarrow> g b = f b"
  have "case (h(a := None)) b of None \<Rightarrow> g b = 0 | Some n \<Rightarrow> n = int (g b) \<and> n < 2 ^ 31" for b
    using h spec [OF h(1) [unfolded counted_by_def], of b] by (cases "b = a") (simp_all split: option.splits)
  then show ?thesis unfolding counted_by_def by blast
qed

lemma add_opt_cases:
  assumes "counted_by h f" "\<And>a. p = Some a \<Longrightarrow> h a \<noteq> None"
  shows "add_opt p h = Inl SignedOverflow \<or>
    (\<exists>h'. add_opt p h = Inr h' \<and> counted_by h' (\<lambda>a. f a + of_bool (p = Some a)))"
proof (cases p)
  case None
  then show ?thesis using assms(1) by (simp add: add_opt_def)
next
  case (Some a)
  then obtain n where n: "h a = Some n" "n = int (f a)" using assms by (fastforce simp: counted_by_def split: option.splits)
  show ?thesis
  proof (cases "n + 1 < 2 ^ 31")
    case True
    then have "checked32 (n + 1) = Inr (n + 1)" using n(2) by (simp add: in32)
    moreover have "counted_by (h(a \<mapsto> n + 1)) (\<lambda>b. f b + of_bool (p = Some b))"
      by (rule counted_upd [OF assms(1)]) (use n True Some in auto)
    ultimately show ?thesis using n Some by (simp add: add_opt_def ref_AddRef_def RefCounted_AddRef_def)
  next
    case False
    then have "checked32 (n + 1) = Inl SignedOverflow" by (simp add: checked_def in_range_def int32_max_def)
    then show ?thesis using n Some by (simp add: add_opt_def ref_AddRef_def RefCounted_AddRef_def)
  qed
qed

lemma release_opt_ok:
  assumes "counted_by h f" "\<And>a. p = Some a \<Longrightarrow> 0 < f a"
  shows "\<exists>h'. release_opt p h = Inr h' \<and> counted_by h' (\<lambda>a. f a - of_bool (p = Some a))"
proof (cases p)
  case None
  then show ?thesis using assms(1) by (simp add: release_opt_def)
next
  case (Some a)
  then obtain n where n: "h a = Some n" "n = int (f a)" "n < 2 ^ 31" "0 < f a" using assms counted_live by blast
  then have "checked32 (n - 1) = Inr (n - 1)" by (simp add: in32)
  moreover have "counted_by (h(a := None)) (\<lambda>b. f b - of_bool (p = Some b))" if "n - 1 = 0"
    by (rule counted_gone [OF assms(1)]) (use n Some that in auto)
  moreover have "counted_by (h(a \<mapsto> n - 1)) (\<lambda>b. f b - of_bool (p = Some b))"
    by (rule counted_upd [OF assms(1)]) (use n Some in auto)
  ultimately show ?thesis using n Some
    by (simp add: release_opt_def ref_Release_def RefCounted_Release_def)
qed

lemma owners_update:
  "i < length ps \<Longrightarrow> owners a (ps[i := p]) + of_bool (ps ! i = Some a) = owners a ps + of_bool (p = Some a)"
  unfolding owners_def by (rule tally_update)

lemma owners_snoc [simp]: "owners a (ps @ [p]) = owners a ps + of_bool (p = Some a)"
  by (simp add: owners_def tally_def)

lemma owners_nth: "i < length ps \<Longrightarrow> ps ! i = Some a \<Longrightarrow> 0 < owners a ps"
  using nth_mem [of i ps] unfolding owners_def tally_pos by force

lemma counted_ptr: "refs_inv s \<Longrightarrow> i < length (ptrs s) \<Longrightarrow> ptrs s ! i = Some a \<Longrightarrow> counts s a \<noteq> None"
  using owners_nth [of i "ptrs s" a] counted_live [of "counts s" "\<lambda>a. owners a (ptrs s)" a] by (auto simp: refs_inv_def)

lemma from_raw_ok:
  assumes "refs_inv s" "\<And>a. p = Some a \<Longrightarrow> counts s a \<noteq> None"
  shows "refs_ok (ptr_from_raw p s)"
  using add_opt_cases [OF assms(1) [unfolded refs_inv_def], of p] assms(2) by (auto simp: ptr_from_raw_def refs_inv_def)

lemma live_raw_Some: "live_raw p s \<Longrightarrow> p = Some a \<Longrightarrow> counts s a \<noteq> None"
  by (simp add: live_raw_def)

lemma assign_ok:
  assumes "refs_inv s" "i < length (ptrs s)" "\<And>a. p = Some a \<Longrightarrow> counts s a \<noteq> None"
  shows "refs_ok (ptr_assign i p s)"
proof -
  consider "add_opt p (counts s) = Inl SignedOverflow"
    | h where "add_opt p (counts s) = Inr h" "counted_by h (\<lambda>a. owners a (ptrs s) + of_bool (p = Some a))"
    using add_opt_cases [OF assms(1) [unfolded refs_inv_def] assms(3)] by blast
  then show ?thesis
  proof cases
    case (2 h)
    have "0 < owners a (ptrs s) + of_bool (p = Some a)" if "ptrs s ! i = Some a" for a
      using owners_nth [OF assms(2) that] by simp
    from release_opt_ok [OF 2(2), of "ptrs s ! i", OF this]
    obtain h' where h': "release_opt (ptrs s ! i) h = Inr h'"
      "counted_by h' (\<lambda>a. owners a (ptrs s) + of_bool (p = Some a) - of_bool (ptrs s ! i = Some a))"
      by blast
    have "owners a ((ptrs s)[i := p]) = owners a (ptrs s) + of_bool (p = Some a) - of_bool (ptrs s ! i = Some a)" for a
      using owners_update [OF assms(2), of a p] by linarith
    then show ?thesis using 2 h' assms(2) by (simp add: ptr_assign_def refs_inv_def)
  qed (use assms(2) in \<open>simp add: ptr_assign_def\<close>)
qed

lemma destroy_ok:
  assumes "refs_inv s" "i < length (ptrs s)"
  shows "\<exists>s'. ptr_destroy i s = Inr s' \<and> refs_inv s' \<and> ptrs s' = (ptrs s)[i := None]"
proof -
  obtain h where h: "release_opt (ptrs s ! i) (counts s) = Inr h"
    "counted_by h (\<lambda>a. owners a (ptrs s) - of_bool (ptrs s ! i = Some a))"
    using release_opt_ok [OF assms(1) [unfolded refs_inv_def]] owners_nth [OF assms(2)] by blast
  have "owners a ((ptrs s)[i := None]) = owners a (ptrs s) - of_bool (ptrs s ! i = Some a)" for a
    using owners_update [OF assms(2), of a None] by simp
  then show ?thesis using h assms(2) by (simp add: ptr_destroy_def refs_inv_def)
qed

lemma owners_same: "(\<And>a. owners a ps = owners a (ptrs s)) \<Longrightarrow> refs_inv s \<Longrightarrow> refs_inv (s\<lparr>ptrs := ps\<rparr>)"
  by (simp add: refs_inv_def)

lemma move_ok:
  assumes "refs_inv s" "r < length (ptrs s)"
  shows "\<exists>s'. ptr_move r s = Inr s' \<and> refs_inv s' \<and> ptrs s' = (ptrs s)[r := None] @ [ptrs s ! r]"
proof -
  have "owners a ((ptrs s)[r := None] @ [ptrs s ! r]) = owners a (ptrs s)" for a
    using owners_update [OF assms(2), of a None] by simp
  then show ?thesis using assms owners_same by (simp add: ptr_move_def)
qed

lemma swap_ok:
  assumes "refs_inv s" "i < length (ptrs s)" "r < length (ptrs s)"
  shows "\<exists>s'. ptr_swap i r s = Inr s' \<and> refs_inv s' \<and> ptrs s' = (ptrs s)[i := ptrs s ! r, r := ptrs s ! i]"
proof -
  have "owners a ((ptrs s)[i := ptrs s ! r, r := ptrs s ! i]) = owners a (ptrs s)" for a
    using owners_update [OF assms(2), of a "ptrs s ! r"] assms(3)
      owners_update [of r "(ptrs s)[i := ptrs s ! r]" a "ptrs s ! i"]
    by (auto simp: nth_update split: if_splits)
  then show ?thesis using assms owners_same by (simp add: ptr_swap_def)
qed

lemma move_assign_ok:
  assumes "refs_inv s" "i < length (ptrs s)" "r < length (ptrs s)"
  shows "refs_ok (ptr_move_assign i r s)"
proof -
  let ?n = "length (ptrs s)"
  obtain s1 where s1: "ptr_move r s = Inr s1" "refs_inv s1" "ptrs s1 = (ptrs s)[r := None] @ [ptrs s ! r]"
    using move_ok [OF assms(1,3)] by blast
  then have n: "length (ptrs s1) = Suc ?n" by simp
  obtain s2 where s2: "ptr_swap ?n i s1 = Inr s2" "refs_inv s2"
    "ptrs s2 = (ptrs s1)[?n := ptrs s1 ! i, i := ptrs s1 ! ?n]"
    using swap_ok [OF s1(2), of ?n i] n assms(2) by auto
  obtain s3 where s3: "ptr_destroy ?n s2 = Inr s3" "refs_inv s3" "ptrs s3 = (ptrs s2)[?n := None]"
    using destroy_ok [OF s2(2), of ?n] s2(3) n by auto
  have "length (ptrs s3) = Suc ?n" "ptrs s3 ! ?n = None" using s3(3) s2(3) n by simp_all
  then have "ptrs s3 = take ?n (ptrs s3) @ [None]" by (metis lessI order_refl take_Suc_conv_app_nth take_all)
  then have "owners a (ptrs s3) = owners a (take ?n (ptrs s3) @ [None])" for a by (rule arg_cong)
  then have "owners a (take ?n (ptrs s3)) = owners a (ptrs s3)" for a by simp
  then have "refs_inv (s3\<lparr>ptrs := take ?n (ptrs s3)\<rparr>)" using s3(2) owners_same by blast
  then show ?thesis using s1(1) s2(1) s3(1) n by (simp add: ptr_move_assign_def Let_def)
qed

lemma ref_do_ok: "refs_inv s \<Longrightarrow> valid_op op s \<Longrightarrow> refs_ok (ref_do op s)"
proof -
  assume inv: "refs_inv s" and v: "valid_op op s"
  show "refs_ok (ref_do op s)"
  proof (cases op)
    case (New a)
    then have "counts s a = None" using v by (simp add: valid_op_def)
    moreover from this have "owners a (ptrs s) = 0" using inv by (auto simp: refs_inv_def counted_by_def dest: spec [of _ a])
    ultimately have "counted_by ((counts s)(a \<mapsto> 0)) (\<lambda>a. owners a (ptrs s))"
      using inv by (intro counted_upd) (auto simp: refs_inv_def)
    then show ?thesis using New by (simp add: refs_inv_def)
  next
    case Default
    then show ?thesis using inv by (simp add: ptr_default_def refs_inv_def)
  next
    case (FromRaw p)
    then have "live_raw p s" using v by (simp add: valid_op_def)
    from from_raw_ok [OF inv live_raw_Some [OF this]] show ?thesis using FromRaw by simp
  next
    case (Copy r)
    then show ?thesis using v from_raw_ok [OF inv] counted_ptr [OF inv] by (auto simp: valid_op_def ptr_copy_def)
  next
    case (MoveOut r)
    then show ?thesis using v move_ok [OF inv, of r] by (auto simp: valid_op_def)
  next
    case (Destroy i)
    then show ?thesis using v destroy_ok [OF inv, of i] by (auto simp: valid_op_def)
  next
    case (Assign i p)
    then have "live_raw p s" "i < length (ptrs s)" using v by (simp_all add: valid_op_def)
    from assign_ok [OF inv this(2) live_raw_Some [OF this(1)]] show ?thesis using Assign by simp
  next
    case (CopyAssign i r)
    then show ?thesis using v assign_ok [OF inv] counted_ptr [OF inv] by (auto simp: valid_op_def ptr_copy_assign_def)
  next
    case (MoveAssign i r)
    then show ?thesis using v move_assign_ok [OF inv] by (auto simp: valid_op_def)
  next
    case (SwapPtrs i r)
    then show ?thesis using v swap_ok [OF inv, of i r] by (auto simp: valid_op_def)
  qed
qed

definition no_refs :: refs where
  "no_refs = \<lparr>counts = (\<lambda>_. None), ptrs = []\<rparr>"

definition refs_start :: "refs \<Rightarrow> bool" where
  "refs_start s \<longleftrightarrow> s = no_refs"

inductive ref_step :: "refs \<Rightarrow> refs \<Rightarrow> bool" where
  "valid_op op s \<Longrightarrow> ref_do op s = Inr t \<Longrightarrow> ref_step s t"

inductive_cases ref_stepE: "ref_step s t"

lemma ref_step_inv: "refs_inv s \<Longrightarrow> ref_step s t \<Longrightarrow> refs_inv t"
  by (erule ref_stepE) (use ref_do_ok in fastforce)

lemma no_refs_inv: "refs_start s \<Longrightarrow> refs_inv s"
  by (simp add: refs_start_def no_refs_def refs_inv_def counted_by_def owners_def tally_def)

interpretation refs: machine refs_start ref_step refs_inv
  by unfold_locales (auto intro: no_refs_inv ref_step_inv)

lemma ref_run_steps:
  "refs_inv s \<Longrightarrow> case ref_run ops s of Inl t \<Rightarrow> t \<in> {SignedOverflow, InvalidValue} | Inr s' \<Rightarrow> rtranclp ref_step s s'"
proof (induction ops arbitrary: s)
  case (Cons op ops)
  show ?case
  proof (cases "valid_op op s")
    case True
    note ok = ref_do_ok [OF Cons.prems True]
    show ?thesis
    proof (cases "ref_do op s")
      case (Inr s')
      then have "ref_step s s'" "refs_inv s'" using True ok by (auto intro: ref_step.intros)
      then show ?thesis using Cons.IH [of s'] True Inr
        by (auto split: sum.splits intro: converse_rtranclp_into_rtranclp)
    qed (use True ok in simp)
  qed simp
qed simp

text \<open>Dereferencing checks for null, and what it yields is a live object.\<close>

lemma deref_live: "refs_inv s \<Longrightarrow> ptr_deref i s = Inr a \<Longrightarrow> counts s a \<noteq> None"
  using counted_ptr [of s i a] by (auto simp: ptr_deref_def ptr_get_def array_get_def split: if_splits option.splits)

section \<open>The last pointer frees the object\<close>

text \<open>
  A step that deletes an object is one after which it has no pointer and before which it had one.  An object
  that was allocated and not yet handed to a pointer (count zero, no owner) is not touched.
\<close>

definition frees_last :: "refs \<Rightarrow> refs \<Rightarrow> bool" where
  "frees_last s t \<longleftrightarrow> (\<forall>a. counts s a \<noteq> None \<longrightarrow>
     (counts t a = None \<longleftrightarrow> 0 < owners a (ptrs s) \<and> owners a (ptrs t) = 0))"

lemma add_opt_at:
  "add_opt p h = Inr h' \<Longrightarrow> h a = Some n \<Longrightarrow> h' a = Some (n + of_bool (p = Some a))"
  by (auto simp: add_opt_def ref_AddRef_def RefCounted_AddRef_def bind_res_eq_Inr checked_eq_Inr split: option.splits)

lemma release_opt_gone:
  "release_opt p h = Inr h' \<Longrightarrow> h a = Some n \<Longrightarrow> h' a = None \<longleftrightarrow> p = Some a \<and> n = 1"
  by (auto simp: release_opt_def ref_Release_def RefCounted_Release_def bind_res_eq_Inr checked_eq_Inr
      split: option.splits if_splits)

lemma counted_at: "refs_inv s \<Longrightarrow> counts s a \<noteq> None \<Longrightarrow> counts s a = Some (int (owners a (ptrs s)))"
  by (auto simp: refs_inv_def counted_by_def dest: spec [of _ a])

lemma frees_last_same: "counts t = counts s \<Longrightarrow> (\<And>a. owners a (ptrs t) = owners a (ptrs s)) \<Longrightarrow> frees_last s t"
  by (auto simp: frees_last_def)

lemma frees_last_cong:
  "frees_last s t \<Longrightarrow> counts s' = counts s \<Longrightarrow> (\<And>a. owners a (ptrs s') = owners a (ptrs s)) \<Longrightarrow>
   counts t' = counts t \<Longrightarrow> (\<And>a. owners a (ptrs t') = owners a (ptrs t)) \<Longrightarrow> frees_last s' t'"
  by (simp add: frees_last_def)

lemma from_raw_frees: "refs_inv s \<Longrightarrow> ptr_from_raw p s = Inr t \<Longrightarrow> frees_last s t"
  by (auto simp: ptr_from_raw_def bind_res_eq_Inr frees_last_def dest: add_opt_at)

lemma assign_frees:
  assumes "refs_inv s" "ptr_assign i p s = Inr t"
  shows "frees_last s t"
proof -
  obtain h h' where h: "i < length (ptrs s)" "add_opt p (counts s) = Inr h" "release_opt (ptrs s ! i) h = Inr h'"
    "t = \<lparr>counts = h', ptrs = (ptrs s)[i := p]\<rparr>"
    using assms(2) by (auto simp: ptr_assign_def bind_res_eq_Inr array_get_def split: if_splits)
  have "counts t a = None \<longleftrightarrow> 0 < owners a (ptrs s) \<and> owners a (ptrs t) = 0" if "counts s a \<noteq> None" for a
  proof -
    have "h a = Some (int (owners a (ptrs s)) + of_bool (p = Some a))"
      using add_opt_at [OF h(2)] counted_at [OF assms(1) that] by blast
    from release_opt_gone [OF h(3) this]
    have "counts t a = None \<longleftrightarrow> ptrs s ! i = Some a \<and> owners a (ptrs s) + of_bool (p = Some a) = 1"
      using h(4) by auto
    moreover have "owners a (ptrs t) + of_bool (ptrs s ! i = Some a) = owners a (ptrs s) + of_bool (p = Some a)"
      using owners_update [OF h(1)] h(4) by simp
    ultimately show ?thesis using owners_nth [OF h(1), of a] by (cases "ptrs s ! i = Some a"; cases "p = Some a") auto
  qed
  then show ?thesis by (simp add: frees_last_def)
qed

lemma destroy_frees:
  assumes "refs_inv s" "ptr_destroy i s = Inr t"
  shows "frees_last s t"
proof -
  have "add_opt None (counts s) = Inr (counts s)" by (simp add: add_opt_def)
  then have "ptr_assign i None s = Inr t" using assms(2) by (simp add: ptr_destroy_def ptr_assign_def)
  then show ?thesis by (rule assign_frees [OF assms(1)])
qed

lemma move_counts: "ptr_move r s = Inr t \<Longrightarrow> counts t = counts s \<and> (\<forall>a. owners a (ptrs t) = owners a (ptrs s))"
proof -
  assume "ptr_move r s = Inr t"
  then have r: "r < length (ptrs s)" "t = s\<lparr>ptrs := (ptrs s)[r := None] @ [ptrs s ! r]\<rparr>"
    by (auto simp: ptr_move_def bind_res_eq_Inr array_get_def split: if_splits)
  then show ?thesis using owners_update [OF r(1), of _ None] by simp
qed

lemma swap_counts: "refs_inv s \<Longrightarrow> ptr_swap i r s = Inr t \<Longrightarrow> counts t = counts s \<and> (\<forall>a. owners a (ptrs t) = owners a (ptrs s))"
proof -
  assume inv: "refs_inv s" and "ptr_swap i r s = Inr t"
  then have r: "i < length (ptrs s)" "r < length (ptrs s)" "t = s\<lparr>ptrs := (ptrs s)[i := ptrs s ! r, r := ptrs s ! i]\<rparr>"
    by (auto simp: ptr_swap_def bind_res_eq_Inr array_get_def split: if_splits)
  have "owners a (ptrs t) = owners a (ptrs s)" for a
    using owners_update [OF r(1), of a "ptrs s ! r"] owners_update [of r "(ptrs s)[i := ptrs s ! r]" a "ptrs s ! i"] r
    by (auto simp: nth_update split: if_splits)
  then show ?thesis using r(3) by simp
qed

lemma move_assign_frees:
  assumes "refs_inv s" "i < length (ptrs s)" "r < length (ptrs s)" "ptr_move_assign i r s = Inr t"
  shows "frees_last s t"
proof -
  let ?n = "length (ptrs s)"
  obtain s1 where s1: "ptr_move r s = Inr s1" "refs_inv s1" "ptrs s1 = (ptrs s)[r := None] @ [ptrs s ! r]"
    using move_ok [OF assms(1,3)] by blast
  then have n: "length (ptrs s1) = Suc ?n" by simp
  obtain s2 where s2: "ptr_swap ?n i s1 = Inr s2" "refs_inv s2" "length (ptrs s2) = Suc ?n"
    using swap_ok [OF s1(2), of ?n i] n assms(2) by auto
  obtain s3 where s3: "ptr_destroy ?n s2 = Inr s3" "ptrs s3 = (ptrs s2)[?n := None]"
    using destroy_ok [OF s2(2), of ?n] s2(3) by auto
  have t: "t = s3\<lparr>ptrs := take ?n (ptrs s3)\<rparr>" using assms(4) s1(1) s2(1) s3(1) n by (simp add: ptr_move_assign_def Let_def)
  have "length (ptrs s3) = Suc ?n" "ptrs s3 ! ?n = None" using s3(2) s2(3) by simp_all
  then have "ptrs s3 = take ?n (ptrs s3) @ [None]" by (metis lessI order_refl take_Suc_conv_app_nth take_all)
  then have "owners a (ptrs s3) = owners a (take ?n (ptrs s3) @ [None])" for a by (rule arg_cong)
  then have "owners a (ptrs t) = owners a (ptrs s3)" for a using t by simp
  then show ?thesis
    using frees_last_cong [OF destroy_frees [OF s2(2) s3(1)], of s t] move_counts [OF s1(1)] swap_counts [OF s1(2) s2(1)] t
    by simp
qed

lemma ref_do_frees:
  assumes "refs_inv s" "valid_op op s" "ref_do op s = Inr t"
  shows "frees_last s t"
proof (cases op)
  case (New a)
  then show ?thesis using assms by (auto simp: frees_last_def split: if_splits)
next
  case Default
  then show ?thesis using assms(3) by (auto simp: ptr_default_def intro!: frees_last_same)
next
  case (FromRaw p)
  then show ?thesis using assms(1,3) from_raw_frees by simp
next
  case (Copy r)
  then show ?thesis using assms(1,3) from_raw_frees by (auto simp: ptr_copy_def bind_res_eq_Inr)
next
  case (MoveOut r)
  then show ?thesis using assms(3) move_counts [of r s t] by (auto intro!: frees_last_same)
next
  case (Destroy i)
  then show ?thesis using assms(1,3) destroy_frees by simp
next
  case (Assign i p)
  then show ?thesis using assms(1,3) assign_frees by simp
next
  case (CopyAssign i r)
  then show ?thesis using assms(1,3) assign_frees by (auto simp: ptr_copy_assign_def bind_res_eq_Inr)
next
  case (MoveAssign i r)
  then show ?thesis using assms move_assign_frees [of s i r t] by (simp add: valid_op_def)
next
  case (SwapPtrs i r)
  then show ?thesis using assms(3) swap_counts [OF assms(1), of i r t] by (auto intro!: frees_last_same)
qed

text \<open>
  C6: no sequence of operations on smart pointers, self-assignment and moves included, touches a deleted
  object or goes out of its bounds.  Unless the program hands over a dangling raw pointer or a count
  overflows an \<open>int\<close>, it ends with every live object's count equal to the number of pointers to it and with
  no pointer to a deleted one.  And whatever the program does next, an object is deleted by that operation
  exactly when it had a pointer and the operation took its last one.
\<close>

theorem ref_counts_exact:
  "case ref_run ops no_refs of
     Inl t \<Rightarrow> t \<in> {SignedOverflow, InvalidValue}
   | Inr s \<Rightarrow>
       (\<forall>a. case counts s a of
          None \<Rightarrow> owners a (ptrs s) = 0
        | Some n \<Rightarrow> n = int (owners a (ptrs s))) \<and>
       (\<forall>op t a. valid_op op s \<and> ref_do op s = Inr t \<and> counts s a \<noteq> None \<longrightarrow>
          (counts t a = None \<longleftrightarrow> 0 < owners a (ptrs s) \<and> owners a (ptrs t) = 0))"
proof -
  have s: "refs_start no_refs" by (simp add: refs_start_def)
  have inv: "refs_inv t" if "rtranclp ref_step no_refs t" for t by (rule refs.reachable_inv [OF s that])
  have "case counts t a of None \<Rightarrow> owners a (ptrs t) = 0 | Some n \<Rightarrow> n = int (owners a (ptrs t))"
    if "rtranclp ref_step no_refs t" for t a
    using spec [OF inv [OF that, unfolded refs_inv_def counted_by_def], of a] by (simp split: option.splits)
  moreover have "counts u a = None \<longleftrightarrow> 0 < owners a (ptrs t) \<and> owners a (ptrs u) = 0"
    if "rtranclp ref_step no_refs t" "valid_op op t" "ref_do op t = Inr u" "counts t a \<noteq> None" for t op u a
    using ref_do_frees [OF inv [OF that(1)] that(2,3)] that(4) by (simp add: frees_last_def)
  ultimately show ?thesis using ref_run_steps [OF no_refs_inv [OF s], of ops] by (cases "ref_run ops no_refs") (simp, simp, blast)
qed

theorem ref_counts_exact_witness:
  "\<exists>s t. ref_run [New 7, FromRaw (Some 7)] no_refs = Inr s \<and> counts s 7 = Some 1 \<and>
     ref_do (Destroy 0) s = Inr t \<and> counts t 7 = None"
proof -
  have "\<exists>s t. ref_run [New 7, FromRaw (Some 7)] no_refs = Inr s \<and> counts s 7 \<noteq> None \<and> ptrs s = [Some 7] \<and>
      valid_op (Destroy 0) s \<and> ref_do (Destroy 0) s = Inr t \<and> ptrs t = [None]"
    by (simp add: no_refs_def valid_op_def live_raw_def ptr_from_raw_def add_opt_def ref_AddRef_def RefCounted_AddRef_def
        ptr_destroy_def release_opt_def ref_Release_def RefCounted_Release_def array_get_def in32)
  then obtain s t where r: "ref_run [New 7, FromRaw (Some 7)] no_refs = Inr s" "counts s 7 \<noteq> None" "ptrs s = [Some 7]"
    "valid_op (Destroy 0) s" "ref_do (Destroy 0) s = Inr t" "ptrs t = [None]"
    by blast
  note ok = ref_counts_exact [of "[New 7, FromRaw (Some 7)]", unfolded r(1) sum.case]
  have "owners 7 (ptrs s) = 1" "owners 7 (ptrs t) = 0" using r(3,6) by (simp_all add: owners_def tally_def)
  moreover from this have "counts s 7 = Some 1" using spec [OF conjunct1 [OF ok], of 7] r(2) by (simp split: option.splits)
  moreover have "counts t 7 = None \<longleftrightarrow> 0 < owners 7 (ptrs s) \<and> owners 7 (ptrs t) = 0"
    using conjunct2 [OF ok] r(2,4,5) by blast
  ultimately show ?thesis using r(1,5) by simp
qed

end
