(* ===== verification/SharedRefs.thy ===== *)
theory SharedRefs
  imports Refs
begin

text \<open>
  \<open>RefCountedThreadSafe\<close> of \<open>base/ref_counted.h\<close>: threads share one object, and each holds references to it.
  A decrement of the count and the deletion that follows the last one are two steps of a thread, between
  which the others go on.  What is shown is that the object is deleted once, by nobody too early, and that
  every schedule can still get there.
\<close>

section \<open>Threads that share an object\<close>

text \<open>A thread is the number of references it holds and whether it is about to delete the object.\<close>

record shared_object =
  shared_count :: "32 word"
  deletions :: nat
  holders :: "(nat \<times> bool) list"

datatype ts_op = TsAddRef nat | TsRelease nat | TsDestruct nat | TsGive nat nat

text \<open>Touching the object after its deletion is a fault.\<close>

definition touch :: "shared_object \<Rightarrow> unit res" where
  "touch p = (if deletions p = 0 then Inr () else Inl OutOfBounds)"

definition SharedObject_AddRef :: "shared_object \<Rightarrow> shared_object res" where
  "SharedObject_AddRef p = bind_res (touch p) (\<lambda>_. Inr (p\<lparr>shared_count := ThreadSafe_AddRef (shared_count p)\<rparr>))"

text \<open>\<open>Release\<close> up to its test, and the branch that deletes.\<close>

definition SharedObject_Release :: "shared_object \<Rightarrow> (bool \<times> shared_object) res" where
  "SharedObject_Release p =
     bind_res (touch p) (\<lambda>_. let (dead, n) = ThreadSafe_Release (shared_count p) in Inr (dead, p\<lparr>shared_count := n\<rparr>))"

definition DeleteInternal :: "shared_object \<Rightarrow> shared_object res" where
  "DeleteInternal p = bind_res (touch p) (\<lambda>_. Inr (p\<lparr>deletions := deletions p + 1\<rparr>))"

definition hold :: "nat \<Rightarrow> nat \<times> bool \<Rightarrow> shared_object \<Rightarrow> shared_object" where
  "hold i x p = p\<lparr>holders := (holders p)[i := x]\<rparr>"

fun ts_do :: "ts_op \<Rightarrow> shared_object \<Rightarrow> shared_object res" where
  "ts_do (TsAddRef i) p = bind_res (array_get (holders p) i) (\<lambda>(n, d).
     bind_res (SharedObject_AddRef p) (\<lambda>p. Inr (hold i (n + 1, d) p)))"
| "ts_do (TsRelease i) p = bind_res (array_get (holders p) i) (\<lambda>(n, d).
     bind_res (SharedObject_Release p) (\<lambda>(dead, p). Inr (hold i (n - 1, dead) p)))"
| "ts_do (TsDestruct i) p = bind_res (array_get (holders p) i) (\<lambda>(n, d).
     bind_res (DeleteInternal p) (\<lambda>p. Inr (hold i (n, False) p)))"
| "ts_do (TsGive i j) p = bind_res (array_get (holders p) i) (\<lambda>(n, d). let p = hold i (n - 1, d) p
     in bind_res (array_get (holders p) j) (\<lambda>(m, e). Inr (hold j (m + 1, e) p)))"

text \<open>
  What the code asks of its users: a thread uses the object through a reference it holds, does nothing
  else while it deletes, and there are fewer references than the count can tell.
\<close>

definition owned :: "shared_object \<Rightarrow> nat" where
  "owned p = sum_list (map fst (holders p))"

definition holds_one :: "nat \<Rightarrow> shared_object \<Rightarrow> bool" where
  "holds_one i p \<longleftrightarrow> i < length (holders p) \<and> 0 < fst (holders p ! i) \<and> \<not> snd (holders p ! i)"

fun permitted :: "ts_op \<Rightarrow> shared_object \<Rightarrow> bool" where
  "permitted (TsAddRef i) p \<longleftrightarrow> holds_one i p \<and> owned p + 1 < 2 ^ 32"
| "permitted (TsRelease i) p \<longleftrightarrow> holds_one i p"
| "permitted (TsDestruct i) p \<longleftrightarrow> i < length (holders p) \<and> snd (holders p ! i)"
| "permitted (TsGive i j) p \<longleftrightarrow> holds_one i p \<and> j < length (holders p)"

inductive ts_step :: "shared_object \<Rightarrow> shared_object \<Rightarrow> bool" where
  "permitted a p \<Longrightarrow> ts_do a p = Inr q \<Longrightarrow> ts_step p q"

inductive_cases ts_stepE: "ts_step p q"

text \<open>An object begins with the reference of the pointer that takes it over.\<close>

definition ts_start :: "shared_object \<Rightarrow> bool" where
  "ts_start p \<longleftrightarrow> shared_count p = ThreadSafe_AddRef 0 \<and> deletions p = 0 \<and>
     (\<exists>n. holders p = (1, False) # replicate n (0, False))"

section \<open>The count is exact\<close>

definition deleters :: "shared_object \<Rightarrow> nat" where
  "deleters p = tally snd (holders p)"

definition ts_inv :: "shared_object \<Rightarrow> bool" where
  "ts_inv p \<longleftrightarrow> shared_count p = of_nat (owned p) \<and> owned p < 2 ^ 32 \<and>
     deleters p + deletions p = of_bool (owned p = 0)"

lemma sum_list_update_eq:
  "i < length xs \<Longrightarrow> sum_list (map f (xs[i := y])) + f (xs ! i) = sum_list (map f xs) + (f y :: nat)"
proof (induction xs arbitrary: i)
  case (Cons x xs)
  then show ?case by (cases i) auto
qed simp

lemma hold_simps [simp]:
  "shared_count (hold i x p) = shared_count p" "deletions (hold i x p) = deletions p"
  "holders (hold i x p) = (holders p)[i := x]"
  by (simp_all add: hold_def)

lemma owned_hold: "i < length (holders p) \<Longrightarrow> owned (hold i x p) + fst (holders p ! i) = owned p + fst x"
  by (simp add: owned_def sum_list_update_eq)

lemma deleters_hold:
  "i < length (holders p) \<Longrightarrow> deleters (hold i x p) + of_bool (snd (holders p ! i)) = deleters p + of_bool (snd x)"
  by (simp add: deleters_def tally_update)

lemma owned_le: "i < length (holders p) \<Longrightarrow> fst (holders p ! i) \<le> owned p"
  by (simp add: owned_def member_le_sum_list)

lemma owned_pos: "0 < owned p \<longleftrightarrow> (\<exists>i < length (holders p). 0 < fst (holders p ! i))"
proof
  assume "0 < owned p"
  then have "\<exists>x\<in>set (map fst (holders p)). x \<noteq> 0" unfolding owned_def by (metis sum_list_eq_0_iff less_irrefl)
  then have "\<exists>x\<in>set (holders p). 0 < fst x" by auto
  then show "\<exists>i < length (holders p). 0 < fst (holders p ! i)" by (rule ex_nth_in_set)
next
  assume "\<exists>i < length (holders p). 0 < fst (holders p ! i)"
  then show "0 < owned p" using owned_le [of _ p] by fastforce
qed

lemma deleters_pos: "0 < deleters p \<longleftrightarrow> (\<exists>i < length (holders p). snd (holders p ! i))"
  unfolding deleters_def tally_pos by (metis in_set_conv_nth)

lemma owned_update [simp]:
  "owned (p\<lparr>shared_count := w\<rparr>) = owned p" "owned (p\<lparr>deletions := d\<rparr>) = owned p"
  "deleters (p\<lparr>shared_count := w\<rparr>) = deleters p" "deleters (p\<lparr>deletions := d\<rparr>) = deleters p"
  by (simp_all add: owned_def deleters_def)

lemma Release_word:
  assumes "k < 2 ^ 32"
  shows "ThreadSafe_Release (of_nat (Suc k)) = (k = 0, of_nat k)"
proof -
  have "(of_nat k :: 32 word) = 0 \<longleftrightarrow> k = 0" using assms by (simp add: unat_eq_0 [symmetric] unat_of_nat)
  then show ?thesis
    by (simp add: ThreadSafe_Release_def AtomicRefCountDec_def AtomicRefCountDecN_def Barrier_AtomicIncrement_def)
qed

lemma AddRef_word: "ThreadSafe_AddRef (of_nat k) = of_nat (Suc k)"
  by (simp add: ThreadSafe_AddRef_def AtomicRefCountInc_def AtomicRefCountIncN_def NoBarrier_AtomicIncrement_def)

text \<open>A permitted operation finds the object there, and keeps the count.\<close>

lemma holds_one_alive:
  assumes "ts_inv p" "holds_one i p"
  shows "touch p = Inr ()" "deleters p = 0" "0 < owned p" "i < length (holders p)" "0 < fst (holders p ! i)"
    "\<not> snd (holders p ! i)" "array_get (holders p) i = Inr (holders p ! i)"
proof -
  show i: "i < length (holders p)" "0 < fst (holders p ! i)" "\<not> snd (holders p ! i)"
    using assms(2) by (simp_all add: holds_one_def)
  then show "0 < owned p" using owned_pos by blast
  then show "touch p = Inr ()" "deleters p = 0" using assms(1) by (simp_all add: ts_inv_def touch_def)
  show "array_get (holders p) i = Inr (holders p ! i)" using i by simp
qed

lemma permitted_ok:
  assumes inv: "ts_inv p" and ok: "permitted a p"
  shows "\<exists>q. ts_do a p = Inr q \<and> ts_inv q \<and>
    (case a of TsRelease i \<Rightarrow> owned q + 1 = owned p | TsDestruct i \<Rightarrow> deletions q = 1 | _ \<Rightarrow> True)"
proof (cases a)
  case (TsAddRef i)
  then have h: "holds_one i p" "owned p + 1 < 2 ^ 32" using ok by simp_all
  note alive = holds_one_alive [OF inv h(1)]
  obtain n where n: "holders p ! i = (n, False)" using alive(6) by (cases "holders p ! i") auto
  let ?p = "p\<lparr>shared_count := ThreadSafe_AddRef (shared_count p)\<rparr>"
  let ?q = "hold i (n + 1, False) ?p"
  have "ts_do a p = Inr ?q" using TsAddRef alive(1,7) n by (simp add: SharedObject_AddRef_def)
  moreover have "owned ?q = owned p + 1" "deleters ?q = deleters p"
    using owned_hold [of i ?p "(n + 1, False)"] deleters_hold [of i ?p "(n + 1, False)"] alive(4) n by simp_all
  moreover have "shared_count ?q = of_nat (owned p + 1)"
    using inv AddRef_word [of "owned p"] by (simp add: ts_inv_def)
  ultimately have "ts_inv ?q" using inv h(2) alive(3) by (simp add: ts_inv_def)
  then show ?thesis using \<open>ts_do a p = Inr ?q\<close> TsAddRef by auto
next
  case (TsRelease i)
  then have h: "holds_one i p" using ok by simp
  note alive = holds_one_alive [OF inv h]
  obtain n where n: "holders p ! i = (Suc n, False)" using alive(5,6) by (cases "holders p ! i"; cases "fst (holders p ! i)") auto
  obtain k where k: "owned p = Suc k" using alive(3) gr0_implies_Suc by blast
  have kb: "k < 2 ^ 32" and w: "shared_count p = of_nat (Suc k)" using inv k by (simp_all add: ts_inv_def)
  let ?p = "p\<lparr>shared_count := of_nat k\<rparr>"
  let ?q = "hold i (n, k = 0) ?p"
  have "SharedObject_Release p = Inr (k = 0, ?p)"
    using alive(1) Release_word [OF kb] by (simp add: SharedObject_Release_def w del: of_nat_Suc)
  then have "ts_do a p = Inr ?q" using TsRelease alive(7) n by simp
  moreover have "owned ?q = k" "deleters ?q = of_bool (k = 0)"
    using owned_hold [of i ?p "(n, k = 0)"] deleters_hold [of i ?p "(n, k = 0)"] alive(2,4) n k by simp_all
  moreover have "deletions p = 0" using inv k by (simp add: ts_inv_def)
  ultimately show ?thesis using kb k TsRelease by (auto simp: ts_inv_def)
next
  case (TsDestruct i)
  then have h: "i < length (holders p)" "snd (holders p ! i)" using ok by simp_all
  then have "0 < deleters p" using deleters_pos by blast
  then have d: "deleters p = 1" "deletions p = 0" "owned p = 0" using inv by (auto simp: ts_inv_def of_bool_def split: if_splits)
  obtain n where n: "holders p ! i = (n, True)" using h(2) by (cases "holders p ! i") auto
  let ?p = "p\<lparr>deletions := 1\<rparr>"
  let ?q = "hold i (n, False) ?p"
  have "ts_do a p = Inr ?q" using TsDestruct h(1) n d(2) by (simp add: DeleteInternal_def touch_def)
  moreover have "owned ?q = 0" "deleters ?q = 0"
    using owned_hold [of i ?p "(n, False)"] deleters_hold [of i ?p "(n, False)"] h(1) n d by simp_all
  ultimately show ?thesis using inv d TsDestruct by (auto simp: ts_inv_def)
next
  case (TsGive i j)
  then have h: "holds_one i p" "j < length (holders p)" using ok by simp_all
  note alive = holds_one_alive [OF inv h(1)]
  obtain n where n: "holders p ! i = (Suc n, False)" using alive(5,6) by (cases "holders p ! i"; cases "fst (holders p ! i)") auto
  let ?p = "hold i (n, False) p"
  obtain m e where m: "holders ?p ! j = (m, e)" by (cases "holders ?p ! j") auto
  let ?q = "hold j (m + 1, e) ?p"
  have "ts_do a p = Inr ?q" using TsGive alive(7) n m h(2) by simp
  moreover have "owned ?p + 1 = owned p" "deleters ?p = deleters p"
    using owned_hold [of i p "(n, False)"] deleters_hold [of i p "(n, False)"] alive(4) n by simp_all
  moreover have "owned ?q = owned ?p + 1" "deleters ?q = deleters ?p"
    using owned_hold [of j ?p "(m + 1, e)"] deleters_hold [of j ?p "(m + 1, e)"] h(2) m by simp_all
  ultimately show ?thesis using inv TsGive by (auto simp: ts_inv_def)
qed

lemma ts_step_inv: "ts_inv p \<Longrightarrow> ts_step p q \<Longrightarrow> ts_inv q"
  using permitted_ok by (metis Inr_inject ts_stepE)

lemma ts_start_inv: "ts_start p \<Longrightarrow> ts_inv p"
  by (auto simp: ts_start_def ts_inv_def owned_def deleters_def AddRef_word [of 0, simplified] tally_def sum_list_replicate)

text \<open>Until the object is gone some thread can let go of a reference, or delete it.\<close>

lemma ts_closer:
  assumes "ts_inv p" "deletions p \<noteq> 1"
  shows "\<exists>q. ts_step p q \<and> (deletions q = 1 \<or> owned q < owned p)"
proof (cases "owned p = 0")
  case True
  then have "0 < deleters p" using assms by (auto simp: ts_inv_def)
  then obtain i where "permitted (TsDestruct i) p" using deleters_pos by auto
  from permitted_ok [OF assms(1) this] show ?thesis using ts_step.intros [OF \<open>permitted (TsDestruct i) p\<close>] by auto
next
  case False
  then have "deleters p = 0" using assms(1) by (simp add: ts_inv_def)
  then obtain i where "permitted (TsRelease i) p" using False owned_pos [of p] deleters_pos [of p] by (auto simp: holds_one_def)
  from permitted_ok [OF assms(1) this] show ?thesis using ts_step.intros [OF \<open>permitted (TsRelease i) p\<close>] by force
qed

interpretation sharing: live_machine ts_start ts_step ts_inv "\<lambda>p. deletions p = 1" "\<lambda>_. True"
    "\<lambda>p. if deletions p = 1 then 0 else Suc (owned p)"
proof unfold_locales
  fix p assume "ts_inv p" "deletions p \<noteq> 1"
  then show "\<exists>q. ts_step p q \<and> True \<and> (if deletions q = 1 then 0 else Suc (owned q)) < (if deletions p = 1 then 0 else Suc (owned p))"
    using ts_closer [of p] by force
qed (auto intro: ts_start_inv ts_step_inv)

text \<open>
  C7: a thread-safe count is exact under every interleaving.  However threads take, pass on and release
  references to an object, every operation a thread may do finds it alive; it is deleted at most once, when
  and only when no reference is left and no thread is about to delete it; a thread that holds a reference
  and is told \<open>HasOneRef\<close> holds the only one; and from every state some schedule deletes the object.
\<close>

theorem shared_refs_exact:
  assumes "ts_start s" "rtranclp ts_step s p"
  shows "(\<forall>a. permitted a p \<longrightarrow> (\<exists>q. ts_do a p = Inr q)) \<and> deletions p \<le> 1 \<and>
    (deletions p = 1 \<longleftrightarrow> owned p = 0 \<and> deleters p = 0) \<and>
    (ThreadSafe_HasOneRef (shared_count p) \<longrightarrow> owned p = 1) \<and>
    (\<exists>q. rtranclp ts_step p q \<and> deletions q = 1)"
proof -
  note inv = sharing.reachable_inv [OF assms]
  have one: "owned p = 1" if "ThreadSafe_HasOneRef (shared_count p)"
  proof -
    have "unat (of_nat (owned p) :: 32 word) = unat (1 :: 32 word)"
      using that inv by (simp add: ts_inv_def ThreadSafe_HasOneRef_def AtomicRefCountIsOne_def Acquire_Load_def)
    then show ?thesis using inv by (simp add: ts_inv_def unat_of_nat)
  qed
  show ?thesis using inv permitted_ok [OF inv] one sharing.goal_from [OF inv]
    by (auto simp: ts_inv_def of_bool_def split: if_splits)
qed

theorem shared_refs_exact_witness:
  "\<exists>s p. ts_start s \<and> rtranclp ts_step s p \<and> owned p = 2 \<and> (\<exists>q. rtranclp ts_step p q \<and> deletions q = 1)"
proof -
  let ?s = "\<lparr>shared_count = 1, deletions = 0, holders = [(1, False), (0, False)]\<rparr>"
  let ?p = "\<lparr>shared_count = 2, deletions = 0, holders = [(2, False), (0, False)]\<rparr>"
  have s: "ts_start ?s"
    using AddRef_word [of 0] by (auto simp: ts_start_def intro: exI [of _ 1])
  have "ts_do (TsAddRef 0) ?s = Inr ?p"
    using AddRef_word [of 1] by (simp add: SharedObject_AddRef_def touch_def hold_def array_get_def numeral_2_eq_2)
  moreover have "permitted (TsAddRef 0) ?s" by (simp add: holds_one_def owned_def)
  ultimately have r: "rtranclp ts_step ?s ?p" using ts_step.intros by blast
  have "owned ?p = 2" by (simp add: owned_def)
  then show ?thesis using s r shared_refs_exact [OF s r] by blast
qed

end
