(* ===== verification/Callbacks.thy ===== *)
theory Callbacks
  imports Refs
begin

text \<open>
  \<open>base/callback_internal.h\<close>, \<open>base/callback_internal.cc\<close>, \<open>base/callback_helpers.h\<close>,
  \<open>base/callback_helpers.cc\<close> and the operations of \<open>base/callback.h\<close>: callbacks share a reference-counted bind state, and a
  \<open>ScopedClosureRunner\<close> runs the closure it holds when it goes.  A callback is its bind state and the
  function it invokes (0 is the null pointer); running one is a call in a log.  A closure does not touch
  the callbacks it is run from.
\<close>

section \<open>Bind states\<close>

type_synonym bind_states = "address \<Rightarrow> 32 word option"

definition BindState_AddRef :: "address \<Rightarrow> bind_states \<Rightarrow> bind_states res" where
  "BindState_AddRef a h = (case h a of
     None \<Rightarrow> Inl OutOfBounds
   | Some n \<Rightarrow> Inr (h(a \<mapsto> AtomicRefCountInc n)))"

definition BindState_Release :: "address \<Rightarrow> bind_states \<Rightarrow> bind_states res" where
  "BindState_Release a h = (case h a of
     None \<Rightarrow> Inl OutOfBounds
   | Some n \<Rightarrow> (let (more, n) = AtomicRefCountDec n in Inr (if \<not> more then h(a := None) else h(a \<mapsto> n))))"

definition state_AddRef :: "address option \<Rightarrow> bind_states \<Rightarrow> bind_states res" where
  "state_AddRef p h = (case p of None \<Rightarrow> Inr h | Some a \<Rightarrow> BindState_AddRef a h)"

definition state_Release :: "address option \<Rightarrow> bind_states \<Rightarrow> bind_states res" where
  "state_Release p h = (case p of None \<Rightarrow> Inr h | Some a \<Rightarrow> BindState_Release a h)"

section \<open>Callbacks\<close>

record callback =
  bind_state :: "address option"
  invoke :: nat

definition Callback_null :: callback where
  "Callback_null = \<lparr>bind_state = None, invoke = 0\<rparr>"

definition Callback_new :: "address option \<Rightarrow> nat \<Rightarrow> bind_states \<Rightarrow> (callback \<times> bind_states) res" where
  "Callback_new bs f h =
     bind_res (state_AddRef bs h) (\<lambda>h.
     bind_res (check (case bs of None \<Rightarrow> True | Some a \<Rightarrow> h a = Some 1)) (\<lambda>_.
       Inr (\<lparr>bind_state = bs, invoke = f\<rparr>, h)))"

definition is_null :: "callback \<Rightarrow> bool" where
  "is_null c \<longleftrightarrow> bind_state c = None"

definition Callback_copy :: "callback \<Rightarrow> bind_states \<Rightarrow> (callback \<times> bind_states) res" where
  "Callback_copy c h =
     bind_res (state_AddRef (bind_state c) h) (\<lambda>h. Inr (\<lparr>bind_state = bind_state c, invoke = invoke c\<rparr>, h))"

text \<open>A move empties the bind state of its source and leaves the function.\<close>

definition Callback_move :: "callback \<Rightarrow> callback \<times> callback" where
  "Callback_move c = (c, c\<lparr>bind_state := None\<rparr>)"

definition Callback_assign :: "callback \<Rightarrow> callback \<Rightarrow> bind_states \<Rightarrow> (callback \<times> bind_states) res" where
  "Callback_assign this c h =
     bind_res (state_AddRef (bind_state c) h) (\<lambda>h.
     bind_res (state_Release (bind_state this) h) (\<lambda>h.
       Inr (this\<lparr>bind_state := bind_state c, invoke := invoke c\<rparr>, h)))"

definition Callback_Reset :: "callback \<Rightarrow> bind_states \<Rightarrow> (callback \<times> bind_states) res" where
  "Callback_Reset c h =
     bind_res (state_Release (bind_state c) h) (\<lambda>h. Inr (c\<lparr>bind_state := None, invoke := 0\<rparr>, h))"

definition Callback_destroy :: "callback \<Rightarrow> bind_states \<Rightarrow> bind_states res" where
  "Callback_destroy c h = state_Release (bind_state c) h"

definition EqualsInternal :: "callback \<Rightarrow> callback \<Rightarrow> bool" where
  "EqualsInternal c other \<longleftrightarrow>
     (if is_null c \<or> is_null other then bind_state c = bind_state other
      else bind_state c = bind_state other \<and> invoke c = invoke other)"

type_synonym call = "address option \<times> nat"

definition Callback_Run :: "callback \<Rightarrow> call res" where
  "Callback_Run c = (if invoke c = 0 then Inl NullDeref else Inr (bind_state c, invoke c))"

definition ResetAndReturn :: "callback \<Rightarrow> bind_states \<Rightarrow> ((callback \<times> callback) \<times> bind_states) res" where
  "ResetAndReturn cb h =
     bind_res (Callback_copy cb h) (\<lambda>(ret, h). bind_res (Callback_Reset cb h) (\<lambda>(cb, h). Inr ((ret, cb), h)))"

section \<open>\<open>ScopedClosureRunner\<close>\<close>

text \<open>A runner is its closure.\<close>

definition Runner_default :: callback where
  "Runner_default = Callback_null"

definition Runner_of :: "callback \<Rightarrow> bind_states \<Rightarrow> (callback \<times> bind_states) res" where
  "Runner_of closure h = Callback_copy closure h"

definition run_unless_null :: "callback \<Rightarrow> call list res" where
  "run_unless_null c = (if \<not> is_null c then bind_res (Callback_Run c) (\<lambda>x. Inr [x]) else Inr [])"

definition Runner_destroy :: "callback \<Rightarrow> bind_states \<Rightarrow> (call list \<times> bind_states) res" where
  "Runner_destroy closure h =
     bind_res (run_unless_null closure) (\<lambda>calls.
     bind_res (Callback_destroy closure h) (\<lambda>h. Inr (calls, h)))"

definition Runner_Release :: "callback \<Rightarrow> bind_states \<Rightarrow> ((callback \<times> callback) \<times> bind_states) res" where
  "Runner_Release closure h =
     bind_res (Callback_copy closure h) (\<lambda>(result, h).
     bind_res (Callback_Reset closure h) (\<lambda>(closure, h). Inr ((result, closure), h)))"

definition ReplaceClosure :: "callback \<Rightarrow> callback \<Rightarrow> bind_states \<Rightarrow> (callback \<times> bind_states) res" where
  "ReplaceClosure this closure h = Callback_assign this closure h"

definition Runner_move :: "callback \<Rightarrow> bind_states \<Rightarrow> ((callback \<times> callback) \<times> bind_states) res" where
  "Runner_move other h = Runner_Release other h"

definition RunAndReset :: "callback \<Rightarrow> bind_states \<Rightarrow> (callback \<times> call list \<times> bind_states) res" where
  "RunAndReset closure h =
     bind_res (Runner_Release closure h) (\<lambda>((old_closure, closure), h).
     bind_res (run_unless_null old_closure) (\<lambda>calls.
     bind_res (Callback_destroy old_closure h) (\<lambda>h. Inr (closure, calls, h))))"

section \<open>Programs over callbacks\<close>

text \<open>
  Callbacks and runners live in slots, empty ones being absent.  An operation on two objects reads the
  second after it has written the first, for they may be the same one.
\<close>

record cb_prog =
  states :: bind_states
  cbs :: "callback option list"
  calls :: "call list"

definition cb_at :: "nat \<Rightarrow> cb_prog \<Rightarrow> callback res" where
  "cb_at i p = bind_res (array_get (cbs p) i) (\<lambda>x. case x of None \<Rightarrow> Inl OutOfBounds | Some c \<Rightarrow> Inr c)"

definition cb_put :: "nat \<Rightarrow> callback option \<Rightarrow> bind_states \<Rightarrow> cb_prog \<Rightarrow> cb_prog" where
  "cb_put i x h p = p\<lparr>states := h, cbs := (cbs p)[i := x]\<rparr>"

definition Callback_move_assign :: "nat \<Rightarrow> nat \<Rightarrow> cb_prog \<Rightarrow> cb_prog res" where
  "Callback_move_assign i j p =
     bind_res (cb_at j p) (\<lambda>c. let (temp, c) = Callback_move c; p = cb_put j (Some c) (states p) p
     in bind_res (cb_at i p) (\<lambda>this.
        bind_res (state_Release (bind_state this) (states p)) (\<lambda>h. Inr (cb_put i (Some temp) h p))))"

definition Runner_assign :: "nat \<Rightarrow> nat \<Rightarrow> cb_prog \<Rightarrow> cb_prog res" where
  "Runner_assign i j p =
     bind_res (cb_at j p) (\<lambda>other. bind_res (Runner_Release other (states p)) (\<lambda>((temp, other), h).
     let p = cb_put j (Some other) h p
     in bind_res (cb_at i p) (\<lambda>this. bind_res (ReplaceClosure this temp (states p)) (\<lambda>(this, h).
        bind_res (Callback_destroy temp h) (\<lambda>h. Inr (cb_put i (Some this) h p))))))"

datatype cb_op =
    CbNew nat address nat | CbNull nat | CbCopy nat nat | CbMove nat nat | CbAssign nat nat | CbMoveAssign nat nat
  | CbReset nat | CbResetAndReturn nat nat | CbRun nat | CbDestroy nat
  | RnMove nat nat | RnAssign nat nat | RnRelease nat nat | RnRunAndReset nat | RnDestroy nat

fun cb_do :: "cb_op \<Rightarrow> cb_prog \<Rightarrow> cb_prog res" where
  "cb_do (CbNew i a f) p = bind_res (Callback_new (Some a) f ((states p)(a \<mapsto> 0))) (\<lambda>(c, h). Inr (cb_put i (Some c) h p))"
| "cb_do (CbNull i) p = Inr (cb_put i (Some Callback_null) (states p) p)"
| "cb_do (CbCopy i j) p = bind_res (cb_at j p) (\<lambda>c. bind_res (Callback_copy c (states p)) (\<lambda>(c, h). Inr (cb_put i (Some c) h p)))"
| "cb_do (CbMove i j) p = bind_res (cb_at j p) (\<lambda>c. let (d, c) = Callback_move c
     in Inr (cb_put i (Some d) (states p) (cb_put j (Some c) (states p) p)))"
| "cb_do (CbAssign i j) p = bind_res (cb_at j p) (\<lambda>c. bind_res (cb_at i p) (\<lambda>this.
     bind_res (Callback_assign this c (states p)) (\<lambda>(this, h). Inr (cb_put i (Some this) h p))))"
| "cb_do (CbMoveAssign i j) p = Callback_move_assign i j p"
| "cb_do (CbReset i) p = bind_res (cb_at i p) (\<lambda>c. bind_res (Callback_Reset c (states p)) (\<lambda>(c, h). Inr (cb_put i (Some c) h p)))"
| "cb_do (CbResetAndReturn i j) p = bind_res (cb_at j p) (\<lambda>cb. bind_res (ResetAndReturn cb (states p)) (\<lambda>((ret, cb), h).
     Inr (cb_put i (Some ret) h (cb_put j (Some cb) h p))))"
| "cb_do (CbRun i) p = bind_res (cb_at i p) (\<lambda>c. bind_res (Callback_Run c) (\<lambda>x. Inr (p\<lparr>calls := calls p @ [x]\<rparr>)))"
| "cb_do (CbDestroy i) p = bind_res (cb_at i p) (\<lambda>c. bind_res (Callback_destroy c (states p)) (\<lambda>h. Inr (cb_put i None h p)))"
| "cb_do (RnMove i j) p = bind_res (cb_at j p) (\<lambda>c. bind_res (Runner_move c (states p)) (\<lambda>((d, c), h).
     Inr (cb_put i (Some d) h (cb_put j (Some c) h p))))"
| "cb_do (RnAssign i j) p = Runner_assign i j p"
| "cb_do (RnRelease i j) p = bind_res (cb_at j p) (\<lambda>c. bind_res (Runner_Release c (states p)) (\<lambda>((d, c), h).
     Inr (cb_put i (Some d) h (cb_put j (Some c) h p))))"
| "cb_do (RnRunAndReset i) p = bind_res (cb_at i p) (\<lambda>c. bind_res (RunAndReset c (states p)) (\<lambda>(c, xs, h).
     Inr ((cb_put i (Some c) h p)\<lparr>calls := calls p @ xs\<rparr>)))"
| "cb_do (RnDestroy i) p = bind_res (cb_at i p) (\<lambda>c. bind_res (Runner_destroy c (states p)) (\<lambda>(xs, h).
     Inr ((cb_put i None h p)\<lparr>calls := calls p @ xs\<rparr>)))"

section \<open>The abstract program\<close>

text \<open>
  Without sharing a callback is a closure or nothing.  There are only six things an operation can do with
  it: make one, copy one, pass one on, drop one, run one, or pass one on to a last run.
\<close>

type_synonym closure = "(address \<times> nat) option"
type_synonym abstract_prog = "closure option list \<times> call list"

definition as_call :: "closure \<Rightarrow> call list" where
  "as_call x = (case x of None \<Rightarrow> [] | Some (a, f) \<Rightarrow> [(Some a, f)])"

definition occupied :: "nat \<Rightarrow> 'a option list \<Rightarrow> bool" where
  "occupied i xs \<longleftrightarrow> i < length xs \<and> xs ! i \<noteq> None"

definition vacant :: "nat \<Rightarrow> 'a option list \<Rightarrow> bool" where
  "vacant i xs \<longleftrightarrow> i < length xs \<and> xs ! i = None"

definition pass_on :: "nat \<Rightarrow> nat \<Rightarrow> abstract_prog \<Rightarrow> abstract_prog" where
  "pass_on i j s = ((fst s)[j := Some None, i := fst s ! j], snd s)"

fun closure_do :: "cb_op \<Rightarrow> abstract_prog \<Rightarrow> abstract_prog option" where
  "closure_do (CbNew i a f) s = (if vacant i (fst s) \<and> f \<noteq> 0 \<and> (\<forall>x\<in>set (fst s). \<forall>g. x \<noteq> Some (Some (a, g)))
     then Some ((fst s)[i := Some (Some (a, f))], snd s) else None)"
| "closure_do (CbNull i) s = (if vacant i (fst s) then Some ((fst s)[i := Some None], snd s) else None)"
| "closure_do (CbCopy i j) s = (if vacant i (fst s) \<and> occupied j (fst s) then Some ((fst s)[i := fst s ! j], snd s) else None)"
| "closure_do (CbMove i j) s = (if vacant i (fst s) \<and> occupied j (fst s) then Some (pass_on i j s) else None)"
| "closure_do (CbAssign i j) s = (if occupied i (fst s) \<and> occupied j (fst s) then Some ((fst s)[i := fst s ! j], snd s) else None)"
| "closure_do (CbMoveAssign i j) s = (if occupied i (fst s) \<and> occupied j (fst s) then Some (pass_on i j s) else None)"
| "closure_do (CbReset i) s = (if occupied i (fst s) then Some ((fst s)[i := Some None], snd s) else None)"
| "closure_do (CbResetAndReturn i j) s = (if vacant i (fst s) \<and> occupied j (fst s) then Some (pass_on i j s) else None)"
| "closure_do (CbRun i) s = (if occupied i (fst s) \<and> fst s ! i \<noteq> Some None then Some (fst s, snd s @ as_call (the (fst s ! i))) else None)"
| "closure_do (CbDestroy i) s = (if occupied i (fst s) then Some ((fst s)[i := None], snd s) else None)"
| "closure_do (RnMove i j) s = (if vacant i (fst s) \<and> occupied j (fst s) then Some (pass_on i j s) else None)"
| "closure_do (RnAssign i j) s = (if occupied i (fst s) \<and> occupied j (fst s) then Some (pass_on i j s) else None)"
| "closure_do (RnRelease i j) s = (if vacant i (fst s) \<and> occupied j (fst s) then Some (pass_on i j s) else None)"
| "closure_do (RnRunAndReset i) s =
     (if occupied i (fst s) then Some ((fst s)[i := Some None], snd s @ as_call (the (fst s ! i))) else None)"
| "closure_do (RnDestroy i) s =
     (if occupied i (fst s) then Some ((fst s)[i := None], snd s @ as_call (the (fst s ! i))) else None)"

definition closure_of :: "callback \<Rightarrow> closure" where
  "closure_of c = map_option (\<lambda>a. (a, invoke c)) (bind_state c)"

definition abstract_prog :: "cb_prog \<Rightarrow> abstract_prog" where
  "abstract_prog p = (map (map_option closure_of) (cbs p), calls p)"

section \<open>Counting\<close>

definition points_to :: "address \<Rightarrow> callback option \<Rightarrow> bool" where
  "points_to a x \<longleftrightarrow> (\<exists>c. x = Some c \<and> bind_state c = Some a)"

definition uses :: "callback option list \<Rightarrow> address \<Rightarrow> nat" where
  "uses xs a = tally (points_to a) xs"

definition heap_of :: "(address \<Rightarrow> nat) \<Rightarrow> bind_states" where
  "heap_of f = (\<lambda>a. if f a = 0 then None else Some (of_nat (f a)))"

definition cb_inv :: "cb_prog \<Rightarrow> bool" where
  "cb_inv p \<longleftrightarrow> states p = heap_of (uses (cbs p)) \<and> length (cbs p) < 2 ^ 31 \<and>
     (\<forall>c. Some c \<in> set (cbs p) \<and> bind_state c \<noteq> None \<longrightarrow> invoke c \<noteq> 0)"

lemma points_to_simps [simp]: "\<not> points_to a None" "points_to a (Some c) \<longleftrightarrow> bind_state c = Some a"
  by (simp_all add: points_to_def)

lemma uses_update:
  "i < length xs \<Longrightarrow> uses (xs[i := y]) a + of_bool (points_to a (xs ! i)) = uses xs a + of_bool (points_to a y)"
  unfolding uses_def by (rule tally_update)

lemma uses_le: "uses xs a \<le> length xs"
  by (simp add: uses_def tally_def)

lemma uses_pos: "i < length xs \<Longrightarrow> points_to a (xs ! i) \<Longrightarrow> 0 < uses xs a"
  unfolding uses_def tally_pos by auto

lemma state_AddRef_heap:
  assumes "\<And>a. b = Some a \<Longrightarrow> 0 < f a"
  shows "state_AddRef b (heap_of f) = Inr (heap_of (\<lambda>a. f a + of_bool (b = Some a)))"
  using assms
  by (cases b) (auto simp: state_AddRef_def BindState_AddRef_def heap_of_def AtomicRefCountInc_def AtomicRefCountIncN_def
      NoBarrier_AtomicIncrement_def fun_eq_iff)

lemma state_Release_heap:
  assumes "\<And>a. b = Some a \<Longrightarrow> 0 < f a \<and> f a < 2 ^ 32"
  shows "state_Release b (heap_of f) = Inr (heap_of (\<lambda>a. f a - of_bool (b = Some a)))"
proof (cases b)
  case (Some a)
  then obtain n where n: "f a = Suc n" "n < 2 ^ 32" using assms by (metis gr0_implies_Suc Suc_lessD)
  then have "(of_nat n :: 32 word) = 0 \<longleftrightarrow> n = 0" by (simp add: unat_eq_0 [symmetric] unat_of_nat)
  then show ?thesis using Some n
    by (auto simp: state_Release_def BindState_Release_def heap_of_def AtomicRefCountDec_def AtomicRefCountDecN_def
        Barrier_AtomicIncrement_def fun_eq_iff Let_def)
qed (simp add: state_Release_def)

section \<open>The operations refine their abstraction\<close>

lemma Callback_copy_heap:
  "(\<And>a. bind_state c = Some a \<Longrightarrow> 0 < f a) \<Longrightarrow>
   Callback_copy c (heap_of f) = Inr (c, heap_of (\<lambda>a. f a + of_bool (bind_state c = Some a)))"
  by (cases c) (simp add: Callback_copy_def state_AddRef_heap)

lemma Callback_Reset_heap:
  "(\<And>a. bind_state c = Some a \<Longrightarrow> 0 < f a \<and> f a < 2 ^ 32) \<Longrightarrow>
   Callback_Reset c (heap_of f) =
     Inr (c\<lparr>bind_state := None, invoke := 0\<rparr>, heap_of (\<lambda>a. f a - of_bool (bind_state c = Some a)))"
  by (simp add: Callback_Reset_def state_Release_heap)

lemma Runner_Release_heap:
  "(\<And>a. bind_state c = Some a \<Longrightarrow> 0 < f a \<and> f a + 1 < 2 ^ 32) \<Longrightarrow>
   Runner_Release c (heap_of f) = Inr ((c, c\<lparr>bind_state := None, invoke := 0\<rparr>), heap_of f)"
  by (simp add: Runner_Release_def Callback_copy_heap Callback_Reset_heap)

lemmas release_same = ResetAndReturn_def Runner_move_def Runner_Release_def [symmetric]

text \<open>What is known of a callback in a slot.\<close>

lemma cb_at_slot:
  assumes "cb_inv p" "occupied i (cbs p)"
  shows "\<exists>c. i < length (cbs p) \<and> cbs p ! i = Some c \<and> cb_at i p = Inr c \<and> (bind_state c \<noteq> None \<longrightarrow> invoke c \<noteq> 0) \<and>
    (\<forall>a. bind_state c = Some a \<longrightarrow> 0 < uses (cbs p) a \<and> uses (cbs p) a + 1 < 2 ^ 32)"
proof -
  obtain c where c: "i < length (cbs p)" "cbs p ! i = Some c" using assms(2) by (auto simp: occupied_def)
  then have "Some c \<in> set (cbs p)" by (metis nth_mem)
  then have "bind_state c \<noteq> None \<longrightarrow> invoke c \<noteq> 0" using assms(1) unfolding cb_inv_def by blast
  moreover have "0 < uses (cbs p) a \<and> uses (cbs p) a + 1 < 2 ^ 32" if "bind_state c = Some a" for a
    using uses_pos [of i "cbs p" a] uses_le [of "cbs p" a] that c assms(1) by (simp add: cb_inv_def)
  ultimately show ?thesis using c by (simp add: cb_at_def)
qed

lemma abstract_slots:
  "occupied i (fst (abstract_prog p)) \<longleftrightarrow> occupied i (cbs p)"
  "vacant i (fst (abstract_prog p)) \<longleftrightarrow> vacant i (cbs p)"
  by (auto simp: abstract_prog_def occupied_def vacant_def)

lemma closure_of_simps [simp]:
  "bind_state c = None \<Longrightarrow> closure_of c = None"
  "bind_state c = Some a \<Longrightarrow> closure_of c = Some (a, invoke c)"
  by (simp_all add: closure_of_def)

text \<open>Writing one slot, with the heap that goes with it.\<close>

lemma put_inv:
  assumes "cb_inv p" "i < length (cbs p)" "\<And>c. x = Some c \<Longrightarrow> bind_state c \<noteq> None \<Longrightarrow> invoke c \<noteq> 0"
    "\<And>a. f a + of_bool (points_to a (cbs p ! i)) = uses (cbs p) a + of_bool (points_to a x)"
  shows "cb_inv (cb_put i x (heap_of f) p)"
    "abstract_prog (cb_put i x (heap_of f) p) = ((fst (abstract_prog p))[i := map_option closure_of x], calls p)"
proof -
  have "f = uses ((cbs p)[i := x])"
  proof
    fix a show "f a = uses ((cbs p)[i := x]) a" using assms(4) [of a] uses_update [OF assms(2), of x a] by simp
  qed
  moreover have "bind_state c \<noteq> None \<longrightarrow> invoke c \<noteq> 0" if "Some c \<in> set ((cbs p)[i := x])" for c
    using that assms(1,3) set_update_subset_insert [of "cbs p" i x] unfolding cb_inv_def by blast
  ultimately show "cb_inv (cb_put i x (heap_of f) p)" using assms(1) by (simp add: cb_inv_def cb_put_def)
  show "abstract_prog (cb_put i x (heap_of f) p) = ((fst (abstract_prog p))[i := map_option closure_of x], calls p)"
    by (simp add: abstract_prog_def cb_put_def map_update)
qed

lemma inv_calls: "cb_inv p \<Longrightarrow> cb_inv (p\<lparr>calls := xs\<rparr>)"
  "abstract_prog (p\<lparr>calls := xs\<rparr>) = (fst (abstract_prog p), xs)"
  by (simp_all add: cb_inv_def abstract_prog_def)

text \<open>Passing on: slot \<open>j\<close> becomes null and \<open>i\<close> gets what it had.\<close>

lemma pass_on_inv:
  assumes "cb_inv p" "j < length (cbs p)" "cbs p ! j = Some c" "bind_state c' = None" "i < length (cbs p)"
    "bind_state c \<noteq> None \<Longrightarrow> invoke c \<noteq> 0"
    "\<And>a. f a + of_bool (points_to a ((cbs p)[j := Some c'] ! i)) = uses (cbs p) a"
  shows "cb_inv (cb_put i (Some c) (heap_of f) (cb_put j (Some c') h p))"
    "abstract_prog (cb_put i (Some c) (heap_of f) (cb_put j (Some c') h p)) = pass_on i j (abstract_prog p)"
proof -
  let ?q = "cb_put j (Some c') (heap_of (\<lambda>a. uses (cbs p) a - of_bool (bind_state c = Some a))) p"
  have "uses (cbs p) a - of_bool (bind_state c = Some a) + of_bool (points_to a (cbs p ! j)) = uses (cbs p) a" for a
    using uses_pos [OF assms(2), of a] assms(3) by auto
  then have q: "cb_inv ?q" "abstract_prog ?q = ((fst (abstract_prog p))[j := Some None], calls p)"
    using put_inv [OF assms(1,2), of "Some c'" "\<lambda>a. uses (cbs p) a - of_bool (bind_state c = Some a)"] assms(4) by auto
  have eq: "cb_put i (Some c) (heap_of f) (cb_put j (Some c') h p) = cb_put i (Some c) (heap_of f) ?q"
    by (simp add: cb_put_def)
  have u: "uses (cbs ?q) a + of_bool (bind_state c = Some a) = uses (cbs p) a" for a
    using uses_update [OF assms(2), of "Some c'" a] assms(3,4) by (simp add: cb_put_def)
  have "f a + of_bool (points_to a (cbs ?q ! i)) = uses (cbs ?q) a + of_bool (points_to a (Some c))" for a
    using assms(7) [of a] u [of a] by (simp add: cb_put_def)
  note r = put_inv [OF q(1), of i "Some c" f, OF _ _ this]
  have "fst (abstract_prog p) ! j = Some (closure_of c)" using assms(2,3) by (simp add: abstract_prog_def)
  then show "cb_inv (cb_put i (Some c) (heap_of f) (cb_put j (Some c') h p))"
    "abstract_prog (cb_put i (Some c) (heap_of f) (cb_put j (Some c') h p)) = pass_on i j (abstract_prog p)"
    unfolding eq using r q(2) assms(5,6) by (auto simp: cb_put_def pass_on_def abstract_prog_def)
qed

lemma callback_overwrite [simp]: "d\<lparr>bind_state := bind_state c, invoke := invoke c\<rparr> = (c :: callback)"
  by (cases c; cases d) simp

text \<open>An operation refines its abstraction from a state.\<close>

definition refines :: "cb_op \<Rightarrow> cb_prog \<Rightarrow> bool" where
  "refines op p \<longleftrightarrow> (\<forall>t. closure_do op (abstract_prog p) = Some t \<longrightarrow>
     (\<exists>p'. cb_do op p = Inr p' \<and> cb_inv p' \<and> abstract_prog p' = t))"

lemma heap_inv: "cb_inv p \<Longrightarrow> states p = heap_of (uses (cbs p))"
  by (simp add: cb_inv_def)

lemma refines_release:
  assumes inv: "cb_inv p" and op: "op \<in> {CbResetAndReturn i j, RnMove i j, RnRelease i j}"
  shows "refines op p"
  unfolding refines_def
proof (intro allI impI)
  fix t assume "closure_do op (abstract_prog p) = Some t"
  then have v: "vacant i (cbs p)" "occupied j (cbs p)" and t: "t = pass_on i j (abstract_prog p)"
    using op by (auto simp: abstract_slots split: if_splits)
  obtain c where c: "j < length (cbs p)" "cbs p ! j = Some c" "cb_at j p = Inr c" "bind_state c \<noteq> None \<longrightarrow> invoke c \<noteq> 0"
    "\<forall>a. bind_state c = Some a \<longrightarrow> 0 < uses (cbs p) a \<and> uses (cbs p) a + 1 < 2 ^ 32"
    using cb_at_slot [OF inv v(2)] by blast
  let ?c = "c\<lparr>bind_state := None, invoke := 0\<rparr>"
  have r: "Runner_Release c (states p) = Inr ((c, ?c), states p)"
    using Runner_Release_heap [of c "uses (cbs p)"] c(5) heap_inv [OF inv] by simp
  have "(cbs p)[j := Some ?c] ! i = None" using v c(1,2) by (auto simp: vacant_def nth_list_update)
  then have i: "cb_inv (cb_put i (Some c) (states p) (cb_put j (Some ?c) (states p) p))"
    "abstract_prog (cb_put i (Some c) (states p) (cb_put j (Some ?c) (states p) p)) = t"
    using pass_on_inv [OF inv c(1,2), of ?c i "uses (cbs p)" "states p"] c(4) v(1) heap_inv [OF inv] t
    by (simp_all add: vacant_def)
  have "cb_do op p = Inr (cb_put i (Some c) (states p) (cb_put j (Some ?c) (states p) p))"
    using op c(3) r by (auto simp: release_same)
  then show "\<exists>p'. cb_do op p = Inr p' \<and> cb_inv p' \<and> abstract_prog p' = t" using i by blast
qed

lemma refines_move:
  assumes inv: "cb_inv p"
  shows "refines (CbMove i j) p"
  unfolding refines_def
proof (intro allI impI)
  fix t assume "closure_do (CbMove i j) (abstract_prog p) = Some t"
  then have v: "vacant i (cbs p)" "occupied j (cbs p)" and t: "t = pass_on i j (abstract_prog p)"
    by (auto simp: abstract_slots split: if_splits)
  obtain c where c: "j < length (cbs p)" "cbs p ! j = Some c" "cb_at j p = Inr c" "bind_state c \<noteq> None \<longrightarrow> invoke c \<noteq> 0"
    using cb_at_slot [OF inv v(2)] by blast
  let ?c = "c\<lparr>bind_state := None\<rparr>"
  have "(cbs p)[j := Some ?c] ! i = None" using v c(1,2) by (auto simp: vacant_def nth_list_update)
  then show "\<exists>p'. cb_do (CbMove i j) p = Inr p' \<and> cb_inv p' \<and> abstract_prog p' = t"
    using pass_on_inv [OF inv c(1,2), of ?c i "uses (cbs p)" "states p"] c(3,4) v(1) heap_inv [OF inv] t
    by (simp add: vacant_def Callback_move_def)
qed

text \<open>Assignments from another object, possibly itself, release what the target held.\<close>

lemma target_after_source:
  assumes "cb_inv p" "occupied i (cbs p)" "j < length (cbs p)" "bind_state c' = None"
  shows "\<exists>d. cb_at i (cb_put j (Some c') h p) = Inr d \<and> (cbs p)[j := Some c'] ! i = Some d \<and> i < length (cbs p) \<and>
    (\<forall>a. bind_state d = Some a \<longrightarrow> 0 < uses (cbs p) a \<and> uses (cbs p) a + 1 < 2 ^ 32)"
proof (cases "i = j")
  case True
  then show ?thesis using assms by (auto simp: cb_at_def cb_put_def)
next
  case False
  then show ?thesis using cb_at_slot [OF assms(1,2)] by (auto simp: cb_at_def cb_put_def)
qed

lemma refines_move_assign:
  assumes inv: "cb_inv p"
  shows "refines (CbMoveAssign i j) p"
  unfolding refines_def
proof (intro allI impI)
  fix t assume "closure_do (CbMoveAssign i j) (abstract_prog p) = Some t"
  then have v: "occupied i (cbs p)" "occupied j (cbs p)" and t: "t = pass_on i j (abstract_prog p)"
    by (auto simp: abstract_slots split: if_splits)
  obtain c where c: "j < length (cbs p)" "cbs p ! j = Some c" "cb_at j p = Inr c" "bind_state c \<noteq> None \<longrightarrow> invoke c \<noteq> 0"
    using cb_at_slot [OF inv v(2)] by blast
  let ?c = "c\<lparr>bind_state := None\<rparr>"
  obtain d where d: "cb_at i (cb_put j (Some ?c) (states p) p) = Inr d" "(cbs p)[j := Some ?c] ! i = Some d" "i < length (cbs p)"
    "\<forall>a. bind_state d = Some a \<longrightarrow> 0 < uses (cbs p) a \<and> uses (cbs p) a + 1 < 2 ^ 32"
    using target_after_source [OF inv v(1) c(1), of ?c] by auto
  let ?f = "\<lambda>a. uses (cbs p) a - of_bool (bind_state d = Some a)"
  have rel: "state_Release (bind_state d) (states p) = Inr (heap_of ?f)"
    unfolding heap_inv [OF inv]
  proof (rule state_Release_heap)
    fix a assume "bind_state d = Some a"
    then show "0 < uses (cbs p) a \<and> uses (cbs p) a < 2 ^ 32" using d(4) by auto
  qed
  have "?f a + of_bool (points_to a ((cbs p)[j := Some ?c] ! i)) = uses (cbs p) a" for a
    using d(2,4) by auto
  then show "\<exists>p'. cb_do (CbMoveAssign i j) p = Inr p' \<and> cb_inv p' \<and> abstract_prog p' = t"
    using pass_on_inv [OF inv c(1,2), of ?c i ?f "states p"] c(3,4) d(1,3) rel t
    by (simp add: Callback_move_assign_def Callback_move_def cb_put_def)
qed

lemma refines_runner_assign:
  assumes inv: "cb_inv p"
  shows "refines (RnAssign i j) p"
  unfolding refines_def
proof (intro allI impI)
  fix t assume "closure_do (RnAssign i j) (abstract_prog p) = Some t"
  then have v: "occupied i (cbs p)" "occupied j (cbs p)" and t: "t = pass_on i j (abstract_prog p)"
    by (auto simp: abstract_slots split: if_splits)
  obtain c where c: "j < length (cbs p)" "cbs p ! j = Some c" "cb_at j p = Inr c" "bind_state c \<noteq> None \<longrightarrow> invoke c \<noteq> 0"
    "\<forall>a. bind_state c = Some a \<longrightarrow> 0 < uses (cbs p) a \<and> uses (cbs p) a + 1 < 2 ^ 32"
    using cb_at_slot [OF inv v(2)] by blast
  let ?c = "c\<lparr>bind_state := None, invoke := 0\<rparr>"
  let ?q = "cb_put j (Some ?c) (states p) p"
  have r: "Runner_Release c (states p) = Inr ((c, ?c), states p)"
    using Runner_Release_heap [of c "uses (cbs p)"] c(5) heap_inv [OF inv] by simp
  obtain d where d: "cb_at i ?q = Inr d" "(cbs p)[j := Some ?c] ! i = Some d" "i < length (cbs p)"
    "\<forall>a. bind_state d = Some a \<longrightarrow> 0 < uses (cbs p) a \<and> uses (cbs p) a + 1 < 2 ^ 32"
    using target_after_source [OF inv v(1) c(1), of ?c] by auto
  let ?f = "\<lambda>a. uses (cbs p) a + of_bool (bind_state c = Some a) - of_bool (bind_state d = Some a)"
  let ?g = "\<lambda>a. uses (cbs p) a - of_bool (bind_state d = Some a)"
  have "state_AddRef (bind_state c) (states p) = Inr (heap_of (\<lambda>a. uses (cbs p) a + of_bool (bind_state c = Some a)))"
    using state_AddRef_heap [of "bind_state c" "uses (cbs p)"] c(5) heap_inv [OF inv] by simp
  moreover have "state_Release (bind_state d) (heap_of (\<lambda>a. uses (cbs p) a + of_bool (bind_state c = Some a))) = Inr (heap_of ?f)"
  proof (rule state_Release_heap)
    fix a assume "bind_state d = Some a"
    then show "0 < uses (cbs p) a + of_bool (bind_state c = Some a) \<and> uses (cbs p) a + of_bool (bind_state c = Some a) < 2 ^ 32"
      using d(4) by auto
  qed
  moreover have "state_Release (bind_state c) (heap_of ?f) = Inr (heap_of (\<lambda>a. ?f a - of_bool (bind_state c = Some a)))"
  proof (rule state_Release_heap)
    fix a assume "bind_state c = Some a"
    then show "0 < ?f a \<and> ?f a < 2 ^ 32" using c(5) d(4) by auto
  qed
  moreover have "(\<lambda>a. ?f a - of_bool (bind_state c = Some a)) = ?g" by auto
  ultimately have run: "cb_do (RnAssign i j) p = Inr (cb_put i (Some c) (heap_of ?g) ?q)"
    using c(3) r d(1)
    by (simp add: Runner_assign_def ReplaceClosure_def Callback_assign_def Callback_destroy_def cb_put_def)
  have "?g a + of_bool (points_to a ((cbs p)[j := Some ?c] ! i)) = uses (cbs p) a" for a
    using d(2,4) by auto
  then show "\<exists>p'. cb_do (RnAssign i j) p = Inr p' \<and> cb_inv p' \<and> abstract_prog p' = t"
    using pass_on_inv [OF inv c(1,2), of ?c i ?g "states p"] c(4) d(3) run t by simp
qed

text \<open>The operations on one object.\<close>

lemma refines_single:
  assumes inv: "cb_inv p" and op: "op \<in> {CbReset i, CbDestroy i, CbRun i, RnRunAndReset i, RnDestroy i}"
  shows "refines op p"
  unfolding refines_def
proof (intro allI impI)
  fix t assume abs: "closure_do op (abstract_prog p) = Some t"
  then have v: "occupied i (cbs p)" using op by (auto simp: abstract_slots split: if_splits)
  obtain c where c: "i < length (cbs p)" "cbs p ! i = Some c" "cb_at i p = Inr c" "bind_state c \<noteq> None \<longrightarrow> invoke c \<noteq> 0"
    "\<forall>a. bind_state c = Some a \<longrightarrow> 0 < uses (cbs p) a \<and> uses (cbs p) a + 1 < 2 ^ 32"
    using cb_at_slot [OF inv v] by blast
  let ?f = "\<lambda>a. uses (cbs p) a - of_bool (bind_state c = Some a)"
  let ?c = "c\<lparr>bind_state := None, invoke := 0\<rparr>"
  have h: "states p = heap_of (uses (cbs p))" by (rule heap_inv [OF inv])
  have rel: "state_Release (bind_state c) (states p) = Inr (heap_of ?f)"
    unfolding h
  proof (rule state_Release_heap)
    fix a assume "bind_state c = Some a"
    then show "0 < uses (cbs p) a \<and> uses (cbs p) a < 2 ^ 32" using c(5) by auto
  qed
  have rr: "Runner_Release c (states p) = Inr ((c, ?c), states p)"
    using Runner_Release_heap [of c "uses (cbs p)"] c(5) h by simp
  have a: "fst (abstract_prog p) ! i = Some (closure_of c)" "snd (abstract_prog p) = calls p"
    using c(1,2) by (simp_all add: abstract_prog_def)
  have run: "run_unless_null c = Inr (as_call (closure_of c))"
    using c(4) by (cases "bind_state c") (simp_all add: run_unless_null_def is_null_def Callback_Run_def as_call_def)
  have f: "?f a + of_bool (points_to a (cbs p ! i)) = uses (cbs p) a" for a using c(2,5) by auto
  have gone: "cb_inv (cb_put i None (heap_of ?f) p)"
    "abstract_prog (cb_put i None (heap_of ?f) p) = ((fst (abstract_prog p))[i := None], calls p)"
    using put_inv [OF inv c(1), of None ?f] f by simp_all
  have null: "cb_inv (cb_put i (Some ?c) (heap_of ?f) p)"
    "abstract_prog (cb_put i (Some ?c) (heap_of ?f) p) = ((fst (abstract_prog p))[i := Some None], calls p)"
    using put_inv [OF inv c(1), of "Some ?c" ?f] f by simp_all
  consider (reset) "op = CbReset i" | (destroy) "op = CbDestroy i" | (run) "op = CbRun i"
    | (run_reset) "op = RnRunAndReset i" | (last) "op = RnDestroy i" using op by blast
  then show "\<exists>p'. cb_do op p = Inr p' \<and> cb_inv p' \<and> abstract_prog p' = t"
  proof cases
    case reset
    then show ?thesis using abs v c(3) rel null a by (simp add: Callback_Reset_def abstract_slots)
  next
    case destroy
    then show ?thesis using abs v c(3) rel gone a by (simp add: Callback_destroy_def abstract_slots)
  next
    case run
    then have "bind_state c \<noteq> None" using abs a by (cases "bind_state c") (auto split: if_splits)
    then have "cb_do op p = Inr (p\<lparr>calls := calls p @ as_call (closure_of c)\<rparr>)"
      using \<open>op = CbRun i\<close> c(3,4) by (auto simp: Callback_Run_def as_call_def)
    then show ?thesis using abs \<open>op = CbRun i\<close> a inv_calls(1) [OF inv] by (auto simp: inv_calls(2) split: if_splits)
  next
    case run_reset
    then have "cb_do op p = Inr ((cb_put i (Some ?c) (heap_of ?f) p)\<lparr>calls := calls p @ as_call (closure_of c)\<rparr>)"
      using c(3) rr run rel by (simp add: RunAndReset_def Callback_destroy_def)
    then show ?thesis using abs v run_reset a null by (simp add: abstract_slots inv_calls)
  next
    case last
    then have "cb_do op p = Inr ((cb_put i None (heap_of ?f) p)\<lparr>calls := calls p @ as_call (closure_of c)\<rparr>)"
      using c(3) run rel by (simp add: Runner_destroy_def Callback_destroy_def)
    then show ?thesis using abs v last a gone by (simp add: abstract_slots inv_calls)
  qed
qed

lemma refines_copy:
  assumes inv: "cb_inv p"
  shows "refines (CbCopy i j) p" "refines (CbNull i) p"
proof -
  show "refines (CbCopy i j) p"
    unfolding refines_def
  proof (intro allI impI)
    fix t assume abs: "closure_do (CbCopy i j) (abstract_prog p) = Some t"
    then have v: "vacant i (cbs p)" "occupied j (cbs p)" by (auto simp: abstract_slots split: if_splits)
    obtain c where c: "j < length (cbs p)" "cbs p ! j = Some c" "cb_at j p = Inr c" "bind_state c \<noteq> None \<longrightarrow> invoke c \<noteq> 0"
      "\<forall>a. bind_state c = Some a \<longrightarrow> 0 < uses (cbs p) a \<and> uses (cbs p) a + 1 < 2 ^ 32"
      using cb_at_slot [OF inv v(2)] by blast
    let ?f = "\<lambda>a. uses (cbs p) a + of_bool (bind_state c = Some a)"
    have "Callback_copy c (states p) = Inr (c, heap_of ?f)"
      using Callback_copy_heap [of c "uses (cbs p)"] c(5) heap_inv [OF inv] by simp
    moreover have "fst (abstract_prog p) ! j = Some (closure_of c)" "snd (abstract_prog p) = calls p"
      using c(1,2) by (simp_all add: abstract_prog_def)
    ultimately show "\<exists>p'. cb_do (CbCopy i j) p = Inr p' \<and> cb_inv p' \<and> abstract_prog p' = t"
      using put_inv [OF inv, of i "Some c" ?f] v c abs by (auto simp: vacant_def abstract_slots split: if_splits)
  qed
  show "refines (CbNull i) p"
    using put_inv [OF inv, of i "Some Callback_null" "uses (cbs p)"] heap_inv [OF inv]
    by (auto simp: refines_def abstract_slots vacant_def Callback_null_def abstract_prog_def split: if_splits)
qed

lemma refines_assign:
  assumes inv: "cb_inv p"
  shows "refines (CbAssign i j) p"
  unfolding refines_def
proof (intro allI impI)
  fix t assume abs: "closure_do (CbAssign i j) (abstract_prog p) = Some t"
  then have v: "occupied i (cbs p)" "occupied j (cbs p)" by (auto simp: abstract_slots split: if_splits)
  obtain c where c: "j < length (cbs p)" "cbs p ! j = Some c" "cb_at j p = Inr c" "bind_state c \<noteq> None \<longrightarrow> invoke c \<noteq> 0"
    "\<forall>a. bind_state c = Some a \<longrightarrow> 0 < uses (cbs p) a \<and> uses (cbs p) a + 1 < 2 ^ 32"
    using cb_at_slot [OF inv v(2)] by blast
  obtain d where d: "i < length (cbs p)" "cbs p ! i = Some d" "cb_at i p = Inr d"
    "\<forall>a. bind_state d = Some a \<longrightarrow> 0 < uses (cbs p) a \<and> uses (cbs p) a + 1 < 2 ^ 32"
    using cb_at_slot [OF inv v(1)] by blast
  let ?g = "\<lambda>a. uses (cbs p) a + of_bool (bind_state c = Some a)"
  let ?f = "\<lambda>a. ?g a - of_bool (bind_state d = Some a)"
  have "state_AddRef (bind_state c) (states p) = Inr (heap_of ?g)"
    using state_AddRef_heap [of "bind_state c" "uses (cbs p)"] c(5) heap_inv [OF inv] by simp
  moreover have "state_Release (bind_state d) (heap_of ?g) = Inr (heap_of ?f)"
  proof (rule state_Release_heap)
    fix a assume "bind_state d = Some a"
    then show "0 < ?g a \<and> ?g a < 2 ^ 32" using d(4) by auto
  qed
  ultimately have run: "cb_do (CbAssign i j) p = Inr (cb_put i (Some c) (heap_of ?f) p)"
    using c(3) d(3) by (simp add: Callback_assign_def)
  have "?f a + of_bool (points_to a (cbs p ! i)) = uses (cbs p) a + of_bool (points_to a (Some c))" for a
    using d(2,4) by auto
  moreover have "fst (abstract_prog p) ! j = Some (closure_of c)" "snd (abstract_prog p) = calls p"
    using c(1,2) by (simp_all add: abstract_prog_def)
  ultimately show "\<exists>p'. cb_do (CbAssign i j) p = Inr p' \<and> cb_inv p' \<and> abstract_prog p' = t"
    using put_inv [OF inv d(1), of "Some c" ?f] v c(4) abs run by (auto simp: abstract_slots split: if_splits)
qed

lemma refines_new:
  assumes inv: "cb_inv p"
  shows "refines (CbNew i a f) p"
  unfolding refines_def
proof (intro allI impI)
  fix t assume abs: "closure_do (CbNew i a f) (abstract_prog p) = Some t"
  then have v: "vacant i (cbs p)" "f \<noteq> 0" and fresh: "\<forall>x\<in>set (fst (abstract_prog p)). \<forall>g. x \<noteq> Some (Some (a, g))"
    and t: "t = ((fst (abstract_prog p))[i := Some (Some (a, f))], snd (abstract_prog p))"
    by (auto simp: abstract_slots split: if_splits)
  have "uses (cbs p) a = 0"
  proof (rule ccontr)
    assume "uses (cbs p) a \<noteq> 0"
    then obtain c where "Some c \<in> set (cbs p)" "bind_state c = Some a"
      by (auto simp: uses_def tally_0 points_to_def)
    then have "Some (closure_of c) \<in> set (fst (abstract_prog p))" "closure_of c = Some (a, invoke c)"
      by (force simp: abstract_prog_def)+
    then show False using fresh by metis
  qed
  let ?f = "\<lambda>b. uses (cbs p) b + of_bool (a = b)"
  let ?c = "\<lparr>bind_state = Some a, invoke = f\<rparr>"
  have "BindState_AddRef a ((states p)(a \<mapsto> 0)) = Inr (heap_of ?f)"
    using heap_inv [OF inv] \<open>uses (cbs p) a = 0\<close>
    by (auto simp: BindState_AddRef_def heap_of_def AtomicRefCountInc_def AtomicRefCountIncN_def NoBarrier_AtomicIncrement_def
        fun_eq_iff)
  moreover have "heap_of ?f a = Some 1" using \<open>uses (cbs p) a = 0\<close> by (simp add: heap_of_def)
  ultimately have "cb_do (CbNew i a f) p = Inr (cb_put i (Some ?c) (heap_of ?f) p)"
    by (simp add: Callback_new_def state_AddRef_def)
  then show "\<exists>p'. cb_do (CbNew i a f) p = Inr p' \<and> cb_inv p' \<and> abstract_prog p' = t"
    using put_inv [OF inv, of i "Some ?c" ?f] v t by (auto simp: vacant_def abstract_prog_def)
qed

lemma cb_do_refines: "cb_inv p \<Longrightarrow> refines op p"
  by (cases op) (simp_all add: refines_new refines_copy refines_move refines_assign refines_move_assign refines_runner_assign
      refines_release [of p "CbResetAndReturn i j" for i j] refines_release [of p "RnMove i j" for i j]
      refines_release [of p "RnRelease i j" for i j] refines_single [of p "CbReset i" for i]
      refines_single [of p "CbRun i" for i] refines_single [of p "CbDestroy i" for i]
      refines_single [of p "RnRunAndReset i" for i] refines_single [of p "RnDestroy i" for i])

interpretation closures: refinement cb_do closure_do abstract_prog cb_inv
  by unfold_locales (use cb_do_refines in \<open>auto simp: refines_def\<close>)

text \<open>Equality of callbacks is that of their closures, whatever function a null one still has.\<close>

lemma EqualsInternal_closure: "EqualsInternal c d \<longleftrightarrow> closure_of c = closure_of d"
  by (cases "bind_state c"; cases "bind_state d") (auto simp: EqualsInternal_def is_null_def)

definition cb_start :: "cb_prog \<Rightarrow> bool" where
  "cb_start p \<longleftrightarrow> states p = (\<lambda>_. None) \<and> list_all (\<lambda>x. x = None) (cbs p) \<and> length (cbs p) < 2 ^ 31"

text \<open>
  C10: callbacks and scoped closure runners refine plain closures.  A program over them, whatever it makes,
  copies, moves, assigns (also to itself), resets, releases, runs and destroys, never faults where the
  abstract program is defined and runs the same closures in the same order: a runner runs what it holds
  exactly once, when it goes or is told to, and never what it passed on.  Every bind state counts the
  callbacks that share it and is freed with the last of them.
\<close>

theorem closures_refine:
  assumes "cb_start p" "opt_run closure_do ops (abstract_prog p) = Some t"
  shows "\<exists>p'. res_run cb_do ops p = Inr p' \<and> abstract_prog p' = t \<and>
    (\<forall>a. states p' a = (if uses (cbs p') a = 0 then None else Some (of_nat (uses (cbs p') a))))"
proof -
  have "uses (cbs p) a = 0" for a using assms(1) by (auto simp: cb_start_def uses_def tally_0 list_all_iff)
  then have "cb_inv p" using assms(1) by (auto simp: cb_start_def cb_inv_def heap_of_def list_all_iff)
  from closures.run_simulates [OF this assms(2)] show ?thesis by (auto simp: cb_inv_def heap_of_def)
qed

theorem closures_refine_witness:
  "\<exists>p'. res_run cb_do [CbNew 0 9 5, CbCopy 1 0, RnMove 2 1, RnAssign 2 2, RnDestroy 1, RnDestroy 2]
     \<lparr>states = (\<lambda>_. None), cbs = [None, None, None], calls = []\<rparr> = Inr p' \<and> calls p' = [(Some 9, 5)]"
proof -
  let ?p = "\<lparr>states = (\<lambda>_. None), cbs = [None, None, None], calls = []\<rparr>"
  let ?ops = "[CbNew 0 9 5, CbCopy 1 0, RnMove 2 1, RnAssign 2 2, RnDestroy 1, RnDestroy 2]"
  let ?t = "([Some (Some (9, 5)), None, None], [(Some 9, 5)])"
  have "opt_run closure_do ?ops (abstract_prog ?p) = Some ?t"
    by (simp add: abstract_prog_def vacant_def occupied_def pass_on_def as_call_def)
  then obtain p' where "res_run cb_do ?ops ?p = Inr p'" "abstract_prog p' = ?t"
    using closures_refine [of ?p ?ops ?t] by (auto simp: cb_start_def)
  then show ?thesis by (auto simp: abstract_prog_def)
qed

end
