(* ===== verification/Scoped.thy ===== *)
theory Scoped
  imports Machine "HOL-Library.Multiset"
begin

text \<open>
  \<open>base/scoped_generic.h\<close>: an object that owns a handle and frees it.  The traits are their invalid value
  \<open>iv\<close>; freeing a handle adds it to a log.  A traits object with a state of its own is not modelled.  What is shown is the conservation of
  handles: whatever is done with the scopes, an acquired handle is with exactly one owner or was freed
  exactly once.
\<close>

section \<open>Operations\<close>

record 'h scoped =
  generic :: 'h

definition Scoped_default :: "'h \<Rightarrow> 'h scoped" where
  "Scoped_default iv = \<lparr>generic = iv\<rparr>"

definition Scoped_of :: "'h \<Rightarrow> 'h scoped" where
  "Scoped_of value = \<lparr>generic = value\<rparr>"

definition FreeIfNecessary :: "'h \<Rightarrow> 'h scoped \<Rightarrow> 'h list \<Rightarrow> 'h scoped \<times> 'h list" where
  "FreeIfNecessary iv s freed =
     (if generic s \<noteq> iv then (s\<lparr>generic := iv\<rparr>, freed @ [generic s]) else (s, freed))"

definition Scoped_destroy :: "'h \<Rightarrow> 'h scoped \<Rightarrow> 'h list \<Rightarrow> 'h list" where
  "Scoped_destroy iv s freed = snd (FreeIfNecessary iv s freed)"

definition scoped_release :: "'h \<Rightarrow> 'h scoped \<Rightarrow> 'h \<times> 'h scoped" where
  "scoped_release iv s = (let old_generic = generic s in (old_generic, s\<lparr>generic := iv\<rparr>))"

definition scoped_reset :: "'h \<Rightarrow> 'h \<Rightarrow> 'h scoped \<Rightarrow> 'h list \<Rightarrow> ('h scoped \<times> 'h list) res" where
  "scoped_reset iv value s freed =
     (if generic s \<noteq> iv \<and> generic s = value then Inl CheckFailed
      else let (s, freed) = FreeIfNecessary iv s freed in Inr (s\<lparr>generic := value\<rparr>, freed))"

definition scoped_get :: "'h scoped \<Rightarrow> 'h" where
  "scoped_get s = generic s"

definition scoped_is_valid :: "'h \<Rightarrow> 'h scoped \<Rightarrow> bool" where
  "scoped_is_valid iv s \<longleftrightarrow> generic s \<noteq> iv"

definition scoped_eq :: "'h scoped \<Rightarrow> 'h \<Rightarrow> bool" where
  "scoped_eq s value \<longleftrightarrow> generic s = value"

definition scoped_ne :: "'h scoped \<Rightarrow> 'h \<Rightarrow> bool" where
  "scoped_ne s value \<longleftrightarrow> generic s \<noteq> value"

definition scoped_swap :: "'h scoped \<Rightarrow> 'h scoped \<Rightarrow> 'h scoped \<times> 'h scoped" where
  "scoped_swap s other = (s\<lparr>generic := generic other\<rparr>, other\<lparr>generic := generic s\<rparr>)"

section \<open>A program with scopes\<close>

text \<open>
  Scopes live in slots, empty ones being absent.  \<open>acquired\<close> are all handles the program ever got, \<open>loose\<close>
  those it holds itself, and \<open>freed\<close> the log.
\<close>

record 'h scopes =
  slots :: "'h scoped option list"
  acquired :: "'h list"
  loose :: "'h multiset"
  freed :: "'h list"

datatype 'h scope_op =
  SgAcquire 'h | SgNew nat 'h | SgDefault nat | SgMoveNew nat nat | SgMoveAssign nat nat
  | SgReset nat 'h | SgRelease nat | SgSwap nat nat | SgDestroy nat

definition slot :: "nat \<Rightarrow> 'h scopes \<Rightarrow> 'h scoped res" where
  "slot i p = bind_res (array_get (slots p) i) (\<lambda>x. case x of None \<Rightarrow> Inl OutOfBounds | Some s \<Rightarrow> Inr s)"

definition put :: "nat \<Rightarrow> 'h scoped option \<Rightarrow> 'h scopes \<Rightarrow> 'h scopes" where
  "put i x p = p\<lparr>slots := (slots p)[i := x]\<rparr>"

definition empty_slot :: "nat \<Rightarrow> 'h scopes \<Rightarrow> unit res" where
  "empty_slot i p = bind_res (array_get (slots p) i) (\<lambda>x. if x = None then Inr () else Inl OutOfBounds)"

text \<open>The program hands a scope only handles it holds.\<close>

definition give :: "'h \<Rightarrow> 'h \<Rightarrow> 'h scopes \<Rightarrow> 'h scopes res" where
  "give iv v p = (if v = iv then Inr p else if v \<in># loose p then Inr (p\<lparr>loose := loose p - {#v#}\<rparr>) else Inl InvalidValue)"

fun scope_do :: "'h \<Rightarrow> 'h scope_op \<Rightarrow> 'h scopes \<Rightarrow> 'h scopes res" where
  "scope_do iv (SgAcquire v) p =
     (if v = iv then Inr p else Inr (p\<lparr>acquired := acquired p @ [v], loose := add_mset v (loose p)\<rparr>))"
| "scope_do iv (SgNew i v) p =
     bind_res (empty_slot i p) (\<lambda>_. bind_res (give iv v p) (\<lambda>p. Inr (put i (Some (Scoped_of v)) p)))"
| "scope_do iv (SgDefault i) p = bind_res (empty_slot i p) (\<lambda>_. Inr (put i (Some (Scoped_default iv)) p))"
| "scope_do iv (SgMoveNew i j) p =
     bind_res (empty_slot i p) (\<lambda>_. bind_res (slot j p) (\<lambda>rvalue.
       let (v, rvalue) = scoped_release iv rvalue in Inr (put i (Some (Scoped_of v)) (put j (Some rvalue) p))))"
| "scope_do iv (SgMoveAssign i j) p =
     bind_res (slot j p) (\<lambda>rvalue.
       let (v, rvalue) = scoped_release iv rvalue; p = put j (Some rvalue) p
       in bind_res (slot i p) (\<lambda>s. bind_res (scoped_reset iv v s (freed p)) (\<lambda>(s, fr).
            Inr (put i (Some s) (p\<lparr>freed := fr\<rparr>)))))"
| "scope_do iv (SgReset i v) p =
     bind_res (slot i p) (\<lambda>s. bind_res (give iv v p) (\<lambda>p. bind_res (scoped_reset iv v s (freed p)) (\<lambda>(s, fr).
       Inr (put i (Some s) (p\<lparr>freed := fr\<rparr>)))))"
| "scope_do iv (SgRelease i) p =
     bind_res (slot i p) (\<lambda>s. let (v, s) = scoped_release iv s
       in Inr (put i (Some s) (if v = iv then p else p\<lparr>loose := add_mset v (loose p)\<rparr>)))"
| "scope_do iv (SgSwap i j) p =
     bind_res (slot i p) (\<lambda>a. bind_res (slot j p) (\<lambda>b.
       let (a, b) = scoped_swap a b in Inr (put j (Some b) (put i (Some a) p))))"
| "scope_do iv (SgDestroy i) p =
     bind_res (slot i p) (\<lambda>s. Inr (put i None (p\<lparr>freed := Scoped_destroy iv s (freed p)\<rparr>)))"

inductive scope_step :: "'h \<Rightarrow> 'h scopes \<Rightarrow> 'h scopes \<Rightarrow> bool" for iv where
  "scope_do iv a p = Inr p' \<Longrightarrow> scope_step iv p p'"

section \<open>Conservation\<close>

definition held :: "'h \<Rightarrow> 'h scoped option \<Rightarrow> 'h multiset" where
  "held iv x = (case x of None \<Rightarrow> {#} | Some s \<Rightarrow> if generic s = iv then {#} else {#generic s#})"

definition all_held :: "'h \<Rightarrow> 'h scoped option list \<Rightarrow> 'h multiset" where
  "all_held iv xs = sum_list (map (held iv) xs)"

definition scope_inv :: "'h \<Rightarrow> 'h scopes \<Rightarrow> bool" where
  "scope_inv iv p \<longleftrightarrow> mset (acquired p) = all_held iv (slots p) + loose p + mset (freed p)"

definition scope_start :: "'h scopes \<Rightarrow> bool" where
  "scope_start p \<longleftrightarrow> list_all (\<lambda>x. x = None) (slots p) \<and> acquired p = [] \<and> loose p = {#} \<and> freed p = []"

lemma all_held_update:
  "i < length xs \<Longrightarrow> all_held iv (xs[i := x]) + held iv (xs ! i) = all_held iv xs + held iv x"
proof (induction xs arbitrary: i)
  case (Cons y ys)
  then show ?case by (cases i) (auto simp: all_held_def ac_simps)
qed simp

lemma slot_Inr: "slot i p = Inr s \<longleftrightarrow> i < length (slots p) \<and> slots p ! i = Some s"
  by (auto simp: slot_def array_get_def split: option.splits)

lemma empty_slot_Inr: "empty_slot i p = Inr u \<longleftrightarrow> i < length (slots p) \<and> slots p ! i = None"
  by (auto simp: empty_slot_def array_get_def)

lemma put_simps [simp]:
  "slots (put i x p) = (slots p)[i := x]" "acquired (put i x p) = acquired p" "loose (put i x p) = loose p"
  "freed (put i x p) = freed p"
  by (simp_all add: put_def)

text \<open>The handles, one at a time.\<close>

lemma count_held [simp]: "count (held iv None) h = 0" "count (held iv (Some s)) h = of_bool (generic s \<noteq> iv \<and> generic s = h)"
  by (auto simp: held_def)

lemma count_update:
  "i < length xs \<Longrightarrow> count (all_held iv (xs[i := x])) h + count (held iv (xs ! i)) h =
   count (all_held iv xs) h + count (held iv x) h"
  using arg_cong [OF all_held_update, of i xs "\<lambda>m. count m h" iv x] by simp

lemma scope_inv_count:
  "scope_inv iv p \<longleftrightarrow> (\<forall>h. count (mset (acquired p)) h =
     count (all_held iv (slots p)) h + count (loose p) h + count (mset (freed p)) h)"
  by (auto simp: scope_inv_def multiset_eq_iff)

lemma put_count:
  "slot i p = Inr s \<Longrightarrow> count (all_held iv (slots (put i x p))) h + of_bool (generic s \<noteq> iv \<and> generic s = h) =
   count (all_held iv (slots p)) h + count (held iv x) h"
  using count_update [of i "slots p" iv x h] by (simp add: slot_Inr)

lemma put_empty_count:
  "empty_slot i p = Inr u \<Longrightarrow> count (all_held iv (slots (put i x p))) h = count (all_held iv (slots p)) h + count (held iv x) h"
  using count_update [of i "slots p" iv x h] by (simp add: empty_slot_Inr)

lemma give_count:
  "give iv v p = Inr p' \<Longrightarrow> slots p' = slots p \<and> acquired p' = acquired p \<and> freed p' = freed p \<and>
   count (loose p) h = count (loose p') h + of_bool (v \<noteq> iv \<and> v = h)"
  by (auto simp: give_def split: if_splits)

lemma reset_count:
  "scoped_reset iv v s fr = Inr (s', fr') \<Longrightarrow> generic s' = v \<and>
   count (mset fr') h = count (mset fr) h + of_bool (generic s \<noteq> iv \<and> generic s = h)"
  by (auto simp: scoped_reset_def FreeIfNecessary_def split: if_splits)

lemma destroy_count:
  "count (mset (Scoped_destroy iv s fr)) h = count (mset fr) h + of_bool (generic s \<noteq> iv \<and> generic s = h)"
  by (simp add: Scoped_destroy_def FreeIfNecessary_def)

text \<open>One handle is balanced when what was acquired of it is held, loose or freed; each operation keeps that.\<close>

abbreviation balanced :: "'h \<Rightarrow> 'h \<Rightarrow> 'h scopes \<Rightarrow> bool" where
  "balanced iv h p \<equiv> count (mset (acquired p)) h = count (all_held iv (slots p)) h + count (loose p) h + count (mset (freed p)) h"

lemma new_balanced:
  assumes "balanced iv h p" "scope_do iv (SgNew i v) p = Inr p'"
  shows "balanced iv h p'"
proof -
  obtain u q where q: "empty_slot i p = Inr u" "give iv v p = Inr q" "p' = put i (Some (Scoped_of v)) q"
    using assms(2) by (auto simp: bind_res_eq_Inr)
  then have "empty_slot i q = Inr u" using give_count [OF q(2)] by (simp add: empty_slot_Inr)
  then show ?thesis using assms(1) q(3) give_count [OF q(2), of h] put_empty_count [of i q u iv "Some (Scoped_of v)" h]
    by (simp add: Scoped_of_def)
qed

lemma reset_balanced:
  assumes "balanced iv h p" "scope_do iv (SgReset i v) p = Inr p'"
  shows "balanced iv h p'"
proof -
  obtain s q s' fr where s: "slot i p = Inr s" "give iv v p = Inr q" "scoped_reset iv v s (freed q) = Inr (s', fr)"
    "p' = put i (Some s') (q\<lparr>freed := fr\<rparr>)"
    using assms(2) by (auto simp: bind_res_eq_Inr)
  then have "slot i (q\<lparr>freed := fr\<rparr>) = Inr s" using give_count [OF s(2)] by (simp add: slot_Inr)
  then show ?thesis using assms(1) s(4) give_count [OF s(2), of h] reset_count [OF s(3), of h]
      put_count [of i "q\<lparr>freed := fr\<rparr>" s iv "Some s'" h] by simp
qed

lemma move_new_balanced:
  assumes "balanced iv h p" "scope_do iv (SgMoveNew i j) p = Inr p'"
  shows "balanced iv h p'"
proof -
  obtain u s where s: "empty_slot i p = Inr u" "slot j p = Inr s"
    "p' = put i (Some (Scoped_of (generic s))) (put j (Some (s\<lparr>generic := iv\<rparr>)) p)"
    using assms(2) by (auto simp: bind_res_eq_Inr scoped_release_def Let_def)
  let ?q = "put j (Some (s\<lparr>generic := iv\<rparr>)) p"
  have "empty_slot i ?q = Inr u" using s(1,2) by (auto simp: empty_slot_Inr slot_Inr nth_list_update)
  then show ?thesis using assms(1) s(3) put_count [OF s(2), of iv "Some (s\<lparr>generic := iv\<rparr>)" h]
      put_empty_count [of i ?q u iv "Some (Scoped_of (generic s))" h] by (simp add: Scoped_of_def)
qed

lemma move_assign_balanced:
  assumes "balanced iv h p" "scope_do iv (SgMoveAssign i j) p = Inr p'"
  shows "balanced iv h p'"
proof -
  obtain s where s: "slot j p = Inr s" using assms(2) by (auto simp: bind_res_eq_Inr)
  let ?q = "put j (Some (s\<lparr>generic := iv\<rparr>)) p"
  obtain t t' fr where t: "slot i ?q = Inr t" "scoped_reset iv (generic s) t (freed p) = Inr (t', fr)"
    "p' = put i (Some t') (?q\<lparr>freed := fr\<rparr>)"
    using assms(2) s by (auto simp: bind_res_eq_Inr scoped_release_def Let_def)
  then have "slot i (?q\<lparr>freed := fr\<rparr>) = Inr t" by (simp add: slot_Inr)
  then show ?thesis using assms(1) t(3) put_count [OF s, of iv "Some (s\<lparr>generic := iv\<rparr>)" h] reset_count [OF t(2), of h]
      put_count [of i "?q\<lparr>freed := fr\<rparr>" t iv "Some t'" h] by simp
qed

lemma swap_balanced:
  assumes "balanced iv h p" "scope_do iv (SgSwap i j) p = Inr p'"
  shows "balanced iv h p'"
proof -
  obtain x y where s: "slot i p = Inr x" "slot j p = Inr y"
    "p' = put j (Some (y\<lparr>generic := generic x\<rparr>)) (put i (Some (x\<lparr>generic := generic y\<rparr>)) p)"
    using assms(2) by (auto simp: bind_res_eq_Inr scoped_swap_def)
  let ?q = "put i (Some (x\<lparr>generic := generic y\<rparr>)) p"
  have "slot j ?q = Inr (if i = j then x\<lparr>generic := generic y\<rparr> else y)"
    using s(1,2) by (auto simp: slot_Inr nth_list_update)
  then show ?thesis using assms(1) s put_count [OF s(1), of iv "Some (x\<lparr>generic := generic y\<rparr>)" h]
      put_count [of j ?q _ iv "Some (y\<lparr>generic := generic x\<rparr>)" h] by (auto split: if_splits)
qed

lemma scope_do_balanced:
  assumes "balanced iv h p" "scope_do iv a p = Inr p'"
  shows "balanced iv h p'"
proof (cases a)
  case (SgAcquire v)
  then show ?thesis using assms by (auto split: if_splits)
next
  case (SgDefault i)
  then obtain u where "empty_slot i p = Inr u" "p' = put i (Some (Scoped_default iv)) p"
    using assms(2) by (auto simp: bind_res_eq_Inr)
  then show ?thesis using assms(1) put_empty_count [of i p u iv "Some (Scoped_default iv)" h] by (simp add: Scoped_default_def)
next
  case (SgRelease i)
  then obtain s where s: "slot i p = Inr s"
    "p' = put i (Some (s\<lparr>generic := iv\<rparr>)) (if generic s = iv then p else p\<lparr>loose := add_mset (generic s) (loose p)\<rparr>)"
    using assms(2) by (auto simp: bind_res_eq_Inr scoped_release_def Let_def)
  then show ?thesis using assms(1) put_count [OF s(1), of iv "Some (s\<lparr>generic := iv\<rparr>)" h] by (auto split: if_splits)
next
  case (SgDestroy i)
  then obtain s where s: "slot i p = Inr s" "p' = put i None (p\<lparr>freed := Scoped_destroy iv s (freed p)\<rparr>)"
    using assms(2) by (auto simp: bind_res_eq_Inr)
  then have "slot i (p\<lparr>freed := Scoped_destroy iv s (freed p)\<rparr>) = Inr s" by (simp add: slot_Inr)
  then show ?thesis using assms(1) s(2) destroy_count [of iv s "freed p" h]
      put_count [of i "p\<lparr>freed := Scoped_destroy iv s (freed p)\<rparr>" s iv None h] by simp
next
  case (SgNew i v)
  from new_balanced [OF assms(1) assms(2) [unfolded SgNew]] show ?thesis .
next
  case (SgReset i v)
  from reset_balanced [OF assms(1) assms(2) [unfolded SgReset]] show ?thesis .
next
  case (SgMoveNew i j)
  from move_new_balanced [OF assms(1) assms(2) [unfolded SgMoveNew]] show ?thesis .
next
  case (SgMoveAssign i j)
  from move_assign_balanced [OF assms(1) assms(2) [unfolded SgMoveAssign]] show ?thesis .
next
  case (SgSwap i j)
  from swap_balanced [OF assms(1) assms(2) [unfolded SgSwap]] show ?thesis .
qed

lemma scope_do_inv:
  assumes "scope_inv iv p" "scope_do iv a p = Inr p'"
  shows "scope_inv iv p'"
  unfolding scope_inv_count
proof
  fix h
  from assms(1) [unfolded scope_inv_count, rule_format, of h] assms(2) show "balanced iv h p'"
    by (rule scope_do_balanced)
qed

lemma all_held_none: "list_all (\<lambda>x. x = None) xs \<Longrightarrow> all_held iv xs = {#}"
  by (induction xs) (auto simp: all_held_def held_def)

lemma scope_start_inv: "scope_start p \<Longrightarrow> scope_inv iv p"
  by (simp add: scope_start_def scope_inv_def all_held_none)

interpretation scopes: machine scope_start "scope_step iv" "scope_inv iv" for iv
  by unfold_locales (auto elim: scope_step.cases intro: scope_start_inv scope_do_inv)

text \<open>
  C11: the handles are conserved.  Whatever a program does with its scopes, constructing, moving, assigning,
  resetting, releasing, swapping and destroying them, every handle it acquired is owned by exactly one
  scope, held by the program itself, or was freed exactly once; when every scope is destroyed and the
  program holds nothing, each acquired handle was freed exactly as often as it was acquired.
\<close>

theorem scopes_free_once:
  assumes "scope_start s" "rtranclp (scope_step iv) s p"
  shows "mset (acquired p) = all_held iv (slots p) + loose p + mset (freed p) \<and>
    (list_all (\<lambda>x. x = None) (slots p) \<and> loose p = {#} \<longrightarrow> mset (freed p) = mset (acquired p))"
  using scopes.reachable_inv [OF assms] by (simp add: scope_inv_def all_held_none)

theorem scopes_free_once_witness:
  "\<exists>s p. scope_start s \<and> rtranclp (scope_step (- 1 :: int)) s p \<and> acquired p = [3, 4] \<and> mset (freed p) = {#3, 4#}"
proof -
  let ?s = "\<lparr>slots = [None, None], acquired = [], loose = {#}, freed = []\<rparr> :: int scopes"
  define run where "run = foldl (\<lambda>r a. bind_res r (scope_do (- 1) a)) (Inr ?s)"
  have step: "rtranclp (scope_step (- 1)) ?s q" if "run ops = Inr q" for ops q
    using that
  proof (induction ops arbitrary: q rule: rev_induct)
    case (snoc a ops)
    then obtain q' where "run ops = Inr q'" "scope_do (- 1) a q' = Inr q" by (auto simp: run_def bind_res_eq_Inr)
    then show ?case using snoc.IH scope_step.intros by (meson rtranclp.rtrancl_into_rtrancl)
  qed (simp add: run_def)
  let ?p = "\<lparr>slots = [None, None], acquired = [3, 4], loose = {#}, freed = [3, 4]\<rparr> :: int scopes"
  have "run [SgAcquire 3, SgNew 0 3, SgAcquire 4, SgNew 1 4, SgSwap 0 1, SgMoveAssign 1 0, SgDestroy 0, SgDestroy 1] = Inr ?p"
    by (simp add: run_def empty_slot_def give_def put_def slot_def scoped_release_def scoped_reset_def FreeIfNecessary_def
        Scoped_destroy_def Scoped_of_def scoped_swap_def array_get_def)
  from step [OF this] have r: "rtranclp (scope_step (- 1)) ?s ?p" .
  have st: "scope_start ?s" by (simp add: scope_start_def)
  from scopes_free_once [OF st r] show ?thesis using st r by (intro exI [of _ ?s] exI [of _ ?p]) simp
qed

section \<open>The remaining members\<close>

text \<open>Traits without a state are one value; a scope made with them is a scope of the value.\<close>

definition Scoped_with_traits :: "'h \<Rightarrow> unit \<Rightarrow> 'h scoped" where
  "Scoped_with_traits value traits = \<lparr>generic = value\<rparr>"

definition value_eq_scoped :: "'h \<Rightarrow> 'h scoped \<Rightarrow> bool" where
  "value_eq_scoped value s \<longleftrightarrow> value = scoped_get s"

definition value_ne_scoped :: "'h \<Rightarrow> 'h scoped \<Rightarrow> bool" where
  "value_ne_scoped value s \<longleftrightarrow> value \<noteq> scoped_get s"

lemma comparisons_symmetric:
  "value_eq_scoped v s = scoped_eq s v" "value_ne_scoped v s = scoped_ne s v" "scoped_ne s v \<longleftrightarrow> \<not> scoped_eq s v"
  "Scoped_with_traits v t = Scoped_of v"
  by (auto simp: value_eq_scoped_def value_ne_scoped_def scoped_eq_def scoped_ne_def scoped_get_def Scoped_with_traits_def Scoped_of_def)

end
