(* ===== verification/Numbers.thy ===== *)
theory Numbers
  imports Prelude Ascii StringPiece
begin

text \<open>
  The checked parsers of \<open>base/numbers.cc\<close>: \<open>safe_parse_sign_and_base\<close>, the two digit loops and
  the \<open>safe_strto*_base\<close> entry points.  The integer type a template is instantiated at is a value
  of \<open>int_type\<close>; \<open>arith\<close> is its arithmetic, which faults on signed overflow and wraps on unsigned
  overflow, so the theorems show that the guards of the loops are exact.  The reference parser
  \<open>ref_parse\<close> works on the characters in view and on unbounded integers.
\<close>

section \<open>The integer types\<close>

datatype int_type = Int32 | Int64 | UInt32 | UInt64

fun vmin_of :: "int_type \<Rightarrow> int" where
  "vmin_of Int32 = int32_min" | "vmin_of Int64 = int64_min"
| "vmin_of UInt32 = 0" | "vmin_of UInt64 = 0"

fun vmax_of :: "int_type \<Rightarrow> int" where
  "vmax_of Int32 = int32_max" | "vmax_of Int64 = int64_max"
| "vmax_of UInt32 = uint32_max" | "vmax_of UInt64 = uint64_max"

fun is_signed :: "int_type \<Rightarrow> bool" where
  "is_signed Int32 = True" | "is_signed Int64 = True"
| "is_signed UInt32 = False" | "is_signed UInt64 = False"

definition arith :: "int_type \<Rightarrow> int \<Rightarrow> int res" where
  "arith k x =
     (if is_signed k then checked (vmin_of k) (vmax_of k) x else Inr (x mod (vmax_of k + 1)))"

section \<open>The parsers\<close>

definition kAsciiToInt :: "int list" where
  "kAsciiToInt =
     replicate 48 36 @ [0, 1, 2, 3, 4, 5, 6, 7, 8, 9] @ replicate 7 36 @
     [10, 11, 12, 13, 14, 15, 16, 17, 18, 19, 20, 21, 22, 23, 24, 25,
      26, 27, 28, 29, 30, 31, 32, 33, 34, 35] @ replicate 6 36 @
     [10, 11, 12, 13, 14, 15, 16, 17, 18, 19, 20, 21, 22, 23, 24, 25,
      26, 27, 28, 29, 30, 31, 32, 33, 34, 35] @ replicate 5 36 @ replicate 128 36"

definition digit_of :: "char \<Rightarrow> int" where
  "digit_of c = kAsciiToInt ! unat (uchar c)"

function skip_space :: "string_piece \<Rightarrow> size_t \<Rightarrow> size_t \<Rightarrow> size_t res" where
  "skip_space text start stop =
     (if start < stop
      then bind_res (piece_at text start) (\<lambda>c.
             if ascii_isspace (uchar c) then skip_space text (start + 1) stop else Inr start)
      else Inr start)"
  by pat_completeness auto
termination by (relation "measure (\<lambda>(t, i, j). j - i)") auto

function skip_space_back :: "string_piece \<Rightarrow> size_t \<Rightarrow> size_t \<Rightarrow> size_t res" where
  "skip_space_back text start stop =
     (if start < stop
      then bind_res (piece_at text (stop - 1)) (\<lambda>c.
             if ascii_isspace (uchar c) then skip_space_back text start (stop - 1) else Inr stop)
      else Inr stop)"
  by pat_completeness auto
termination by (relation "measure (\<lambda>(t, i, j). j - i)") auto

declare skip_space.simps [simp del] skip_space_back.simps [simp del]

definition hex_prefix :: "string_piece \<Rightarrow> size_t \<Rightarrow> size_t \<Rightarrow> bool res" where
  "hex_prefix text start stop =
     (if stop - start \<ge> 2
      then bind_res (piece_at text start) (\<lambda>a.
             if a = CHR ''0''
             then bind_res (piece_at text (start + 1)) (\<lambda>b. Inr (b = CHR ''x'' \<or> b = CHR ''X''))
             else Inr False)
      else Inr False)"

definition set_range :: "string_piece \<Rightarrow> size_t \<Rightarrow> size_t \<Rightarrow> string_piece" where
  "set_range text start stop = text\<lparr>ptr := ptr text + start, plen := stop - start\<rparr>"

text \<open>\<open>None\<close> when the code answers false; otherwise the narrowed text, the base and the sign.\<close>

definition safe_parse_sign_and_base ::
  "string_piece \<Rightarrow> int \<Rightarrow> (string_piece \<times> int \<times> bool) option res" where
  "safe_parse_sign_and_base text base =
     bind_res (skip_space text 0 (plen text)) (\<lambda>start.
     bind_res (skip_space_back text start (plen text)) (\<lambda>stop.
     if start \<ge> stop then Inr None
     else bind_res (piece_at text start) (\<lambda>c.
       let negative = (c = CHR ''-''); has_sign = (negative \<or> c = CHR ''+'');
           start = (if has_sign then start + 1 else start)
       in if has_sign \<and> start \<ge> stop then Inr None
          else if base = 0 then
            bind_res (hex_prefix text start stop) (\<lambda>hex.
              if hex then
                (if start + 2 \<ge> stop then Inr None
                 else Inr (Some (set_range text (start + 2) stop, 16, negative)))
              else bind_res (piece_at text start) (\<lambda>z.
                if stop - start \<ge> 1 \<and> z = CHR ''0''
                then Inr (Some (set_range text (start + 1) stop, 8, negative))
                else Inr (Some (set_range text start stop, 10, negative))))
          else if base = 16 then
            bind_res (hex_prefix text start stop) (\<lambda>hex.
              if hex then
                (if start + 2 \<ge> stop then Inr None
                 else Inr (Some (set_range text (start + 2) stop, 16, negative)))
              else Inr (Some (set_range text start stop, 16, negative)))
          else if base \<ge> 2 \<and> base \<le> 36 then Inr (Some (set_range text start stop, base, negative))
          else Inr None)))"

text \<open>The loops return the code's answer and the value stored through \<open>value_p\<close>.\<close>

function positive_loop ::
  "int_type \<Rightarrow> int \<Rightarrow> int \<Rightarrow> string_piece \<Rightarrow> size_t \<Rightarrow> int \<Rightarrow> (bool \<times> int) res" where
  "positive_loop k vmax_over_base base text i value =
     (if i < plen text then
        bind_res (piece_at text i) (\<lambda>c.
          let digit = digit_of c in
          if digit \<ge> base then Inr (False, value)
          else if value > vmax_over_base then Inr (False, vmax_of k)
          else bind_res (arith k (value * base)) (\<lambda>value.
               bind_res (arith k (vmax_of k - digit)) (\<lambda>m.
               if value > m then Inr (False, vmax_of k)
               else bind_res (arith k (value + digit)) (\<lambda>value.
                    positive_loop k vmax_over_base base text (i + 1) value))))
      else Inr (True, value))"
  by pat_completeness auto
termination by (relation "measure (\<lambda>(k, m, b, t, i, v). plen t - i)") auto

function negative_loop ::
  "int_type \<Rightarrow> int \<Rightarrow> int \<Rightarrow> string_piece \<Rightarrow> size_t \<Rightarrow> int \<Rightarrow> (bool \<times> int) res" where
  "negative_loop k vmin_over_base base text i value =
     (if i < plen text then
        bind_res (piece_at text i) (\<lambda>c.
          let digit = digit_of c in
          if digit \<ge> base then Inr (False, value)
          else if value < vmin_over_base then Inr (False, vmin_of k)
          else bind_res (arith k (value * base)) (\<lambda>value.
               bind_res (arith k (vmin_of k + digit)) (\<lambda>m.
               if value < m then Inr (False, vmin_of k)
               else bind_res (arith k (value - digit)) (\<lambda>value.
                    negative_loop k vmin_over_base base text (i + 1) value))))
      else Inr (True, value))"
  by pat_completeness auto
termination by (relation "measure (\<lambda>(k, m, b, t, i, v). plen t - i)") auto

declare positive_loop.simps [simp del] negative_loop.simps [simp del]

definition safe_parse_positive_int :: "int_type \<Rightarrow> string_piece \<Rightarrow> int \<Rightarrow> (bool \<times> int) res" where
  "safe_parse_positive_int k text base =
     bind_res (check (vmax_of k > 0)) (\<lambda>_. positive_loop k (vmax_of k sdiv base) base text 0 0)"

definition safe_parse_negative_int :: "int_type \<Rightarrow> string_piece \<Rightarrow> int \<Rightarrow> (bool \<times> int) res" where
  "safe_parse_negative_int k text base =
     bind_res (check (vmin_of k < 0)) (\<lambda>_. bind_res (check (vmin_of k \<le> 0 - base)) (\<lambda>_.
       let vmin_over_base = vmin_of k sdiv base;
           vmin_over_base = (if vmin_of k smod base > 0 then vmin_over_base + 1 else vmin_over_base)
       in negative_loop k vmin_over_base base text 0 0))"

definition safe_int_internal :: "int_type \<Rightarrow> string_piece \<Rightarrow> int \<Rightarrow> (bool \<times> int) res" where
  "safe_int_internal k text base =
     bind_res (safe_parse_sign_and_base text base) (\<lambda>r. case r of
       None \<Rightarrow> Inr (False, 0)
     | Some (text, base, negative) \<Rightarrow>
         if \<not> negative then safe_parse_positive_int k text base
         else safe_parse_negative_int k text base)"

definition safe_uint_internal :: "int_type \<Rightarrow> string_piece \<Rightarrow> int \<Rightarrow> (bool \<times> int) res" where
  "safe_uint_internal k text base =
     bind_res (safe_parse_sign_and_base text base) (\<lambda>r. case r of
       None \<Rightarrow> Inr (False, 0)
     | Some (text, base, negative) \<Rightarrow>
         if negative then Inr (False, 0) else safe_parse_positive_int k text base)"

definition safe_strto32_base :: "string_piece \<Rightarrow> int \<Rightarrow> (bool \<times> int) res" where
  "safe_strto32_base text base = safe_int_internal Int32 text base"

definition safe_strto64_base :: "string_piece \<Rightarrow> int \<Rightarrow> (bool \<times> int) res" where
  "safe_strto64_base text base = safe_int_internal Int64 text base"

definition safe_strtou32_base :: "string_piece \<Rightarrow> int \<Rightarrow> (bool \<times> int) res" where
  "safe_strtou32_base text base = safe_uint_internal UInt32 text base"

definition safe_strtou64_base :: "string_piece \<Rightarrow> int \<Rightarrow> (bool \<times> int) res" where
  "safe_strtou64_base text base = safe_uint_internal UInt64 text base"

definition safe_strtosize_t_base :: "string_piece \<Rightarrow> int \<Rightarrow> (bool \<times> int) res" where
  "safe_strtosize_t_base text base = safe_uint_internal UInt64 text base"

definition safe_strto32 :: "string_piece \<Rightarrow> (bool \<times> int) res" where
  "safe_strto32 text = safe_strto32_base text 10"

definition safe_strto64 :: "string_piece \<Rightarrow> (bool \<times> int) res" where
  "safe_strto64 text = safe_strto64_base text 10"

definition safe_strtou32 :: "string_piece \<Rightarrow> (bool \<times> int) res" where
  "safe_strtou32 text = safe_strtou32_base text 10"

definition safe_strtou64 :: "string_piece \<Rightarrow> (bool \<times> int) res" where
  "safe_strtou64 text = safe_strtou64_base text 10"

text \<open>
  \<open>StringAsValue\<close> at a type of \<open>w\<close> bits: it parses at 32 or at 64 bits and converts the result to the
  type, whatever the answer; \<open>static_cast\<close> to fewer bits keeps the low ones.
\<close>

definition cast_to :: "bool \<Rightarrow> nat \<Rightarrow> int \<Rightarrow> int" where
  "cast_to sgned w x = (if sgned then signed_take_bit (w - 1) x else take_bit w x)"

definition StringAsValue :: "bool \<Rightarrow> nat \<Rightarrow> string \<Rightarrow> (bool \<times> int) res" where
  "StringAsValue sgned w str =
     bind_res (if sgned then (if w \<le> 32 then safe_strto32 (piece_of_string str)
                            else safe_strto64 (piece_of_string str))
               else (if w \<le> 32 then safe_strtou32 (piece_of_string str)
                     else safe_strtou64 (piece_of_string str)))
       (\<lambda>(ret, v). Inr (ret, cast_to sgned w v))"

section \<open>The reference parser\<close>

definition trim_space :: "string \<Rightarrow> string" where
  "trim_space s = (let sp = (\<lambda>c. ascii_isspace (uchar c))
                   in rev (dropWhile sp (rev (dropWhile sp s))))"

fun ref_sign :: "string \<Rightarrow> string \<times> bool" where
  "ref_sign [] = ([], False)"
| "ref_sign (c # s) = (if c = CHR ''-'' then (s, True) else if c = CHR ''+'' then (s, False)
                       else (c # s, False))"

fun has_0x :: "string \<Rightarrow> bool" where
  "has_0x (a # b # t) = (a = CHR ''0'' \<and> (b = CHR ''x'' \<or> b = CHR ''X''))"
| "has_0x _ = False"

text \<open>The digits and the base, when there is something to parse.\<close>

definition ref_base :: "string \<Rightarrow> int \<Rightarrow> (string \<times> int) option" where
  "ref_base s base =
     (if s = [] then None
      else if (base = 0 \<or> base = 16) \<and> has_0x s
        then (if length s = 2 then None else Some (drop 2 s, 16))
      else if base = 0 then (if hd s = CHR ''0'' then Some (tl s, 8) else Some (s, 10))
      else if 2 \<le> base \<and> base \<le> 36 then Some (s, base)
      else None)"

text \<open>The digits read with exact arithmetic: stop at a foreign character or past the bound.\<close>

fun ref_digits :: "int \<Rightarrow> int \<Rightarrow> int \<Rightarrow> string \<Rightarrow> bool \<times> int" where
  "ref_digits bound base v [] = (True, v)"
| "ref_digits bound base v (c # s) =
     (if digit_of c \<ge> base then (False, v)
      else if v * base + digit_of c > bound then (False, bound)
      else ref_digits bound base (v * base + digit_of c) s)"

definition ref_parse :: "int_type \<Rightarrow> string \<Rightarrow> int \<Rightarrow> bool \<times> int" where
  "ref_parse k s base =
     (let (t, negative) = ref_sign (trim_space s) in
      case ref_base t base of
        None \<Rightarrow> (False, 0)
      | Some (ds, b) \<Rightarrow>
          if \<not> negative then ref_digits (vmax_of k) b 0 ds
          else if is_signed k then (let (ok, v) = ref_digits (- vmin_of k) b 0 ds in (ok, - v))
          else (False, 0))"

section \<open>The digit loops are exact\<close>

lemma digit_of_bounds: "0 \<le> digit_of c \<and> digit_of c \<le> 36"
proof -
  have "list_all (\<lambda>d. 0 \<le> d \<and> d \<le> 36) kAsciiToInt" "length kAsciiToInt = 256"
    by (simp_all add: kAsciiToInt_def list_all_iff)
  then show ?thesis
    using unat_byte_lt [of "uchar c"] unfolding digit_of_def list_all_length by metis
qed

lemma range_facts:
  "vmin_of k \<le> 0" "36 < vmax_of k" "0 < vmax_of k" "vmin_of k \<le> vmax_of k"
  "is_signed k \<Longrightarrow> vmin_of k < - 36" "\<not> is_signed k \<Longrightarrow> vmin_of k = 0"
  by (cases k; simp add: int_limits)+

lemma arith_in: "vmin_of k \<le> x \<Longrightarrow> x \<le> vmax_of k \<Longrightarrow> arith k x = Inr x"
  by (cases "is_signed k") (simp_all add: arith_def checked_def in_range_def range_facts)

lemma guard_exact:
  fixes v b m :: int
  assumes "0 < b" "0 \<le> d"
  shows "m div b < v \<Longrightarrow> m < v * b + d" and "v \<le> m div b \<Longrightarrow> v * b \<le> m"
proof -
  have m: "m = m div b * b + m mod b" "0 \<le> m mod b" "m mod b < b" using assms by simp_all
  show "m < v * b + d" if "m div b < v"
  proof -
    have "(m div b + 1) * b \<le> v * b" using that assms(1) by (intro mult_right_mono) simp_all
    moreover have "(m div b + 1) * b = m div b * b + b" by (simp add: distrib_right)
    ultimately show ?thesis using m assms(2) by linarith
  qed
  show "v * b \<le> m" if "v \<le> m div b"
  proof -
    have "v * b \<le> m div b * b" using that assms(1) by (intro mult_right_mono) simp_all
    then show ?thesis using m by linarith
  qed
qed

lemma positive_loop_ref:
  assumes "wf_piece text" "2 \<le> base" "base \<le> 36" "0 \<le> v" "v \<le> vmax_of k" "i \<le> plen text"
  shows "positive_loop k (vmax_of k sdiv base) base text i v =
           Inr (ref_digits (vmax_of k) base v (drop i (chars text)))"
  using assms(4-6)
proof (induction "plen text - i" arbitrary: i v)
  case 0
  then show ?case using assms(1) by (subst positive_loop.simps) simp
next
  case (Suc n)
  let ?c = "chars text ! i" let ?m = "vmax_of k"
  have i: "i < plen text" using Suc by simp
  have rest: "drop i (chars text) = ?c # drop (Suc i) (chars text)"
    using i assms(1) by (simp add: drop_eq_Cons_nth)
  have sdiv: "?m sdiv base = ?m div base" using assms(2) by (simp add: sdiv_nonneg less_imp_le range_facts)
  note d = digit_of_bounds [of ?c]
  note g = guard_exact [where b = base and d = "digit_of ?c" and m = ?m and v = v]
  show ?case
  proof (cases "digit_of ?c \<ge> base \<or> ?m div base < v")
    case True
    then show ?thesis
      using g(1) d i assms(1,2) unfolding rest sdiv by (subst positive_loop.simps) auto
  next
    case False
    then have vb: "v * base \<le> ?m" and "0 \<le> v * base" "digit_of ?c \<le> ?m"
      using g(2) assms(2,3) Suc(3) d range_facts(2) [of k] by (auto intro: order_trans)
    then have a: "arith k (v * base) = Inr (v * base)"
      "arith k (?m - digit_of ?c) = Inr (?m - digit_of ?c)"
      using d range_facts(1) [of k] by (auto intro!: arith_in)
    show ?thesis
    proof (cases "v * base + digit_of ?c > ?m")
      case True
      then show ?thesis
        using a False i assms(1) unfolding rest sdiv
        by (subst positive_loop.simps) (auto simp: Let_def)
    next
      case small: False
      then have "arith k (v * base + digit_of ?c) = Inr (v * base + digit_of ?c)"
        using \<open>0 \<le> v * base\<close> d range_facts(1) [of k] by (auto intro!: arith_in)
      moreover have "positive_loop k (?m div base) base text (Suc i) (v * base + digit_of ?c) =
          Inr (ref_digits ?m base (v * base + digit_of ?c) (drop (Suc i) (chars text)))"
        using Suc(1) [of "Suc i" "v * base + digit_of ?c"] Suc(2) i d small
          \<open>0 \<le> v * base\<close> unfolding sdiv by simp
      ultimately show ?thesis
        using a False small i assms(1) unfolding rest sdiv
        by (subst positive_loop.simps) (simp add: Let_def)
    qed
  qed
qed

lemma negative_loop_ref:
  assumes "wf_piece text" "2 \<le> base" "base \<le> 36" "v \<le> 0" "vmin_of k \<le> v" "i \<le> plen text"
    "is_signed k"
  shows "negative_loop k (- ((- vmin_of k) div base)) base text i v =
           Inr (let (ok, w) = ref_digits (- vmin_of k) base (- v) (drop i (chars text)) in (ok, - w))"
  using assms(4-6)
proof (induction "plen text - i" arbitrary: i v)
  case 0
  then show ?case using assms(1) by (subst negative_loop.simps) simp
next
  case (Suc n)
  let ?c = "chars text ! i" let ?m = "- vmin_of k"
  have i: "i < plen text" using Suc by simp
  have rest: "drop i (chars text) = ?c # drop (Suc i) (chars text)"
    using i assms(1) by (simp add: drop_eq_Cons_nth)
  note d = digit_of_bounds [of ?c]
  note g = guard_exact [where b = base and d = "digit_of ?c" and m = ?m and v = "- v"]
  show ?case
  proof (cases "digit_of ?c \<ge> base \<or> ?m div base < - v")
    case True
    then show ?thesis
      using g(1) d i assms(1,2) unfolding rest by (subst negative_loop.simps) auto
  next
    case False
    then have vb: "- v * base \<le> ?m" and "0 \<le> - v * base" "digit_of ?c \<le> ?m"
      using g(2) assms(2,3) Suc(3) d range_facts(5) [OF assms(7)]
      by (auto intro: order_trans simp: mult_nonpos_nonneg)
    then have a: "arith k (v * base) = Inr (v * base)"
      "arith k (vmin_of k + digit_of ?c) = Inr (vmin_of k + digit_of ?c)"
      using d range_facts(1,3,4) [of k] by (auto intro!: arith_in)
    show ?thesis
    proof (cases "- v * base + digit_of ?c > ?m")
      case True
      then show ?thesis
        using a False i assms(1) unfolding rest
        by (subst negative_loop.simps) (auto simp: Let_def)
    next
      case small: False
      then have "arith k (v * base - digit_of ?c) = Inr (v * base - digit_of ?c)"
        using \<open>0 \<le> - v * base\<close> d range_facts(3) [of k] by (auto intro!: arith_in)
      moreover have "negative_loop k (- (?m div base)) base text (Suc i) (v * base - digit_of ?c) =
          Inr (let (ok, w) = ref_digits ?m base (- (v * base - digit_of ?c))
                 (drop (Suc i) (chars text)) in (ok, - w))"
        by (rule Suc(1)) (use Suc(2) i d small \<open>0 \<le> - v * base\<close> in simp_all)
      ultimately show ?thesis
        using a False small i assms(1) unfolding rest
        by (subst negative_loop.simps) (simp add: Let_def algebra_simps)
    qed
  qed
qed

lemma safe_parse_positive_int_ref:
  "wf_piece text \<Longrightarrow> 2 \<le> base \<Longrightarrow> base \<le> 36 \<Longrightarrow>
   safe_parse_positive_int k text base = Inr (ref_digits (vmax_of k) base 0 (chars text))"
  using positive_loop_ref [of "text" base 0 k 0]
  by (simp add: safe_parse_positive_int_def range_facts less_imp_le)

lemma safe_parse_negative_int_ref:
  assumes "wf_piece text" "2 \<le> base" "base \<le> 36" "is_signed k"
  shows "safe_parse_negative_int k text base =
     Inr (let (ok, w) = ref_digits (- vmin_of k) base 0 (chars text) in (ok, - w))"
proof -
  have m: "vmin_of k < - 36" by (rule range_facts(5) [OF assms(4)])
  then have "\<not> 0 < vmin_of k smod base" "vmin_of k sdiv base = - ((- vmin_of k) div base)"
    using assms(2) by (simp_all add: smod_neg sdiv_neg not_less)
  then show ?thesis
    using negative_loop_ref [of "text" base 0 k 0] assms m
    by (simp add: safe_parse_negative_int_def Let_def)
qed

section \<open>Spaces, sign and base\<close>

definition window :: "string_piece \<Rightarrow> size_t \<Rightarrow> size_t \<Rightarrow> string" where
  "window p i j = take (j - i) (drop i (chars p))"

abbreviation space :: "char \<Rightarrow> bool" where
  "space c \<equiv> ascii_isspace (uchar c)"

lemma window_Cons: "wf_piece p \<Longrightarrow> i < j \<Longrightarrow> j \<le> plen p \<Longrightarrow> window p i j = chars p ! i # window p (Suc i) j"
  by (cases "j - i") (simp_all add: window_def drop_eq_Cons_nth Suc_diff_Suc [symmetric])

lemma window_snoc: "wf_piece p \<Longrightarrow> i \<le> j \<Longrightarrow> j < plen p \<Longrightarrow> window p i (Suc j) = window p i j @ [chars p ! j]"
  by (simp add: window_def Suc_diff_le take_Suc_conv_app_nth)

lemma window_empty [simp]: "j \<le> i \<Longrightarrow> window p i j = []"
  by (simp add: window_def)

lemma length_window [simp]: "wf_piece p \<Longrightarrow> i \<le> j \<Longrightarrow> j \<le> plen p \<Longrightarrow> length (window p i j) = j - i"
  by (simp add: window_def)

lemma set_range_window:
  "wf_piece p \<Longrightarrow> i \<le> j \<Longrightarrow> j \<le> plen p \<Longrightarrow>
   wf_piece (set_range p i j) \<and> chars (set_range p i j) = window p i j"
  by (auto simp: wf_piece_def set_range_def window_def chars_def drop_take min_def add.commute)

lemma skip_space_window:
  assumes "wf_piece text" "i \<le> j" "j \<le> plen text"
  shows "\<exists>i'. skip_space text i j = Inr i' \<and> i \<le> i' \<and> i' \<le> j \<and>
           window text i' j = dropWhile space (window text i j)"
  using assms
proof (induction "j - i" arbitrary: i)
  case 0
  then show ?case by (subst skip_space.simps) auto
next
  case (Suc n)
  then have i: "i < j" and n: "n = j - Suc i" by simp_all
  then have sl: "window text i j = chars text ! i # window text (Suc i) j"
    using Suc by (simp add: window_Cons)
  show ?case
  proof (cases "space (chars text ! i)")
    case True
    obtain i' where "skip_space text (Suc i) j = Inr i'" "Suc i \<le> i'" "i' \<le> j"
      "window text i' j = dropWhile space (window text (Suc i) j)"
      using Suc(1) [of "Suc i"] Suc(3-) i n by auto
    then show ?thesis using True sl i Suc(3-) by (subst skip_space.simps) auto
  next
    case False
    then show ?thesis using sl i Suc(3-) by (subst skip_space.simps) auto
  qed
qed

lemma skip_space_back_window:
  assumes "wf_piece text" "i \<le> j" "j \<le> plen text"
  shows "\<exists>j'. skip_space_back text i j = Inr j' \<and> i \<le> j' \<and> j' \<le> j \<and>
           window text i j' = rev (dropWhile space (rev (window text i j)))"
  using assms
proof (induction "j - i" arbitrary: j)
  case 0
  then show ?case by (subst skip_space_back.simps) auto
next
  case (Suc n)
  then obtain m where m: "j = Suc m" "i \<le> m" by (cases j) auto
  then have n: "n = m - i" using Suc(2) by simp
  have sl: "window text i j = window text i m @ [chars text ! m]"
    unfolding m(1) using Suc(3-) m by (intro window_snoc) simp_all
  show ?case
  proof (cases "space (chars text ! m)")
    case True
    obtain j' where "skip_space_back text i m = Inr j'" "i \<le> j'" "j' \<le> m"
      "window text i j' = rev (dropWhile space (rev (window text i m)))"
      using Suc(1) [of m] Suc(3-) m n by auto
    then show ?thesis using True sl m Suc(3-) by (subst skip_space_back.simps) auto
  next
    case False
    then show ?thesis using sl m Suc(3-) by (subst skip_space_back.simps) auto
  qed
qed

lemma hex_prefix_window:
  assumes "wf_piece text" "i < j" "j \<le> plen text"
  shows "hex_prefix text i j = Inr (has_0x (window text i j))"
proof (cases "Suc i < j")
  case True
  then have "window text i j = chars text ! i # chars text ! Suc i # window text (Suc (Suc i)) j"
    using assms by (simp add: window_Cons)
  then show ?thesis using assms True by (auto simp: hex_prefix_def)
next
  case False
  then have "window text i j = [chars text ! i]" using assms by (simp add: window_Cons)
  then show ?thesis using assms False by (auto simp: hex_prefix_def)
qed

lemma window_drop: "i + n \<le> j \<Longrightarrow> drop n (window p i j) = window p (i + n) j"
  by (simp add: window_def drop_take add.commute)

lemma trim_window:
  assumes "wf_piece text"
  obtains i j where "skip_space text 0 (plen text) = Inr i" "skip_space_back text i (plen text) = Inr j"
    "i \<le> j" "j \<le> plen text" "trim_space (chars text) = window text i j"
proof -
  let ?n = "plen text"
  obtain i where i: "skip_space text 0 ?n = Inr i" "i \<le> ?n"
    "window text i ?n = dropWhile space (window text 0 ?n)"
    using skip_space_window [OF assms, of 0 ?n] by auto
  obtain j where j: "skip_space_back text i ?n = Inr j" "i \<le> j" "j \<le> ?n"
    "window text i j = rev (dropWhile space (rev (window text i ?n)))"
    using skip_space_back_window [OF assms i(2)] by auto
  have "window text 0 ?n = chars text" using assms by (simp add: window_def)
  then show ?thesis using that i j by (simp add: trim_space_def Let_def)
qed

text \<open>The base of a text without sign, and what is left of the text behind its prefix.\<close>

definition base_of_window :: "string_piece \<Rightarrow> nat \<Rightarrow> nat \<Rightarrow> int \<Rightarrow> (string_piece \<times> int) option" where
  "base_of_window text s j base =
     (if base = 0 \<or> base = 16 then
        if has_0x (window text s j) then (if s + 2 \<ge> j then None else Some (set_range text (s + 2) j, 16))
        else if base = 0 \<and> chars text ! s = CHR ''0'' then Some (set_range text (s + 1) j, 8)
        else Some (set_range text s j, if base = 0 then 10 else 16)
      else if 2 \<le> base \<and> base \<le> 36 then Some (set_range text s j, base) else None)"

lemma base_window:
  assumes "wf_piece text" "s < j" "j \<le> plen text"
  shows "case ref_base (window text s j) base of
      None \<Rightarrow> base_of_window text s j base = None
    | Some (ds, b) \<Rightarrow> \<exists>p. base_of_window text s j base = Some (p, b) \<and> wf_piece p \<and> chars p = ds"
proof -
  have ne: "window text s j = chars text ! s # window text (Suc s) j" using window_Cons [OF assms] .
  have len: "length (window text s j) = j - s" using assms by simp
  have two: "2 \<le> j - s" if "has_0x (window text s j)"
    using that len ne by (cases "window text (Suc s) j") auto
  have rng: "wf_piece (set_range text k j)" "chars (set_range text k j) = window text k j" if "k \<le> j" for k
    using set_range_window [OF assms(1) that] assms(3) by simp_all
  show ?thesis
    using ne len two rng assms(2) by (auto simp: base_of_window_def ref_base_def window_drop split: if_splits)
qed

lemma safe_parse_sign_and_base_ref:
  assumes "wf_piece text"
  shows "\<exists>r. safe_parse_sign_and_base text base = Inr r \<and>
     (let (t, negative) = ref_sign (trim_space (chars text)) in
      case ref_base t base of
        None \<Rightarrow> r = None
      | Some (ds, b) \<Rightarrow> \<exists>p. r = Some (p, b, negative) \<and> wf_piece p \<and> chars p = ds)"
proof -
  obtain i j where ij: "skip_space text 0 (plen text) = Inr i" "skip_space_back text i (plen text) = Inr j"
      "i \<le> j" "j \<le> plen text" and trim: "trim_space (chars text) = window text i j"
    using trim_window [OF assms] by blast
  show ?thesis
  proof (cases "i < j")
    case False
    then show ?thesis using ij trim by (simp add: safe_parse_sign_and_base_def ref_base_def)
  next
    case True
    define c where "c = chars text ! i"
    define s where "s = (if c = CHR ''-'' \<or> c = CHR ''+'' then Suc i else i)"
    have w: "window text i j = c # window text (Suc i) j"
      using window_Cons [OF assms True] ij(4) by (simp add: c_def)
    have sign: "ref_sign (trim_space (chars text)) = (window text s j, c = CHR ''-'')"
      unfolding trim w s_def by (auto simp: w)
    have at: "piece_at text i = Inr c" using assms True ij(4) by (simp add: c_def)
    show ?thesis
    proof (cases "s < j")
      case False
      then have "c = CHR ''-'' \<or> c = CHR ''+''" "s = Suc i" "window text s j = []"
        using True by (auto simp: s_def split: if_splits)
      then show ?thesis
        using ij at True False sign by (auto simp: safe_parse_sign_and_base_def ref_base_def)
    next
      case sj: True
      have hex: "hex_prefix text s j = Inr (has_0x (window text s j))"
        using hex_prefix_window [OF assms sj] ij(4) by simp
      have ats: "piece_at text s = Inr (chars text ! s)" using assms sj ij(4) by simp
      have "safe_parse_sign_and_base text base =
          Inr (map_option (\<lambda>(p, b). (p, b, c = CHR ''-'')) (base_of_window text s j base))"
        using ij at True sj hex ats
        by (auto simp: safe_parse_sign_and_base_def base_of_window_def Let_def s_def split: if_splits)
      then show ?thesis
        unfolding sign using base_window [OF assms sj ij(4), of base] by (auto split: option.splits)
    qed
  qed
qed

lemma ref_base_range: "ref_base t base = Some (ds, b) \<Longrightarrow> 2 \<le> b \<and> b \<le> 36"
  by (auto simp: ref_base_def split: if_splits)

lemma safe_internal_ref:
  assumes "wf_piece text"
  shows "is_signed k \<Longrightarrow> safe_int_internal k text base = Inr (ref_parse k (chars text) base)"
    and "\<not> is_signed k \<Longrightarrow> safe_uint_internal k text base = Inr (ref_parse k (chars text) base)"
proof -
  obtain t neg where t: "ref_sign (trim_space (chars text)) = (t, neg)" by (cases "ref_sign (trim_space (chars text))")
  from safe_parse_sign_and_base_ref [OF assms, of base]
  obtain r where r: "safe_parse_sign_and_base text base = Inr r"
    "case ref_base t base of None \<Rightarrow> r = None
     | Some (ds, b) \<Rightarrow> \<exists>p. r = Some (p, b, neg) \<and> wf_piece p \<and> chars p = ds"
    by (auto simp: t)
  show "is_signed k \<Longrightarrow> safe_int_internal k text base = Inr (ref_parse k (chars text) base)"
    using r by (cases "ref_base t base")
      (auto simp: safe_int_internal_def ref_parse_def t Let_def dest!: ref_base_range
        simp: safe_parse_positive_int_ref safe_parse_negative_int_ref)
  show "\<not> is_signed k \<Longrightarrow> safe_uint_internal k text base = Inr (ref_parse k (chars text) base)"
    using r by (cases "ref_base t base")
      (auto simp: safe_uint_internal_def ref_parse_def t dest!: ref_base_range
        simp: safe_parse_positive_int_ref)
qed

text \<open>
  C9: for every text and base the checked parsers read only characters in view, never overflow
  while they test for overflow, and give the answer and the value of the reference parser, which
  uses unbounded integers: the number, the saturated bound, or the prefix before a foreign
  character.
\<close>

theorem safe_parse_matches_reference:
  assumes "wf_piece p"
  shows "safe_strto32_base p base = Inr (ref_parse Int32 (chars p) base) \<and>
         safe_strto64_base p base = Inr (ref_parse Int64 (chars p) base) \<and>
         safe_strtou32_base p base = Inr (ref_parse UInt32 (chars p) base) \<and>
         safe_strtou64_base p base = Inr (ref_parse UInt64 (chars p) base) \<and>
         safe_strtosize_t_base p base = Inr (ref_parse UInt64 (chars p) base)"
  using safe_internal_ref [OF assms]
  by (simp add: safe_strto32_base_def safe_strto64_base_def safe_strtou32_base_def
      safe_strtou64_base_def safe_strtosize_t_base_def)

theorem safe_parse_matches_reference_witness:
  "safe_strto32_base (piece_of_string '' -2147483649'') 10 = Inr (False, - 2147483648)"
proof -
  have "wf_piece (piece_of_string '' -2147483649'')" by simp
  from safe_parse_matches_reference [OF this, of 10, THEN conjunct1]
  have "safe_strto32_base (piece_of_string '' -2147483649'') 10 =
      Inr (ref_parse Int32 '' -2147483649'' 10)" by simp
  moreover have "ref_parse Int32 '' -2147483649'' 10 = (False, - 2147483648)" by code_simp
  ultimately show ?thesis by simp
qed

section \<open>Printing and parsing\<close>

text \<open>The digits of a number in a base, as a printer writes them.\<close>

definition digit_char :: "nat \<Rightarrow> char" where
  "digit_char d = (if d < 10 then char_of (48 + d) else char_of (87 + d))"

fun print_nat :: "nat \<Rightarrow> nat \<Rightarrow> string" where
  "print_nat b n =
     (if n < b \<or> b \<le> 1 then [digit_char n] else print_nat b (n div b) @ [digit_char (n mod b)])"

declare print_nat.simps [simp del]

definition print_int :: "nat \<Rightarrow> int \<Rightarrow> string" where
  "print_int b x = (if x < 0 then CHR ''-'' # print_nat b (nat (- x)) else print_nat b (nat x))"

lemma digit_char_facts:
  assumes "d < 36"
  shows "digit_of (digit_char d) = int d" "\<not> space (digit_char d)"
    "digit_char d \<noteq> CHR ''-''" "digit_char d \<noteq> CHR ''+''" "d < 16 \<Longrightarrow> digit_char d \<noteq> CHR ''x''"
    "digit_char d \<noteq> CHR ''X''"
proof -
  let ?n = "if d < 10 then 48 + d else 87 + d"
  have u: "unat (uchar (digit_char d)) = ?n"
    using assms by (auto simp: digit_char_def unat_uchar)
  have "\<forall>d \<in> set [0..<36]. kAsciiToInt ! (if d < 10 then 48 + d else 87 + d) = int d"
    by (simp add: upt_rec [of _ 36] kAsciiToInt_def nth_append)
  then show "digit_of (digit_char d) = int d" using assms u by (simp add: digit_of_def)
  show "\<not> space (digit_char d)"
    using u assms by (auto simp: ascii_isspace_iff word_le_nat_alt word_unat_eq_iff)
  have "unat (uchar (digit_char d)) \<noteq> n" if "n \<noteq> ?n" for n using u that by simp
  then have "digit_char d \<noteq> c" if "unat (uchar c) \<noteq> ?n" for c using that by metis
  then show "digit_char d \<noteq> CHR ''-''" "digit_char d \<noteq> CHR ''+''"
    "d < 16 \<Longrightarrow> digit_char d \<noteq> CHR ''x''" "digit_char d \<noteq> CHR ''X''"
    using assms by (simp_all add: unat_uchar)
qed

lemma digit_chars [simp]:
  "digit_char 0 = CHR ''0''" "digit_char 1 = CHR ''1''" "digit_char 2 = CHR ''2''"
  "digit_char 3 = CHR ''3''" "digit_char 4 = CHR ''4''" "digit_char 5 = CHR ''5''"
  "digit_char 6 = CHR ''6''" "digit_char 7 = CHR ''7''" "digit_char 8 = CHR ''8''"
  "digit_char 9 = CHR ''9''"
  by code_simp+

lemma ref_digits_append:
  "ref_digits m b v xs = (True, w) \<Longrightarrow> ref_digits m b v (xs @ ys) = ref_digits m b w ys"
  by (induction m b v xs rule: ref_digits.induct) (auto split: if_splits)

lemma set_print_nat: "2 \<le> b \<Longrightarrow> c \<in> set (print_nat b n) \<Longrightarrow> \<exists>d < b. c = digit_char d"
proof (induction b n rule: print_nat.induct)
  case (1 b n)
  show ?case
  proof (cases "n < b")
    case True
    then show ?thesis using 1(3) by (auto simp: print_nat.simps [of b n])
  next
    case False
    then consider "c \<in> set (print_nat b (n div b))" | "c = digit_char (n mod b)"
      using 1(2,3) by (auto simp: print_nat.simps [of b n])
    moreover have "n mod b < b" using 1(2) by simp
    ultimately show ?thesis using 1(1,2) False by cases (simp, blast)
  qed
qed

lemma print_nat_Nil [simp]: "print_nat b n \<noteq> []"
  by (subst print_nat.simps) simp

lemma ref_digits_print:
  "2 \<le> b \<Longrightarrow> b \<le> 36 \<Longrightarrow> int n \<le> m \<Longrightarrow> ref_digits m (int b) 0 (print_nat b n) = (True, int n)"
proof (induction b n rule: print_nat.induct)
  case (1 b n)
  show ?case
  proof (cases "n < b")
    case True
    then show ?thesis using 1(2-4) by (subst print_nat.simps) (simp add: digit_char_facts)
  next
    case False
    have "int (n div b) \<le> m" using 1(4) by (meson div_le_dividend of_nat_le_iff order_trans)
    then have "ref_digits m (int b) 0 (print_nat b (n div b)) = (True, int (n div b))"
      using 1 False by simp
    moreover have "int (n div b) * int b + int (n mod b) = int n"
      by (simp flip: of_nat_mult of_nat_add)
    moreover have "n mod b < b" "n mod b < 36"
      using 1(2,3) mod_less_divisor [of b n] by (simp, linarith)
    ultimately show ?thesis
      using 1(2-4) False
      by (subst print_nat.simps) (simp add: ref_digits_append digit_char_facts not_le)
  qed
qed

lemma trim_no_space:
  assumes "\<And>c. c \<in> set s \<Longrightarrow> \<not> space c"
  shows "trim_space s = s"
proof -
  have "dropWhile space t = t" if "set t \<subseteq> set s" for t
    using that assms by (cases t) auto
  then show ?thesis by (simp add: trim_space_def Let_def)
qed

lemma print_int_facts:
  assumes "2 \<le> b" "b \<le> 36"
  shows "trim_space (print_int b x) = print_int b x"
    and "ref_sign (print_int b x) = (print_nat b (nat \<bar>x\<bar>), x < 0)"
    and "ref_base (print_nat b n) (int b) = Some (print_nat b n, int b)"
proof -
  have ds: "\<not> space c \<and> c \<noteq> CHR ''-'' \<and> c \<noteq> CHR ''+'' \<and> c \<noteq> CHR ''X'' \<and> (b \<le> 16 \<longrightarrow> c \<noteq> CHR ''x'')"
    if "c \<in> set (print_nat b n)" for c n
    using set_print_nat [OF assms(1) that] assms(2) digit_char_facts by fastforce
  have "\<not> space (CHR ''-'')" by code_simp
  then show "trim_space (print_int b x) = print_int b x"
    using ds by (intro trim_no_space) (auto simp: print_int_def split: if_splits)
  show "ref_sign (print_int b x) = (print_nat b (nat \<bar>x\<bar>), x < 0)"
    using ds [of "hd (print_nat b (nat x))" "nat x"]
    by (cases "print_nat b (nat x)") (auto simp: print_int_def)
  have "has_0x (print_nat b n) \<Longrightarrow> b = 16 \<Longrightarrow> False"
    using ds [of _ n] by (cases "print_nat b n" rule: has_0x.cases) auto
  then show "ref_base (print_nat b n) (int b) = Some (print_nat b n, int b)"
    using assms by (auto simp: ref_base_def)
qed

lemma ref_parse_print:
  assumes "2 \<le> b" "b \<le> 36" "vmin_of k \<le> x" "x \<le> vmax_of k"
  shows "ref_parse k (print_int b x) (int b) = (True, x)"
proof (cases "x < 0")
  case True
  then have "is_signed k" using assms(3) range_facts(6) [of k] by force
  then show ?thesis
    using True assms ref_digits_print [of b "nat (- x)" "- vmin_of k"]
    by (simp add: ref_parse_def print_int_facts)
next
  case False
  then show ?thesis
    using assms ref_digits_print [of b "nat x" "vmax_of k"]
    by (simp add: ref_parse_def print_int_facts)
qed

text \<open>
  C34: parsing what a printer wrote in any base from 2 to 36 gives the number back, at each width,
  for every number of the type.
\<close>

theorem print_parse_roundtrip:
  assumes "2 \<le> b" "b \<le> 36" "length (print_int b x) < 2 ^ 63"
  shows "(in_range int32_min int32_max x \<longrightarrow>
            safe_strto32_base (piece_of_string (print_int b x)) (int b) = Inr (True, x)) \<and>
         (in_range int64_min int64_max x \<longrightarrow>
            safe_strto64_base (piece_of_string (print_int b x)) (int b) = Inr (True, x)) \<and>
         (in_range 0 uint32_max x \<longrightarrow>
            safe_strtou32_base (piece_of_string (print_int b x)) (int b) = Inr (True, x)) \<and>
         (in_range 0 uint64_max x \<longrightarrow>
            safe_strtou64_base (piece_of_string (print_int b x)) (int b) = Inr (True, x))"
  using assms ref_parse_print [OF assms(1,2), of Int32 x] ref_parse_print [OF assms(1,2), of Int64 x]
    ref_parse_print [OF assms(1,2), of UInt32 x] ref_parse_print [OF assms(1,2), of UInt64 x]
  by (simp add: safe_strto32_base_def safe_strto64_base_def safe_strtou32_base_def
      safe_strtou64_base_def safe_internal_ref in_range_def)

theorem print_parse_roundtrip_witness:
  "safe_strto64_base (piece_of_string ''-9223372036854775808'') 10 = Inr (True, int64_min)"
proof -
  have p: "print_int 10 int64_min = ''-9223372036854775808''"
    by (simp add: print_int_def print_nat.simps int64_min_def)
  have "in_range int64_min int64_max int64_min" by (simp add: in_range_def int_limits)
  then show ?thesis using print_parse_roundtrip [of 10 int64_min] by (simp add: p)
qed

text \<open>
  \<open>StringAsValue\<close> at 32 and at 64 bits parses what was printed, but at a narrower type it
  answers true for every number that fits 32 bits and stores the low bits only: \<open>70000\<close> is
  accepted as the 16-bit number 4464.
\<close>

theorem string_as_value_truncates:
  assumes "in_range int32_min int32_max x" "0 < w" "w \<le> 32" "length (print_int 10 x) < 2 ^ 63"
  shows "StringAsValue True w (print_int 10 x) = Inr (True, signed_take_bit (w - 1) x)"
  using assms ref_parse_print [of 10 Int32 x]
  by (simp add: StringAsValue_def safe_strto32_def safe_strto32_base_def safe_internal_ref
      cast_to_def in_range_def)

theorem string_as_value_truncates_witness:
  "StringAsValue True 16 ''70000'' = Inr (True, 4464)"
proof -
  have p: "print_int 10 70000 = ''70000''" by (simp add: print_int_def print_nat.simps)
  have "in_range int32_min int32_max 70000" by (simp add: in_range_def int_limits)
  then show ?thesis using string_as_value_truncates [of 70000 16] by (simp add: p)
qed

end
