(* ===== verification/Status.thy ===== *)
theory Status
  imports Numbers
begin

text \<open>
  \<open>base/status.h\<close> and \<open>base/status.cc\<close>: results that own an error state on the heap, or nothing when
  all is well.  A heap maps the address of each live state to its code and message; a status is the
  address it owns.  \<open>new\<close> is given an address that is free.
\<close>

section \<open>States on the heap\<close>

record status_state =
  st_code :: int
  st_msg :: string

type_synonym status = "nat option"
type_synonym states = "nat \<Rightarrow> status_state option"

definition CODE_OK :: int where "CODE_OK = 0"

definition state_at :: "nat \<Rightarrow> states \<Rightarrow> status_state res" where
  "state_at a h = (case h a of None \<Rightarrow> Inl OutOfBounds | Some st \<Rightarrow> Inr st)"

definition Status_new :: "nat \<Rightarrow> int \<Rightarrow> string_piece \<Rightarrow> states \<Rightarrow> (status \<times> states) res" where
  "Status_new a code msg h =
     bind_res (check (code \<noteq> CODE_OK)) (\<lambda>_. bind_res (as_string msg) (\<lambda>m.
       Inr (Some a, h(a \<mapsto> \<lparr>st_code = code, st_msg = m\<rparr>))))"

definition status_ok :: "status \<Rightarrow> bool" where
  "status_ok s \<longleftrightarrow> s = None"

definition status_code :: "status \<Rightarrow> states \<Rightarrow> int res" where
  "status_code s h = (case s of None \<Rightarrow> Inr CODE_OK | Some a \<Rightarrow> bind_res (state_at a h) (\<lambda>st. Inr (st_code st)))"

definition error_message :: "status \<Rightarrow> states \<Rightarrow> string res" where
  "error_message s h = (case s of None \<Rightarrow> Inr [] | Some a \<Rightarrow> bind_res (state_at a h) (\<lambda>st. Inr (st_msg st)))"

definition new_copy :: "nat \<Rightarrow> status \<Rightarrow> states \<Rightarrow> (status \<times> states) res" where
  "new_copy a src h = (case src of
     None \<Rightarrow> Inr (None, h)
   | Some b \<Rightarrow> bind_res (state_at b h) (\<lambda>st. Inr (Some a, h(a \<mapsto> st))))"

definition Status_copy :: "nat \<Rightarrow> status \<Rightarrow> states \<Rightarrow> (status \<times> states) res" where
  "Status_copy a s h = new_copy a s h"

definition delete_state :: "status \<Rightarrow> states \<Rightarrow> states res" where
  "delete_state s h = (case s of
     None \<Rightarrow> Inr h | Some a \<Rightarrow> if h a = None then Inl OutOfBounds else Inr (h(a := None)))"

definition SlowCopyFrom :: "nat \<Rightarrow> status \<Rightarrow> status \<Rightarrow> states \<Rightarrow> (status \<times> states) res" where
  "SlowCopyFrom a this src h = bind_res (delete_state this h) (new_copy a src)"

definition Status_assign :: "nat \<Rightarrow> status \<Rightarrow> status \<Rightarrow> states \<Rightarrow> (status \<times> states) res" where
  "Status_assign a this s h = (if this \<noteq> s then SlowCopyFrom a this s h else Inr (this, h))"

definition Status_Update :: "nat \<Rightarrow> status \<Rightarrow> status \<Rightarrow> states \<Rightarrow> (status \<times> states) res" where
  "Status_Update a this new_status h =
     (if status_ok this then Status_assign a this new_status h else Inr (this, h))"

definition code_type :: "int \<Rightarrow> string" where
  "code_type code =
     (if code = 1 then ''Cancelled'' else if code = 2 then ''Unknown''
      else if code = 3 then ''Invalid argument'' else if code = 4 then ''Deadline exceeded''
      else if code = 5 then ''Not found'' else if code = 6 then ''Already exists''
      else if code = 7 then ''Permission denied'' else if code = 16 then ''Unauthenticated''
      else if code = 8 then ''Resource exhausted'' else if code = 9 then ''Failed precondition''
      else if code = 10 then ''Aborted'' else if code = 11 then ''Out of range''
      else if code = 12 then ''Unimplemented'' else if code = 13 then ''Internal''
      else if code = 14 then ''Unavailable'' else if code = 15 then ''Data loss''
      else ''Unknown code('' @ print_int 10 code @ '')'')"

definition Status_ToString :: "status \<Rightarrow> states \<Rightarrow> string res" where
  "Status_ToString s h = (case s of
     None \<Rightarrow> Inr ''OK''
   | Some a \<Rightarrow> bind_res (state_at a h) (\<lambda>st. Inr (code_type (st_code st) @ '': '' @ st_msg st)))"

definition Status_eq :: "status \<Rightarrow> status \<Rightarrow> states \<Rightarrow> bool res" where
  "Status_eq s x h =
     (if s = x then Inr True
      else bind_res (Status_ToString s h) (\<lambda>t. bind_res (Status_ToString x h) (\<lambda>u. Inr (t = u))))"

definition Status_ne :: "status \<Rightarrow> status \<Rightarrow> states \<Rightarrow> bool res" where
  "Status_ne s x h = bind_res (Status_eq s x h) (\<lambda>b. Inr (\<not> b))"

section \<open>What statuses mean\<close>

text \<open>The value of a status, and statuses that own what they point to and nothing of each other's.\<close>

definition status_value :: "status \<Rightarrow> states \<Rightarrow> status_state option" where
  "status_value s h = (case s of None \<Rightarrow> None | Some a \<Rightarrow> h a)"

definition owned :: "status \<Rightarrow> states \<Rightarrow> bool" where
  "owned s h \<longleftrightarrow> (\<forall>a. s = Some a \<longrightarrow> h a \<noteq> None)"

lemma print_nat_inject: "print_nat 10 m = print_nat 10 n \<Longrightarrow> m = n"
  using ref_digits_print [of 10 m "int (max m n)"] ref_digits_print [of 10 n "int (max m n)"] by simp

lemma print_nat_no: "c \<in> set (print_nat 10 n) \<Longrightarrow> c \<notin> {CHR '':'', CHR ''-''}"
proof -
  assume "c \<in> set (print_nat 10 n)"
  then obtain d where "d < 10" "c = digit_char d" using set_print_nat [of 10 c n] by auto
  then have "d \<in> set [0..<10]" "c = digit_char d" by simp_all
  moreover have "\<forall>d\<in>set [0..<10]. digit_char d \<notin> {CHR '':'', CHR ''-''}" by code_simp
  ultimately show ?thesis by metis
qed

lemma print_int_inject: "print_int 10 x = print_int 10 y \<Longrightarrow> x = y"
proof -
  assume eq: "print_int 10 x = print_int 10 y"
  have hd: "x < 0 \<longleftrightarrow> hd (print_int 10 x) = CHR ''-''" for x
    using print_nat_no [of "hd (print_nat 10 (nat x))" "nat x"] by (auto simp: print_int_def)
  have "x < 0 \<longleftrightarrow> y < 0" using hd [of x] hd [of y] eq by simp
  moreover from this have "nat \<bar>x\<bar> = nat \<bar>y\<bar>" using eq by (auto simp: print_int_def dest!: print_nat_inject)
  ultimately show ?thesis by linarith
qed

lemma print_int_no_colon: "CHR '':'' \<notin> set (print_int 10 x)"
  using print_nat_no by (auto simp: print_int_def)

lemma code_type_no_colon: "CHR '':'' \<notin> set (code_type c)"
  using print_int_no_colon [of c] by (simp add: code_type_def)

lemma code_type_inject: "code_type c = code_type d \<Longrightarrow> c = d"
  using print_int_inject [of c d] by (simp add: code_type_def split: if_splits)

lemma split_colon: "CHR '':'' \<notin> set xs \<Longrightarrow> CHR '':'' \<notin> set ys \<Longrightarrow>
    xs @ CHR '':'' # us = ys @ CHR '':'' # vs \<Longrightarrow> xs = ys \<and> us = vs"
proof (induction xs arbitrary: ys)
  case Nil
  then show ?case by (cases ys) auto
next
  case (Cons x xs)
  then show ?case by (cases ys) auto
qed

lemma status_text_inject:
  "code_type c @ '': '' @ m = code_type d @ '': '' @ n \<longleftrightarrow> c = d \<and> m = n"
  using split_colon [OF code_type_no_colon code_type_no_colon, of c "CHR '' '' # m" d "CHR '' '' # n"]
  by (auto dest: code_type_inject)

lemma status_text_not_ok: "code_type c @ '': '' @ m \<noteq> ''OK''"
proof
  assume "code_type c @ '': '' @ m = ''OK''"
  then have "CHR '':'' \<in> set ''OK''" by (metis Un_iff append_Cons list.set_intros(1) set_append)
  then show False by simp
qed

text \<open>Copying or replacing a state, given a free address for the new one.\<close>

lemma new_copy_value:
  assumes "owned x h" "h a = None"
  shows "\<exists>t h'. new_copy a x h = Inr (t, h') \<and> owned t h' \<and> status_value t h' = status_value x h \<and>
    t = (if x = None then None else Some a) \<and> (\<forall>b. b \<noteq> a \<longrightarrow> h' b = h b)"
  using assms by (cases x) (auto simp: new_copy_def state_at_def owned_def status_value_def)

lemma Status_assign_value:
  assumes "owned s h" "owned x h" "h a = None"
  shows "\<exists>s' h'. Status_assign a s x h = Inr (s', h') \<and> owned s' h' \<and> status_value s' h' = status_value x h \<and>
      (\<forall>b. Some b \<noteq> s \<and> b \<noteq> a \<longrightarrow> h' b = h b) \<and> (s \<noteq> x \<longrightarrow> s \<noteq> None \<longrightarrow> h' (the s) = None)"
proof (cases "s = x")
  case True
  then show ?thesis using assms by (auto simp: Status_assign_def)
next
  case False
  obtain h1 where d: "delete_state s h = Inr h1" "\<And>b. Some b \<noteq> s \<Longrightarrow> h1 b = h b" "\<And>b. Some b = s \<Longrightarrow> h1 b = None"
    using assms(1) by (cases s) (auto simp: delete_state_def owned_def)
  have n: "s \<noteq> Some a" using assms(1,3) by (auto simp: owned_def)
  have x: "owned x h1" "status_value x h1 = status_value x h"
    using assms(2) False d(2) by (cases x; auto simp: owned_def status_value_def)+
  have "h1 a = None" using d(2) [of a] n assms(3) by auto
  from new_copy_value [OF x(1) this] obtain t h' where t: "new_copy a x h1 = Inr (t, h')" "owned t h'"
    "status_value t h' = status_value x h1" "\<forall>b. b \<noteq> a \<longrightarrow> h' b = h1 b"
    by blast
  have "Status_assign a s x h = Inr (t, h')" using False d(1) t(1) by (simp add: Status_assign_def SlowCopyFrom_def)
  then show ?thesis using t x d(2,3) n by (cases s) auto
qed

text \<open>
  C33: statuses behave as values, whichever way they are made.  The constructor refuses the code of success
  and otherwise makes a status with the code and the text it was given; a copy has the code and the message
  of the original, in a state of its own.  For two statuses that each own their state or are the same
  object, assignment gives the first the value of the second, keeps the second's and every other state, frees
  what the first held and never touches a deleted state; \<open>Update\<close> does so only to a good status, so the
  first error stays.  \<open>code()\<close>, \<open>error_message()\<close> and the printed form are those of the value, and
  \<open>==\<close>, which compares the printed forms, holds exactly for equal codes and messages.
\<close>

theorem status_values:
  assumes "owned s h" "owned x h" "h a = None" "wf_piece msg"
  shows "Status_new a code msg h = (if code = CODE_OK then Inl CheckFailed
      else Inr (Some a, h(a \<mapsto> \<lparr>st_code = code, st_msg = chars msg\<rparr>))) \<and>
    (\<exists>t h'. Status_copy a x h = Inr (t, h') \<and> owned t h' \<and> status_value t h' = status_value x h \<and>
      (t = x \<longrightarrow> x = None) \<and> (\<forall>b. b \<noteq> a \<longrightarrow> h' b = h b)) \<and>
    (\<exists>s' h'. Status_assign a s x h = Inr (s', h') \<and> owned s' h' \<and> status_value s' h' = status_value x h \<and>
      (\<forall>b. Some b \<noteq> s \<and> b \<noteq> a \<longrightarrow> h' b = h b) \<and> (s \<noteq> x \<longrightarrow> s \<noteq> None \<longrightarrow> h' (the s) = None)) \<and>
    Status_Update a s x h = (if status_value s h = None then Status_assign a s x h else Inr (s, h)) \<and>
    (case status_value s h of
       None \<Rightarrow> status_code s h = Inr CODE_OK \<and> error_message s h = Inr [] \<and> Status_ToString s h = Inr ''OK''
     | Some st \<Rightarrow> status_code s h = Inr (st_code st) \<and> error_message s h = Inr (st_msg st) \<and>
         Status_ToString s h = Inr (code_type (st_code st) @ '': '' @ st_msg st)) \<and>
    Status_eq s x h = Inr (status_value s h = status_value x h)"
proof (intro conjI)
  show "Status_new a code msg h = (if code = CODE_OK then Inl CheckFailed
      else Inr (Some a, h(a \<mapsto> \<lparr>st_code = code, st_msg = chars msg\<rparr>)))"
    using assms(4) by (simp add: Status_new_def)
  show "\<exists>t h'. Status_copy a x h = Inr (t, h') \<and> owned t h' \<and> status_value t h' = status_value x h \<and>
      (t = x \<longrightarrow> x = None) \<and> (\<forall>b. b \<noteq> a \<longrightarrow> h' b = h b)"
    using new_copy_value [OF assms(2,3)] assms(2,3) by (auto simp: Status_copy_def owned_def split: if_splits)
  show "\<exists>s' h'. Status_assign a s x h = Inr (s', h') \<and> owned s' h' \<and> status_value s' h' = status_value x h \<and>
      (\<forall>b. Some b \<noteq> s \<and> b \<noteq> a \<longrightarrow> h' b = h b) \<and> (s \<noteq> x \<longrightarrow> s \<noteq> None \<longrightarrow> h' (the s) = None)"
    by (rule Status_assign_value [OF assms(1-3)])
  show "Status_Update a s x h = (if status_value s h = None then Status_assign a s x h else Inr (s, h))"
    using assms(1) by (cases s) (auto simp: Status_Update_def status_ok_def status_value_def owned_def)
  show "case status_value s h of
       None \<Rightarrow> status_code s h = Inr CODE_OK \<and> error_message s h = Inr [] \<and> Status_ToString s h = Inr ''OK''
     | Some st \<Rightarrow> status_code s h = Inr (st_code st) \<and> error_message s h = Inr (st_msg st) \<and>
         Status_ToString s h = Inr (code_type (st_code st) @ '': '' @ st_msg st)"
    using assms(1) by (cases s)
      (auto simp: status_value_def owned_def status_code_def error_message_def Status_ToString_def state_at_def split: option.splits)
  show "Status_eq s x h = Inr (status_value s h = status_value x h)"
    using assms(1,2) status_text_inject status_text_not_ok [symmetric] status_text_not_ok
    by (cases s; cases x)
       (auto simp: Status_eq_def Status_ToString_def status_value_def owned_def state_at_def)
qed

theorem status_values_witness:
  "Status_new 3 5 (piece_of_string ''x'') [1 \<mapsto> \<lparr>st_code = 5, st_msg = ''x''\<rparr>, 2 \<mapsto> \<lparr>st_code = 5, st_msg = ''x''\<rparr>] =
     Inr (Some 3, [1 \<mapsto> \<lparr>st_code = 5, st_msg = ''x''\<rparr>, 2 \<mapsto> \<lparr>st_code = 5, st_msg = ''x''\<rparr>, 3 \<mapsto> \<lparr>st_code = 5, st_msg = ''x''\<rparr>]) \<and>
   Status_eq (Some 1) (Some 2) [1 \<mapsto> \<lparr>st_code = 5, st_msg = ''x''\<rparr>, 2 \<mapsto> \<lparr>st_code = 5, st_msg = ''x''\<rparr>] = Inr True"
  using status_values [of "Some 1" "[1 \<mapsto> \<lparr>st_code = 5, st_msg = ''x''\<rparr>, 2 \<mapsto> \<lparr>st_code = 5, st_msg = ''x''\<rparr>]" "Some 2" 3
      "piece_of_string ''x''" 5]
  by (simp add: owned_def status_value_def CODE_OK_def chars_piece_of_string)

section \<open>The codes and the small members\<close>

datatype Code =
    OK | CANCELLED | UNKNOWN | INVALID_ARGUMENT | DEADLINE_EXCEEDED | NOT_FOUND | ALREADY_EXISTS | PERMISSION_DENIED
  | UNAUTHENTICATED | RESOURCE_EXHAUSTED | FAILED_PRECONDITION | ABORTED | OUT_OF_RANGE | UNIMPLEMENTED | INTERNAL
  | UNAVAILABLE | DATA_LOSS | DO_NOT_USE

fun Code_int :: "Code \<Rightarrow> int" where
  "Code_int OK = 0" | "Code_int CANCELLED = 1" | "Code_int UNKNOWN = 2" | "Code_int INVALID_ARGUMENT = 3"
| "Code_int DEADLINE_EXCEEDED = 4" | "Code_int NOT_FOUND = 5" | "Code_int ALREADY_EXISTS = 6"
| "Code_int PERMISSION_DENIED = 7" | "Code_int UNAUTHENTICATED = 16" | "Code_int RESOURCE_EXHAUSTED = 8"
| "Code_int FAILED_PRECONDITION = 9" | "Code_int ABORTED = 10" | "Code_int OUT_OF_RANGE = 11"
| "Code_int UNIMPLEMENTED = 12" | "Code_int INTERNAL = 13" | "Code_int UNAVAILABLE = 14" | "Code_int DATA_LOSS = 15"
| "Code_int DO_NOT_USE = 20"

definition Status_default :: status where "Status_default = None"
definition Status_OK :: status where "Status_OK = Status_default"

definition Status_destroy :: "status \<Rightarrow> states \<Rightarrow> states res" where
  "Status_destroy s h = delete_state s h"

text \<open>The stream is the text it has taken so far.\<close>

definition status_output :: "string \<Rightarrow> status \<Rightarrow> states \<Rightarrow> string res" where
  "status_output os x h = bind_res (Status_ToString x h) (\<lambda>s. Inr (os @ s))"

text \<open>The name of an error tells which of the codes it has.\<close>

lemma code_names_distinct:
  assumes "c \<notin> {OK, DO_NOT_USE}" "d \<notin> {OK, DO_NOT_USE}" "code_type (Code_int c) = code_type (Code_int d)"
  shows "c = d"
  using assms by (cases c; cases d) (simp_all add: code_type_def)

lemma code_int_inject: "Code_int c = Code_int d \<longleftrightarrow> c = d"
  by (cases c; cases d) simp_all

lemma good_status: "status_ok Status_OK" "status_code Status_OK h = Inr (Code_int OK)" "status_output os Status_OK h = Inr (os @ ''OK'')"
  by (simp_all add: status_ok_def Status_OK_def Status_default_def status_code_def CODE_OK_def status_output_def Status_ToString_def)

end
