(* ===== verification/Bits.thy ===== *)
theory Bits
  imports Prelude
begin

text \<open>
  \<open>base/bits.h\<close> and \<open>base/byteorder.h\<close>: rounding a size up to a power of two, the integer
  logarithms, and the byte swaps between host (little-endian) and network order.  The last
  section lays an integer out in memory (\<open>le_bytes\<close>), which the pickle component reads and
  writes.
\<close>

section \<open>Alignment\<close>

definition align_word :: "64 word \<Rightarrow> 64 word \<Rightarrow> 64 word" where
  "align_word sz alignment = (sz + alignment - 1) AND NOT (alignment - 1)"

definition Align :: "size_t \<Rightarrow> size_t \<Rightarrow> size_t res" where
  "Align sz alignment =
     bind_res (check ((word_of_nat alignment :: 64 word) AND (word_of_nat alignment - 1) = 0))
       (\<lambda>_. Inr (unat (align_word (word_of_nat sz) (word_of_nat alignment))))"

text \<open>What \<open>Align\<close> is meant to compute: the least multiple of \<open>a\<close> that is no smaller.\<close>

definition round_up :: "nat \<Rightarrow> nat \<Rightarrow> nat" where
  "round_up a n = ((n + a - 1) div a) * a"

lemma round_up_ge: "0 < a \<Longrightarrow> n \<le> round_up a n"
proof -
  assume "0 < a"
  then have "n + a - 1 < ((n + a - 1) div a) * a + a"
    by (metis add.commute div_mult_mod_eq mod_less_divisor nat_add_left_cancel_less)
  then show ?thesis using \<open>0 < a\<close> by (simp add: round_up_def)
qed

lemma round_up_lt: "0 < a \<Longrightarrow> round_up a n < n + a"
proof -
  assume "0 < a"
  have "round_up a n \<le> n + a - 1" unfolding round_up_def by (rule div_times_less_eq_dividend)
  then show ?thesis using \<open>0 < a\<close> by linarith
qed

lemma round_up_dvd: "a dvd round_up a n"
  by (simp add: round_up_def)

lemma round_up_least: "0 < a \<Longrightarrow> a dvd m \<Longrightarrow> n \<le> m \<Longrightarrow> round_up a n \<le> m"
proof -
  assume a: "0 < a" and "a dvd m" and nm: "n \<le> m"
  then obtain q where q: "m = q * a" by (metis dvdE mult.commute)
  have "n + a - 1 < Suc q * a" using a nm q by simp
  then have "(n + a - 1) div a < Suc q" using a by (simp add: less_mult_imp_div_less)
  then show ?thesis by (simp add: round_up_def q)
qed

lemma round_up_dvd_id: "0 < a \<Longrightarrow> a dvd n \<Longrightarrow> round_up a n = n"
  by (meson le_antisym order_refl round_up_ge round_up_least)

lemma round_up_mono: "0 < a \<Longrightarrow> m \<le> n \<Longrightarrow> round_up a m \<le> round_up a n"
  by (meson order_trans round_up_dvd round_up_ge round_up_least)

lemma round_up_add: "0 < a \<Longrightarrow> a dvd m \<Longrightarrow> round_up a (m + n) = m + round_up a n"
proof -
  assume a: "0 < a" and "a dvd m"
  then obtain q where q: "m = q * a" by (metis dvdE mult.commute)
  have "(q * a + n + a - 1) = q * a + (n + a - 1)" using a by simp
  then have "(q * a + n + a - 1) div a = (n + a - 1 + q * a) div a" by (simp only: add.commute)
  also have "\<dots> = q + (n + a - 1) div a" using a by (intro div_mult_self1) simp
  finally have "(q * a + n + a - 1) div a = q + (n + a - 1) div a" .
  then show ?thesis by (simp add: round_up_def q algebra_simps)
qed

lemma and_not_mask_eq: "(w :: 'a::len word) AND NOT (mask k) = w - take_bit k w"
proof -
  have "w AND NOT (mask k) = w AND NOT (take_bit k w)"
    by (rule bit_word_eqI) (auto simp: bit_simps)
  also have "\<dots> = w - take_bit k w"
    by (rule disjunctive_diff_eq_and_not [symmetric], rule bit_word_eqI) (auto simp: bit_simps)
  finally show ?thesis .
qed

lemma unat_and_not_mask: "unat ((w :: 'a::len word) AND NOT (mask k)) = unat w div 2 ^ k * 2 ^ k"
proof -
  have "take_bit k w \<le> w"
    unfolding word_le_nat_alt unat_take_bit by simp
  then have "unat (w - take_bit k w) = unat w - unat w mod 2 ^ k"
    by (simp add: unat_sub unat_take_bit)
  then show ?thesis
    unfolding and_not_mask_eq by (simp add: minus_mod_eq_div_mult)
qed

lemma Align_power2:
  assumes "k < 64" and "n + 2 ^ k \<le> 2 ^ 64"
  shows "Align n (2 ^ k) = Inr (round_up (2 ^ k) n)"
proof -
  have pw: "(word_of_nat (2 ^ k) :: 64 word) - 1 = mask k"
    by (simp add: mask_eq_decr_exp)
  have guard: "(word_of_nat (2 ^ k) :: 64 word) AND (word_of_nat (2 ^ k) - 1) = 0"
    unfolding pw by (rule bit_word_eqI) (auto simp: bit_simps)
  have sum: "(word_of_nat n + word_of_nat (2 ^ k) - 1 :: 64 word) = word_of_nat (n + 2 ^ k - 1)"
    by (simp add: of_nat_diff Suc_le_eq trans_less_add2)
  have "n + 2 ^ k - 1 < (2::nat) ^ 64" using assms(2) by (simp add: Suc_le_eq less_imp_diff_less)
  then have "unat (word_of_nat (n + 2 ^ k - 1) :: 64 word) = n + 2 ^ k - 1"
    by (simp add: unsigned_of_nat take_bit_nat_eq_self)
  then have "unat (align_word (word_of_nat n) (word_of_nat (2 ^ k))) = round_up (2 ^ k) n"
    unfolding align_word_def sum pw unat_and_not_mask round_up_def by simp
  then show ?thesis using guard by (simp add: Align_def)
qed

text \<open>The three alignments the code uses, as rewrite rules.\<close>

lemma Align_4 [simp]: "n + 4 \<le> 2 ^ 64 \<Longrightarrow> Align n 4 = Inr (round_up 4 n)"
  using Align_power2 [of 2 n] by simp

lemma Align_64 [simp]: "n + 64 \<le> 2 ^ 64 \<Longrightarrow> Align n 64 = Inr (round_up 64 n)"
  using Align_power2 [of 6 n] by simp

lemma Align_4096 [simp]: "n + 4096 \<le> 2 ^ 64 \<Longrightarrow> Align n 4096 = Inr (round_up 4096 n)"
  using Align_power2 [of 12 n] by simp

section \<open>Logarithms\<close>

text \<open>The loop \<open>for (i = 4; i >= 0; --i)\<close>, over the list of the values \<open>i\<close> takes.\<close>

fun log2_loop :: "nat list \<Rightarrow> 32 word \<Rightarrow> int \<Rightarrow> 32 word \<times> int" where
  "log2_loop [] v l = (v, l)"
| "log2_loop (i # is) v l =
     (let x = drop_bit (2 ^ i) v
      in if x \<noteq> 0 then log2_loop is x (l + 2 ^ i) else log2_loop is v l)"

definition Log2Floor :: "32 word \<Rightarrow> int res" where
  "Log2Floor n =
     (if n = 0 then Inr (- 1)
      else (case log2_loop [4, 3, 2, 1, 0] n 0 of
              (v, l) \<Rightarrow> bind_res (check (v = 1)) (\<lambda>_. Inr l)))"

definition Log2Ceiling :: "32 word \<Rightarrow> int res" where
  "Log2Ceiling n =
     (if n = 0 then Inr (- 1) else bind_res (Log2Floor (n - 1)) (\<lambda>l. Inr (1 + l)))"

lemma log2_loop_correct:
  assumes "v \<noteq> 0" and "unat v < 2 ^ (2 ^ k)"
  shows "\<exists>m. log2_loop (rev [0..<k]) v l = (1, l + int m) \<and> 2 ^ m \<le> unat v \<and> unat v < 2 ^ Suc m"
  using assms
proof (induction k arbitrary: v l)
  case 0
  then have "unat v = 1" by (metis less_2_cases_iff power_0 power_one_right unat_eq_zero One_nat_def)
  then have "v = 1" by (simp add: word_unat_eq_iff)
  then show ?case by (intro exI [of _ 0]) simp
next
  case (Suc k)
  let ?x = "drop_bit (2 ^ k) v"
  have ux: "unat ?x = unat v div 2 ^ (2 ^ k)" by (rule unat_drop_bit)
  have list: "rev [0..<Suc k] = k # rev [0..<k]" by simp
  show ?case
  proof (cases "?x = 0")
    case True
    then have "unat v div 2 ^ (2 ^ k) = 0" using ux by simp
    then have "unat v < 2 ^ (2 ^ k)" by (simp add: div_eq_0_iff)
    then obtain m where "log2_loop (rev [0..<k]) v l = (1, l + int m)"
      "2 ^ m \<le> unat v" "unat v < 2 ^ Suc m"
      using Suc.IH Suc.prems(1) by blast
    then show ?thesis unfolding list using True by auto
  next
    case False
    have "unat v < 2 ^ (2 ^ k) * 2 ^ (2 ^ k)"
      using Suc.prems(2) by (simp add: power_add [symmetric] mult_2)
    then have "unat ?x < 2 ^ (2 ^ k)" unfolding ux by (simp add: less_mult_imp_div_less)
    then obtain m where m: "log2_loop (rev [0..<k]) ?x (l + 2 ^ k) = (1, l + 2 ^ k + int m)"
      "2 ^ m \<le> unat ?x" "unat ?x < 2 ^ Suc m"
      using Suc.IH [OF False] by blast
    have "2 ^ m * 2 ^ (2 ^ k) \<le> unat v"
      using m(2) unfolding ux by (simp add: less_eq_div_iff_mult_less_eq)
    moreover have "unat v < 2 ^ Suc m * 2 ^ (2 ^ k)"
      using m(3) unfolding ux by (simp add: div_less_iff_less_mult)
    ultimately have "2 ^ (2 ^ k + m) \<le> unat v" "unat v < 2 ^ Suc (2 ^ k + m)"
      by (simp_all add: power_add algebra_simps)
    then show ?thesis
      unfolding list using False m(1) by (intro exI [of _ "2 ^ k + m"]) (simp add: algebra_simps)
  qed
qed

lemma Log2Floor_nonzero:
  assumes "n \<noteq> 0"
  shows "\<exists>k. Log2Floor n = Inr (int k) \<and> 2 ^ k \<le> unat n \<and> unat n < 2 ^ Suc k"
proof -
  have "rev [0..<5] = [4, 3, 2, 1, 0 :: nat]" by (simp add: upt_rec)
  moreover have "unat n < 2 ^ (2 ^ 5)" using unsigned_less [of n] by simp
  ultimately obtain m where "log2_loop [4, 3, 2, 1, 0] n 0 = (1, 0 + int m)"
    "2 ^ m \<le> unat n" "unat n < 2 ^ Suc m"
    using log2_loop_correct [OF assms, of 5 0] by auto
  then show ?thesis using assms by (intro exI [of _ m]) (simp add: Log2Floor_def)
qed

text \<open>
  \<open>Log2Floor\<close> and \<open>Log2Ceiling\<close> never trip their \<open>DCHECK\<close>; on a non-zero argument they
  return the exponents of the powers of two around it, \<open>2^f \<le> n < 2^(f+1)\<close> and
  \<open>2^(c-1) < n \<le> 2^c\<close>, and on zero both return -1.
\<close>

theorem log2_bounds:
  "Log2Floor 0 = Inr (- 1) \<and> Log2Ceiling 0 = Inr (- 1) \<and>
   (n \<noteq> 0 \<longrightarrow>
     (\<exists>f c. Log2Floor n = Inr (int f) \<and> 2 ^ f \<le> unat n \<and> unat n < 2 ^ Suc f \<and>
            Log2Ceiling n = Inr (int c) \<and> unat n \<le> 2 ^ c \<and> 2 ^ c < 2 * unat n))"
proof (intro conjI impI)
  show "Log2Floor 0 = Inr (- 1)" "Log2Ceiling 0 = Inr (- 1)"
    by (simp_all add: Log2Floor_def Log2Ceiling_def)
next
  assume n: "n \<noteq> 0"
  obtain f where f: "Log2Floor n = Inr (int f)" "2 ^ f \<le> unat n" "unat n < 2 ^ Suc f"
    using Log2Floor_nonzero [OF n] by blast
  have pred: "unat (n - 1) = unat n - 1" using n by (simp add: unat_minus_one)
  show "\<exists>f c. Log2Floor n = Inr (int f) \<and> 2 ^ f \<le> unat n \<and> unat n < 2 ^ Suc f \<and>
          Log2Ceiling n = Inr (int c) \<and> unat n \<le> 2 ^ c \<and> 2 ^ c < 2 * unat n"
  proof (cases "n = 1")
    case True
    then have "Log2Ceiling n = Inr (int 0)" by (simp add: Log2Ceiling_def Log2Floor_def)
    then show ?thesis using f True by (intro exI [of _ f] exI [of _ 0]) simp
  next
    case False
    then obtain g where g: "Log2Floor (n - 1) = Inr (int g)" "2 ^ g \<le> unat n - 1"
      "unat n - 1 < 2 ^ Suc g"
      using Log2Floor_nonzero [of "n - 1"] pred by auto
    moreover have pos: "0 < unat n" using n by (simp add: unat_gt_0)
    have "Log2Ceiling n = Inr (int (Suc g))" using n g(1) by (simp add: Log2Ceiling_def)
    moreover have "unat n \<le> 2 ^ Suc g" using g(3) pos by linarith
    moreover have "2 ^ Suc g < 2 * unat n" using g(2) pos by simp
    ultimately show ?thesis using f by blast
  qed
qed

lemma log2_bounds_witness:
  "\<exists>f c. Log2Floor 1000 = Inr (int f) \<and> 2 ^ f \<le> unat (1000 :: 32 word) \<and>
         unat (1000 :: 32 word) < 2 ^ Suc f \<and>
         Log2Ceiling 1000 = Inr (int c) \<and> unat (1000 :: 32 word) \<le> 2 ^ c \<and>
         2 ^ c < 2 * unat (1000 :: 32 word)"
  using log2_bounds [of 1000] by simp

section \<open>Integers in memory and the byte swaps\<close>

text \<open>
  \<open>le_bytes n w\<close> is the object representation of an \<open>n\<close>-byte integer on the little-endian
  machines the code is written for (\<open>ByteSwapToLE*\<close> are the identity there);
  \<open>of_le_bytes\<close> is the integer a load of these bytes yields.
\<close>

primrec le_bytes :: "nat \<Rightarrow> 'a::len word \<Rightarrow> byte list" where
  "le_bytes 0 w = []"
| "le_bytes (Suc n) w = ucast w # le_bytes n (drop_bit 8 w)"

primrec of_le_bytes :: "byte list \<Rightarrow> 'a::len word" where
  "of_le_bytes [] = 0"
| "of_le_bytes (b # bs) = ucast b OR push_bit 8 (of_le_bytes bs)"

lemma length_le_bytes [simp]: "length (le_bytes n w) = n"
  by (induction n arbitrary: w) simp_all

lemma of_le_bytes_le_bytes: "of_le_bytes (le_bytes n w) = take_bit (8 * n) w"
proof (induction n arbitrary: w)
  case 0
  then show ?case by simp
next
  case (Suc n)
  have "ucast (ucast w :: byte) OR push_bit 8 (take_bit (8 * n) (drop_bit 8 w)) = take_bit (8 * Suc n) w"
    by (rule bit_word_eqI) (auto simp: bit_simps)
  with Suc show ?case by simp
qed

lemma of_le_bytes_le_bytes_len:
  "8 * n = LENGTH('a) \<Longrightarrow> of_le_bytes (le_bytes n (w :: 'a::len word)) = w"
  by (simp add: of_le_bytes_le_bytes take_bit_word_eq_self)

lemma le_bytes_of_le_bytes:
  "8 * length bs \<le> LENGTH('a) \<Longrightarrow> le_bytes (length bs) (of_le_bytes bs :: 'a::len word) = bs"
proof (induction bs)
  case Nil
  then show ?case by simp
next
  case (Cons b bs)
  let ?w = "of_le_bytes bs :: 'a word"
  have b: "ucast (ucast b OR push_bit 8 ?w) = b"
    using Cons.prems by (intro bit_word_eqI) (auto simp: bit_simps)
  have small: "take_bit (8 * length bs) ?w = ?w"
    using Cons.IH Cons.prems of_le_bytes_le_bytes [of "length bs" ?w] by simp
  have "drop_bit 8 (ucast b OR push_bit 8 ?w) = ?w"
  proof (rule bit_word_eqI)
    fix n assume n: "n < LENGTH('a)"
    have "bit ?w n \<Longrightarrow> n < 8 * length bs"
      by (metis bit_take_bit_iff small)
    then show "bit (drop_bit 8 (ucast b OR push_bit 8 ?w)) n = bit ?w n"
      using n Cons.prems bit_imp_le_length [of b "8 + n"] by (auto simp: bit_simps)
  qed
  with b Cons show ?case by simp
qed

definition ByteSwap :: "'a::len word \<Rightarrow> 'a word" where
  "ByteSwap x = of_le_bytes (rev (le_bytes (LENGTH('a) div 8) x))"

definition ByteSwapToLE :: "'a::len word \<Rightarrow> 'a word" where
  "ByteSwapToLE x = x"

definition NetToHost :: "'a::len word \<Rightarrow> 'a word" where
  "NetToHost x = ByteSwap x"

definition HostToNet :: "'a::len word \<Rightarrow> 'a word" where
  "HostToNet x = ByteSwap x"

lemma le_bytes_ByteSwap:
  assumes "8 * n = LENGTH('a)"
  shows "le_bytes n (ByteSwap (x :: 'a::len word)) = rev (le_bytes n x)"
proof -
  have "LENGTH('a) div 8 = n" using assms by linarith
  then show ?thesis
    using le_bytes_of_le_bytes [of "rev (le_bytes n x)", where ?'a = 'a] assms
    by (simp add: ByteSwap_def)
qed

lemma ByteSwap_ByteSwap:
  assumes "8 * n = LENGTH('a)"
  shows "ByteSwap (ByteSwap (x :: 'a::len word)) = x"
proof -
  have "LENGTH('a) div 8 = n" using assms by linarith
  then show ?thesis
    unfolding ByteSwap_def [of "ByteSwap x"]
    by (simp add: le_bytes_ByteSwap [OF assms] of_le_bytes_le_bytes_len [OF assms])
qed

text \<open>
  For the three widths of the header, \<open>HostToNet\<close> puts the most significant byte first in
  memory (the bytes of the host's value reversed) and \<open>NetToHost\<close> undoes it.
\<close>

theorem net_byte_order_roundtrip:
  "le_bytes 2 (HostToNet (x :: 16 word)) = rev (le_bytes 2 x) \<and> NetToHost (HostToNet x) = x \<and>
   le_bytes 4 (HostToNet (y :: 32 word)) = rev (le_bytes 4 y) \<and> NetToHost (HostToNet y) = y \<and>
   le_bytes 8 (HostToNet (z :: 64 word)) = rev (le_bytes 8 z) \<and> NetToHost (HostToNet z) = z"
  by (simp add: HostToNet_def NetToHost_def le_bytes_ByteSwap
      ByteSwap_ByteSwap [of 2, where ?'a = 16] ByteSwap_ByteSwap [of 4, where ?'a = 32]
      ByteSwap_ByteSwap [of 8, where ?'a = 64])

end
