(* ===== verification/StringEncode.thy ===== *)
theory StringEncode
  imports Prelude Ascii Bits
begin

text \<open>
  \<open>base/string_encode.{h,cc}\<close>: UTF-8 encoding and decoding of one code point, and the hexadecimal
  codec with its optional delimiter.  A caller's buffer is the list of its characters (\<open>None\<close> for
  a null pointer where the code tests for one) beside the length the caller claims; the operations
  return the size the code returns and the buffer as they leave it.
\<close>

section \<open>UTF-8\<close>

definition byte_of :: "64 word \<Rightarrow> 8 word" where
  "byte_of v = ucast v"

definition put :: "nat \<Rightarrow> 8 word \<Rightarrow> string \<Rightarrow> string res" where
  "put i b buffer = array_set buffer i (char_of_byte b)"

definition UTF8Encode :: "string \<Rightarrow> size_t \<Rightarrow> 64 word \<Rightarrow> (size_t \<times> string) res" where
  "UTF8Encode buffer buf_len value =
     (if value \<le> 0x7F \<and> buf_len \<ge> 1 then
        bind_res (put 0 (byte_of value) buffer) (\<lambda>b. Inr (1, b))
      else if value \<le> 0x7FF \<and> buf_len \<ge> 2 then
        bind_res (put 0 (0xC0 OR byte_of (drop_bit 6 value)) buffer) (\<lambda>b.
        bind_res (put 1 (0x80 OR byte_of (value AND 0x3F)) b) (\<lambda>b. Inr (2, b)))
      else if value \<le> 0xFFFF \<and> buf_len \<ge> 3 then
        bind_res (put 0 (0xE0 OR byte_of (drop_bit 12 value)) buffer) (\<lambda>b.
        bind_res (put 1 (0x80 OR byte_of (drop_bit 6 value AND 0x3F)) b) (\<lambda>b.
        bind_res (put 2 (0x80 OR byte_of (value AND 0x3F)) b) (\<lambda>b. Inr (3, b))))
      else if value \<le> 0x1FFFFF \<and> buf_len \<ge> 4 then
        bind_res (put 0 (0xF0 OR byte_of (drop_bit 18 value)) buffer) (\<lambda>b.
        bind_res (put 1 (0x80 OR byte_of (drop_bit 12 value AND 0x3F)) b) (\<lambda>b.
        bind_res (put 2 (0x80 OR byte_of (drop_bit 6 value AND 0x3F)) b) (\<lambda>b.
        bind_res (put 3 (0x80 OR byte_of (value AND 0x3F)) b) (\<lambda>b. Inr (4, b)))))
      else Inr (0, buffer))"

definition get :: "string \<Rightarrow> nat \<Rightarrow> 8 word res" where
  "get source i = bind_res (array_get source i) (\<lambda>c. Inr (uchar c))"

definition bits64 :: "8 word \<Rightarrow> 8 word \<Rightarrow> 64 word" where
  "bits64 b m = ucast (b AND m)"

text \<open>The size returned, and \<open>*value\<close> afterwards: untouched when the size is 0.\<close>

definition UTF8Decode :: "string \<Rightarrow> size_t \<Rightarrow> 64 word \<Rightarrow> (size_t \<times> 64 word) res" where
  "UTF8Decode source src_len value =
     bind_res (get source 0) (\<lambda>s0.
       if s0 AND 0x80 = 0x00 then Inr (1, ucast s0)
       else if src_len < 2 then Inr (0, value)
       else bind_res (get source 1) (\<lambda>s1.
         if s1 AND 0xC0 \<noteq> 0x80 then Inr (0, value)
         else let value16 = bits64 s1 0x3F in
         if s0 AND 0xE0 = 0xC0 then Inr (2, push_bit 6 (bits64 s0 0x1F) OR value16)
         else if src_len < 3 then Inr (0, value)
         else bind_res (get source 2) (\<lambda>s2.
           if s2 AND 0xC0 \<noteq> 0x80 then Inr (0, value)
           else let value16 = push_bit 6 value16 OR bits64 s2 0x3F in
           if s0 AND 0xF0 = 0xE0 then Inr (3, push_bit 12 (bits64 s0 0x0F) OR value16)
           else if src_len < 4 then Inr (0, value)
           else bind_res (get source 3) (\<lambda>s3.
             if s3 AND 0xC0 \<noteq> 0x80 then Inr (0, value)
             else let value16 = push_bit 6 value16 OR bits64 s3 0x3F in
             if s0 AND 0xF8 = 0xF0 then Inr (4, push_bit 18 (bits64 s0 0x07) OR value16)
             else Inr (0, value)))))"

section \<open>Hexadecimal\<close>

definition kHex :: string where
  "kHex = ''0123456789ABCDEF''"

definition HexEncode_char :: "8 word \<Rightarrow> char res" where
  "HexEncode_char v =
     bind_res (check (v < 16)) (\<lambda>_. if v < 16 then array_get kHex (unat v) else Inr (CHR ''!''))"

text \<open>The value stored through the pointer, \<open>None\<close> where the code answers false.\<close>

definition HexDecode_char :: "char \<Rightarrow> 8 word option" where
  "HexDecode_char ch =
     (if schar ch \<ge> schar (CHR ''0'') \<and> schar ch \<le> schar (CHR ''9'')
        then Some (uchar ch - uchar (CHR ''0''))
      else if schar ch \<ge> schar (CHR ''A'') \<and> schar ch \<le> schar (CHR ''Z'')
        then Some (uchar ch - uchar (CHR ''A'') + 10)
      else if schar ch \<ge> schar (CHR ''a'') \<and> schar ch \<le> schar (CHR ''z'')
        then Some (uchar ch - uchar (CHR ''a'') + 10)
      else None)"

definition nul :: char where
  "nul = CHR 0x00"

function hex_encode_loop ::
  "string \<Rightarrow> size_t \<Rightarrow> char \<Rightarrow> size_t \<Rightarrow> size_t \<Rightarrow> string \<Rightarrow> (size_t \<times> string) res" where
  "hex_encode_loop src src_len delimiter src_pos buf_pos buf =
     (if src_pos < src_len then
        bind_res (get src src_pos) (\<lambda>ch.
        bind_res (HexEncode_char (drop_bit 4 ch AND 0xF)) (\<lambda>h1.
        bind_res (array_set buf buf_pos h1) (\<lambda>buf.
        bind_res (HexEncode_char (ch AND 0xF)) (\<lambda>h2.
        bind_res (array_set buf (buf_pos + 1) h2) (\<lambda>buf.
          if delimiter \<noteq> nul \<and> src_pos + 1 < src_len
          then bind_res (array_set buf (buf_pos + 2) delimiter) (\<lambda>buf.
                 hex_encode_loop src src_len delimiter (src_pos + 1) (buf_pos + 3) buf)
          else hex_encode_loop src src_len delimiter (src_pos + 1) (buf_pos + 2) buf)))))
      else Inr (buf_pos, buf))"
  by pat_completeness auto
termination by (relation "measure (\<lambda>(s, n, d, i, j, b). n - i)") auto

declare hex_encode_loop.simps [simp del]

definition HexEncodeWithDelimiter_buf ::
  "string option \<Rightarrow> size_t \<Rightarrow> string \<Rightarrow> size_t \<Rightarrow> char \<Rightarrow> (size_t \<times> string) res" where
  "HexEncodeWithDelimiter_buf buf buf_len src src_len delimiter =
     (case buf of None \<Rightarrow> Inl CheckFailed
      | Some buf \<Rightarrow>
          if buf_len = 0 then Inr (0, buf)
          else let needed = (if delimiter \<noteq> nul then sz_mul src_len 3
                             else sz_add (sz_mul src_len 2) 1)
               in if buf_len < needed then Inr (0, buf)
                  else bind_res (hex_encode_loop src src_len delimiter 0 0 buf) (\<lambda>(buf_pos, buf).
                       bind_res (array_set buf buf_pos nul) (\<lambda>buf. Inr (buf_pos, buf))))"

definition HexEncode_buf ::
  "string option \<Rightarrow> size_t \<Rightarrow> string \<Rightarrow> size_t \<Rightarrow> (size_t \<times> string) res" where
  "HexEncode_buf buf buf_len source src_len =
     HexEncodeWithDelimiter_buf buf buf_len source src_len nul"

text \<open>
  The \<open>std::string\<close> versions take the source as a C array of \<open>src_len\<close> bytes and encode into an
  uninitialised local array, given by its contents \<open>junk\<close>.
\<close>

definition HexEncodeWithDelimiter :: "(nat \<Rightarrow> char) \<Rightarrow> string \<Rightarrow> size_t \<Rightarrow> char \<Rightarrow> string res" where
  "HexEncodeWithDelimiter junk src src_len delimiter =
     (let kBufferSize = sz_mul src_len 3; buf = map junk [0..<kBufferSize]
      in bind_res (HexEncodeWithDelimiter_buf (Some buf) kBufferSize src src_len delimiter)
           (\<lambda>(len, buf).
           bind_res (check (src_len = 0 \<or> len > 0)) (\<lambda>_. Inr (take len buf))))"

definition HexEncode :: "(nat \<Rightarrow> char) \<Rightarrow> string \<Rightarrow> string res" where
  "HexEncode junk str = HexEncodeWithDelimiter junk str (length str) nul"

function hex_decode_loop ::
  "string \<Rightarrow> size_t \<Rightarrow> char \<Rightarrow> size_t \<Rightarrow> size_t \<Rightarrow> string \<Rightarrow> (size_t \<times> string) res" where
  "hex_decode_loop src src_len delimiter src_pos buf_pos buf =
     (if src_pos < src_len then
        if src_len - src_pos < 2 then Inr (0, buf)
        else
        bind_res (array_get src src_pos) (\<lambda>c1. case HexDecode_char c1 of None \<Rightarrow> Inr (0, buf)
        | Some h1 \<Rightarrow>
        bind_res (array_get src (src_pos + 1)) (\<lambda>c2. case HexDecode_char c2 of None \<Rightarrow> Inr (0, buf)
        | Some h2 \<Rightarrow>
        bind_res (array_set buf buf_pos (char_of_byte (push_bit 4 h1 OR h2))) (\<lambda>buf.
          if delimiter \<noteq> nul \<and> src_len - (src_pos + 2) > 1
          then bind_res (array_get src (src_pos + 2)) (\<lambda>d.
                 if d \<noteq> delimiter then Inr (0, buf)
                 else hex_decode_loop src src_len delimiter (src_pos + 3) (buf_pos + 1) buf)
          else hex_decode_loop src src_len delimiter (src_pos + 2) (buf_pos + 1) buf)))
      else Inr (buf_pos, buf))"
  by pat_completeness auto
termination by (relation "measure (\<lambda>(s, n, d, i, j, b). n - i)") auto

declare hex_decode_loop.simps [simp del]

definition HexDecodeWithDelimiter_buf ::
  "string option \<Rightarrow> size_t \<Rightarrow> string \<Rightarrow> size_t \<Rightarrow> char \<Rightarrow> (size_t \<times> string) res" where
  "HexDecodeWithDelimiter_buf buf buf_len src src_len delimiter =
     (case buf of None \<Rightarrow> Inl CheckFailed
      | Some buf \<Rightarrow>
          if buf_len = 0 then Inr (0, buf)
          else let needed = (if delimiter \<noteq> nul then sz_add src_len 1 div 3 else src_len div 2)
               in if buf_len < needed then Inr (0, buf)
                  else hex_decode_loop src src_len delimiter 0 0 buf)"

definition HexDecode_buf ::
  "string option \<Rightarrow> size_t \<Rightarrow> string \<Rightarrow> size_t \<Rightarrow> (size_t \<times> string) res" where
  "HexDecode_buf buf buf_len src src_len = HexDecodeWithDelimiter_buf buf buf_len src src_len nul"

definition HexDecodeWithDelimiter_str ::
  "string option \<Rightarrow> size_t \<Rightarrow> string \<Rightarrow> char \<Rightarrow> (size_t \<times> string) res" where
  "HexDecodeWithDelimiter_str buf buf_len src delimiter =
     HexDecodeWithDelimiter_buf buf buf_len src (length src) delimiter"

definition HexDecode_str :: "string option \<Rightarrow> size_t \<Rightarrow> string \<Rightarrow> (size_t \<times> string) res" where
  "HexDecode_str buf buf_len src = HexDecodeWithDelimiter_str buf buf_len src nul"

definition HexDecode :: "(nat \<Rightarrow> char) \<Rightarrow> string \<Rightarrow> string res" where
  "HexDecode junk src =
     (if length src = 0 then Inr []
      else let kBufferSize = length src div 2; buf = map junk [0..<kBufferSize]
           in bind_res (HexDecode_str (Some buf) kBufferSize src)
                (\<lambda>(len, buf).
                bind_res (check (len > 0)) (\<lambda>_. Inr (take len buf))))"

section \<open>UTF-8 round trip\<close>

lemma put_in [simp]: "i < length b \<Longrightarrow> put i c b = Inr (splice_at b i [char_of_byte c])"
  by (simp add: put_def)

lemma get_in [simp]: "i < length b \<Longrightarrow> get b i = Inr (uchar (b ! i))"
  by (simp add: get_def)

text \<open>The bit operations of the codec as arithmetic on the numbers the bytes denote.\<close>

lemma or_add_nat: "(r::nat) < 2 ^ k \<Longrightarrow> (q * 2 ^ k) OR r = q * 2 ^ k + r"
proof -
  assume r: "r < 2 ^ k"
  have "bit (q * 2 ^ k) n \<Longrightarrow> bit r n \<Longrightarrow> False" for n
    using r by (auto simp: bit_simps push_bit_eq_mult [symmetric])
      (metis bit_take_bit_iff take_bit_nat_eq_self_iff not_less)
  then have "q * 2 ^ k AND r = 0" by (intro bit_eqI) (auto simp: bit_simps)
  then show ?thesis by (rule disjunctive_add_eq_or [symmetric])
qed

lemma unat_or_add:
  "unat c = q * 2 ^ k \<Longrightarrow> unat a < 2 ^ k \<Longrightarrow> unat (c OR a) = unat c + unat (a :: 'a::len word)"
  by (simp add: unsigned_or_eq or_add_nat)

lemma unat_and_mask: "unat (w AND mask k) = unat (w :: 'a::len word) mod 2 ^ k"
  by (simp flip: take_bit_eq_mask add: unat_take_bit)

lemma unat_byte_of: "unat (byte_of v) = unat v mod 256"
  by (simp add: byte_of_def unsigned_ucast_eq take_bit_eq_mod)

lemma masks:
  "(0x3F :: 'a::len word) = mask 6" "(0x1F :: 8 word) = mask 5" "(0x0F :: 8 word) = mask 4"
  "(0x07 :: 8 word) = mask 3" "(0x80 :: 8 word) = NOT (mask 7)" "(0xC0 :: 8 word) = NOT (mask 6)"
  "(0xE0 :: 8 word) = NOT (mask 5)" "(0xF0 :: 8 word) = NOT (mask 4)"
  "(0xF8 :: 8 word) = NOT (mask 3)"
  by (simp_all add: mask_eq_exp_minus_1)

lemma tag_tests:
  fixes s :: "8 word"
  shows "s AND 0x80 = 0x00 \<longleftrightarrow> unat s div 128 = 0"
    and "s AND 0xC0 = 0x80 \<longleftrightarrow> unat s div 64 = 2"
    and "s AND 0xE0 = 0xC0 \<longleftrightarrow> unat s div 32 = 6"
    and "s AND 0xF0 = 0xE0 \<longleftrightarrow> unat s div 16 = 14"
    and "s AND 0xF8 = 0xF0 \<longleftrightarrow> unat s div 8 = 30"
proof -
  have "unat (s AND 0x80) = unat s div 128 * 128" "unat (s AND 0xC0) = unat s div 64 * 64"
    "unat (s AND 0xE0) = unat s div 32 * 32" "unat (s AND 0xF0) = unat s div 16 * 16"
    "unat (s AND 0xF8) = unat s div 8 * 8"
    using unat_and_not_mask [of s 7] unat_and_not_mask [of s 6] unat_and_not_mask [of s 5]
      unat_and_not_mask [of s 4] unat_and_not_mask [of s 3]
    by (simp_all flip: masks(5-))
  then show "s AND 0x80 = 0x00 \<longleftrightarrow> unat s div 128 = 0"
    "s AND 0xC0 = 0x80 \<longleftrightarrow> unat s div 64 = 2" "s AND 0xE0 = 0xC0 \<longleftrightarrow> unat s div 32 = 6"
    "s AND 0xF0 = 0xE0 \<longleftrightarrow> unat s div 16 = 14" "s AND 0xF8 = 0xF0 \<longleftrightarrow> unat s div 8 = 30"
    by (simp_all add: word_unat_eq_iff)
qed

lemma unat_payload:
  "unat (bits64 s 0x3F) = unat s mod 64" "unat (bits64 s 0x1F) = unat s mod 32"
  "unat (bits64 s 0x0F) = unat s mod 16" "unat (bits64 s 0x07) = unat s mod 8"
proof -
  have "unat (ucast b :: 64 word) = unat b" for b :: "8 word"
    using order_less_trans [OF unat_byte_lt [of b], of "2 ^ 64"]
    by (simp add: unsigned_ucast_eq take_bit_eq_mod)
  then show "unat (bits64 s 0x3F) = unat s mod 64" "unat (bits64 s 0x1F) = unat s mod 32"
    "unat (bits64 s 0x0F) = unat s mod 16" "unat (bits64 s 0x07) = unat s mod 8"
    using unat_and_mask [of s 6] unat_and_mask [of s 5] unat_and_mask [of s 4] unat_and_mask [of s 3]
    by (simp_all add: bits64_def flip: masks)
qed

lemma unat_lead:
  "unat a < 32 \<Longrightarrow> unat (0xC0 OR a :: 8 word) = 192 + unat a"
  "unat a < 16 \<Longrightarrow> unat (0xE0 OR a :: 8 word) = 224 + unat a"
  "unat a < 8 \<Longrightarrow> unat (0xF0 OR a :: 8 word) = 240 + unat a"
  "unat a < 64 \<Longrightarrow> unat (0x80 OR a :: 8 word) = 128 + unat a"
  using unat_or_add [of "0xC0 :: 8 word" 6 5 a] unat_or_add [of "0xE0 :: 8 word" 14 4 a]
    unat_or_add [of "0xF0 :: 8 word" 30 3 a] unat_or_add [of "0x80 :: 8 word" 2 6 a]
  by simp_all

lemma unat_join:
  "unat (x :: 64 word) * 2 ^ k < 2 ^ 64 \<Longrightarrow> unat y < 2 ^ k \<Longrightarrow>
   unat (push_bit k x OR y) = unat x * 2 ^ k + unat y"
proof -
  assume x: "unat x * 2 ^ k < 2 ^ 64" and y: "unat y < 2 ^ k"
  have "unat (push_bit k x) = take_bit 64 (push_bit k (unat x))"
    by (simp only: unsigned_push_bit_eq) simp
  also have "\<dots> = unat x * 2 ^ k" using x by (simp add: take_bit_eq_mod push_bit_eq_mult)
  finally have "unat (push_bit k x) = unat x * 2 ^ k" .
  with y show ?thesis by (simp add: unat_or_add)
qed

lemma unat_chunk:
  "unat (byte_of (drop_bit k v AND 0x3F)) = unat v div 2 ^ k mod 64"
  "unat (byte_of (v AND 0x3F)) = unat v mod 64"
  "unat (byte_of (drop_bit k v)) = unat v div 2 ^ k mod 256"
  using unat_and_mask [of "drop_bit k v" 6] unat_and_mask [of v 6]
  by (simp_all add: unat_byte_of unat_drop_bit masks)

definition utf8_bytes :: "64 word \<Rightarrow> 8 word list" where
  "utf8_bytes v =
     (if v \<le> 0x7F then [byte_of v]
      else if v \<le> 0x7FF then [0xC0 OR byte_of (drop_bit 6 v), 0x80 OR byte_of (v AND 0x3F)]
      else if v \<le> 0xFFFF then
        [0xE0 OR byte_of (drop_bit 12 v), 0x80 OR byte_of (drop_bit 6 v AND 0x3F),
         0x80 OR byte_of (v AND 0x3F)]
      else
        [0xF0 OR byte_of (drop_bit 18 v), 0x80 OR byte_of (drop_bit 12 v AND 0x3F),
         0x80 OR byte_of (drop_bit 6 v AND 0x3F), 0x80 OR byte_of (v AND 0x3F)])"

lemma utf8_cases [case_names one two three four]:
  fixes v :: "64 word"
  obtains "v \<le> 0x7F" | "\<not> v \<le> 0x7F" "v \<le> 0x7FF" | "\<not> v \<le> 0x7F" "\<not> v \<le> 0x7FF" "v \<le> 0xFFFF"
  | "\<not> v \<le> 0x7F" "\<not> v \<le> 0x7FF" "\<not> v \<le> 0xFFFF"
  by blast

lemma lead_mod:
  "(x :: nat) < 32 \<Longrightarrow> (192 + x) mod 32 = x" "x < 16 \<Longrightarrow> (224 + x) mod 16 = x"
  "x < 8 \<Longrightarrow> (240 + x) mod 8 = x" "x < 64 \<Longrightarrow> (128 + x) mod 64 = x"
  using mod_mult_self4 [of 32 6 x] mod_mult_self4 [of 16 14 x] mod_mult_self4 [of 8 30 x]
    mod_mult_self4 [of 64 2 x]
  by simp_all

lemma mod_join:
  "(a :: nat) mod 64 * 64 + b mod 64 < 4096"
  "a mod 64 * 4096 + b mod 64 * 64 + c mod 64 < 262144"
proof -
  have "a mod 64 < 64" "b mod 64 < 64" "c mod 64 < 64" by simp_all
  then show "a mod 64 * 64 + b mod 64 < 4096" "a mod 64 * 4096 + b mod 64 * 64 + c mod 64 < 262144"
    by linarith+
qed

lemmas utf8_arith = mod_join unat_join unat_payload lead_mod div_less_iff_less_mult

lemma UTF8Encode_bytes:
  assumes "v \<le> 0x1FFFFF" "length (utf8_bytes v) \<le> buf_len" "length (utf8_bytes v) \<le> length buffer"
  shows "UTF8Encode buffer buf_len v =
           Inr (length (utf8_bytes v), splice_at buffer 0 (map char_of_byte (utf8_bytes v)))"
proof (cases v rule: utf8_cases)
  case one
  then show ?thesis using assms by (simp add: UTF8Encode_def utf8_bytes_def Suc_le_eq)
next
  case two
  then have "2 \<le> buf_len" "2 \<le> length buffer" "buffer \<noteq> []"
    using assms by (auto simp: utf8_bytes_def)
  with two show ?thesis by (simp add: UTF8Encode_def utf8_bytes_def splice_at_splice_at)
next
  case three
  then have "3 \<le> buf_len" "3 \<le> length buffer" "buffer \<noteq> []"
    using assms by (auto simp: utf8_bytes_def)
  with three show ?thesis by (simp add: UTF8Encode_def utf8_bytes_def splice_at_splice_at)
next
  case four
  then have "4 \<le> buf_len" "4 \<le> length buffer" "buffer \<noteq> []"
    using assms by (auto simp: utf8_bytes_def)
  with four assms(1) show ?thesis by (simp add: UTF8Encode_def utf8_bytes_def splice_at_splice_at)
qed

lemma utf8_v_split:
  "(v :: nat) = v div 64 * 64 + v mod 64"
  "v = v div 4096 * 4096 + v div 64 mod 64 * 64 + v mod 64"
  "v = v div 262144 * 262144 + v div 4096 mod 64 * 4096 + v div 64 mod 64 * 64 + v mod 64"
proof -
  have "v div 64 = v div 4096 * 64 + v div 64 mod 64"
    using div_mult_mod_eq [of "v div 64" 64] by (simp add: div_mult2_eq [symmetric])
  moreover have "v div 4096 = v div 262144 * 64 + v div 4096 mod 64"
    using div_mult_mod_eq [of "v div 4096" 64] by (simp add: div_mult2_eq [symmetric])
  moreover show "v = v div 64 * 64 + v mod 64" by simp
  ultimately show "v = v div 4096 * 4096 + v div 64 mod 64 * 64 + v mod 64"
    "v = v div 262144 * 262144 + v div 4096 mod 64 * 4096 + v div 64 mod 64 * 64 + v mod 64"
    by linarith+
qed

text \<open>Decoding reads the first bytes only, so it is enough to look at the bytes encoded, for each number of them.\<close>

lemma UTF8Decode_one:
  assumes "unat v \<le> 0x7F" "unat (uchar (b ! 0)) = unat v" "b \<noteq> []"
  shows "UTF8Decode b src_len w = Inr (1, v)"
proof -
  have "uchar (b ! 0) AND 0x80 = 0x00" "ucast (uchar (b ! 0)) = v"
    using assms unfolding tag_tests by (simp_all add: word_unat_eq_iff unsigned_ucast_eq take_bit_eq_mod)
  then show ?thesis using assms(3) by (simp add: UTF8Decode_def)
qed

lemma UTF8Decode_two:
  assumes v: "unat v \<le> 0x7FF" "0x7F < unat v"
    and s: "unat (uchar (b ! 0)) = 192 + unat v div 64" "unat (uchar (b ! 1)) = 128 + unat v mod 64"
    and len: "2 \<le> length b" "2 \<le> src_len"
  shows "UTF8Decode b src_len w = Inr (2, v)"
proof -
  have t: "\<not> (uchar (b ! 0) AND 0x80 = 0x00)" "uchar (b ! 1) AND 0xC0 = 0x80" "uchar (b ! 0) AND 0xE0 = 0xC0"
    unfolding tag_tests using s v by simp_all
  have "b \<noteq> []" "1 < length b" using len by auto
  then have "UTF8Decode b src_len w =
      Inr (2, push_bit 6 (bits64 (uchar (b ! 0)) 0x1F) OR bits64 (uchar (b ! 1)) 0x3F)"
    using t len(2) by (simp add: UTF8Decode_def)
  moreover have "push_bit 6 (bits64 (uchar (b ! 0)) 0x1F) OR bits64 (uchar (b ! 1)) 0x3F = v"
    using v s utf8_v_split(1) [of "unat v"] by (simp add: utf8_arith word_unat_eq_iff)
  ultimately show ?thesis by simp
qed

lemma UTF8Decode_three:
  assumes v: "unat v \<le> 0xFFFF" "0x7FF < unat v"
    and s: "unat (uchar (b ! 0)) = 224 + unat v div 4096"
      "unat (uchar (b ! 1)) = 128 + unat v div 64 mod 64" "unat (uchar (b ! 2)) = 128 + unat v mod 64"
    and len: "3 \<le> length b" "3 \<le> src_len"
  shows "UTF8Decode b src_len w = Inr (3, v)"
proof -
  define x where "x = push_bit 6 (bits64 (uchar (b ! 1)) 0x3F) OR bits64 (uchar (b ! 2)) 0x3F"
  have x: "unat x = unat v div 64 mod 64 * 64 + unat v mod 64"
    using s by (simp add: x_def utf8_arith)
  have t: "\<not> (uchar (b ! 0) AND 0x80 = 0x00)" "uchar (b ! 1) AND 0xC0 = 0x80"
    "\<not> (uchar (b ! 0) AND 0xE0 = 0xC0)" "uchar (b ! 2) AND 0xC0 = 0x80" "uchar (b ! 0) AND 0xF0 = 0xE0"
    unfolding tag_tests using s v by simp_all
  have "b \<noteq> []" "1 < length b" "2 < length b" using len by auto
  then have "UTF8Decode b src_len w = Inr (3, push_bit 12 (bits64 (uchar (b ! 0)) 0x0F) OR x)"
    using t len(2) by (simp add: UTF8Decode_def x_def)
  moreover have "push_bit 12 (bits64 (uchar (b ! 0)) 0x0F) OR x = v"
    using v s x utf8_v_split(2) [of "unat v"] by (simp add: utf8_arith word_unat_eq_iff)
  ultimately show ?thesis by simp
qed

lemma UTF8Decode_four:
  assumes v: "unat v \<le> 0x1FFFFF" "0xFFFF < unat v"
    and s: "unat (uchar (b ! 0)) = 240 + unat v div 262144" "unat (uchar (b ! 1)) = 128 + unat v div 4096 mod 64"
      "unat (uchar (b ! 2)) = 128 + unat v div 64 mod 64" "unat (uchar (b ! 3)) = 128 + unat v mod 64"
    and len: "4 \<le> length b" "4 \<le> src_len"
  shows "UTF8Decode b src_len w = Inr (4, v)"
proof -
  define y where "y = push_bit 6 (bits64 (uchar (b ! 1)) 0x3F) OR bits64 (uchar (b ! 2)) 0x3F"
  have y: "unat y = unat v div 4096 mod 64 * 64 + unat v div 64 mod 64"
    using s by (simp add: y_def utf8_arith)
  then have y64: "unat y < 4096" by (simp only: mod_join)
  define x where "x = push_bit 6 y OR bits64 (uchar (b ! 3)) 0x3F"
  have "unat x = unat y * 2 ^ 6 + unat (bits64 (uchar (b ! 3)) 0x3F)"
    unfolding x_def by (rule unat_join) (use y64 in \<open>simp_all add: unat_payload\<close>)
  then have x: "unat x = unat v div 4096 mod 64 * 4096 + unat v div 64 mod 64 * 64 + unat v mod 64"
    using s y by (simp add: unat_payload lead_mod)
  have t: "\<not> (uchar (b ! 0) AND 0x80 = 0x00)" "uchar (b ! 1) AND 0xC0 = 0x80"
    "\<not> (uchar (b ! 0) AND 0xE0 = 0xC0)" "uchar (b ! 2) AND 0xC0 = 0x80"
    "\<not> (uchar (b ! 0) AND 0xF0 = 0xE0)" "uchar (b ! 3) AND 0xC0 = 0x80" "uchar (b ! 0) AND 0xF8 = 0xF0"
    unfolding tag_tests using s v by simp_all
  have "b \<noteq> []" "1 < length b" "2 < length b" "3 < length b" using len by auto
  then have "UTF8Decode b src_len w = Inr (4, push_bit 18 (bits64 (uchar (b ! 0)) 0x07) OR x)"
    using t len(2) by (simp add: UTF8Decode_def x_def y_def)
  moreover have "push_bit 18 (bits64 (uchar (b ! 0)) 0x07) OR x = v"
    using v s x utf8_v_split(3) [of "unat v"] by (simp add: utf8_arith word_unat_eq_iff)
  ultimately show ?thesis by simp
qed

lemma UTF8Decode_bytes:
  assumes "v \<le> 0x1FFFFF" "length (utf8_bytes v) \<le> length b" "length (utf8_bytes v) \<le> src_len"
    and b: "\<And>i. i < length (utf8_bytes v) \<Longrightarrow> uchar (b ! i) = utf8_bytes v ! i"
  shows "UTF8Decode b src_len w = Inr (length (utf8_bytes v), v)"
proof -
  note bytes = utf8_bytes_def unat_lead unat_chunk unat_drop_bit word_unat_eq_iff word_le_nat_alt
  have v: "unat v \<le> 0x1FFFFF" using assms(1) by (simp add: word_le_nat_alt)
  show ?thesis
  proof (cases v rule: utf8_cases)
    case one
    then show ?thesis
      using UTF8Decode_one [of v b src_len w] b [of 0] assms(2) by (cases b) (auto simp: bytes unat_byte_of)
  next
    case two
    then have "unat (uchar (b ! 0)) = 192 + unat v div 64" "unat (uchar (b ! 1)) = 128 + unat v mod 64"
      using b [of 0] b [of 1] by (simp_all add: bytes)
    then show ?thesis using UTF8Decode_two [of v b src_len w] two assms(2,3) by (simp add: utf8_bytes_def word_le_nat_alt)
  next
    case three
    then have "unat (uchar (b ! 0)) = 224 + unat v div 4096" "unat (uchar (b ! 1)) = 128 + unat v div 64 mod 64"
      "unat (uchar (b ! 2)) = 128 + unat v mod 64"
      using b [of 0] b [of 1] b [of 2] by (simp_all add: bytes)
    then show ?thesis using UTF8Decode_three [of v b src_len w] three assms(2,3) by (simp add: utf8_bytes_def word_le_nat_alt)
  next
    case four
    then have "unat (uchar (b ! 0)) = 240 + unat v div 262144" "unat (uchar (b ! 1)) = 128 + unat v div 4096 mod 64"
      "unat (uchar (b ! 2)) = 128 + unat v div 64 mod 64" "unat (uchar (b ! 3)) = 128 + unat v mod 64"
      using v b [of 0] b [of 1] b [of 2] b [of 3] by (simp_all add: bytes)
    then show ?thesis using UTF8Decode_four [of v b src_len w] v four assms(2,3) by (simp add: utf8_bytes_def word_le_nat_alt)
  qed
qed

text \<open>
  C21: every code point below 2 to the 21 encodes into the one to four bytes UTF-8 gives it, touching
  nothing else of the buffer, and decoding what was written gives the code point and its length back.
\<close>

theorem utf8_roundtrip:
  assumes "v \<le> 0x1FFFFF" "length (utf8_bytes v) \<le> buf_len" "buf_len \<le> length buffer"
  shows "\<exists>b. UTF8Encode buffer buf_len v = Inr (length (utf8_bytes v), b) \<and>
             b = splice_at buffer 0 (map char_of_byte (utf8_bytes v)) \<and>
             UTF8Decode b (length (utf8_bytes v)) w = Inr (length (utf8_bytes v), v)"
proof -
  let ?b = "splice_at buffer 0 (map char_of_byte (utf8_bytes v))"
  have "uchar (?b ! i) = utf8_bytes v ! i" if "i < length (utf8_bytes v)" for i
    using that by (simp add: splice_at_0 nth_append)
  then show ?thesis
    using assms UTF8Encode_bytes [of v buf_len buffer]
      UTF8Decode_bytes [of v ?b "length (utf8_bytes v)" w] by simp
qed

theorem utf8_roundtrip_witness:
  "\<exists>b. UTF8Encode (replicate 4 nul) 4 0x20AC = Inr (3, b) \<and> UTF8Decode b 3 0 = Inr (3, 0x20AC)"
proof -
  have "length (utf8_bytes 0x20AC) = 3" by (simp add: utf8_bytes_def)
  then show ?thesis using utf8_roundtrip [of "0x20AC" 4 "replicate 4 nul" 0] by auto
qed

section \<open>The hexadecimal codec against its reference\<close>

definition hex_digit :: "nat \<Rightarrow> char" where
  "hex_digit n = kHex ! n"

definition hex_pair :: "8 word \<Rightarrow> string" where
  "hex_pair b = [hex_digit (unat b div 16), hex_digit (unat b mod 16)]"

fun hex_text :: "char \<Rightarrow> 8 word list \<Rightarrow> string" where
  "hex_text d [] = []"
| "hex_text d [b] = hex_pair b"
| "hex_text d (b # c # bs) = hex_pair b @ (if d = nul then [] else [d]) @ hex_text d (c # bs)"

text \<open>
  The reference decoder: pairs of digits, a delimiter after a pair when two characters follow it.  What a
  digit is worth goes by its number in ASCII, and the letters past F count on to 35, as they do for the code.
\<close>

definition digit_value :: "char \<Rightarrow> 8 word option" where
  "digit_value c =
     (let n = of_char c :: nat
      in if n \<in> {48..57} then Some (word_of_nat (n - 48))
         else if n \<in> {65..90} then Some (word_of_nat (10 + (n - 65)))
         else if n \<in> {97..122} then Some (word_of_nat (10 + (n - 97)))
         else None)"

fun unhex :: "char \<Rightarrow> string \<Rightarrow> 8 word list option" where
  "unhex d [] = Some []"
| "unhex d [a] = None"
| "unhex d (a # b # rest) =
     (case (digit_value a, digit_value b) of
        (Some h1, Some h2) \<Rightarrow>
          (if d \<noteq> nul \<and> length rest > 1
           then (if hd rest = d
                 then map_option ((#) (push_bit 4 h1 OR h2)) (unhex d (tl rest)) else None)
           else map_option ((#) (push_bit 4 h1 OR h2)) (unhex d rest))
      | _ \<Rightarrow> None)"

lemma uchar_number: "uchar c = word_of_nat (of_char c)"
  by (simp only: uchar_def of_nat_of_char)

lemma schar_ascii: "schar c = (if of_char c < (128 :: nat) then int (of_char c) else int (of_char c) - 256)"
proof -
  have u: "uchar c = word_of_nat (of_char c)" by (rule uchar_number)
  have n: "of_char c < (256 :: nat)" by (rule nat_of_char_less_256)
  show ?thesis
  proof (cases "of_char c < (128 :: nat)")
    case True
    then show ?thesis by (simp add: schar_def u signed_of_nat signed_take_bit_int_eq_self)
  next
    case False
    have b: "- 128 \<le> int (of_char c) - 256" "int (of_char c) - 256 < 128" using n False by linarith+
    have "signed_take_bit 7 (int (of_char c)) = signed_take_bit 7 (int (of_char c) - 256)"
      by (simp add: signed_take_bit_eq_iff_take_bit_eq take_bit_eq_mod)
    also have "\<dots> = int (of_char c) - 256" using b by (intro signed_take_bit_int_eq_self) simp_all
    finally show ?thesis using False by (simp add: schar_def u signed_of_nat)
  qed
qed

lemma uchar_ascii: "k \<le> of_char c \<Longrightarrow> uchar c - word_of_nat k = word_of_nat (of_char c - k)"
  by (simp add: uchar_number of_nat_diff)

lemma HexDecode_char_table: "HexDecode_char c = digit_value c"
proof -
  define m :: nat where "m = of_char c"
  have n: "m < 256" unfolding m_def by (rule nat_of_char_less_256)
  have c: "schar c = (if m < 128 then int m else int m - 256)" "uchar c = word_of_nat m"
    by (simp_all add: m_def schar_ascii uchar_number)
  have ends: "uchar (CHR ''0'') = word_of_nat 48" "uchar (CHR ''A'') = word_of_nat 65" "uchar (CHR ''a'') = word_of_nat 97"
    "schar (CHR ''0'') = 48" "schar (CHR ''9'') = 57" "schar (CHR ''A'') = 65" "schar (CHR ''Z'') = 90"
    "schar (CHR ''a'') = 97" "schar (CHR ''z'') = 122"
    by (simp_all add: uchar_def schar_ascii)
  show ?thesis
    unfolding HexDecode_char_def digit_value_def ends Let_def c m_def [symmetric]
    using n by (cases "m < 128") (auto simp: of_nat_diff)
qed

lemmas digit_value_code [simp] = HexDecode_char_table [symmetric]

lemma HexEncode_char_digit:
  "unat v < 16 \<Longrightarrow> HexEncode_char v = Inr (hex_digit (unat v))"
  by (simp add: HexEncode_char_def word_less_nat_alt kHex_def hex_digit_def)

lemma nibbles: "unat (drop_bit 4 b AND 0xF) = unat b div 16" "unat (b AND 0xF) = unat b mod 16"
  for b :: "8 word"
proof -
  have "unat b div 16 < 16" using unat_byte_lt [of b] by (simp add: div_less_iff_less_mult)
  then show "unat (drop_bit 4 b AND 0xF) = unat b div 16" "unat (b AND 0xF) = unat b mod 16"
    using unat_and_mask [of "drop_bit 4 b" 4] unat_and_mask [of b 4]
    by (simp_all add: unat_drop_bit flip: masks)
qed

lemma HexEncode_nibbles [simp]:
  "HexEncode_char (drop_bit 4 b AND 0xF) = Inr (hex_digit (unat b div 16))"
  "HexEncode_char (b AND 0xF) = Inr (hex_digit (unat b mod 16))"
proof -
  have "unat b div 16 < 16" using unat_byte_lt [of b] by (simp add: div_less_iff_less_mult)
  then show "HexEncode_char (drop_bit 4 b AND 0xF) = Inr (hex_digit (unat b div 16))"
    "HexEncode_char (b AND 0xF) = Inr (hex_digit (unat b mod 16))"
    by (simp_all add: HexEncode_char_digit nibbles unat_drop_bit)
qed

lemma hi_nibble: "unat (b :: 8 word) div 16 mod 16 = unat b div 16"
proof -
  have "unat b div 16 < 16" using unat_byte_lt [of b] by (simp add: div_less_iff_less_mult)
  then show ?thesis by simp
qed

lemma length_hex_text:
  "length (hex_text d bs) = 2 * length bs + (if d = nul then 0 else length bs - 1)"
  by (induction d bs rule: hex_text.induct) (auto simp: hex_pair_def)

lemma hex_encode_loop_text:
  assumes "src_len \<le> length src" "src_pos \<le> src_len"
    "buf_pos + length (hex_text d (map uchar (drop src_pos (take src_len src)))) \<le> length buf"
  shows "hex_encode_loop src src_len d src_pos buf_pos buf =
     (let out = hex_text d (map uchar (drop src_pos (take src_len src)))
      in Inr (buf_pos + length out, splice_at buf buf_pos out))"
  using assms
proof (induction src src_len d src_pos buf_pos buf rule: hex_encode_loop.induct)
  case (1 src src_len d i j buf)
  let ?rest = "\<lambda>i. map uchar (drop i (take src_len src))"
  show ?case
  proof (cases "i < src_len")
    case False
    then have "?rest i = []" using 1 by simp
    then show ?thesis using False 1 by (subst hex_encode_loop.simps) simp
  next
    case True
    then have rest: "?rest i = uchar (src ! i) # ?rest (Suc i)"
      using 1 by (simp add: drop_eq_Cons_nth)
    show ?thesis
    proof (cases "d \<noteq> nul \<and> Suc i < src_len")
      case more: True
      then have "?rest i = uchar (src ! i) # uchar (src ! Suc i) # ?rest (Suc (Suc i))"
        using 1 rest by (simp add: drop_eq_Cons_nth)
      then have ht: "hex_text d (?rest i) = hex_pair (uchar (src ! i)) @ [d] @ hex_text d (?rest (Suc i))"
        using more 1 by (simp add: drop_eq_Cons_nth)
      then have len: "j + 3 + length (hex_text d (?rest (Suc i))) \<le> length buf"
        using 1 by (simp add: hex_pair_def)
      show ?thesis
        using 1 True more len ht
        by (subst hex_encode_loop.simps)
          (simp add: splice_at_splice_at hex_pair_def Let_def unat_drop_bit hi_nibble)
    next
      case last: False
      then have ht: "hex_text d (?rest i) = hex_pair (uchar (src ! i)) @ hex_text d (?rest (Suc i))"
        using 1 rest True by (cases "?rest (Suc i)") auto
      then have len: "j + 2 + length (hex_text d (?rest (Suc i))) \<le> length buf"
        using 1 by (simp add: hex_pair_def)
      show ?thesis
        using 1 True last len ht
        by (subst hex_encode_loop.simps)
          (auto simp: splice_at_splice_at hex_pair_def Let_def unat_drop_bit hi_nibble)
    qed
  qed
qed

lemma length_unhex:
  "unhex d s = Some out \<Longrightarrow>
   length out \<le> (if d = nul then length s div 2 else (length s + 1) div 3)"
proof (induction "length s" arbitrary: s out rule: less_induct)
  case less
  consider "s = []" | a where "s = [a]" | (pair) a b rest where "s = a # b # rest"
    by (metis list.exhaust)
  then show ?case
  proof cases
    case pair
    define next_rest where "next_rest = (if d \<noteq> nul \<and> length rest > 1 then tl rest else rest)"
    from less(2) pair obtain h1 h2 out' where "out = (push_bit 4 h1 OR h2) # out'"
      and "unhex d next_rest = Some out'"
      by (auto simp: next_rest_def split: option.splits if_splits)
    moreover have "length next_rest < length s" by (auto simp: next_rest_def pair less_Suc_eq_le le_SucI)
    moreover note less(1) [of next_rest out']
    ultimately show ?thesis by (auto simp: next_rest_def pair split: if_splits)
  qed (use less(2) in auto)
qed

text \<open>One pair of digits: the byte goes to the buffer, and a delimiter must follow unless fewer than two characters do.\<close>

lemma hex_decode_pair:
  fixes n i :: nat and d :: char
  assumes "n \<le> length src" "Suc (Suc i) \<le> n" "j < length buf"
    "HexDecode_char (src ! i) = Some h1" "HexDecode_char (src ! Suc i) = Some h2"
  defines "follows \<equiv> d \<noteq> nul \<and> n - (i + 2) > 1" and "c \<equiv> push_bit 4 h1 OR h2"
  defines "k \<equiv> (if follows then i + 3 else i + 2)"
  shows "hex_decode_loop src n d i j buf =
      (if follows \<and> src ! (i + 2) \<noteq> d then Inr (0, splice_at buf j [char_of_byte c])
       else hex_decode_loop src n d k (j + 1) (splice_at buf j [char_of_byte c]))"
    and "unhex d (drop i (take n src)) =
      (if follows \<and> src ! (i + 2) \<noteq> d then None else map_option ((#) c) (unhex d (drop k (take n src))))"
proof -
  let ?rest = "\<lambda>i. drop i (take n src)"
  show "hex_decode_loop src n d i j buf =
      (if follows \<and> src ! (i + 2) \<noteq> d then Inr (0, splice_at buf j [char_of_byte c])
       else hex_decode_loop src n d k (j + 1) (splice_at buf j [char_of_byte c]))"
    using assms by (subst hex_decode_loop.simps) auto
  have rest: "?rest i = src ! i # src ! Suc i # ?rest (Suc (Suc i))"
    using assms(1,2) by (simp add: drop_eq_Cons_nth)
  have "tl (?rest (Suc (Suc i))) = ?rest (i + 3)" by (simp add: tl_drop drop_Suc numeral_3_eq_3)
  moreover have "hd (?rest (Suc (Suc i))) = src ! Suc (Suc i)" if "Suc (Suc i) < n"
    using that assms(1) by (simp add: hd_drop_conv_nth)
  moreover have "length (?rest (Suc (Suc i))) = n - Suc (Suc i)" using assms(1) by simp
  ultimately show "unhex d (?rest i) = (if follows \<and> src ! (i + 2) \<noteq> d then None else map_option ((#) c) (unhex d (?rest k)))"
    unfolding rest using assms(4,5)
    by (cases "Suc (Suc i) < n") (simp_all add: k_def c_def follows_def del: drop_take)
qed

lemma hex_decode_loop_unhex:
  assumes "n \<le> length src" "i \<le> n"
    "j + (if d = nul then (n - i) div 2 else (n - i + 1) div 3) \<le> length buf"
  shows "\<exists>b. hex_decode_loop src n d i j buf =
              Inr (case unhex d (drop i (take n src)) of None \<Rightarrow> 0 | Some out \<Rightarrow> j + length out, b) \<and>
            length b = length buf \<and>
            (\<forall>out. unhex d (drop i (take n src)) = Some out \<longrightarrow>
                   b = splice_at buf j (map char_of_byte out))"
  using assms
proof (induction "n - i" arbitrary: i j buf rule: less_induct)
  case less
  let ?rest = "\<lambda>i. drop i (take n src)"
  consider "i = n" | "Suc i = n" | (pair) "Suc (Suc i) \<le> n" using less(3) by linarith
  then show ?case
  proof cases
    case 1
    then show ?thesis by (subst hex_decode_loop.simps) simp
  next
    case 2
    then have "?rest i = [src ! i]" using less(2-4) by (simp add: drop_eq_Cons_nth)
    then show ?thesis using 2 by (subst hex_decode_loop.simps) auto
  next
    case pair
    have rest: "?rest i = src ! i # src ! Suc i # ?rest (Suc (Suc i))"
      using less(2-4) pair by (simp add: drop_eq_Cons_nth)
    have room: "j < length buf" using less(2-4) pair by (auto split: if_splits)
    show ?thesis
    proof (cases "HexDecode_char (src ! i) = None \<or> HexDecode_char (src ! Suc i) = None")
      case True
      then show ?thesis
        using less(2-4) pair rest by (subst hex_decode_loop.simps) (auto split: option.splits)
    next
      case False
      then obtain h1 h2 where h: "HexDecode_char (src ! i) = Some h1" "HexDecode_char (src ! Suc i) = Some h2"
        by auto
      define c where "c = push_bit 4 h1 OR h2"
      define k where "k = (if d \<noteq> nul \<and> n - (i + 2) > 1 then i + 3 else i + 2)"
      define buf' where "buf' = splice_at buf j [char_of_byte c]"
      note both = hex_decode_pair [OF less(2) pair room h, of d, folded c_def, folded k_def buf'_def]
      have k: "n - k < n - i" "k \<le> n" and cap: "j + 1 + (if d = nul then (n - k) div 2
          else (n - k + 1) div 3) \<le> length buf'"
        using less(4) pair room by (auto simp: k_def buf'_def split: if_splits)
      from less(1) [OF k(1) less(2) k(2) cap]
      obtain b where IH: "hex_decode_loop src n d k (j + 1) buf' =
            Inr (case unhex d (?rest k) of None \<Rightarrow> 0 | Some out \<Rightarrow> j + 1 + length out, b)"
        "length b = length buf'"
        "\<forall>out. unhex d (?rest k) = Some out \<longrightarrow> b = splice_at buf' (j + 1) (map char_of_byte out)"
        by blast
      have whole: "splice_at buf' (j + 1) (map char_of_byte out) = splice_at buf j (map char_of_byte (c # out))"
        if "unhex d (?rest k) = Some out" for out
        using length_unhex [OF that] cap room less(2)
        by (auto simp: buf'_def splice_at_splice_at split: if_splits)
      have "length b = length buf" using IH(2) room by (simp add: buf'_def)
      then show ?thesis
        unfolding both using IH(1,3) whole room by (auto simp: buf'_def split: option.split)
    qed
  qed
qed

lemma HexDecode_char_digit: "n < 16 \<Longrightarrow> HexDecode_char (hex_digit n) = Some (word_of_nat n)"
proof -
  have "list_all (\<lambda>n. HexDecode_char (hex_digit n) = Some (word_of_nat n)) [0..<16]" by code_simp
  then show "n < 16 \<Longrightarrow> ?thesis" by (simp add: list_all_iff)
qed

lemma join_nibbles: "push_bit 4 (word_of_nat (unat b div 16)) OR word_of_nat (unat b mod 16) = b"
  for b :: "8 word"
proof -
  have hi: "unat b div 16 < 16" using unat_byte_lt [of b] by (simp add: div_less_iff_less_mult)
  have "unat (push_bit 4 (word_of_nat (unat b div 16)) :: 8 word) =
      take_bit 8 (push_bit 4 (unat (word_of_nat (unat b div 16) :: 8 word)))"
    by (simp only: unsigned_push_bit_eq) simp
  also have "\<dots> = unat b div 16 * 2 ^ 4"
    using hi by (simp add: unsigned_of_nat take_bit_eq_mod push_bit_eq_mult)
  finally have "unat (push_bit 4 (word_of_nat (unat b div 16)) OR word_of_nat (unat b mod 16) :: 8 word) =
      unat b div 16 * 2 ^ 4 + unat b mod 16"
    by (subst unat_or_add [where q = "unat b div 16" and k = 4]) (simp_all add: unsigned_of_nat take_bit_eq_mod)
  then show ?thesis by (simp add: word_unat_eq_iff)
qed

lemma unhex_hex_text: "unhex d (hex_text d bs) = Some bs"
proof (induction d bs rule: hex_text.induct)
  case (2 d b)
  have "unat b div 16 < 16" using unat_byte_lt [of b] by (simp add: div_less_iff_less_mult)
  then show ?case by (simp add: hex_pair_def HexDecode_char_digit join_nibbles)
next
  case (3 d b c bs)
  have "unat b div 16 < 16" using unat_byte_lt [of b] by (simp add: div_less_iff_less_mult)
  then show ?case
    using 3 length_hex_text [of d "c # bs"] by (auto simp: hex_pair_def HexDecode_char_digit join_nibbles)
qed simp

lemma HexEncodeWithDelimiter_buf_text:
  assumes "src_len \<le> length src" "src_len < 2 ^ 62" "0 < buf_len" "buf_len \<le> length buf"
    "length (hex_text d (map uchar (take src_len src))) < buf_len"
    "d \<noteq> nul \<Longrightarrow> 3 * src_len \<le> buf_len"
  shows "HexEncodeWithDelimiter_buf (Some buf) buf_len src src_len d =
     (let out = hex_text d (map uchar (take src_len src))
      in Inr (length out, splice_at buf 0 (out @ [nul])))"
proof -
  let ?out = "hex_text d (map uchar (take src_len src))"
  have "(if d \<noteq> nul then sz_mul src_len 3 else sz_add (sz_mul src_len 2) 1) \<le> buf_len"
    using assms by (auto simp: sz_mul_exact sz_add_exact length_hex_text)
  moreover have "hex_encode_loop src src_len d 0 0 buf = Inr (length ?out, splice_at buf 0 ?out)"
    using assms hex_encode_loop_text [of src_len src 0 0 d buf] by (simp add: Let_def)
  ultimately show ?thesis
    using assms by (simp add: HexEncodeWithDelimiter_buf_def Let_def splice_at_splice_at)
qed

lemma HexEncodeWithDelimiter_text:
  assumes "src_len \<le> length src" "src_len < 2 ^ 62"
  shows "HexEncodeWithDelimiter junk src src_len d = Inr (hex_text d (map uchar (take src_len src)))"
proof (cases "src_len = 0")
  case True
  then show ?thesis
    by (simp add: HexEncodeWithDelimiter_def HexEncodeWithDelimiter_buf_def sz_mul_def)
next
  case False
  let ?out = "hex_text d (map uchar (take src_len src))"
  have "HexEncodeWithDelimiter_buf (Some (map junk [0..<3 * src_len])) (3 * src_len) src src_len d =
      Inr (length ?out, splice_at (map junk [0..<3 * src_len]) 0 (?out @ [nul]))"
    using False assms by (subst HexEncodeWithDelimiter_buf_text)
      (auto simp: length_hex_text Let_def)
  moreover have "0 < length ?out" using False assms by (auto simp: length_hex_text)
  ultimately show ?thesis
    using False assms by (simp add: HexEncodeWithDelimiter_def Let_def sz_mul_exact
        mult.commute splice_at_0)
qed

lemma HexDecodeWithDelimiter_buf_unhex:
  assumes "src_len \<le> length src" "src_len < 2 ^ 62" "buf_len \<le> length buf"
    "(if d = nul then src_len div 2 else (src_len + 1) div 3) \<le> buf_len" "0 < buf_len"
  shows "\<exists>b. HexDecodeWithDelimiter_buf (Some buf) buf_len src src_len d =
           Inr (case unhex d (take src_len src) of None \<Rightarrow> 0 | Some out \<Rightarrow> length out, b) \<and>
         length b = length buf \<and>
         (\<forall>out. unhex d (take src_len src) = Some out \<longrightarrow>
                b = splice_at buf 0 (map char_of_byte out))"
proof -
  have "HexDecodeWithDelimiter_buf (Some buf) buf_len src src_len d =
      hex_decode_loop src src_len d 0 0 buf"
    using assms by (auto simp: HexDecodeWithDelimiter_buf_def sz_add_exact Let_def)
  then show ?thesis
    using assms hex_decode_loop_unhex [of src_len src 0 0 d buf]
    by (cases "unhex d (take src_len src)") (auto split: if_splits)
qed

text \<open>
  C20: whatever the text and the delimiter, the hexadecimal decoder reads no character past
  \<open>src_len\<close> and writes no byte past the buffer; a buffer too small for the longest result is refused
  before anything is written, and otherwise the size and the bytes are those of the reference
  decoder, 0 when the text is malformed.
\<close>

theorem hex_decode_safe:
  assumes "src_len \<le> length src" "src_len < 2 ^ 62" "buf_len \<le> length buf"
  shows "\<exists>n b. HexDecodeWithDelimiter_buf (Some buf) buf_len src src_len d = Inr (n, b) \<and>
           length b = length buf \<and>
           (if buf_len = 0 \<or> buf_len < (if d = nul then src_len div 2 else (src_len + 1) div 3)
            then n = 0 \<and> b = buf
            else case unhex d (take src_len src) of
                   None \<Rightarrow> n = 0
                 | Some out \<Rightarrow> n = length out \<and> b = splice_at buf 0 (map char_of_byte out))"
proof (cases "buf_len = 0 \<or> buf_len < (if d = nul then src_len div 2 else (src_len + 1) div 3)")
  case True
  then show ?thesis
    using assms by (auto simp: HexDecodeWithDelimiter_buf_def sz_add_exact Let_def)
next
  case False
  then show ?thesis
    using HexDecodeWithDelimiter_buf_unhex [OF assms, of d]
    by (cases "unhex d (take src_len src)") auto
qed

theorem hex_decode_safe_witness:
  "\<exists>n b. HexDecodeWithDelimiter_buf (Some (replicate 2 nul)) 2 ''4a:'' 3 (CHR '':'') = Inr (n, b) \<and>
         n = 0"
proof -
  have "unhex (CHR '':'') ''4a:'' = None" by code_simp
  moreover have "CHR '':'' \<noteq> nul" by (simp add: nul_def)
  ultimately show ?thesis
    using hex_decode_safe [of 3 "''4a:''" 2 "replicate 2 nul" "CHR '':''"] by auto
qed

text \<open>
  Decoding what \<open>HexEncode\<close> made gives the bytes back, whatever the uninitialised buffers
  held, and so does the delimited pair on a caller's buffer with a byte of room for each source byte.
\<close>

theorem hex_roundtrip:
  assumes "length s < 2 ^ 60" "0 < buf_len" "length s \<le> buf_len" "buf_len \<le> length buf"
  shows "bind_res (HexEncode junk s) (HexDecode junk') = Inr s \<and>
         (\<exists>b. bind_res (HexEncodeWithDelimiter junk s (length s) d)
                (\<lambda>t. HexDecodeWithDelimiter_buf (Some buf) buf_len t (length t) d) =
              Inr (length s, b) \<and> take (length s) b = s)"
proof
  define t where "t d = hex_text d (map uchar s)" for d
  have enc: "HexEncodeWithDelimiter junk s (length s) d = Inr (t d)" for junk d
    using assms(1) by (simp add: HexEncodeWithDelimiter_text t_def)
  have len: "length (t d) = 2 * length s + (if d = nul then 0 else length s - 1)" for d
    by (simp add: t_def length_hex_text)
  have dec: "unhex d (t d) = Some (map uchar s)" for d by (simp add: t_def unhex_hex_text)
  show "bind_res (HexEncode junk s) (HexDecode junk') = Inr s"
  proof (cases "s = []")
    case True
    then show ?thesis using enc len by (simp add: HexEncode_def HexDecode_def)
  next
    case False
    then show ?thesis
      using assms(1) enc len [of nul] dec [of nul]
        HexDecodeWithDelimiter_buf_unhex [of "length (t nul)" "t nul" "length s"
          "map junk' [0..<length s]" nul]
      by (auto simp: HexEncode_def HexDecode_def HexDecode_str_def
          HexDecodeWithDelimiter_str_def splice_at_0 comp_def)
  qed
  have "length (t d) < 2 ^ 62" "(if d = nul then length (t d) div 2 else (length (t d) + 1) div 3) \<le> buf_len"
    using assms len [of d] by auto
  then show "\<exists>b. bind_res (HexEncodeWithDelimiter junk s (length s) d)
      (\<lambda>t. HexDecodeWithDelimiter_buf (Some buf) buf_len t (length t) d) =
      Inr (length s, b) \<and> take (length s) b = s"
    using assms enc len [of d] dec [of d]
      HexDecodeWithDelimiter_buf_unhex [of "length (t d)" "t d" buf_len buf d]
    by (auto simp: splice_at_0 comp_def simp del: len)
qed

theorem hex_roundtrip_witness:
  "bind_res (HexEncode (\<lambda>_. nul) ''GET'') (HexDecode (\<lambda>_. nul)) = Inr ''GET''"
  using hex_roundtrip [of "''GET''" 3 "replicate 3 nul" "\<lambda>_. nul" "\<lambda>_. nul" nul] by simp

end
