(* ===== verification/LeadingNumbers.thy ===== *)
theory LeadingNumbers
  imports Prelude Ascii Numbers
begin

text \<open>
  The rest of the integer side of \<open>base/numbers.{h,cc}\<close>: the \<open>errno\<close>-keeping adapters around
  \<open>strtol\<close> and \<open>strtoul\<close>, the \<open>ParseLeading*Value\<close> family, \<open>ParseLeadingBoolValue\<close> and
  \<open>ConsumeStrayLeadingZeroes\<close>.  A C string is the list of its characters before the NUL, and an
  end pointer is its offset.  \<open>c_scan\<close> is the part of \<open>strtol\<close> that C describes: white space, an
  optional sign, a base prefix and the longest run of digits.
\<close>

section \<open>The C library conversions\<close>

definition ERANGE :: int where "ERANGE = 34"
definition EINVAL :: int where "EINVAL = 22"

definition is_digit_in :: "int \<Rightarrow> char \<Rightarrow> bool" where
  "is_digit_in base c \<longleftrightarrow> digit_of c < base"

fun digits_value :: "int \<Rightarrow> int \<Rightarrow> string \<Rightarrow> int" where
  "digits_value base v [] = v"
| "digits_value base v (c # s) = digits_value base (v * base + digit_of c) s"

fun c_prefix :: "int \<Rightarrow> string \<Rightarrow> int \<times> nat" where
  "c_prefix base (a # b # c # s) =
     (if (base = 0 \<or> base = 16) \<and> has_0x [a, b] \<and> is_digit_in 16 c then (16, 2)
      else if base = 0 then (if a = CHR ''0'' then (8, 0) else (10, 0)) else (base, 0))"
| "c_prefix base (a # s) =
     (if base = 0 then (if a = CHR ''0'' then (8, 0) else (10, 0)) else (base, 0))"
| "c_prefix base [] = (if base = 0 then 10 else base, 0)"

text \<open>The exact number and how many characters it took, none when there is no number.\<close>

definition c_scan :: "string \<Rightarrow> int \<Rightarrow> int \<times> nat" where
  "c_scan s base =
     (let spaces = takeWhile space s; t = dropWhile space s;
          (u, negative) = ref_sign t; signs = length t - length u;
          (b, skipped) = c_prefix base u;
          ds = takeWhile (is_digit_in b) (drop skipped u);
          m = digits_value b 0 ds
      in if ds = [] then (0, 0)
         else (if negative then - m else m, length spaces + signs + skipped + length ds))"

definition valid_base :: "int \<Rightarrow> bool" where
  "valid_base base \<longleftrightarrow> base = 0 \<or> 2 \<le> base \<and> base \<le> 36"

definition clamp :: "int \<Rightarrow> int \<Rightarrow> int \<Rightarrow> int" where
  "clamp lo hi x = (if x < lo then lo else if x > hi then hi else x)"

text \<open>The value, the end offset and the error number set, 0 when none is.\<close>

definition strtol :: "string \<Rightarrow> int \<Rightarrow> int \<times> nat \<times> int" where
  "strtol s base =
     (if \<not> valid_base base then (0, 0, EINVAL)
      else let (x, n) = c_scan s base
           in (clamp int64_min int64_max x, n,
               if in_range int64_min int64_max x then 0 else ERANGE))"

definition strtoul :: "string \<Rightarrow> int \<Rightarrow> int \<times> nat \<times> int" where
  "strtoul s base =
     (if \<not> valid_base base then (0, 0, EINVAL)
      else let (x, n) = c_scan s base
           in if \<bar>x\<bar> > uint64_max then (uint64_max, n, ERANGE) else (x mod 2 ^ 64, n, 0))"

section \<open>The adapters\<close>

text \<open>The result, the end offset and \<open>errno\<close> afterwards.\<close>

definition strto32_adapter :: "int \<Rightarrow> string \<Rightarrow> int \<Rightarrow> int \<times> nat \<times> int" where
  "strto32_adapter errno nptr base =
     (let saved_errno = errno; (result, endptr, errno) = strtol nptr base
      in if errno = ERANGE \<and> result = int64_min then (int32_min, endptr, errno)
         else if errno = ERANGE \<and> result = int64_max then (int32_max, endptr, errno)
         else if errno = 0 \<and> result < int32_min then (int32_min, endptr, ERANGE)
         else if errno = 0 \<and> result > int32_max then (int32_max, endptr, ERANGE)
         else (signed_take_bit 31 result, endptr, if errno = 0 then saved_errno else errno))"

definition strtou32_adapter :: "int \<Rightarrow> string \<Rightarrow> int \<Rightarrow> int \<times> nat \<times> int" where
  "strtou32_adapter errno nptr base =
     (let saved_errno = errno; (result, endptr, errno) = strtoul nptr base
      in if errno = ERANGE \<and> result = uint64_max then (uint32_max, endptr, errno)
         else if errno = 0 \<and> result > uint32_max then (uint32_max, endptr, ERANGE)
         else (take_bit 32 result, endptr, if errno = 0 then saved_errno else errno))"

definition strto64 :: "string \<Rightarrow> int \<Rightarrow> int \<times> nat" where
  "strto64 nptr base = (let (v, endptr, errno) = strtol nptr base in (v, endptr))"

definition strtou64 :: "string \<Rightarrow> int \<Rightarrow> int \<times> nat" where
  "strtou64 nptr base = (let (v, endptr, errno) = strtoul nptr base in (v, endptr))"

definition atoi32 :: "int \<Rightarrow> string \<Rightarrow> int" where
  "atoi32 errno nptr = fst (strto32_adapter errno nptr 10)"

definition atoi64 :: "string \<Rightarrow> int" where
  "atoi64 nptr = fst (strto64 nptr 10)"

section \<open>Leading numbers\<close>

definition leading_int32 :: "int \<Rightarrow> string \<Rightarrow> int \<Rightarrow> int" where
  "leading_int32 base str deflt =
     (let (v, error, errno) = strtol str base;
          v = (if v > int32_max then int32_max else if v < int32_min then int32_min else v)
      in if error = 0 then deflt else v)"

definition leading_uint32 :: "int \<Rightarrow> string \<Rightarrow> int \<Rightarrow> int" where
  "leading_uint32 base str deflt =
     (let (v, error) = strto64 str base;
          v = (if v > uint32_max \<or> v < - uint32_max then uint32_max else v)
      in if error = 0 then deflt else take_bit 32 v)"

definition ParseLeadingInt32Value :: "string \<Rightarrow> int \<Rightarrow> int" where
  "ParseLeadingInt32Value = leading_int32 0"

definition ParseLeadingDec32Value :: "string \<Rightarrow> int \<Rightarrow> int" where
  "ParseLeadingDec32Value = leading_int32 10"

definition ParseLeadingUInt32Value :: "string \<Rightarrow> int \<Rightarrow> int" where
  "ParseLeadingUInt32Value = leading_uint32 0"

definition ParseLeadingUDec32Value :: "string \<Rightarrow> int \<Rightarrow> int" where
  "ParseLeadingUDec32Value = leading_uint32 10"

definition ParseLeadingUInt64Value :: "string \<Rightarrow> int \<Rightarrow> int" where
  "ParseLeadingUInt64Value str deflt =
     (let (v, error) = strtou64 str 0 in if error = 0 then deflt else v)"

definition ParseLeadingInt64Value :: "string \<Rightarrow> int \<Rightarrow> int" where
  "ParseLeadingInt64Value str deflt =
     (let (v, error) = strto64 str 0 in if error = 0 then deflt else v)"

definition ParseLeadingHex64Value :: "string \<Rightarrow> int \<Rightarrow> int" where
  "ParseLeadingHex64Value str deflt =
     (let (v, error) = strtou64 str 16 in if error = 0 then deflt else v)"

definition ParseLeadingDec64Value :: "string \<Rightarrow> int \<Rightarrow> int" where
  "ParseLeadingDec64Value str deflt =
     (let (v, error) = strto64 str 10 in if error = 0 then deflt else v)"

definition ParseLeadingUDec64Value :: "string \<Rightarrow> int \<Rightarrow> int" where
  "ParseLeadingUDec64Value str deflt =
     (let (v, error) = strtou64 str 10 in if error = 0 then deflt else v)"

text \<open>
  \<open>ParseLeadingBoolValue\<close> copies at most \<open>kMaxLen + 1\<close> letters and digits into an array of that
  size, lower-cased; the loop returns the length and the array.
\<close>

definition kMaxLen :: nat where "kMaxLen = 5"

fun bool_word :: "string \<Rightarrow> nat \<Rightarrow> string \<Rightarrow> (nat \<times> string) res" where
  "bool_word [] len v = Inr (len, v)"
| "bool_word (c # str) len v =
     (if len \<le> kMaxLen \<and> ascii_isalnum (uchar c)
      then bind_res (array_set v len (char_of_byte (ascii_tolower (uchar c))))
             (\<lambda>v. bool_word str (len + 1) v)
      else Inr (len, v))"

definition ParseLeadingBoolValue :: "(nat \<Rightarrow> char) \<Rightarrow> string \<Rightarrow> bool \<Rightarrow> bool res" where
  "ParseLeadingBoolValue junk str deflt =
     bind_res (bool_word (dropWhile space str) 0 (map junk [0..<kMaxLen + 1])) (\<lambda>(len, v).
       if len = 0 \<or> len > kMaxLen then Inr deflt
       else bind_res (array_set v len (CHR 0x00)) (\<lambda>v.
         let w = takeWhile (\<lambda>c. c \<noteq> CHR 0x00) v in
         Inr (if len = 1 then
                (if v ! 0 = CHR ''0'' \<or> v ! 0 = CHR ''n'' then False
                 else if v ! 0 = CHR ''1'' \<or> v ! 0 = CHR ''y'' then True else deflt)
              else if len = 2 then (if w = ''no'' then False else deflt)
              else if len = 3 then (if w = ''yes'' then True else deflt)
              else if len = 4 then (if w = ''true'' then True else deflt)
              else if len = 5 then (if w = ''false'' then False else deflt)
              else deflt)))"

text \<open>The pointer runs over the characters and the terminating NUL is the end.\<close>

fun zero_run :: "string \<Rightarrow> nat" where
  "zero_run [] = 0"
| "zero_run (c # s) = (if c = CHR ''0'' then Suc (zero_run s) else 0)"

definition ConsumeStrayLeadingZeroes :: "string \<Rightarrow> string res" where
  "ConsumeStrayLeadingZeroes str =
     (let len = length str in
      if len > 1 \<and> str ! 0 = CHR ''0'' then
        let ptr = 1 + zero_run (drop 1 str); remove = ptr
        in bind_res (check (ptr > 0)) (\<lambda>_.
             Inr (drop (if remove = len then remove - 1 else remove) str))
      else Inr str)"

section \<open>What they return\<close>

lemma strtol_32: "in_range int32_min int32_max x \<Longrightarrow> signed_take_bit 31 x = x"
  by (simp add: in_range_def int_limits signed_take_bit_int_eq_self)

text \<open>
  For every string, base and prior \<open>errno\<close>, \<open>strto32_adapter\<close> returns the exact number clamped
  to 32 bits with \<open>strtol\<close>'s end, reports \<open>ERANGE\<close> exactly when the number does not fit and leaves
  \<open>errno\<close> as it was otherwise; \<open>strtou32_adapter\<close> does so for the numbers it can represent and
  saturates the rest, every negative number among them unless it is small modulo \<open>2 ^ 64\<close>.
\<close>

theorem strto32_adapter_clamps:
  assumes "valid_base base" "c_scan s base = (x, n)"
  shows "strto32_adapter e s base =
           (clamp int32_min int32_max x, n, if in_range int32_min int32_max x then e else ERANGE) \<and>
         strtou32_adapter e s base =
           (if \<bar>x\<bar> \<le> uint64_max \<and> x mod 2 ^ 64 \<le> uint32_max then (x mod 2 ^ 64, n, e)
            else (uint32_max, n, ERANGE))"
proof
  show "strto32_adapter e s base =
      (clamp int32_min int32_max x, n, if in_range int32_min int32_max x then e else ERANGE)"
  proof (cases "in_range int64_min int64_max x")
    case True
    then show ?thesis
      using assms strtol_32 [of x]
      by (auto simp: strto32_adapter_def strtol_def clamp_def in_range_def ERANGE_def)
  next
    case False
    then show ?thesis
      using assms
      by (auto simp: strto32_adapter_def strtol_def clamp_def in_range_def ERANGE_def int_limits)
  qed
  have "take_bit 32 y = y" if "y \<le> uint32_max" "0 \<le> y" for y :: int
    using that by (simp add: int_limits take_bit_int_eq_self)
  then show "strtou32_adapter e s base =
      (if \<bar>x\<bar> \<le> uint64_max \<and> x mod 2 ^ 64 \<le> uint32_max then (x mod 2 ^ 64, n, e)
       else (uint32_max, n, ERANGE))"
    using assms by (auto simp: strtou32_adapter_def strtoul_def ERANGE_def)
qed

theorem strto32_adapter_clamps_witness:
  "strto32_adapter 0 '' 4294967296kB'' 10 = (int32_max, 11, ERANGE)"
proof -
  have "c_scan '' 4294967296kB'' 10 = (4294967296, 11)" "valid_base 10"
    by (code_simp, simp add: valid_base_def)
  then show ?thesis
    using strto32_adapter_clamps [of 10 "'' 4294967296kB''" 4294967296 11 0]
    by (simp add: clamp_def in_range_def int_limits)
qed

text \<open>
  The leading-number parsers return their default exactly when no number leads the string, and
  otherwise the exact number, clamped to the type; the unsigned 32-bit ones take a negative number
  no smaller than \<open>- (2 ^ 32 - 1)\<close> modulo \<open>2 ^ 32\<close> and saturate anything else.
\<close>

theorem leading_values:
  assumes "c_scan s 10 = (x, n)"
  shows "ParseLeadingDec32Value s d = (if n = 0 then d else clamp int32_min int32_max x) \<and>
         ParseLeadingDec64Value s d = (if n = 0 then d else clamp int64_min int64_max x) \<and>
         ParseLeadingUDec32Value s d =
           (if n = 0 then d else if \<bar>x\<bar> \<le> uint32_max then x mod 2 ^ 32 else uint32_max) \<and>
         ParseLeadingUDec64Value s d =
           (if n = 0 then d else if \<bar>x\<bar> \<le> uint64_max then x mod 2 ^ 64 else uint64_max)"
proof (intro conjI)
  have v: "valid_base 10" by (simp add: valid_base_def)
  have l: "strtol s 10 = (clamp int64_min int64_max x, n,
      if in_range int64_min int64_max x then 0 else ERANGE)"
    using assms v by (simp add: strtol_def)
  show "ParseLeadingDec32Value s d = (if n = 0 then d else clamp int32_min int32_max x)"
    using l by (auto simp: ParseLeadingDec32Value_def leading_int32_def clamp_def int_limits Let_def)
  show "ParseLeadingDec64Value s d = (if n = 0 then d else clamp int64_min int64_max x)"
    using l by (simp add: ParseLeadingDec64Value_def strto64_def)
  show "ParseLeadingUDec32Value s d =
      (if n = 0 then d else if \<bar>x\<bar> \<le> uint32_max then x mod 2 ^ 32 else uint32_max)"
    using l by (auto simp: ParseLeadingUDec32Value_def leading_uint32_def strto64_def clamp_def
        int_limits Let_def take_bit_eq_mod)
  show "ParseLeadingUDec64Value s d =
      (if n = 0 then d else if \<bar>x\<bar> \<le> uint64_max then x mod 2 ^ 64 else uint64_max)"
    using assms v by (simp add: ParseLeadingUDec64Value_def strtou64_def strtoul_def)
qed

theorem leading_values_witness: "ParseLeadingUDec32Value ''-1'' 0 = uint32_max"
proof -
  have "c_scan ''-1'' 10 = (- 1, 2)" by code_simp
  then show ?thesis using leading_values [of "''-1''" "- 1" 2 0] by (simp add: int_limits)
qed

lemma digits_value_ref:
  "\<forall>c \<in> set s. digit_of c < b \<Longrightarrow> ref_digits m b v s = (True, w) \<Longrightarrow> digits_value b v s = w"
  by (induction m b v s rule: ref_digits.induct) (auto split: if_splits)

lemma digits_value_append: "digits_value b v (xs @ ys) = digits_value b (digits_value b v xs) ys"
  by (induction b v xs rule: digits_value.induct) simp_all

lemma c_scan_print:
  assumes "t = [] \<or> digit_of (hd t) \<ge> 10"
  shows "c_scan (print_int 10 x @ t) 10 = (x, length (print_int 10 x))"
proof -
  define ds where "ds = print_nat 10 (nat \<bar>x\<bar>)"
  have d: "\<forall>c \<in> set ds. \<exists>k < 10. c = digit_char k" using set_print_nat by (force simp: ds_def)
  then have dig: "\<forall>c \<in> set ds. is_digit_in 10 c"
    by (force simp: is_digit_in_def digit_char_facts)
  have val: "digits_value 10 0 ds = \<bar>x\<bar>"
    using digits_value_ref [of ds 10 "\<bar>x\<bar>" 0 "\<bar>x\<bar>"] ref_digits_print [of 10 "nat \<bar>x\<bar>" "\<bar>x\<bar>"] dig
    by (simp add: ds_def is_digit_in_def)
  have pre: "c_prefix 10 u = (10, 0)" for u
    by (cases "(10 :: int, u)" rule: c_prefix.cases) simp_all
  have run: "takeWhile (is_digit_in 10) (ds @ t) = ds"
    using dig assms by (cases t) (auto simp: takeWhile_append2 is_digit_in_def not_less takeWhile_tail)
  obtain c ds' where c: "ds = c # ds'" by (cases ds) (auto simp: ds_def)
  then have cf: "\<not> space c" "c \<noteq> CHR ''-''" "c \<noteq> CHR ''+''"
  proof -
    obtain k where "k < 10" "c = digit_char k" using d c by auto
    then show "\<not> space c" "c \<noteq> CHR ''-''" "c \<noteq> CHR ''+''" using digit_char_facts [of k] by simp_all
  qed
  have minus: "\<not> space (CHR ''-'')" by code_simp
  have p: "print_int 10 x = (if x < 0 then CHR ''-'' # ds else ds)"
    by (simp add: print_int_def ds_def)
  show ?thesis
    using run val c cf minus pre by (simp add: c_scan_def p Let_def)
qed

text \<open>
  A printed 64-bit number, whatever follows it as long as it is not another digit, is read back by
  the decimal leading-number parser.
\<close>

theorem leading_roundtrip:
  assumes "in_range int64_min int64_max x" "t = [] \<or> digit_of (hd t) \<ge> 10"
  shows "ParseLeadingDec64Value (print_int 10 x @ t) d = x"
proof -
  have "print_int 10 x \<noteq> []" by (simp add: print_int_def)
  then show ?thesis
    using assms(1) c_scan_print [OF assms(2), of x]
    by (simp add: ParseLeadingDec64Value_def strto64_def strtol_def valid_base_def clamp_def in_range_def)
qed

theorem leading_roundtrip_witness: "ParseLeadingDec64Value (print_int 10 8080 @ ''/tcp'') 0 = 8080"
proof -
  have "in_range int64_min int64_max 8080" by (simp add: in_range_def int_limits)
  moreover have "digit_of (hd ''/tcp'') \<ge> 10" by code_simp
  ultimately show ?thesis by (intro leading_roundtrip) simp_all
qed

section \<open>Booleans and stray zeroes\<close>

definition lower :: "char \<Rightarrow> char" where
  "lower c = char_of_byte (ascii_tolower (uchar c))"

definition bool_token :: "string \<Rightarrow> string" where
  "bool_token s = map lower (takeWhile (\<lambda>c. ascii_isalnum (uchar c)) (dropWhile space s))"

lemma bool_word_run:
  assumes "length v = kMaxLen + 1" "len \<le> kMaxLen + 1"
  shows "bool_word s len v =
     (let t = take (kMaxLen + 1 - len) (takeWhile (\<lambda>c. ascii_isalnum (uchar c)) s)
      in Inr (len + length t, splice_at v len (map lower t)))"
  using assms
proof (induction s len v rule: bool_word.induct)
  case (1 len v)
  then show ?case by simp
next
  case (2 c s len v)
  show ?case
  proof (cases "len \<le> kMaxLen \<and> ascii_isalnum (uchar c)")
    case True
    define v' where "v' = splice_at v len [lower c]"
    have v': "array_set v len (char_of_byte (ascii_tolower (uchar c))) = Inr v'" "length v' = kMaxLen + 1"
      using True 2(2) by (simp_all add: v'_def lower_def)
    have k: "kMaxLen + 1 - len = Suc (kMaxLen - len)" using True by (simp add: Suc_diff_le)
    have "bool_word s (len + 1) v' = (let t = take (kMaxLen - len)
        (takeWhile (\<lambda>c. ascii_isalnum (uchar c)) s) in
        Inr (len + 1 + length t, splice_at v' (len + 1) (map lower t)))"
      using 2(1) [OF True, of v'] v'(2) True by simp
    moreover have "splice_at v' (len + 1) w = splice_at v len (lower c # w)"
      if "length w \<le> kMaxLen - len" for w
    proof -
      have "len + 1 + length w \<le> length v" using that True 2(2) by linarith
      then show ?thesis by (simp add: v'_def splice_at_splice_at)
    qed
    ultimately show ?thesis using True v' unfolding k by (simp add: Let_def)
  next
    case False
    then show ?thesis using 2(3) by auto
  qed
qed

lemma lower_not_nul: "ascii_isalnum (uchar c) \<Longrightarrow> lower c \<noteq> CHR 0x00"
proof -
  assume a: "ascii_isalnum (uchar c)"
  have "unat (uchar (lower c)) = unat (ascii_tolower (uchar c))" by (simp add: lower_def)
  also have "\<dots> \<noteq> 0"
    using a by (auto simp: ascii_isalnum_iff ascii_tolower_eq byte_ranges byte_nat unat_word_ariths)
  finally show ?thesis by (auto simp: uchar_def)
qed

definition bool_of_token :: "string \<Rightarrow> bool option" where
  "bool_of_token w =
     (if w \<in> {''0'', ''n'', ''no'', ''false''} then Some False
      else if w \<in> {''1'', ''y'', ''yes'', ''true''} then Some True else None)"

lemma word_lengths:
  "length w \<noteq> 1 \<Longrightarrow> w \<noteq> ''0'' \<and> w \<noteq> ''n'' \<and> w \<noteq> ''1'' \<and> w \<noteq> ''y''" "length w \<noteq> 2 \<Longrightarrow> w \<noteq> ''no''"
  "length w \<noteq> 3 \<Longrightarrow> w \<noteq> ''yes''" "length w \<noteq> 4 \<Longrightarrow> w \<noteq> ''true''"
  "length w \<noteq> 5 \<Longrightarrow> w \<noteq> ''false''"
  by (intro conjI notI; simp)+

lemma bool_of_token_length: "bool_of_token w = Some b \<Longrightarrow> w \<noteq> [] \<and> length w \<le> kMaxLen"
  by (simp add: bool_of_token_def kMaxLen_def split: if_splits; elim disjE; simp)

text \<open>
  \<open>ParseLeadingBoolValue\<close> never writes past its array and answers by the first word alone,
  folded to lower case: \<open>0 n no false\<close> are false, \<open>1 y yes true\<close> are true and any other word, also
  one that merely begins with one of these, gives the default.
\<close>

theorem parse_bool_correct:
  "ParseLeadingBoolValue junk s d =
     Inr (case bool_of_token (bool_token s) of None \<Rightarrow> d | Some b \<Rightarrow> b)"
proof -
  define run where "run = takeWhile (\<lambda>c. ascii_isalnum (uchar c)) (dropWhile space s)"
  have tok: "bool_token s = map lower run" by (simp add: bool_token_def run_def)
  let ?buf = "map junk [0..<kMaxLen + 1]"
  have bw: "bool_word (dropWhile space s) 0 ?buf =
      Inr (length (take 6 run), splice_at ?buf 0 (map lower (take 6 run)))"
    using bool_word_run [of ?buf 0 "dropWhile space s"] by (simp add: run_def kMaxLen_def Let_def)
  show ?thesis
  proof (cases "run = [] \<or> length run > 5")
    case True
    then have "length (take 6 run) = 0 \<or> length (take 6 run) > kMaxLen"
      by (auto simp: kMaxLen_def)
    moreover have "bool_of_token (bool_token s) = None"
      using True bool_of_token_length [of "bool_token s"]
      by (cases "bool_of_token (bool_token s)") (auto simp: tok kMaxLen_def)
    ultimately show ?thesis unfolding ParseLeadingBoolValue_def bw by auto
  next
    case False
    define w where "w = map lower run"
    have len: "length w = length run" "w \<noteq> []" "length w \<le> 5" "take 6 run = run"
      using False by (auto simp: w_def)
    define v where "v = splice_at (splice_at ?buf 0 w) (length w) [CHR 0x00]"
    have vb: "v = w @ CHR 0x00 # drop (Suc (length w)) ?buf"
      unfolding v_def using len
      by (subst splice_at_splice_at) (simp_all add: splice_at_0 kMaxLen_def)
    have nn: "CHR 0x00 \<notin> set w"
      using set_takeWhileD lower_not_nul by (fastforce simp: w_def run_def)
    then have tw: "takeWhile (\<lambda>c. c \<noteq> CHR 0x00) v = w"
      unfolding vb by (subst takeWhile_append2) auto
    have one: "length w = 1 \<Longrightarrow> w = [v ! 0]" unfolding vb by (cases w) auto
    have a1: "bool_word (dropWhile space s) 0 ?buf = Inr (length w, splice_at ?buf 0 w)"
      using bw len by (simp add: w_def)
    have a2: "array_set (splice_at ?buf 0 w) (length w) (CHR 0x00) = Inr v"
      using len by (simp add: v_def kMaxLen_def)
    have a3: "\<not> (length w = 0 \<or> length w > kMaxLen)" using len(2,3) by (simp add: kMaxLen_def)
    have "ParseLeadingBoolValue junk s d =
      Inr (if length w = 1 then
             (if v ! 0 = CHR ''0'' \<or> v ! 0 = CHR ''n'' then False
              else if v ! 0 = CHR ''1'' \<or> v ! 0 = CHR ''y'' then True else d)
           else if length w = 2 then (if w = ''no'' then False else d)
           else if length w = 3 then (if w = ''yes'' then True else d)
           else if length w = 4 then (if w = ''true'' then True else d)
           else if length w = 5 then (if w = ''false'' then False else d)
           else d)"
      by (simp only: ParseLeadingBoolValue_def a1 a2 a3 tw bind_res_simps prod.case if_False Let_def)
    also have "\<dots> = Inr (case bool_of_token w of None \<Rightarrow> d | Some b \<Rightarrow> b)"
    proof -
      consider "length w = 1" | "length w = 2" | "length w = 3" | "length w = 4" | "length w = 5"
        using len(2,3) by (cases w) (simp, fastforce simp: le_Suc_eq eval_nat_numeral)
      then show ?thesis
      proof cases
        case 1
        then show ?thesis using one by (cases w) (auto simp: bool_of_token_def)
      qed (simp_all add: bool_of_token_def word_lengths)
    qed
    finally show ?thesis unfolding tok w_def .
  qed
qed

lemma zero_run_facts:
  "zero_run s \<le> length s" "take (zero_run s) s = replicate (zero_run s) (CHR ''0'')"
  "zero_run s < length s \<Longrightarrow> s ! zero_run s \<noteq> CHR ''0''"
  by (induction s) auto

lemma digits_value_zeroes: "digits_value b 0 (replicate n (CHR ''0'') @ s) = digits_value b 0 s"
proof -
  have "digit_of (CHR ''0'') = 0" by code_simp
  then show ?thesis by (induction n) simp_all
qed

text \<open>
  \<open>ConsumeStrayLeadingZeroes\<close> passes its \<open>DCHECK\<close>, removes zeroes only, all of the leading ones
  but the last when nothing else is left, and so keeps the number the digits denote.
\<close>

theorem stray_zeroes_consumed:
  "\<exists>t. ConsumeStrayLeadingZeroes s = Inr t \<and>
       (\<exists>n. s = replicate n (CHR ''0'') @ t) \<and>
       digits_value 10 0 t = digits_value 10 0 s \<and>
       (t = [] \<longleftrightarrow> s = []) \<and> (length t \<le> 1 \<or> hd t \<noteq> CHR ''0'')"
proof (cases "length s > 1 \<and> s ! 0 = CHR ''0''")
  case False
  then have "ConsumeStrayLeadingZeroes s = Inr s" by (auto simp: ConsumeStrayLeadingZeroes_def)
  moreover have "length s \<le> 1 \<or> hd s \<noteq> CHR ''0''" using False by (cases s) auto
  ultimately show ?thesis by (intro exI [of _ s]) (auto intro: exI [of _ 0])
next
  case True
  then obtain u where s: "s = CHR ''0'' # u" "u \<noteq> []" by (cases s) auto
  define n where "n = (if Suc (zero_run u) = length s then zero_run u else Suc (zero_run u))"
  have res: "ConsumeStrayLeadingZeroes s = Inr (drop n s)"
    using True s by (auto simp: ConsumeStrayLeadingZeroes_def n_def Let_def)
  have all: "take (Suc (zero_run u)) s = replicate (Suc (zero_run u)) (CHR ''0'')"
    using zero_run_facts(2) [of u] s by simp
  have n: "n \<le> Suc (zero_run u)" "n < length s"
    using zero_run_facts(1) [of u] s by (auto simp: n_def)
  then have tk: "take n s = replicate n (CHR ''0'')"
    using all by (metis min.absorb1 take_replicate take_take)
  then have split: "s = replicate n (CHR ''0'') @ drop n s" by (metis append_take_drop_id)
  have "length (drop n s) \<le> 1 \<or> hd (drop n s) \<noteq> CHR ''0''"
    using zero_run_facts(1,3) [of u] s n by (auto simp: n_def hd_drop_conv_nth)
  then show ?thesis
    using res split n digits_value_zeroes [of 10 n "drop n s"] by (intro exI [of _ "drop n s"]) auto
qed

theorem stray_zeroes_consumed_witness:
  "\<exists>t. ConsumeStrayLeadingZeroes ''0070'' = Inr t \<and> digits_value 10 0 t = 70"
proof -
  have "digits_value 10 0 ''0070'' = 70" by code_simp
  then show ?thesis using stray_zeroes_consumed [of "''0070''"] by auto
qed

end
