(* ===== verification/DoubleRange.thy ===== *)
theory DoubleRange
  imports Numbers
begin

text \<open>
  The parsers of floating-point numbers of \<open>base/numbers.cc\<close>: \<open>ParseDoubleRange\<close> with its two scanners,
  \<open>safe_strtod\<close>, \<open>safe_strtof\<close> and \<open>ParseLeadingDoubleValue\<close>.  The numbers are a type parameter with
  what the code uses of them: \<open>strtod\<close> (\<open>strtof\<close> at the narrower type) gives the value of the longest number a text begins with, how many
  characters it has, and whether it set \<open>errno\<close>.  A pointer is an offset in the memory \<open>m\<close> of the text; a
  length of -1 says that the text ends at a zero character.
\<close>

record 'd floating =
  strtod :: "string \<Rightarrow> 'd \<times> nat \<times> bool"
  fl_neg :: "'d \<Rightarrow> 'd"
  HUGE_VAL :: 'd

definition is_strtod :: "(string \<Rightarrow> 'd \<times> nat \<times> bool) \<Rightarrow> bool" where
  "is_strtod f \<longleftrightarrow> (\<forall>s. case f s of (v, n, e) \<Rightarrow> n \<le> length s)"

definition load :: "char list \<Rightarrow> int \<Rightarrow> char res" where
  "load m i = (if 0 \<le> i then array_get m (nat i) else Inl OutOfBounds)"

text \<open>The C string at an offset.\<close>

definition c_text :: "char list \<Rightarrow> int \<Rightarrow> string res" where
  "c_text m i = (if 0 \<le> i \<and> CHR 0x00 \<in> set (drop (nat i) m)
     then Inr (takeWhile (\<lambda>c. c \<noteq> CHR 0x00) (drop (nat i) m)) else Inl OutOfBounds)"

section \<open>Whole numbers of floating point\<close>

definition ParseLeadingDoubleValue :: "'d floating \<Rightarrow> string \<Rightarrow> 'd \<Rightarrow> 'd" where
  "ParseLeadingDoubleValue fl str deflt =
     (let (value, error, errno) = strtod fl str in if errno \<or> error = 0 then deflt else value)"

definition safe_strtod :: "'d floating \<Rightarrow> string \<Rightarrow> bool \<times> 'd" where
  "safe_strtod fl str =
     (let (value, endptr, errno) = strtod fl str;
          rest = (if endptr \<noteq> 0 then dropWhile space (drop endptr str) else str)
      in (str \<noteq> [] \<and> rest = [], value))"

text \<open>The same at the narrower type.\<close>

definition safe_strtof :: "'f floating \<Rightarrow> string \<Rightarrow> bool \<times> 'f" where
  "safe_strtof fl str =
     (let (value, endptr, errno) = strtod fl str;
          rest = (if endptr \<noteq> 0 then dropWhile space (drop endptr str) else str)
      in (str \<noteq> [] \<and> rest = [], value))"

section \<open>Scanning\<close>

type_synonym cursor = "int \<times> int"

definition advance :: "cursor \<Rightarrow> cursor" where
  "advance cur = (case cur of (p, len) \<Rightarrow> (p + 1, if len \<noteq> - 1 then len - 1 else len))"

definition retreat :: "cursor \<Rightarrow> cursor" where
  "retreat cur = (case cur of (p, len) \<Rightarrow> (p - 1, if len \<noteq> - 1 then len + 1 else len))"

definition EatAChar :: "char list \<Rightarrow> cursor \<Rightarrow> string \<Rightarrow> bool \<Rightarrow> bool \<Rightarrow> (char \<times> cursor) res" where
  "EatAChar m cur acceptable_chars update null_ok =
     bind_res (check (\<not> (update \<and> null_ok))) (\<lambda>_.
     bind_res (if snd cur = 0 then Inr (CHR 0x00) else load m (fst cur)) (\<lambda>c.
       if c = CHR 0x00 then Inr (if null_ok then CHR 0x01 else CHR 0x00, cur)
       else if c \<in> set acceptable_chars then Inr (c, if update then advance cur else cur)
       else Inr (CHR 0x00, cur)))"

text \<open>
  \<open>EatADouble\<close> with its optional out-parameters: whether the caller asks for an initial minus and for a
  final period, and what they were before the call.
\<close>

record 'd eaten =
  eat_ok :: bool
  eat_cur :: cursor
  eat_val :: 'd
  eat_minus :: bool
  eat_period :: bool

text \<open>\<open>strchr\<close> also finds the terminator of the string it searches.\<close>

definition starts_number :: "char \<Rightarrow> bool" where
  "starts_number c \<longleftrightarrow> c \<in> set ''-+.0123456789'' \<or> c = CHR 0x00"

definition eat_number :: "'d floating \<Rightarrow> char list \<Rightarrow> cursor \<Rightarrow> cursor \<Rightarrow> bool \<Rightarrow> 'd eaten \<Rightarrow> 'd eaten res" where
  "eat_number fl m cur pos ask_period st =
     bind_res (load m (fst pos)) (\<lambda>c.
     if \<not> starts_number c then Inr st
     else bind_res (if snd pos = - 1 then c_text m (fst pos)
                    else bind_res (mem_read m (nat (fst pos)) (nat (snd pos))) (\<lambda>bs.
                         Inr (takeWhile (\<lambda>c. c \<noteq> CHR 0x00) bs))) (\<lambda>s.
       let (retval, n, errno) = strtod fl s; e = fst pos + int n
       in if n = 0 then Inr st
          else bind_res (if ask_period then load m (e - 1) else Inr (CHR 0x00)) (\<lambda>c.
               let period = (if ask_period then c = CHR ''.'' else eat_period st);
                   e = (if ask_period \<and> c = CHR ''.'' then e - 1 else e)
               in Inr (st\<lparr>eat_ok := True, eat_val := retval, eat_period := period,
                    eat_cur := (e, if snd pos \<noteq> - 1 then snd pos - (e - fst pos) else snd cur)\<rparr>))))"

definition EatADouble ::
    "'d floating \<Rightarrow> char list \<Rightarrow> cursor \<Rightarrow> bool \<Rightarrow> 'd \<Rightarrow> bool \<Rightarrow> bool \<Rightarrow> 'd eaten res" where
  "EatADouble fl m cur allow_question val ask_minus ask_period =
     (let st = \<lparr>eat_ok = False, eat_cur = cur, eat_val = val, eat_minus = False, eat_period = False\<rparr>
      in if snd cur = 0 then Inr st
      else bind_res (if allow_question \<or> ask_minus then load m (fst cur) else Inr (CHR 0x00)) (\<lambda>c.
        if allow_question \<and> c = CHR ''?'' then Inr (st\<lparr>eat_ok := True, eat_cur := advance cur\<rparr>)
        else if ask_minus \<and> c = CHR ''-''
             then if snd cur = 1 then Inr (st\<lparr>eat_minus := True\<rparr>)
                  else eat_number fl m cur (advance cur) ask_period (st\<lparr>eat_minus := True\<rparr>)
             else eat_number fl m cur cur ask_period st))"

section \<open>\<open>ParseDoubleRange\<close>\<close>

record range_options =
  separators :: string
  require_separator :: bool
  acceptable_terminators :: string
  null_terminator_ok :: bool
  allow_unbounded_markers :: bool
  num_required_bounds :: int
  dont_modify_unbounded :: bool
  allow_currency :: bool
  allow_comparators :: bool

text \<open>The out-parameters; \<open>is_currency\<close> may be null.\<close>

record 'd range_out =
  out_end :: int
  out_from :: 'd
  out_to :: 'd
  is_currency :: "bool option"

definition set_currency :: "'d range_out \<Rightarrow> 'd range_out" where
  "set_currency r = r\<lparr>is_currency := map_option (\<lambda>_. True) (is_currency r)\<rparr>"

definition eat_if :: "bool \<Rightarrow> char list \<Rightarrow> cursor \<Rightarrow> string \<Rightarrow> (bool \<times> cursor) res" where
  "eat_if b m cur cs =
     (if b then bind_res (EatAChar m cur cs True False) (\<lambda>(c, cur). Inr (c \<noteq> CHR 0x00, cur)) else Inr (False, cur))"

definition range_comparator ::
    "'d floating \<Rightarrow> char list \<Rightarrow> range_options \<Rightarrow> char \<Rightarrow> cursor \<Rightarrow> 'd range_out \<Rightarrow> (bool \<times> 'd range_out) res" where
  "range_comparator fl m opts comparator cur r =
     bind_res (EatAChar m cur ''='' True False) (\<lambda>(_, cur).
     bind_res (eat_if (allow_currency opts) m cur ''$'') (\<lambda>(dollar, cur).
     let r = (if dollar then set_currency r else r); upper = (comparator \<noteq> CHR ''>'')
     in bind_res (EatADouble fl m cur (allow_unbounded_markers opts) (if upper then out_to r else out_from r) False False) (\<lambda>d.
        let r = (if upper then r\<lparr>out_to := eat_val d\<rparr> else r\<lparr>out_from := eat_val d\<rparr>)
        in if \<not> eat_ok d then Inr (False, r)
           else let r = r\<lparr>out_end := fst (eat_cur d)\<rparr>
           in bind_res (EatAChar m (eat_cur d) (acceptable_terminators opts) False (null_terminator_ok opts)) (\<lambda>(c, _).
              Inr (c \<noteq> CHR 0x00, r)))))"

text \<open>The separator: two periods count as one separator that is a period, and a third one after a number's own.\<close>

definition range_separator :: "char list \<Rightarrow> range_options \<Rightarrow> bool \<Rightarrow> cursor \<Rightarrow> (bool \<times> cursor) res" where
  "range_separator m opts final_period cur =
     bind_res (EatAChar m cur (separators opts) True False) (\<lambda>(separator, cur).
     if separator = CHR ''.''
     then bind_res (EatAChar m cur ''.'' True False) (\<lambda>(c, cur).
          if c \<noteq> CHR 0x00
          then bind_res (eat_if final_period m cur ''.'') (\<lambda>(_, cur). Inr (True, cur))
          else bind_res (EatAChar m cur (separators opts) True False) (\<lambda>(c, cur).
               if c = CHR 0x00 then Inr (False, retreat cur) else Inr (True, cur)))
     else Inr (separator \<noteq> CHR 0x00, cur))"

definition range_finish ::
    "char list \<Rightarrow> range_options \<Rightarrow> bool \<Rightarrow> cursor \<Rightarrow> 'd range_out \<Rightarrow> (bool \<times> 'd range_out) res" where
  "range_finish m opts seen_dollar cur r =
     (let r = (if seen_dollar then set_currency r else r); r = r\<lparr>out_end := fst cur\<rparr>
      in bind_res (EatAChar m cur (acceptable_terminators opts) False (null_terminator_ok opts)) (\<lambda>(terminator, _).
         let r = (if terminator = CHR ''.'' then r\<lparr>out_end := out_end r - 1\<rparr> else r)
         in Inr (terminator \<noteq> CHR 0x00, r)))"

definition range_one ::
    "char list \<Rightarrow> range_options \<Rightarrow> 'd \<Rightarrow> bool \<Rightarrow> 'd eaten \<Rightarrow> cursor \<Rightarrow> 'd range_out \<Rightarrow> (bool \<times> 'd range_out) res" where
  "range_one m opts from_default seen_dollar d cur r =
     bind_res (eat_if (eat_period d) m cur ''.'') (\<lambda>(_, cur).
     if eat_minus d \<and> eat_ok d
     then range_finish m opts seen_dollar cur (r\<lparr>out_to := out_from r, out_from := from_default\<rparr>)
     else if require_separator opts \<or> num_required_bounds opts > 0 \<and> \<not> eat_ok d \<or> num_required_bounds opts > 1
     then Inr (False, r)
     else range_finish m opts seen_dollar cur r)"

definition range_two ::
    "'d floating \<Rightarrow> char list \<Rightarrow> range_options \<Rightarrow> bool \<Rightarrow> 'd eaten \<Rightarrow> cursor \<Rightarrow> 'd range_out \<Rightarrow> (bool \<times> 'd range_out) res" where
  "range_two fl m opts seen_dollar d cur r =
     (let r = (if eat_minus d \<and> eat_ok d then r\<lparr>out_from := fl_neg fl (out_from r)\<rparr> else r)
      in bind_res (eat_if (seen_dollar \<or> allow_currency opts \<and> \<not> eat_ok d) m cur ''$'') (\<lambda>(second_dollar, cur).
         bind_res (EatADouble fl m cur (allow_unbounded_markers opts) (out_to r) False False) (\<lambda>d2.
         let r = r\<lparr>out_to := eat_val d2\<rparr>
         in if num_required_bounds opts > of_bool (eat_ok d) + of_bool (eat_ok d2) then Inr (False, r)
            else let undo = (second_dollar \<and> \<not> eat_ok d2);
                     cur = (if undo then retreat (eat_cur d2) else eat_cur d2)
            in range_finish m opts (seen_dollar \<or> second_dollar \<and> \<not> undo) cur r)))"

definition range_asserts :: "range_options \<Rightarrow> int \<Rightarrow> bool" where
  "range_asserts opts len \<longleftrightarrow> len \<ge> - 1 \<and> separators opts \<noteq> [] \<and>
     set (separators opts) \<inter> set ''+0123456789eE$'' = {} \<and> num_required_bounds opts \<le> 2"

definition ParseDoubleRange ::
    "'d floating \<Rightarrow> char list \<Rightarrow> cursor \<Rightarrow> range_options \<Rightarrow> 'd range_out \<Rightarrow> (bool \<times> 'd range_out) res" where
  "ParseDoubleRange fl m cur opts r =
     (let from_default = (if dont_modify_unbounded opts then out_from r else fl_neg fl (HUGE_VAL fl));
          r = (if \<not> dont_modify_unbounded opts then r\<lparr>out_from := fl_neg fl (HUGE_VAL fl), out_to := HUGE_VAL fl\<rparr> else r);
          r = (if allow_currency opts then r\<lparr>is_currency := map_option (\<lambda>_. False) (is_currency r)\<rparr> else r)
      in bind_res (check (range_asserts opts (snd cur))) (\<lambda>_.
         bind_res (if allow_comparators opts then EatAChar m cur ''<>'' True False else Inr (CHR 0x00, cur)) (\<lambda>(comparator, cur).
         if comparator \<noteq> CHR 0x00 then range_comparator fl m opts comparator cur r
         else bind_res (eat_if (allow_currency opts) m cur ''$'') (\<lambda>(seen_dollar, cur).
              let ask_minus = (CHR ''-'' \<in> set (separators opts) \<and> \<not> seen_dollar \<and> num_required_bounds opts < 2);
                  ask_period = (CHR ''.'' \<in> set (separators opts))
              in bind_res (EatADouble fl m cur (allow_unbounded_markers opts) (out_from r) ask_minus ask_period) (\<lambda>d.
                 let r = r\<lparr>out_from := eat_val d\<rparr>
                 in if num_required_bounds opts = 2 \<and> \<not> eat_ok d then Inr (False, r)
                    else let undo = (seen_dollar \<and> \<not> eat_ok d);
                             cur = (if undo then retreat (eat_cur d) else eat_cur d); seen_dollar = (seen_dollar \<and> \<not> undo)
                    in bind_res (range_separator m opts (eat_period d) cur) (\<lambda>(separator, cur).
                       if \<not> separator then range_one m opts from_default seen_dollar d cur r
                       else range_two fl m opts seen_dollar d cur r))))))"

section \<open>The scanners stay in the text\<close>

text \<open>
  A cursor in a text that ends at the offset \<open>L\<close>: by its length, or at the first zero character.
\<close>

definition cursor_in :: "char list \<Rightarrow> int \<Rightarrow> int \<Rightarrow> cursor \<Rightarrow> bool" where
  "cursor_in m lo L cur \<longleftrightarrow> 0 \<le> lo \<and> lo \<le> fst cur \<and> fst cur \<le> L \<and>
     (snd cur = - 1 \<and> L < int (length m) \<and> m ! nat L = CHR 0x00 \<and>
        (\<forall>i. lo \<le> i \<and> i < L \<longrightarrow> m ! nat i \<noteq> CHR 0x00) \<or>
      snd cur \<ge> 0 \<and> fst cur + snd cur = L \<and> L \<le> int (length m))"

lemma cursor_load: "cursor_in m lo L cur \<Longrightarrow> snd cur \<noteq> 0 \<Longrightarrow> load m (fst cur) = Inr (m ! nat (fst cur))"
  by (auto simp: cursor_in_def load_def array_get_def)

lemma cursor_advance:
  "cursor_in m lo L cur \<Longrightarrow> snd cur \<noteq> 0 \<Longrightarrow> m ! nat (fst cur) \<noteq> CHR 0x00 \<or> 0 \<le> snd cur \<Longrightarrow>
   cursor_in m lo L (advance cur)"
proof (cases "fst cur = L")
  case True
  then show "cursor_in m lo L cur \<Longrightarrow> snd cur \<noteq> 0 \<Longrightarrow> m ! nat (fst cur) \<noteq> CHR 0x00 \<or> 0 \<le> snd cur \<Longrightarrow> ?thesis"
    by (auto simp: cursor_in_def)
qed (cases cur; auto simp: cursor_in_def advance_def)

lemma retreat_advance: "snd cur \<noteq> 0 \<Longrightarrow> retreat (advance cur) = cur"
  by (cases cur) (simp add: retreat_def advance_def)

lemma EatAChar_in:
  assumes "cursor_in m lo L cur" "\<not> (update \<and> null_ok)"
  shows "\<exists>c cur'. EatAChar m cur cs update null_ok = Inr (c, cur') \<and> cursor_in m lo L cur' \<and>
    (c = CHR 0x00 \<or> \<not> update \<longrightarrow> cur' = cur) \<and> (c \<noteq> CHR 0x00 \<and> update \<longrightarrow> cur' = advance cur \<and> snd cur \<noteq> 0)"
proof (cases "snd cur = 0")
  case True
  then have "EatAChar m cur cs update null_ok = Inr (if null_ok then CHR 0x01 else CHR 0x00, cur)"
    using assms(2) by (simp add: EatAChar_def)
  then show ?thesis using assms by auto
next
  case False
  let ?c = "m ! nat (fst cur)"
  show ?thesis
  proof (cases "?c \<noteq> CHR 0x00 \<and> ?c \<in> set cs")
    case True
    then have "EatAChar m cur cs update null_ok = Inr (?c, if update then advance cur else cur)"
      using assms(2) cursor_load [OF assms(1) False] False by (simp add: EatAChar_def)
    then show ?thesis using True False assms(1) cursor_advance [OF assms(1) False] by auto
  next
    case out: False
    then have "EatAChar m cur cs update null_ok = Inr (if ?c = CHR 0x00 \<and> null_ok then CHR 0x01 else CHR 0x00, cur)"
      using assms(2) cursor_load [OF assms(1) False] False by (auto simp: EatAChar_def)
    then show ?thesis using assms by auto
  qed
qed

lemma eat_if_in:
  assumes "cursor_in m lo L cur"
  shows "\<exists>b' cur'. eat_if b m cur cs = Inr (b', cur') \<and> cursor_in m lo L cur' \<and>
    (\<not> b' \<longrightarrow> cur' = cur) \<and> (b' \<longrightarrow> cur' = advance cur \<and> snd cur \<noteq> 0)"
proof (cases b)
  case True
  obtain c cur' where c: "EatAChar m cur cs True False = Inr (c, cur')" "cursor_in m lo L cur'"
    "c = CHR 0x00 \<longrightarrow> cur' = cur" "c \<noteq> CHR 0x00 \<longrightarrow> cur' = advance cur \<and> snd cur \<noteq> 0"
    using EatAChar_in [OF assms, of True False cs] by blast
  then have "eat_if b m cur cs = Inr (c \<noteq> CHR 0x00, cur')" using True by (simp add: eat_if_def)
  then show ?thesis using c by blast
next
  case False
  then have "eat_if b m cur cs = Inr (False, cur)" by (simp add: eat_if_def)
  then show ?thesis using assms by blast
qed

lemma fst_advance [simp]: "fst (advance cur) = fst cur + 1"
  by (cases cur) (simp add: advance_def)

text \<open>The text \<open>strtod\<close> sees does not reach past the end.\<close>

lemma number_text:
  assumes "cursor_in m lo L pos"
  shows "\<exists>s. (if snd pos = - 1 then c_text m (fst pos)
              else bind_res (mem_read m (nat (fst pos)) (nat (snd pos))) (\<lambda>bs. Inr (takeWhile (\<lambda>c. c \<noteq> CHR 0x00) bs))) = Inr s \<and>
    fst pos + int (length s) \<le> L"
proof (cases "snd pos = - 1")
  case True
  let ?d = "drop (nat (fst pos)) m" and ?k = "nat (L - fst pos)"
  have b: "0 \<le> fst pos" "fst pos \<le> L" "L < int (length m)" "m ! nat L = CHR 0x00" using assms True by (auto simp: cursor_in_def)
  have n: "nat (fst pos) + ?k = nat L" using b by simp
  have k: "?k < length ?d" "?d ! ?k = CHR 0x00" using b n by (auto simp: nth_append)
  then have "CHR 0x00 \<in> set ?d" by (metis nth_mem)
  moreover have "length (takeWhile (\<lambda>c. c \<noteq> CHR 0x00) ?d) \<le> ?k"
  proof (rule ccontr)
    assume far: "\<not> ?thesis"
    then have "takeWhile (\<lambda>c. c \<noteq> CHR 0x00) ?d ! ?k \<in> set (takeWhile (\<lambda>c. c \<noteq> CHR 0x00) ?d)" by simp
    moreover have "takeWhile (\<lambda>c. c \<noteq> CHR 0x00) ?d ! ?k = ?d ! ?k" using far by (simp add: takeWhile_nth)
    ultimately show False using k(2) set_takeWhileD [of "?d ! ?k"] by metis
  qed
  ultimately show ?thesis using True b by (auto simp: c_text_def)
next
  case False
  then have b: "0 \<le> fst pos" "0 \<le> snd pos" "fst pos + snd pos = L" "L \<le> int (length m)"
    using assms by (auto simp: cursor_in_def)
  have "length (takeWhile (\<lambda>c. c \<noteq> CHR 0x00) (take (nat (snd pos)) (drop (nat (fst pos)) m))) \<le> nat (snd pos)"
    using length_takeWhile_le [of "\<lambda>c. c \<noteq> CHR 0x00" "take (nat (snd pos)) (drop (nat (fst pos)) m)"] by simp
  then show ?thesis using False b by (auto simp: mem_read_def)
qed

lemma eat_number_in:
  assumes "is_strtod (strtod fl)" "cursor_in m lo L pos" "cursor_in m lo L (eat_cur st)" "snd pos \<noteq> 0" "\<not> eat_ok st"
    "snd pos = - 1 \<longleftrightarrow> snd cur = - 1" "snd cur = - 1 \<longrightarrow> snd cur = snd (eat_cur st)"
  shows "\<exists>d. eat_number fl m cur pos ask st = Inr d \<and> cursor_in m lo L (eat_cur d) \<and> (\<not> eat_ok d \<longrightarrow> eat_cur d = eat_cur st) \<and>
    eat_minus d = eat_minus st"
proof -
  obtain s where s: "(if snd pos = - 1 then c_text m (fst pos)
      else bind_res (mem_read m (nat (fst pos)) (nat (snd pos))) (\<lambda>bs. Inr (takeWhile (\<lambda>c. c \<noteq> CHR 0x00) bs))) = Inr s"
    "fst pos + int (length s) \<le> L" using number_text [OF assms(2)] by blast
  obtain v n e where v: "strtod fl s = (v, n, e)" by (cases "strtod fl s") auto
  then have n: "n \<le> length s" using assms(1) by (auto simp: is_strtod_def dest: spec [of _ s])
  have ld: "load m (fst pos) = Inr (m ! nat (fst pos))" using cursor_load [OF assms(2,4)] .
  show ?thesis
  proof (cases "n = 0")
    case True
    then show ?thesis using s(1) v ld assms(3,5) by (auto simp: eat_number_def)
  next
    case False
    have "0 \<le> fst pos" "L \<le> int (length m)" using assms(2) by (auto simp: cursor_in_def)
    then have ld2: "load m (fst pos + int n - 1) = Inr (m ! nat (fst pos + int n - 1))"
      using False n s(2) by (auto simp: load_def array_get_def)
    have cur: "cursor_in m lo L (p, if snd pos \<noteq> - 1 then snd pos - (p - fst pos) else snd cur)"
      if "fst pos \<le> p" "p \<le> fst pos + int n" for p
      using assms(2,6) that n s(2) by (auto simp: cursor_in_def)
    define p where "p = (if ask \<and> m ! nat (fst pos + int n - 1) = CHR ''.'' then fst pos + int n - 1 else fst pos + int n)"
    have "fst pos \<le> p" "p \<le> fst pos + int n" using False by (auto simp: p_def)
    note in_text = cur [OF this]
    show ?thesis
    proof (cases "starts_number (m ! nat (fst pos))")
      case True
      let ?d = "st\<lparr>eat_ok := True, eat_val := v, eat_period := (if ask then m ! nat (fst pos + int n - 1) = CHR ''.'' else eat_period st),
        eat_cur := (p, if snd pos \<noteq> - 1 then snd pos - (p - fst pos) else snd cur)\<rparr>"
      have "eat_number fl m cur pos ask st = Inr ?d"
        using s(1) v ld ld2 False True by (simp add: eat_number_def Let_def p_def)
      then show ?thesis using in_text by auto
    qed (use ld assms(3,5) in \<open>simp add: eat_number_def\<close>)
  qed
qed

lemma EatADouble_in:
  assumes "is_strtod (strtod fl)" "cursor_in m lo L cur"
  shows "\<exists>d. EatADouble fl m cur q v ask_minus ask = Inr d \<and> cursor_in m lo L (eat_cur d) \<and> (\<not> eat_ok d \<longrightarrow> eat_cur d = cur)"
proof (cases "snd cur = 0")
  case True
  then show ?thesis using assms(2) by (simp add: EatADouble_def)
next
  case False
  let ?c = "m ! nat (fst cur)"
  let ?st = "\<lambda>b. \<lparr>eat_ok = False, eat_cur = cur, eat_val = v, eat_minus = b, eat_period = False\<rparr>"
  have ld: "load m (fst cur) = Inr ?c" using cursor_load [OF assms(2) False] .
  have here: "\<exists>d. eat_number fl m cur cur ask (?st False) = Inr d \<and> cursor_in m lo L (eat_cur d) \<and> (\<not> eat_ok d \<longrightarrow> eat_cur d = cur)"
    using eat_number_in [OF assms(1,2), of "?st False" cur ask] assms(2) False by auto
  have there: "\<exists>d. eat_number fl m cur (advance cur) ask (?st True) = Inr d \<and> cursor_in m lo L (eat_cur d) \<and> (\<not> eat_ok d \<longrightarrow> eat_cur d = cur)"
    if "?c = CHR ''-''" "snd cur \<noteq> 1"
  proof -
    have a: "cursor_in m lo L (advance cur)" using cursor_advance [OF assms(2) False] that(1) by simp
    have "snd (advance cur) \<noteq> 0" "snd (advance cur) = - 1 \<longleftrightarrow> snd cur = - 1"
      using that(2) False by (cases cur; simp add: advance_def)+
    then show ?thesis using eat_number_in [OF assms(1) a, of "?st True" cur ask] assms(2) by auto
  qed
  consider (question) "q" "?c = CHR ''?''" | (minus) "\<not> (q \<and> ?c = CHR ''?'')" "ask_minus" "?c = CHR ''-''"
    | (neither) "\<not> (q \<and> ?c = CHR ''?'')" "\<not> (ask_minus \<and> ?c = CHR ''-'')" by blast
  then show ?thesis
  proof cases
    case question
    then show ?thesis using ld False cursor_advance [OF assms(2) False] by (simp add: EatADouble_def)
  next
    case minus
    then show ?thesis using ld False there assms(2) by (cases "snd cur = 1") (auto simp: EatADouble_def Let_def)
  next
    case neither
    then show ?thesis using ld False here by (cases "q \<or> ask_minus") (auto simp: EatADouble_def Let_def)
  qed
qed

section \<open>The parser stays in the text\<close>

text \<open>What every branch of the parser ends with.\<close>

definition ends_in :: "int \<Rightarrow> int \<Rightarrow> (bool \<times> 'd range_out) res \<Rightarrow> bool" where
  "ends_in lo L x \<longleftrightarrow> (\<exists>ok r. x = Inr (ok, r) \<and> (ok \<longrightarrow> lo - 1 \<le> out_end r \<and> out_end r \<le> L))"

lemma ends_in_result [simp]: "ends_in lo L (Inr (ok, r)) \<longleftrightarrow> (ok \<longrightarrow> lo - 1 \<le> out_end r \<and> out_end r \<le> L)"
  by (simp add: ends_in_def)

lemma cursor_bounds: "cursor_in m lo L cur \<Longrightarrow> lo \<le> fst cur \<and> fst cur \<le> L"
  by (simp add: cursor_in_def)

lemma set_currency_end [simp]: "out_end (set_currency r) = out_end r"
  by (simp add: set_currency_def)

lemma range_finish_in:
  assumes "cursor_in m lo L cur"
  shows "ends_in lo L (range_finish m opts dollar cur r)"
proof -
  obtain c where "EatAChar m cur (acceptable_terminators opts) False (null_terminator_ok opts) = Inr (c, cur)"
    using EatAChar_in [OF assms, of False "null_terminator_ok opts" "acceptable_terminators opts"] by auto
  then show ?thesis using cursor_bounds [OF assms] by (auto simp: range_finish_def Let_def)
qed

lemma range_comparator_in:
  assumes "is_strtod (strtod fl)" "cursor_in m lo L cur"
  shows "ends_in lo L (range_comparator fl m opts comparator cur r)"
proof -
  obtain c1 cur1 where 1: "EatAChar m cur ''='' True False = Inr (c1, cur1)" "cursor_in m lo L cur1"
    using EatAChar_in [OF assms(2), of True False "''=''"] by blast
  obtain dollar cur2 where 2: "eat_if (allow_currency opts) m cur1 ''$'' = Inr (dollar, cur2)" "cursor_in m lo L cur2"
    using eat_if_in [OF 1(2)] by blast
  let ?r = "if dollar then set_currency r else r"
  let ?upper = "comparator \<noteq> CHR ''>''"
  obtain d where d: "EatADouble fl m cur2 (allow_unbounded_markers opts) (if ?upper then out_to ?r else out_from ?r) False False = Inr d"
    "cursor_in m lo L (eat_cur d)"
    using EatADouble_in [OF assms(1) 2(2)] by blast
  obtain c where c: "EatAChar m (eat_cur d) (acceptable_terminators opts) False (null_terminator_ok opts) = Inr (c, eat_cur d)"
    using EatAChar_in [OF d(2), of False "null_terminator_ok opts" "acceptable_terminators opts"] by auto
  show ?thesis using 1(1) 2(1) d(1) c cursor_bounds [OF d(2)]
    by (auto simp: range_comparator_def Let_def)
qed

lemma range_separator_in:
  assumes "cursor_in m lo L cur"
  shows "\<exists>b cur'. range_separator m opts period cur = Inr (b, cur') \<and> cursor_in m lo L cur'"
proof -
  obtain c1 cur1 where 1: "EatAChar m cur (separators opts) True False = Inr (c1, cur1)" "cursor_in m lo L cur1"
    "c1 = CHR 0x00 \<longrightarrow> cur1 = cur" "c1 \<noteq> CHR 0x00 \<longrightarrow> cur1 = advance cur \<and> snd cur \<noteq> 0"
    using EatAChar_in [OF assms, of True False "separators opts"] by blast
  obtain c2 cur2 where 2: "EatAChar m cur1 ''.'' True False = Inr (c2, cur2)" "cursor_in m lo L cur2" "c2 = CHR 0x00 \<longrightarrow> cur2 = cur1"
    using EatAChar_in [OF 1(2), of True False "''.''"] by blast
  obtain b3 cur3 where 3: "eat_if period m cur2 ''.'' = Inr (b3, cur3)" "cursor_in m lo L cur3"
    using eat_if_in [OF 2(2)] by blast
  obtain c4 cur4 where 4: "EatAChar m cur2 (separators opts) True False = Inr (c4, cur4)" "cursor_in m lo L cur4"
    "c4 = CHR 0x00 \<longrightarrow> cur4 = cur2"
    using EatAChar_in [OF 2(2), of True False "separators opts"] by blast
  have "retreat cur4 = cur" if "c1 = CHR ''.''" "c2 = CHR 0x00" "c4 = CHR 0x00"
    using that 1(4) 2(3) 4(3) retreat_advance [of cur] by simp
  then show ?thesis using 1(1,2) 2(1,2) 3 4(1,2) assms by (auto simp: range_separator_def simp del: split_paired_Ex)
qed

lemma range_one_in:
  assumes "cursor_in m lo L cur"
  shows "ends_in lo L (range_one m opts from_default dollar d cur r)"
proof -
  obtain b cur1 where 1: "eat_if (eat_period d) m cur ''.'' = Inr (b, cur1)" "cursor_in m lo L cur1"
    using eat_if_in [OF assms] by blast
  show ?thesis using 1(1) range_finish_in [OF 1(2)] by (auto simp: range_one_def)
qed

lemma range_two_in:
  assumes "is_strtod (strtod fl)" "cursor_in m lo L cur"
  shows "ends_in lo L (range_two fl m opts dollar d cur r)"
proof -
  let ?r = "if eat_minus d \<and> eat_ok d then r\<lparr>out_from := fl_neg fl (out_from r)\<rparr> else r"
  obtain b cur1 where 1: "eat_if (dollar \<or> allow_currency opts \<and> \<not> eat_ok d) m cur ''$'' = Inr (b, cur1)" "cursor_in m lo L cur1"
    "b \<longrightarrow> cur1 = advance cur \<and> snd cur \<noteq> 0"
    using eat_if_in [OF assms(2)] by blast
  obtain d2 where 2: "EatADouble fl m cur1 (allow_unbounded_markers opts) (out_to ?r) False False = Inr d2"
    "cursor_in m lo L (eat_cur d2)" "\<not> eat_ok d2 \<longrightarrow> eat_cur d2 = cur1"
    using EatADouble_in [OF assms(1) 1(2)] by blast
  let ?undo = "b \<and> \<not> eat_ok d2"
  have "cursor_in m lo L (if ?undo then retreat (eat_cur d2) else eat_cur d2)"
    using 1(3) 2(2,3) retreat_advance [of cur] assms(2) by auto
  from range_finish_in [OF this] show ?thesis using 1(1) 2(1)
    by (auto simp: range_two_def Let_def split: if_splits)
qed

text \<open>A text as the caller gives it: a length within the memory, or -1 and a terminator.\<close>

definition text_at :: "char list \<Rightarrow> cursor \<Rightarrow> bool" where
  "text_at m cur \<longleftrightarrow> 0 \<le> fst cur \<and>
     (snd cur \<ge> 0 \<and> fst cur + snd cur \<le> int (length m) \<or>
      snd cur = - 1 \<and> fst cur < int (length m) \<and> CHR 0x00 \<in> set (drop (nat (fst cur)) m))"

definition text_end :: "char list \<Rightarrow> cursor \<Rightarrow> int" where
  "text_end m cur = (if snd cur \<ge> 0 then fst cur + snd cur
     else fst cur + int (length (takeWhile (\<lambda>c. c \<noteq> CHR 0x00) (drop (nat (fst cur)) m))))"

lemma text_at_cursor:
  assumes "text_at m cur"
  shows "cursor_in m (fst cur) (text_end m cur) cur"
proof (cases "snd cur \<ge> 0")
  case False
  let ?d = "drop (nat (fst cur)) m"
  let ?t = "takeWhile (\<lambda>c. c \<noteq> CHR 0x00) ?d"
  have b: "0 \<le> fst cur" "snd cur = - 1" "fst cur < int (length m)" "CHR 0x00 \<in> set ?d"
    using assms False by (auto simp: text_at_def)
  have l: "length ?t < length ?d"
  proof (rule ccontr)
    assume "\<not> ?thesis"
    then have "?t = ?d" using takeWhile_eq_take [of "\<lambda>c. c \<noteq> CHR 0x00" ?d] by simp
    then show False using b(4) set_takeWhileD [of "CHR 0x00" "\<lambda>c. c \<noteq> CHR 0x00" ?d] by auto
  qed
  then have stop: "?d ! length ?t = CHR 0x00" using nth_length_takeWhile [of "\<lambda>c. c \<noteq> CHR 0x00" ?d] by simp
  have at: "m ! nat (fst cur + int i) = ?d ! i" if "i < length ?d" for i
    using that b(1) by (simp add: nat_add_distrib)
  have "m ! nat (fst cur + int (length ?t)) = CHR 0x00" using at [OF l] stop by simp
  moreover have "m ! nat i \<noteq> CHR 0x00" if "fst cur \<le> i" "i < fst cur + int (length ?t)" for i
  proof -
    let ?i = "nat (i - fst cur)"
    have i: "?i < length ?t" "i = fst cur + int ?i" using that by auto
    then have "?t ! ?i \<noteq> CHR 0x00" using nth_mem [OF i(1)] set_takeWhileD [of "?t ! ?i" "\<lambda>c. c \<noteq> CHR 0x00" ?d] by blast
    then show ?thesis using at [of ?i] i l by (simp add: takeWhile_nth)
  qed
  ultimately show ?thesis using b l by (simp add: cursor_in_def text_end_def)
qed (use assms in \<open>auto simp: text_at_def cursor_in_def text_end_def\<close>)

lemma ParseDoubleRange_in:
  assumes "is_strtod (strtod fl)" "cursor_in m lo L cur" "range_asserts opts (snd cur)"
  shows "ends_in lo L (ParseDoubleRange fl m cur opts r)"
proof -
  obtain c cur1 where 1: "(if allow_comparators opts then EatAChar m cur ''<>'' True False else Inr (CHR 0x00, cur)) = Inr (c, cur1)"
    "cursor_in m lo L cur1"
    using EatAChar_in [OF assms(2), of True False "''<>''"] assms(2) by (cases "allow_comparators opts") auto
  obtain dollar cur2 where 2: "eat_if (allow_currency opts) m cur1 ''$'' = Inr (dollar, cur2)" "cursor_in m lo L cur2"
    "dollar \<longrightarrow> cur2 = advance cur1 \<and> snd cur1 \<noteq> 0"
    using eat_if_in [OF 1(2)] by blast
  have d: "\<exists>d. EatADouble fl m cur2 q v ask_minus ask = Inr d \<and>
      cursor_in m lo L (if dollar \<and> \<not> eat_ok d then retreat (eat_cur d) else eat_cur d)" for q v ask_minus ask
    using EatADouble_in [OF assms(1) 2(2), of q v ask_minus ask] 2(3) retreat_advance [of cur1] 1(2) by auto
  have branches: "ends_in lo L (bind_res (range_separator m opts p cur3) (\<lambda>(separator, cur).
      if \<not> separator then range_one m opts dflt b e cur r1 else range_two fl m opts b e cur r1))"
    if "cursor_in m lo L cur3" for p cur3 dflt b e r1
    using range_separator_in [OF that, of opts p] range_one_in range_two_in [OF assms(1)] by fastforce
  have tail: "ends_in lo L (bind_res (EatADouble fl m cur2 q v ask_minus ask) (\<lambda>d.
      if f d then Inr (False, r1 d)
      else bind_res (range_separator m opts (eat_period d) (if dollar \<and> \<not> eat_ok d then retreat (eat_cur d) else eat_cur d))
        (\<lambda>(separator, cur). if \<not> separator then range_one m opts dflt (b d) d cur (r1 d)
          else range_two fl m opts (b d) d cur (r1 d))))" for q v ask_minus ask f r1 dflt b
  proof -
    obtain e where e: "EatADouble fl m cur2 q v ask_minus ask = Inr e"
      "cursor_in m lo L (if dollar \<and> \<not> eat_ok e then retreat (eat_cur e) else eat_cur e)" using d by blast
    show ?thesis using branches [OF e(2)] by (simp add: e(1) del: de_Morgan_conj split del: if_split) simp
  qed
  show ?thesis
    using assms(3) 1 2(1) range_comparator_in [OF assms(1) 1(2)]
    unfolding ParseDoubleRange_def Let_def by (auto intro!: tail)
qed

text \<open>C27: On every text, by its length or with its terminator, and with every set of options that the assertions
  admit, ParseDoubleRange reads only characters of the text and its terminator, and when it accepts it returns an
  end that lies in the text or at the character before it.  The latter happens: where a period is a terminator and
  no separator, the empty range before a period ends one character before the text.\<close>

theorem double_range_in_text:
  assumes "is_strtod (strtod fl)" "text_at m cur" "range_asserts opts (snd cur)"
  shows "\<exists>ok r'. ParseDoubleRange fl m cur opts r = Inr (ok, r') \<and>
    (ok \<longrightarrow> fst cur - 1 \<le> out_end r' \<and> out_end r' \<le> text_end m cur)"
  using ParseDoubleRange_in [OF assms(1) text_at_cursor [OF assms(2)] assms(3), of r] unfolding ends_in_def .

text \<open>Whole numbers, for evaluation.\<close>

definition digits :: "int floating" where
  "digits = \<lparr>strtod = (\<lambda>s. let t = takeWhile (\<lambda>c. c \<in> set ''0123456789'') s
     in (foldl (\<lambda>n c. 10 * n + int (of_char c) - 48) 0 t, length t, False)), fl_neg = uminus, HUGE_VAL = 1000000\<rparr>"

definition dashed :: range_options where
  "dashed = \<lparr>separators = ''-'', require_separator = False, acceptable_terminators = ''. '', null_terminator_ok = True,
     allow_unbounded_markers = True, num_required_bounds = 0, dont_modify_unbounded = False, allow_currency = True,
     allow_comparators = True\<rparr>"

lemma digits_strtod: "is_strtod (strtod digits)"
  by (simp add: is_strtod_def digits_def Let_def length_takeWhile_le)

theorem double_range_in_text_witness:
  "(\<exists>ok r'. ParseDoubleRange digits ''.'' (0, 1) dashed \<lparr>out_end = 0, out_from = 0, out_to = 0, is_currency = None\<rparr> = Inr (ok, r') \<and>
     (ok \<longrightarrow> - 1 \<le> out_end r' \<and> out_end r' \<le> 1)) \<and>
   ParseDoubleRange digits ''.'' (0, 1) dashed \<lparr>out_end = 0, out_from = 0, out_to = 0, is_currency = None\<rparr> =
     Inr (True, \<lparr>out_end = - 1, out_from = - 1000000, out_to = 1000000, is_currency = None\<rparr>) \<and>
   ParseDoubleRange digits ''$12-34 '' (0, 7) dashed \<lparr>out_end = 0, out_from = 0, out_to = 0, is_currency = Some False\<rparr> =
     Inr (True, \<lparr>out_end = 6, out_from = 12, out_to = 34, is_currency = Some True\<rparr>)"
proof -
  have "text_at ''.'' (0, 1)" "range_asserts dashed (snd (0, 1))" "text_end ''.'' (0, 1) = 1"
    by (simp_all add: text_at_def text_end_def range_asserts_def dashed_def)
  then have "\<exists>ok r'. ParseDoubleRange digits ''.'' (0, 1) dashed \<lparr>out_end = 0, out_from = 0, out_to = 0, is_currency = None\<rparr> = Inr (ok, r') \<and>
     (ok \<longrightarrow> - 1 \<le> out_end r' \<and> out_end r' \<le> 1)"
    using double_range_in_text [OF digits_strtod, of "''.''" "(0, 1)" dashed "\<lparr>out_end = 0, out_from = 0, out_to = 0, is_currency = None\<rparr>"]
    by simp
  moreover have "ParseDoubleRange digits ''.'' (0, 1) dashed \<lparr>out_end = 0, out_from = 0, out_to = 0, is_currency = None\<rparr> =
     Inr (True, \<lparr>out_end = - 1, out_from = - 1000000, out_to = 1000000, is_currency = None\<rparr>)" by code_simp
  moreover have "ParseDoubleRange digits ''$12-34 '' (0, 7) dashed \<lparr>out_end = 0, out_from = 0, out_to = 0, is_currency = Some False\<rparr> =
     Inr (True, \<lparr>out_end = 6, out_from = 12, out_to = 34, is_currency = Some True\<rparr>)" by code_simp
  ultimately show ?thesis by blast
qed

end
