(* ===== verification/Messages.thy ===== *)
theory Messages
  imports Numbers
begin

text \<open>
  \<open>base/string_printf.h\<close>, \<open>base/string_printf.cc\<close>, \<open>base/location.h\<close>, \<open>base/location.cc\<close> and
  \<open>base/exception.h\<close>.  What a format makes of its arguments is the argument \<open>text\<close> of the operations,
  absent where the conversion fails; \<open>vsnprintf\<close> cuts it to the buffer.
\<close>

section \<open>Formatting\<close>

definition vsnprintf :: "string option \<Rightarrow> nat \<Rightarrow> int \<times> string" where
  "vsnprintf out n = (case out of
     None \<Rightarrow> (- 1, [])
   | Some s \<Rightarrow> if int32_max < int (length s) then (- 1, []) else (int (length s), take (n - 1) s))"

definition kSpaceLength :: int where "kSpaceLength = 1024"

definition StringAppendV :: "string \<Rightarrow> string option \<Rightarrow> string res" where
  "StringAppendV dst out =
     (let (result, space) = vsnprintf out (nat kSpaceLength)
      in if result < kSpaceLength
         then if result \<ge> 0 then bind_res (mem_read space 0 (nat result)) (\<lambda>s. Inr (dst @ s)) else Inr dst
         else bind_res (checked int32_min int32_max (result + 1)) (\<lambda>len.
              let (result, m) = vsnprintf out (nat len)
              in if result \<ge> 0 \<and> result < len then bind_res (mem_read m 0 (nat result)) (\<lambda>s. Inr (dst @ s))
                 else Inr dst))"

definition StringPrintf :: "string option \<Rightarrow> string res" where
  "StringPrintf out = StringAppendV [] out"

definition SStringPrintf :: "string \<Rightarrow> string option \<Rightarrow> string res" where
  "SStringPrintf dst out = (let dst = [] in StringAppendV dst out)"

definition StringAppendF :: "string \<Rightarrow> string option \<Rightarrow> string res" where
  "StringAppendF dst out = StringAppendV dst out"

text \<open>The array of arguments has 32 places, and nothing compares the vector with them.\<close>

definition kStringPrintfVectorMaxArgs :: nat where "kStringPrintfVectorMaxArgs = 32"

definition c_str :: "string \<Rightarrow> string" where
  "c_str s = takeWhile (\<lambda>c. c \<noteq> CHR 0x00) s"

fun set_args :: "nat \<Rightarrow> string list \<Rightarrow> string list \<Rightarrow> string list res" where
  "set_args i [] cstr = Inr cstr"
| "set_args i (s # v) cstr = bind_res (array_set cstr i (c_str s)) (\<lambda>cstr. set_args (Suc i) v cstr)"

function pad_args :: "nat \<Rightarrow> string list \<Rightarrow> string list res" where
  "pad_args i cstr =
     (if i < kStringPrintfVectorMaxArgs then bind_res (array_set cstr i []) (\<lambda>cstr. pad_args (Suc i) cstr)
      else Inr cstr)"
  by pat_completeness auto
termination
  by (relation "measure (\<lambda>(i, cstr). kStringPrintfVectorMaxArgs - i)") (auto simp: kStringPrintfVectorMaxArgs_def)

declare pad_args.simps [simp del]

definition StringPrintfVector :: "(string list \<Rightarrow> string option) \<Rightarrow> string list \<Rightarrow> string list \<Rightarrow> string res" where
  "StringPrintfVector format cstr v =
     bind_res (set_args 0 v cstr) (\<lambda>cstr.
     bind_res (pad_args (length v) cstr) (\<lambda>cstr. StringPrintf (format cstr)))"

text \<open>What the code appends for a text of any length.\<close>

lemma StringAppendV_text:
  "StringAppendV dst out = (case out of
     None \<Rightarrow> Inr dst
   | Some s \<Rightarrow> if int (length s) < int32_max then Inr (dst @ s)
               else if int (length s) = int32_max then Inl SignedOverflow else Inr dst)"
proof (cases out)
  case (Some s)
  consider "length s < 1024" | "1024 \<le> length s" "int (length s) < int32_max" | "int (length s) = int32_max"
    | "int32_max < int (length s)" by linarith
  then show ?thesis
  proof cases
    case 1
    then show ?thesis using Some by (simp add: StringAppendV_def vsnprintf_def kSpaceLength_def int32_max_def)
  next
    case 2
    then have "checked int32_min int32_max (int (length s) + 1) = Inr (int (length s) + 1)"
      by (simp add: in_range_def int32_min_def int32_max_def)
    then show ?thesis using Some 2 by (simp add: StringAppendV_def vsnprintf_def kSpaceLength_def nat_add_distrib)
  next
    case 3
    then show ?thesis using Some
      by (simp add: StringAppendV_def vsnprintf_def kSpaceLength_def in_range_def int32_min_def int32_max_def)
  next
    case 4
    then show ?thesis using Some by (simp add: StringAppendV_def vsnprintf_def kSpaceLength_def)
  qed
qed (simp add: StringAppendV_def vsnprintf_def kSpaceLength_def)

lemma set_args_ok:
  "i + length v \<le> length cstr \<Longrightarrow> set_args i v cstr = Inr (splice_at cstr i (map c_str v))"
proof (induction v arbitrary: i cstr)
  case (Cons s v)
  then show ?case using splice_at_splice_at [of "Suc i" i "[c_str s]" "map c_str v" cstr] by simp
qed simp

lemma set_args_outside: "i \<le> length cstr \<Longrightarrow> length cstr < i + length v \<Longrightarrow> set_args i v cstr = Inl OutOfBounds"
proof (induction v arbitrary: i cstr)
  case (Cons s v)
  show ?case
  proof (cases "i < length cstr")
    case True
    then show ?thesis using Cons.IH [of "Suc i" "splice_at cstr i [c_str s]"] Cons.prems by simp
  next
    case False
    then show ?thesis using Cons.prems by (simp add: array_set_def)
  qed
qed simp

lemma pad_args_ok:
  "length cstr = 32 \<Longrightarrow> i \<le> 32 \<Longrightarrow> pad_args i cstr = Inr (take i cstr @ replicate (32 - i) [])"
proof (induction "32 - i" arbitrary: i cstr)
  case 0
  then have "i = 32" by simp
  then show ?case using 0 by (simp add: pad_args.simps [of 32 cstr] kStringPrintfVectorMaxArgs_def)
next
  case (Suc k)
  then have i: "i < 32" by simp
  then have "pad_args i cstr = pad_args (Suc i) (splice_at cstr i [[]])"
    using Suc.prems by (simp add: pad_args.simps [of i] kStringPrintfVectorMaxArgs_def)
  also have "\<dots> = Inr (take (Suc i) (splice_at cstr i [[]]) @ replicate (32 - Suc i) [])"
    by (rule Suc.hyps(1)) (use Suc.hyps(2) Suc.prems i in auto)
  also have "take (Suc i) (splice_at cstr i [[]]) = take i cstr @ [[]]"
    using Suc.prems i by (simp add: splice_at_def)
  also have "(take i cstr @ [[]]) @ replicate (32 - Suc i) [] = take i cstr @ replicate (32 - i) []"
    using i by (simp add: Suc_diff_Suc [symmetric] del: replicate_Suc) (metis Suc_diff_Suc append_Cons append_Nil append_assoc replicate_Suc)
  finally show ?case .
qed

lemma StringPrintfVector_args:
  assumes "length cstr = 32"
  shows "StringPrintfVector format cstr v =
    (if length v \<le> 32 then StringPrintf (format (map c_str v @ replicate (32 - length v) [])) else Inl OutOfBounds)"
proof (cases "length v \<le> 32")
  case True
  then have "set_args 0 v cstr = Inr (splice_at cstr 0 (map c_str v))" using assms by (intro set_args_ok) simp
  moreover have "pad_args (length v) (splice_at cstr 0 (map c_str v)) =
      Inr (take (length v) (splice_at cstr 0 (map c_str v)) @ replicate (32 - length v) [])"
    using True assms by (intro pad_args_ok) simp_all
  ultimately show ?thesis using True by (simp add: StringPrintfVector_def splice_at_0)
next
  case False
  then show ?thesis using set_args_outside [of 0 cstr v] assms by (simp add: StringPrintfVector_def)
qed

section \<open>Locations\<close>

text \<open>A name is a C string: its address, by which locations are compared, and its text.\<close>

record c_name =
  name_addr :: nat
  name_text :: string

record location =
  function_name :: c_name
  file_name :: c_name
  line_number :: int

definition Location_of :: "c_name \<Rightarrow> c_name \<Rightarrow> int \<Rightarrow> location" where
  "Location_of fn file line = \<lparr>function_name = fn, file_name = file, line_number = line\<rparr>"

definition Location_unknown :: "nat \<Rightarrow> location" where
  "Location_unknown a =
     \<lparr>function_name = \<lparr>name_addr = a, name_text = ''Unknown''\<rparr>, file_name = \<lparr>name_addr = a, name_text = ''Unknown''\<rparr>,
      line_number = - 1\<rparr>"

definition Location_copy :: "location \<Rightarrow> location" where
  "Location_copy other =
     \<lparr>function_name = function_name other, file_name = file_name other, line_number = line_number other\<rparr>"

definition Location_eq :: "location \<Rightarrow> location \<Rightarrow> bool" where
  "Location_eq l other \<longleftrightarrow>
     line_number l = line_number other \<and> name_addr (file_name l) = name_addr (file_name other)"

definition Location_ToString :: "location \<Rightarrow> string" where
  "Location_ToString l =
     name_text (function_name l) @ ''@'' @ name_text (file_name l) @ '':'' @ print_int 10 (line_number l)"

fun write_escaped :: "string \<Rightarrow> string \<Rightarrow> string" where
  "write_escaped [] out = out"
| "write_escaped (c # cs) out =
     write_escaped cs (if c = CHR ''<'' then out @ ''&lt;'' else if c = CHR ''>'' then out @ ''&gt;'' else out @ [c])"

definition WriteFunctionName :: "location \<Rightarrow> string \<Rightarrow> string" where
  "WriteFunctionName l out = write_escaped (name_text (function_name l)) out"

text \<open>The format of \<open>Write\<close> is \<open>%s[%d]\<close>.\<close>

definition Location_Write :: "location \<Rightarrow> bool \<Rightarrow> bool \<Rightarrow> string \<Rightarrow> string res" where
  "Location_Write l display_filename display_function_name out =
     bind_res (StringAppendF out (Some ((if display_filename then name_text (file_name l) else ''line'') @ ''['' @
       print_int 10 (line_number l) @ '']''))) (\<lambda>out.
     if display_function_name then Inr (WriteFunctionName l out @ '' '') else Inr out)"

definition escape_char :: "char \<Rightarrow> string" where
  "escape_char c = (if c = CHR ''<'' then ''&lt;'' else if c = CHR ''>'' then ''&gt;'' else [c])"

lemma write_escaped_concat: "write_escaped cs out = out @ concat (map escape_char cs)"
  by (induction cs arbitrary: out) (simp_all add: escape_char_def)

text \<open>The escaped name can be put between tags: it has no angle bracket.\<close>

lemma escaped_no_brackets: "CHR ''<'' \<notin> set (concat (map escape_char cs)) \<and> CHR ''>'' \<notin> set (concat (map escape_char cs))"
  by (auto simp: escape_char_def split: if_splits)

section \<open>Exceptions\<close>

text \<open>A library exception is its message.\<close>

definition exception_what :: "string \<Rightarrow> string" where
  "exception_what message = (if message = [] then ''Default TLibraryException.'' else c_str message)"

text \<open>
  C39: formatted text reaches its string whole.  For every text shorter than 2147483647 bytes,
  \<open>StringAppendV\<close> appends exactly that text, in its stack buffer or in one it allocates; at that length the
  size of the buffer overflows, and a failed conversion or a longer text appends nothing.
  \<open>StringPrintfVector\<close> formats up to 32 strings, the missing ones empty, and writes outside its array for
  more.  \<open>Location::Write\<close> then gives the file and the line and the function name with its angle brackets
  escaped.
\<close>

theorem printf_appends:
  assumes "length cstr = 32"
  shows "(int (length s) < int32_max \<longrightarrow> StringAppendV dst (Some s) = Inr (dst @ s)) \<and>
    (int (length s) = int32_max \<longrightarrow> StringAppendV dst (Some s) = Inl SignedOverflow) \<and>
    (int32_max < int (length s) \<longrightarrow> StringAppendV dst (Some s) = Inr dst) \<and> StringAppendV dst None = Inr dst \<and>
    StringPrintfVector format cstr v =
      (if length v \<le> 32 then StringAppendV [] (format (map c_str v @ replicate (32 - length v) [])) else Inl OutOfBounds) \<and>
    (length (name_text (file_name l)) < 2 ^ 29 \<and> length (print_int 10 (line_number l)) < 2 ^ 29 \<longrightarrow>
      Location_Write l True True dst = Inr (dst @ name_text (file_name l) @ ''['' @ print_int 10 (line_number l) @ '']'' @
        concat (map escape_char (name_text (function_name l))) @ '' ''))"
  using StringPrintfVector_args [OF assms, of format v]
  by (simp add: StringAppendV_text StringPrintf_def Location_Write_def StringAppendF_def WriteFunctionName_def
      write_escaped_concat int32_max_def)

theorem printf_appends_witness:
  "StringAppendV ''a'' (Some ''b=3'') = Inr ''ab=3'' \<and>
   StringPrintfVector (\<lambda>_. Some []) (replicate 32 []) (replicate 33 ''x'') = Inl OutOfBounds"
  using printf_appends [of "replicate 32 []" "''b=3''" "''a''" "\<lambda>_. Some []" "replicate 33 ''x''" "Location_unknown 0"]
  by (simp add: int32_max_def)

end
