(* ===== verification/Pickle.thy ===== *)
theory Pickle
  imports Bits
begin

text \<open>
  \<open>base/pickle.h\<close> and \<open>base/pickle.cc\<close>: a growing buffer of 4-byte aligned fields behind a
  header that holds the payload's size, the iterator that reads the fields back from bytes it
  does not trust, and the sizer that predicts how many bytes a sequence of fields takes.

  A \<open>pickle\<close> is the code's object: the block \<open>header_\<close> points to (\<open>None\<close> is the null
  pointer; for a read-only pickle the block is the caller's), and the three sizes.  An iterator
  keeps \<open>payload_\<close> as a block and an offset in it.  Every load and store goes through
  \<open>mem_read\<close> and \<open>mem_write\<close>, so leaving the block is a fault; allocation draws from a
  \<open>heap\<close> that may refuse it and fills new bytes with whatever it holds.
\<close>

section \<open>The object and its allocation\<close>

definition kPayloadUnit :: size_t where "kPayloadUnit = 64"
definition kCapacityReadOnly :: size_t where "kCapacityReadOnly = 2 ^ 64 - 1"
definition header_bytes :: nat where "header_bytes = 4"

record pickle =
  header :: "byte list option"
  header_size :: size_t
  capacity_after_header :: size_t
  write_offset :: size_t

definition null_pickle :: "size_t \<Rightarrow> size_t \<Rightarrow> pickle" where
  "null_pickle hs wo =
     \<lparr>header = None, header_size = hs, capacity_after_header = 0, write_offset = wo\<rparr>"

definition header_block :: "pickle \<Rightarrow> byte list res" where
  "header_block p = (case header p of None \<Rightarrow> Inl NullDeref | Some m \<Rightarrow> Inr m)"

text \<open>\<open>header_->payload_size\<close>, read and assigned.\<close>

definition load_payload_size :: "pickle \<Rightarrow> nat res" where
  "load_payload_size p =
     bind_res (header_block p) (\<lambda>m.
     bind_res (mem_read m 0 header_bytes) (\<lambda>bs. Inr (unat (of_le_bytes bs :: 32 word))))"

definition store_payload_size :: "nat \<Rightarrow> pickle \<Rightarrow> pickle res" where
  "store_payload_size n p =
     bind_res (header_block p) (\<lambda>m.
     bind_res (mem_write m 0 (le_bytes header_bytes (word_of_nat n :: 32 word))) (\<lambda>m'.
       Inr (p\<lparr>header := Some m'\<rparr>)))"

definition pickle_size :: "pickle \<Rightarrow> size_t res" where
  "pickle_size p = bind_res (load_payload_size p) (\<lambda>n. Inr (sz_add (header_size p) n))"

definition payload_size :: "pickle \<Rightarrow> size_t res" where
  "payload_size p = (case header p of None \<Rightarrow> Inr 0 | Some m \<Rightarrow> load_payload_size p)"

definition payload :: "pickle \<Rightarrow> (byte list \<times> nat) option" where
  "payload p = map_option (\<lambda>m. (m, header_size p)) (header p)"

definition end_of_payload :: "pickle \<Rightarrow> (byte list \<times> nat) option res" where
  "end_of_payload p = (case header p of None \<Rightarrow> Inr None
     | Some m \<Rightarrow> bind_res (payload_size p) (\<lambda>n. Inr (Some (m, header_size p + n))))"

definition headerT :: "nat \<Rightarrow> pickle \<Rightarrow> byte list option res" where
  "headerT sizeof_T p = bind_res (check (header_size p = sizeof_T)) (\<lambda>_. Inr (header p))"

definition GetTotalAllocatedSize :: "pickle \<Rightarrow> size_t" where
  "GetTotalAllocatedSize p =
     (if capacity_after_header p = kCapacityReadOnly then 0
      else sz_add (header_size p) (capacity_after_header p))"

definition Resize :: "heap \<Rightarrow> size_t \<Rightarrow> pickle \<Rightarrow> pickle res" where
  "Resize h new_capacity p =
     bind_res (check (capacity_after_header p \<noteq> kCapacityReadOnly)) (\<lambda>_.
     bind_res (Align new_capacity kPayloadUnit) (\<lambda>cap.
       let p = p\<lparr>capacity_after_header := cap\<rparr>
       in case c_realloc h (header p) (GetTotalAllocatedSize p) of
            None \<Rightarrow> Inl CheckFailed
          | Some m \<Rightarrow> Inr (p\<lparr>header := Some m\<rparr>)))"

section \<open>Construction, copying, destruction\<close>

definition Pickle_default :: "heap \<Rightarrow> pickle res" where
  "Pickle_default h =
     bind_res (Resize h kPayloadUnit (null_pickle header_bytes 0)) (store_payload_size 0)"

definition Pickle_header_size :: "heap \<Rightarrow> int \<Rightarrow> pickle res" where
  "Pickle_header_size h n =
     bind_res (Align (to_size n) 4) (\<lambda>hs.
     bind_res (check (header_bytes \<le> to_size n)) (\<lambda>_.
     bind_res (check (n \<le> int kPayloadUnit)) (\<lambda>_.
     bind_res (Resize h kPayloadUnit (null_pickle hs 0)) (store_payload_size 0))))"

text \<open>
  The read-only constructor: \<open>data_len - header_->payload_size\<close> is computed in \<open>unsigned int\<close>,
  so a payload size larger than the data wraps and is caught by the comparison after it.
\<close>

definition Pickle_view :: "byte list \<Rightarrow> int \<Rightarrow> pickle res" where
  "Pickle_view data data_len =
     (let p = \<lparr>header = Some data, header_size = 0,
               capacity_after_header = kCapacityReadOnly, write_offset = 0\<rparr>
      in bind_res (if int header_bytes \<le> data_len
                   then bind_res (load_payload_size p) (\<lambda>n. Inr (nat ((data_len - int n) mod 2 ^ 32)))
                   else Inr 0) (\<lambda>hs.
         let hs = (if int hs > data_len mod 2 ^ 32 then 0 else hs)
         in bind_res (Align hs 4) (\<lambda>a.
            let hs = (if hs \<noteq> a then 0 else hs)
            in Inr (p\<lparr>header_size := hs, header := (if hs = 0 then None else Some data)\<rparr>))))"

definition copy_block :: "pickle \<Rightarrow> size_t \<Rightarrow> pickle \<Rightarrow> pickle res" where
  "copy_block other n p =
     bind_res (header_block p) (\<lambda>m.
     bind_res (header_block other) (\<lambda>src.
     bind_res (mem_read src 0 n) (\<lambda>bs.
     bind_res (mem_write m 0 bs) (\<lambda>m'. Inr (p\<lparr>header := Some m'\<rparr>)))))"

definition Pickle_copy :: "heap \<Rightarrow> pickle \<Rightarrow> pickle res" where
  "Pickle_copy h other =
     bind_res (load_payload_size other) (\<lambda>n.
     bind_res (Resize h n (null_pickle (header_size other) (write_offset other))) (\<lambda>p.
       copy_block other (sz_add (header_size p) n) p))"

definition Pickle_assign :: "heap \<Rightarrow> bool \<Rightarrow> pickle \<Rightarrow> pickle \<Rightarrow> pickle res" where
  "Pickle_assign h same_object self other =
     (if same_object then Inr self
      else
        let p = (if capacity_after_header self = kCapacityReadOnly
                 then self\<lparr>header := None, capacity_after_header := 0\<rparr> else self);
            p = (if header_size p \<noteq> header_size other
                 then p\<lparr>header := None, header_size := header_size other\<rparr> else p)
        in bind_res (load_payload_size other) (\<lambda>n.
           bind_res (Resize h n p) (\<lambda>p.
           bind_res (copy_block other (sz_add (header_size other) n) p) (\<lambda>p.
             Inr (p\<lparr>write_offset := write_offset other\<rparr>)))))"

text \<open>The block the destructor frees.\<close>

definition Pickle_destroy :: "pickle \<Rightarrow> byte list option" where
  "Pickle_destroy p = (if capacity_after_header p \<noteq> kCapacityReadOnly then header p else None)"

section \<open>Writing\<close>

definition kPickleHeapAlign :: size_t where "kPickleHeapAlign = 4096"
definition uint32_limit :: size_t where "uint32_limit = 2 ^ 32 - 1"

definition grown_capacity :: "pickle \<Rightarrow> size_t res" where
  "grown_capacity p =
     (let new_capacity = sz_mul (capacity_after_header p) 2
      in if new_capacity > kPickleHeapAlign
         then bind_res (Align new_capacity kPickleHeapAlign) (\<lambda>c. Inr (sz_sub c kPayloadUnit))
         else Inr new_capacity)"

definition checked_length :: "size_t \<Rightarrow> pickle \<Rightarrow> size_t res" where
  "checked_length len p =
     bind_res (Align len 4) (\<lambda>data_len.
     bind_res (check (len \<le> data_len)) (\<lambda>_.
     bind_res (check (data_len \<le> uint32_limit)) (\<lambda>_.
     bind_res (check (write_offset p \<le> uint32_limit - data_len)) (\<lambda>_.
       Inr data_len))))"

text \<open>The result is the object and the offset in its block of the claimed bytes.\<close>

definition ClaimUninitializedBytesInternal :: "heap \<Rightarrow> size_t \<Rightarrow> pickle \<Rightarrow> (pickle \<times> nat) res" where
  "ClaimUninitializedBytesInternal h len p =
     bind_res (check (kCapacityReadOnly \<noteq> capacity_after_header p)) (\<lambda>_.
     bind_res (checked_length len p) (\<lambda>data_len.
       let new_size = sz_add (write_offset p) data_len
       in bind_res
            (if new_size > capacity_after_header p
             then bind_res (grown_capacity p) (\<lambda>c. Resize h (max c new_size) p)
             else Inr p) (\<lambda>p.
          let w = header_size p + write_offset p
          in bind_res (header_block p) (\<lambda>m.
             bind_res (mem_write m (w + len) (replicate (data_len - len) 0)) (\<lambda>m.
             bind_res (store_payload_size new_size (p\<lparr>header := Some m\<rparr>)) (\<lambda>p.
               Inr (p\<lparr>write_offset := new_size\<rparr>, w)))))))"

definition WriteBytesCommon :: "heap \<Rightarrow> byte list \<Rightarrow> size_t \<Rightarrow> pickle \<Rightarrow> pickle res" where
  "WriteBytesCommon h data len p =
     bind_res (check (kCapacityReadOnly \<noteq> capacity_after_header p)) (\<lambda>_.
     bind_res (ClaimUninitializedBytesInternal h len p) (\<lambda>(p, w).
     bind_res (mem_read data 0 len) (\<lambda>bs.
     bind_res (header_block p) (\<lambda>m.
     bind_res (mem_write m w bs) (\<lambda>m. Inr (p\<lparr>header := Some m\<rparr>))))))"

definition WriteBytesStatic :: "heap \<Rightarrow> nat \<Rightarrow> byte list \<Rightarrow> pickle \<Rightarrow> pickle res" where
  "WriteBytesStatic h len data p = WriteBytesCommon h data len p"

definition ClaimBytes :: "heap \<Rightarrow> size_t \<Rightarrow> pickle \<Rightarrow> (pickle \<times> nat) res" where
  "ClaimBytes h num_bytes p =
     bind_res (ClaimUninitializedBytesInternal h num_bytes p) (\<lambda>(p, w).
     bind_res (header_block p) (\<lambda>m.
     bind_res (mem_write m w (replicate num_bytes 0)) (\<lambda>m. Inr (p\<lparr>header := Some m\<rparr>, w))))"

definition Reserve :: "heap \<Rightarrow> size_t \<Rightarrow> pickle \<Rightarrow> pickle res" where
  "Reserve h len p =
     bind_res (checked_length len p) (\<lambda>data_len.
       let new_size = sz_add (write_offset p) data_len
       in if new_size > capacity_after_header p
          then Resize h (sz_add (sz_mul (capacity_after_header p) 2) new_size) p
          else Inr p)"

definition WritePOD :: "heap \<Rightarrow> 'a::len word \<Rightarrow> pickle \<Rightarrow> pickle res" where
  "WritePOD h v p = WriteBytesStatic h (LENGTH('a) div 8) (le_bytes (LENGTH('a) div 8) v) p"

definition WriteInt16 :: "heap \<Rightarrow> 16 word \<Rightarrow> pickle \<Rightarrow> pickle res" where "WriteInt16 h v = WritePOD h v"
definition WriteInt32 :: "heap \<Rightarrow> 32 word \<Rightarrow> pickle \<Rightarrow> pickle res" where "WriteInt32 h v = WritePOD h v"
definition WriteInt :: "heap \<Rightarrow> 32 word \<Rightarrow> pickle \<Rightarrow> pickle res" where "WriteInt h v = WriteInt32 h v"
definition WriteInt64 :: "heap \<Rightarrow> 64 word \<Rightarrow> pickle \<Rightarrow> pickle res" where "WriteInt64 h v = WritePOD h v"
definition WriteLong :: "heap \<Rightarrow> 64 word \<Rightarrow> pickle \<Rightarrow> pickle res" where "WriteLong h v = WriteInt64 h v"
definition WriteUInt16 :: "heap \<Rightarrow> 16 word \<Rightarrow> pickle \<Rightarrow> pickle res" where "WriteUInt16 h v = WritePOD h v"
definition WriteUInt32 :: "heap \<Rightarrow> 32 word \<Rightarrow> pickle \<Rightarrow> pickle res" where "WriteUInt32 h v = WritePOD h v"
definition WriteUInt64 :: "heap \<Rightarrow> 64 word \<Rightarrow> pickle \<Rightarrow> pickle res" where "WriteUInt64 h v = WritePOD h v"
definition WriteFloat :: "heap \<Rightarrow> 32 word \<Rightarrow> pickle \<Rightarrow> pickle res" where "WriteFloat h bits = WritePOD h bits"
definition WriteDouble :: "heap \<Rightarrow> 64 word \<Rightarrow> pickle \<Rightarrow> pickle res" where "WriteDouble h bits = WritePOD h bits"

definition WriteBool :: "heap \<Rightarrow> bool \<Rightarrow> pickle \<Rightarrow> pickle res" where
  "WriteBool h v = WriteInt32 h (if v then 1 else 0)"

text \<open>The \<open>int\<close> length becomes a \<open>size_t\<close> on the way down.\<close>

definition WriteBytes :: "heap \<Rightarrow> byte list \<Rightarrow> int \<Rightarrow> pickle \<Rightarrow> pickle res" where
  "WriteBytes h data len p = WriteBytesCommon h data (to_size len) p"

definition WriteString :: "heap \<Rightarrow> byte list \<Rightarrow> pickle \<Rightarrow> pickle res" where
  "WriteString h v p =
     bind_res (WriteInt32 h (word_of_nat (length v)) p)
       (WriteBytes h v (to_int32 (int (length v))))"

definition WriteData :: "heap \<Rightarrow> byte list \<Rightarrow> int \<Rightarrow> pickle \<Rightarrow> (bool \<times> pickle) res" where
  "WriteData h data len p =
     (if 0 \<le> len
      then bind_res (WriteInt32 h (word_of_int len) p) (\<lambda>p.
           bind_res (WriteBytes h data len p) (\<lambda>p. Inr (True, p)))
      else Inr (False, p))"

section \<open>Walking a range of pickles\<close>

definition PeekNext :: "size_t \<Rightarrow> byte list \<Rightarrow> size_t option res" where
  "PeekNext hs bytes =
     bind_res (Align hs 4) (\<lambda>a.
     bind_res (check (hs = a)) (\<lambda>_.
     bind_res (check (header_bytes \<le> hs)) (\<lambda>_.
     bind_res (check (hs \<le> kPayloadUnit)) (\<lambda>_.
       if length bytes < header_bytes then Inr None
       else if length bytes < hs then Inr None
       else bind_res (mem_read bytes 0 header_bytes) (\<lambda>bs.
         let n = unat (of_le_bytes bs :: 32 word)
         in if n > npos - hs then Inr (Some npos) else Inr (Some (hs + n)))))))"

definition FindNext :: "size_t \<Rightarrow> byte list \<Rightarrow> nat option res" where
  "FindNext hs bytes =
     bind_res (PeekNext hs bytes) (\<lambda>r. case r of
         None \<Rightarrow> Inr None
       | Some n \<Rightarrow> if n > length bytes then Inr None else Inr (Some n))"

section \<open>Reading\<close>

record piter =
  it_payload :: "(byte list \<times> nat) option"
  read_index :: size_t
  end_index :: size_t

definition PickleIterator_default :: piter where
  "PickleIterator_default = \<lparr>it_payload = None, read_index = 0, end_index = 0\<rparr>"

definition PickleIterator_of :: "pickle \<Rightarrow> piter res" where
  "PickleIterator_of p =
     bind_res (payload_size p) (\<lambda>n. Inr \<lparr>it_payload = payload p, read_index = 0, end_index = n\<rparr>)"

definition Advance :: "size_t \<Rightarrow> piter \<Rightarrow> piter res" where
  "Advance sz it =
     bind_res (Align sz 4) (\<lambda>aligned_size. Inr
       (if sz_sub (end_index it) (read_index it) < aligned_size
        then it\<lparr>read_index := end_index it\<rparr>
        else it\<lparr>read_index := sz_add (read_index it) aligned_size\<rparr>))"

text \<open>A pointer into the payload: \<open>None\<close> is null.\<close>

definition current_ptr :: "piter \<Rightarrow> (byte list \<times> nat) option" where
  "current_ptr it = map_option (\<lambda>(m, b). (m, b + read_index it)) (it_payload it)"

definition read_ptr_static :: "nat \<Rightarrow> piter \<Rightarrow> ((byte list \<times> nat) option \<times> piter) res" where
  "read_ptr_static sizeof_T it =
     (if sizeof_T > sz_sub (end_index it) (read_index it)
      then Inr (None, it\<lparr>read_index := end_index it\<rparr>)
      else bind_res (Advance sizeof_T it) (\<lambda>it'. Inr (current_ptr it, it')))"

definition read_ptr :: "int \<Rightarrow> piter \<Rightarrow> ((byte list \<times> nat) option \<times> piter) res" where
  "read_ptr num_bytes it =
     (if num_bytes < 0 \<or> sz_sub (end_index it) (read_index it) < to_size num_bytes
      then Inr (None, it\<lparr>read_index := end_index it\<rparr>)
      else bind_res (Advance (to_size num_bytes) it) (\<lambda>it'. Inr (current_ptr it, it')))"

definition read_ptr_elements :: "int \<Rightarrow> size_t \<Rightarrow> piter \<Rightarrow> ((byte list \<times> nat) option \<times> piter) res" where
  "read_ptr_elements num_elements size_element it =
     (let num_bytes = sint (word_of_int num_elements * word_of_nat size_element :: 64 word);
          num_bytes32 = to_int32 num_bytes
      in if num_bytes \<noteq> num_bytes32 then Inr (None, it) else read_ptr num_bytes32 it)"

definition SkipBytes :: "int \<Rightarrow> piter \<Rightarrow> (bool \<times> piter) res" where
  "SkipBytes n it = bind_res (read_ptr n it) (\<lambda>(q, it). Inr (q \<noteq> None, it))"

text \<open>Both branches on \<open>sizeof(Type)\<close> load the same bytes; \<open>load\<close> gives them their value.\<close>

definition read_pod :: "nat \<Rightarrow> (byte list \<Rightarrow> 'v res) \<Rightarrow> piter \<Rightarrow> ('v option \<times> piter) res" where
  "read_pod sizeof_T load it =
     bind_res (read_ptr_static sizeof_T it) (\<lambda>(q, it). case q of
         None \<Rightarrow> Inr (None, it)
       | Some (m, i) \<Rightarrow>
           bind_res (mem_read m i sizeof_T) (\<lambda>bs.
           bind_res (load bs) (\<lambda>v. Inr (Some v, it))))"

definition load_word :: "byte list \<Rightarrow> 'a::len word res" where
  "load_word bs = Inr (of_le_bytes bs)"

definition load_bool :: "byte list \<Rightarrow> bool res" where
  "load_bool bs = (if bs = [0] then Inr False else if bs = [1] then Inr True else Inl InvalidValue)"

definition ReadBuiltinType :: "piter \<Rightarrow> ('a::len word option \<times> piter) res" where
  "ReadBuiltinType = read_pod (LENGTH('a) div 8) load_word"

definition ReadBool :: "piter \<Rightarrow> (bool option \<times> piter) res" where "ReadBool = read_pod 1 load_bool"
definition ReadInt16 :: "piter \<Rightarrow> (16 word option \<times> piter) res" where "ReadInt16 = ReadBuiltinType"
definition ReadInt32 :: "piter \<Rightarrow> (32 word option \<times> piter) res" where "ReadInt32 = ReadBuiltinType"
definition ReadInt :: "piter \<Rightarrow> (32 word option \<times> piter) res" where "ReadInt = ReadInt32"
definition ReadInt64 :: "piter \<Rightarrow> (64 word option \<times> piter) res" where "ReadInt64 = ReadBuiltinType"
definition ReadLong :: "piter \<Rightarrow> (64 word option \<times> piter) res" where "ReadLong = ReadInt64"
definition ReadUInt16 :: "piter \<Rightarrow> (16 word option \<times> piter) res" where "ReadUInt16 = ReadBuiltinType"
definition ReadUInt32 :: "piter \<Rightarrow> (32 word option \<times> piter) res" where "ReadUInt32 = ReadBuiltinType"
definition ReadUInt64 :: "piter \<Rightarrow> (64 word option \<times> piter) res" where "ReadUInt64 = ReadBuiltinType"
definition ReadFloat :: "piter \<Rightarrow> (32 word option \<times> piter) res" where "ReadFloat = read_pod 4 load_word"
definition ReadDouble :: "piter \<Rightarrow> (64 word option \<times> piter) res" where "ReadDouble = read_pod 8 load_word"

text \<open>\<open>*result\<close> is assigned even when it is negative and the result is false.\<close>

definition ReadLength :: "piter \<Rightarrow> ((bool \<times> 32 word option) \<times> piter) res" where
  "ReadLength it = bind_res (ReadInt32 it) (\<lambda>(r, it). Inr
     ((case r of None \<Rightarrow> (False, None) | Some n \<Rightarrow> (0 \<le> sint n, Some n)), it))"

definition ReadBytes :: "int \<Rightarrow> piter \<Rightarrow> ((byte list \<times> nat) option \<times> piter) res" where
  "ReadBytes len it = read_ptr len it"

definition ReadStringPiece :: "piter \<Rightarrow> (((byte list \<times> nat) \<times> nat) option \<times> piter) res" where
  "ReadStringPiece it =
     bind_res (ReadInt32 it) (\<lambda>(r, it). case r of
         None \<Rightarrow> Inr (None, it)
       | Some len \<Rightarrow> bind_res (read_ptr (sint len) it) (\<lambda>(q, it).
           Inr (map_option (\<lambda>q. (q, nat (sint len))) q, it)))"

definition ReadString :: "piter \<Rightarrow> (byte list option \<times> piter) res" where
  "ReadString it =
     bind_res (ReadInt32 it) (\<lambda>(r, it). case r of
         None \<Rightarrow> Inr (None, it)
       | Some len \<Rightarrow> bind_res (read_ptr (sint len) it) (\<lambda>(q, it). case q of
             None \<Rightarrow> Inr (None, it)
           | Some (m, i) \<Rightarrow> bind_res (mem_read m i (nat (sint len))) (\<lambda>bs. Inr (Some bs, it))))"

text \<open>The result is the returned flag, \<open>*data\<close> and \<open>*length\<close>, which start as null and 0.\<close>

definition ReadData :: "piter \<Rightarrow> ((bool \<times> (byte list \<times> nat) option \<times> 32 word) \<times> piter) res" where
  "ReadData it =
     bind_res (ReadInt32 it) (\<lambda>(r, it). case r of
         None \<Rightarrow> Inr ((False, None, 0), it)
       | Some len \<Rightarrow> bind_res (ReadBytes (sint len) it) (\<lambda>(q, it).
           Inr ((q \<noteq> None, q, len), it)))"

section \<open>Sizing\<close>

type_synonym sizer = size_t

definition AddBytes :: "int \<Rightarrow> sizer \<Rightarrow> sizer res" where
  "AddBytes len s = bind_res (Align (to_size len) 4) (\<lambda>n. Inr (sz_add s n))"

definition AddBytesStatic :: "nat \<Rightarrow> sizer \<Rightarrow> sizer res" where
  "AddBytesStatic len s = bind_res (check (int len \<le> int32_max)) (\<lambda>_. AddBytes (to_int32 (int len)) s)"

definition AddInt16 :: "sizer \<Rightarrow> sizer res" where "AddInt16 = AddBytesStatic 2"
definition AddInt32 :: "sizer \<Rightarrow> sizer res" where "AddInt32 = AddBytesStatic 4"
definition AddInt64 :: "sizer \<Rightarrow> sizer res" where "AddInt64 = AddBytesStatic 8"
definition AddUInt16 :: "sizer \<Rightarrow> sizer res" where "AddUInt16 = AddBytesStatic 2"
definition AddUInt32 :: "sizer \<Rightarrow> sizer res" where "AddUInt32 = AddBytesStatic 4"
definition AddUInt64 :: "sizer \<Rightarrow> sizer res" where "AddUInt64 = AddBytesStatic 8"
definition AddFloat :: "sizer \<Rightarrow> sizer res" where "AddFloat = AddBytesStatic 4"
definition AddDouble :: "sizer \<Rightarrow> sizer res" where "AddDouble = AddBytesStatic 8"
definition AddBool :: "sizer \<Rightarrow> sizer res" where "AddBool = AddInt32"

definition AddString :: "byte list \<Rightarrow> sizer \<Rightarrow> sizer res" where
  "AddString v s = bind_res (AddInt32 s) (AddBytes (to_int32 (int (length v))))"

definition AddData :: "int \<Rightarrow> sizer \<Rightarrow> sizer res" where
  "AddData len s =
     bind_res (check (0 \<le> len)) (\<lambda>_. bind_res (AddInt32 s) (AddBytes len))"

section \<open>The invariant of a writable pickle\<close>

text \<open>
  The block holds the header and the capacity, the sizes are aligned, and the header's payload
  size is the write offset.  \<open>payload_bytes\<close> is what has been written so far.
\<close>

definition header_field :: "nat \<Rightarrow> byte list" where
  "header_field n = le_bytes 4 (word_of_nat n :: 32 word)"

definition wf_pickle :: "pickle \<Rightarrow> bool" where
  "wf_pickle p \<longleftrightarrow> (case header p of None \<Rightarrow> False | Some m \<Rightarrow>
     length m = header_size p + capacity_after_header p \<and>
     4 dvd header_size p \<and> 4 \<le> header_size p \<and> header_size p \<le> 64 \<and>
     capacity_after_header p \<le> 2 ^ 34 \<and>
     4 dvd write_offset p \<and> write_offset p \<le> capacity_after_header p \<and> write_offset p < 2 ^ 32 \<and>
     take 4 m = header_field (write_offset p))"

definition payload_bytes :: "pickle \<Rightarrow> byte list" where
  "payload_bytes p = (case header p of None \<Rightarrow> []
     | Some m \<Rightarrow> take (write_offset p) (drop (header_size p) m))"

definition pad4 :: "byte list \<Rightarrow> byte list" where
  "pad4 bs = bs @ replicate (round_up 4 (length bs) - length bs) 0"

lemma length_header_field [simp]: "length (header_field n) = 4"
  by (simp add: header_field_def)

lemma of_header_field [simp]:
  "n < 2 ^ 32 \<Longrightarrow> unat (of_le_bytes (header_field n) :: 32 word) = n"
  by (simp add: header_field_def of_le_bytes_le_bytes_len unsigned_of_nat take_bit_nat_eq_self)

lemma round_up_4_ge [simp]: "n \<le> round_up 4 n"
  by (simp add: round_up_ge)

lemma round_up_4_dvd [simp]: "4 dvd round_up 4 n"
  by (simp add: round_up_dvd)

lemma length_pad4 [simp]: "length (pad4 bs) = round_up 4 (length bs)"
  by (simp add: pad4_def)

text \<open>The parts of the block of a well-formed pickle.\<close>

lemma wf_pickleE:
  assumes "wf_pickle p"
  obtains ext junk where
    "header p = Some (header_field (write_offset p) @ ext @ payload_bytes p @ junk)"
    "length ext = header_size p - 4" "length (payload_bytes p) = write_offset p"
    "length junk = capacity_after_header p - write_offset p"
proof -
  obtain m where m: "header p = Some m" using assms by (auto simp: wf_pickle_def split: option.splits)
  let ?hs = "header_size p" and ?wo = "write_offset p"
  have wf: "length m = ?hs + capacity_after_header p" "4 \<le> ?hs" "?wo \<le> capacity_after_header p"
      "take 4 m = header_field ?wo"
    using assms m by (simp_all add: wf_pickle_def)
  have pay: "payload_bytes p = take ?wo (drop ?hs m)" using m by (simp add: payload_bytes_def)
  have "m = take 4 m @ take (?hs - 4) (drop 4 m) @ drop ?hs m"
    using wf(2) by (metis append_take_drop_id drop_drop le_add_diff_inverse2)
  also have "drop ?hs m = take ?wo (drop ?hs m) @ drop ?wo (drop ?hs m)"
    by (simp only: append_take_drop_id)
  finally have "m = header_field ?wo @ take (?hs - 4) (drop 4 m) @ payload_bytes p @ drop ?wo (drop ?hs m)"
    using wf(4) pay by simp
  then show ?thesis using that [of "take (?hs - 4) (drop 4 m)" "drop ?wo (drop ?hs m)"] m wf pay by simp
qed

lemma wf_pickleI:
  assumes "p = \<lparr>header = Some (header_field wo @ ext @ pay @ junk), header_size = hs,
      capacity_after_header = cap, write_offset = wo\<rparr>"
    "length ext = hs - 4" "length pay = wo" "length junk = cap - wo"
    "4 dvd hs" "4 \<le> hs" "hs \<le> 64" "cap \<le> 2 ^ 34" "4 dvd wo" "wo \<le> cap" "wo < 2 ^ 32"
  shows "wf_pickle p \<and> payload_bytes p = pay"
proof -
  have "drop hs (header_field wo @ ext @ pay @ junk) = pay @ junk"
    using assms(2,6) by simp
  then have "payload_bytes p = pay" using assms(1,3) by (simp add: payload_bytes_def)
  then show ?thesis using assms by (simp add: wf_pickle_def)
qed

lemma checked_length_cases:
  assumes "len < 2 ^ 64" "write_offset p < 2 ^ 32"
  shows "checked_length len p =
    (if len < 2 ^ 32 \<and> write_offset p + round_up 4 len < 2 ^ 32 then Inr (round_up 4 len)
     else Inl CheckFailed)"
proof (cases "len + 4 \<le> 2 ^ 64")
  case True
  have "len \<le> 4294967295" if "round_up 4 len \<le> 4294967295"
    using le_trans [OF round_up_4_ge that] .
  then show ?thesis using True assms
    by (auto simp: checked_length_def bind_res_check uint32_limit_def)
next
  case False
  then have "checked_length len p = Inl CheckFailed"
    by (auto simp: checked_length_def bind_res_check uint32_limit_def Align_def)
  then show ?thesis using False by simp
qed

text \<open>Growing the block keeps its bytes; the heap may refuse.\<close>

lemma Resize_grow:
  assumes "header p = Some m" "length m = header_size p + capacity_after_header p"
    "header_size p \<le> 64" "capacity_after_header p \<le> c" "c \<le> 2 ^ 34 - 64"
  shows "Resize h c p =
    (if header_size p + round_up 64 c \<le> heap_limit h
     then Inr (p\<lparr>header := Some (m @ map (heap_fill h) [length m..<header_size p + round_up 64 c]),
                 capacity_after_header := round_up 64 c\<rparr>)
     else Inl CheckFailed)"
proof -
  have r: "c \<le> round_up 64 c" "round_up 64 c < c + 64" by (simp_all add: round_up_ge round_up_lt)
  then have "sz_add (header_size p) (round_up 64 c) = header_size p + round_up 64 c"
    using assms by (intro sz_add_exact) simp
  moreover have "length m \<le> header_size p + round_up 64 c" using assms r by simp
  moreover have "capacity_after_header p \<noteq> kCapacityReadOnly" "round_up 64 c \<noteq> kCapacityReadOnly"
    using assms(4,5) r by (auto simp: kCapacityReadOnly_def)
  moreover have "c + 64 \<le> 2 ^ 64" using assms(5) by simp
  ultimately show ?thesis
    using assms(1)
    by (simp add: Resize_def kPayloadUnit_def GetTotalAllocatedSize_def Let_def c_realloc_grow)
       (simp add: c_realloc_def)
qed

lemma grown_capacity_bound:
  assumes "capacity_after_header p < 2 ^ 32"
  shows "\<exists>c. grown_capacity p = Inr c \<and> c \<le> 2 ^ 34 - 128"
proof -
  let ?c = "capacity_after_header p * 2"
  have m: "sz_mul (capacity_after_header p) 2 = ?c" using assms by (intro sz_mul_exact) simp
  have r: "?c \<le> round_up 4096 ?c" "round_up 4096 ?c < ?c + 4096" by (simp_all add: round_up_ge round_up_lt)
  show ?thesis
  proof (cases "?c > 4096")
    case True
    then have "sz_sub (round_up 4096 ?c) 64 = round_up 4096 ?c - 64"
      using r assms by (intro sz_sub_exact) auto
    then show ?thesis using True r assms m
      by (simp add: grown_capacity_def kPickleHeapAlign_def kPayloadUnit_def)
  next
    case False
    then show ?thesis using m by (simp add: grown_capacity_def kPickleHeapAlign_def)
  qed
qed

section \<open>Writing appends a padded field\<close>

lemma room_cases:
  assumes "wf_pickle p" "new_size < 2 ^ 32"
    "header p = Some (sf @ ext @ payload_bytes p @ junk)" "length sf = 4"
    "length ext = header_size p - 4" "length (payload_bytes p) = write_offset p"
    "length junk = capacity_after_header p - write_offset p"
    "grow = (if new_size > capacity_after_header p
      then bind_res (grown_capacity p) (\<lambda>c. Resize h (max c new_size) p) else Inr p)"
  shows "grow = Inl CheckFailed \<and> heap_limit h < 2 ^ 35 \<or>
    (\<exists>junk' cap. grow = Inr (p\<lparr>header := Some (sf @ ext @ payload_bytes p @ junk'),
         capacity_after_header := cap\<rparr>) \<and>
       length junk' = cap - write_offset p \<and> write_offset p \<le> cap \<and> new_size \<le> cap \<and> cap \<le> 2 ^ 34)"
proof (cases "new_size > capacity_after_header p")
  case False
  then have "grow = Inr (p\<lparr>header := Some (sf @ ext @ payload_bytes p @ junk),
      capacity_after_header := capacity_after_header p\<rparr>)"
    using assms(3) by (simp add: assms(8))
  moreover have "write_offset p \<le> capacity_after_header p" "capacity_after_header p \<le> 2 ^ 34"
    using assms(1) by (auto simp: wf_pickle_def split: option.splits)
  ultimately show ?thesis using assms(7) False
    by (intro disjI2 exI [of _ junk] exI [of _ "capacity_after_header p"]) simp
next
  case True
  obtain c where c: "grown_capacity p = Inr c" "c \<le> 2 ^ 34 - 128"
    using grown_capacity_bound [of p] True assms(2) by auto
  define c' where "c' = max c new_size"
  have c': "capacity_after_header p \<le> c'" "c' \<le> 2 ^ 34 - 64" "new_size \<le> c'"
    using True c(2) assms(2) by (simp_all add: c'_def)
  define cap where "cap = round_up 64 c'"
  have cap: "c' \<le> cap" "cap < c' + 64" by (simp_all add: cap_def round_up_ge round_up_lt)
  have wf: "header_size p \<le> 64" "4 \<le> header_size p" "write_offset p \<le> capacity_after_header p"
    using assms(1) by (auto simp: wf_pickle_def split: option.splits)
  let ?m = "sf @ ext @ payload_bytes p @ junk"
  have m: "length ?m = header_size p + capacity_after_header p" using assms(4-7) wf by simp
  let ?fill = "map (heap_fill h) [length ?m..<header_size p + cap]"
  have R: "grow = (if header_size p + cap \<le> heap_limit h
      then Inr (p\<lparr>header := Some (?m @ ?fill), capacity_after_header := cap\<rparr>) else Inl CheckFailed)"
    using Resize_grow [OF assms(3) m wf(1) c'(1,2), of h] True c(1)
    by (simp only: assms(8) if_True bind_res_simps c'_def [symmetric] cap_def)
  show ?thesis
  proof (cases "header_size p + cap \<le> heap_limit h")
    case False
    then have "heap_limit h < 2 ^ 35" using cap(2) c'(2) wf(1) by simp
    then show ?thesis using R False by simp
  next
    case fits: True
    have "length (junk @ ?fill) = cap - write_offset p"
      using m assms(4-7) wf cap(1) c'(1) by simp
    moreover have "grow = Inr (p\<lparr>header := Some (sf @ ext @ payload_bytes p @ junk @ ?fill),
        capacity_after_header := cap\<rparr>)" using R fits by simp
    ultimately show ?thesis using cap c' wf(3) by (intro disjI2 exI [of _ "junk @ ?fill"] exI [of _ cap]) simp
  qed
qed

definition claimed :: "pickle \<Rightarrow> byte list \<Rightarrow> byte list \<Rightarrow> nat \<Rightarrow> nat \<Rightarrow> pickle" where
  "claimed p ext junk cap n =
     \<lparr>header = Some (header_field (write_offset p + n) @ ext @ payload_bytes p @ junk),
      header_size = header_size p, capacity_after_header = cap, write_offset = write_offset p + n\<rparr>"

text \<open>Once there is room, the padding is cleared and the new size goes to the header.\<close>

lemma claim_stored:
  fixes len :: nat
  defines "n \<equiv> round_up 4 len"
  assumes "checked_length len p = Inr n" "sz_add (write_offset p) n = write_offset p + n"
    "kCapacityReadOnly \<noteq> capacity_after_header p" "4 \<le> header_size p"
    "length ext = header_size p - 4" "length (payload_bytes p) = write_offset p"
    "length junk = cap - write_offset p" "write_offset p + n \<le> cap"
    and grown: "(if write_offset p + n > capacity_after_header p
          then bind_res (grown_capacity p) (\<lambda>c. Resize h (max c (write_offset p + n)) p) else Inr p) =
        Inr (p\<lparr>header := Some (header_field (write_offset p) @ ext @ payload_bytes p @ junk), capacity_after_header := cap\<rparr>)"
  shows "ClaimUninitializedBytesInternal h len p =
      Inr (claimed p ext (splice_at junk len (replicate (n - len) 0)) cap n, header_size p + write_offset p)"
proof -
  let ?z = "replicate (n - len) 0" and ?wo = "write_offset p" and ?hs = "header_size p"
  let ?m = "header_field ?wo @ ext @ payload_bytes p @ junk"
  have ln: "len \<le> n" by (simp add: n_def)
  have "mem_write ?m (?hs + ?wo + len) ?z = Inr (splice_at ?m (?hs + ?wo + len) ?z)"
    using assms(5-9) ln by (intro mem_write_in) simp
  moreover have "splice_at ?m (?hs + ?wo + len) ?z = header_field ?wo @ ext @ payload_bytes p @ splice_at junk len ?z"
    using assms(5-7) by (simp add: splice_at_def)
  moreover have "store_payload_size (?wo + n)
      (p\<lparr>capacity_after_header := cap, header := Some (header_field ?wo @ ext @ payload_bytes p @ splice_at junk len ?z)\<rparr>) =
      Inr (p\<lparr>header := Some (header_field (?wo + n) @ ext @ payload_bytes p @ splice_at junk len ?z), capacity_after_header := cap\<rparr>)"
    by (simp add: store_payload_size_def header_block_def header_bytes_def header_field_def splice_at_def)
  ultimately show ?thesis
    using assms(4)
    unfolding ClaimUninitializedBytesInternal_def Let_def assms(2,3) bind_res_simps grown
    by (simp add: header_block_def claimed_def)
qed

lemma claim_cases:
  assumes "wf_pickle p" "len < 2 ^ 64"
  shows "ClaimUninitializedBytesInternal h len p = Inl CheckFailed \<and>
       (2 ^ 32 \<le> write_offset p + round_up 4 len \<or> heap_limit h < 2 ^ 35) \<or>
     write_offset p + round_up 4 len < 2 ^ 32 \<and>
     (\<exists>ext junk cap. ClaimUninitializedBytesInternal h len p =
          Inr (claimed p ext junk cap (round_up 4 len), header_size p + write_offset p) \<and>
        length ext = header_size p - 4 \<and> length junk = cap - write_offset p \<and>
        write_offset p + round_up 4 len \<le> cap \<and> cap \<le> 2 ^ 34 \<and>
        take (round_up 4 len - len) (drop len junk) = replicate (round_up 4 len - len) 0)"
proof -
  let ?n = "round_up 4 len" and ?wo = "write_offset p" and ?hs = "header_size p"
  have wf: "4 \<le> ?hs" "?wo < 2 ^ 32" "capacity_after_header p \<le> 2 ^ 34"
    using assms(1) by (auto simp: wf_pickle_def split: option.splits)
  have ro: "kCapacityReadOnly \<noteq> capacity_after_header p" using wf(3) by (auto simp: kCapacityReadOnly_def)
  show ?thesis
  proof (cases "?wo + ?n < 2 ^ 32")
    case False
    then have "ClaimUninitializedBytesInternal h len p = Inl CheckFailed"
      using checked_length_cases [OF assms(2) wf(2)] ro
      by (simp add: ClaimUninitializedBytesInternal_def bind_res_check)
    then show ?thesis using False by simp
  next
    case True
    have "len < 2 ^ 32" using True round_up_4_ge [of len] by linarith
    then have cl: "checked_length len p = Inr ?n"
      using checked_length_cases [OF assms(2) wf(2)] True by simp
    have ns: "sz_add ?wo ?n = ?wo + ?n" using True by (intro sz_add_exact) simp
    obtain ext junk where h: "header p = Some (header_field ?wo @ ext @ payload_bytes p @ junk)"
        "length ext = ?hs - 4" "length (payload_bytes p) = ?wo"
        "length junk = capacity_after_header p - ?wo"
      using assms(1) by (rule wf_pickleE)
    from room_cases [OF assms(1) True h(1) length_header_field h(2-4) refl, of h] show ?thesis
    proof (elim disjE exE conjE)
      assume "(if ?wo + ?n > capacity_after_header p
          then bind_res (grown_capacity p) (\<lambda>c. Resize h (max c (?wo + ?n)) p) else Inr p) = Inl CheckFailed"
        "heap_limit h < 2 ^ 35"
      then show ?thesis using True ro cl ns
        by (simp add: ClaimUninitializedBytesInternal_def)
    next
      fix junk' cap
      assume g: "(if ?wo + ?n > capacity_after_header p
          then bind_res (grown_capacity p) (\<lambda>c. Resize h (max c (?wo + ?n)) p) else Inr p) =
        Inr (p\<lparr>header := Some (header_field ?wo @ ext @ payload_bytes p @ junk'), capacity_after_header := cap\<rparr>)"
        and j: "length junk' = cap - ?wo" "?wo \<le> cap" "?wo + ?n \<le> cap" "cap \<le> 2 ^ 34"
      let ?z = "replicate (?n - len) 0"
      have "ClaimUninitializedBytesInternal h len p = Inr (claimed p ext (splice_at junk' len ?z) cap ?n, ?hs + ?wo)"
        by (rule claim_stored [OF cl ns ro wf(1) h(2,3) j(1,3) g])
      moreover have ln: "len \<le> ?n" by simp
      moreover have "length (splice_at junk' len ?z) = cap - ?wo" using j ln by simp
      moreover have "take (?n - len) (drop len (splice_at junk' len ?z)) = ?z"
        using j ln by (simp add: splice_at_def)
      ultimately show ?thesis using True h(2) j(3,4) by blast
    qed
  qed
qed

text \<open>
  What every write promises: it either trips a \<open>CHECK\<close>, which it may do only when the payload
  would reach 4 GiB or the heap is small, or yields a well-formed pickle whose payload has grown
  by exactly the given bytes.
\<close>

definition grows :: "heap \<Rightarrow> pickle \<Rightarrow> byte list \<Rightarrow> pickle res \<Rightarrow> bool" where
  "grows h p bs r \<longleftrightarrow> (case r of
       Inl e \<Rightarrow> e = CheckFailed \<and> (2 ^ 32 \<le> length (payload_bytes p) + length bs \<or> heap_limit h < 2 ^ 35)
     | Inr p' \<Rightarrow> wf_pickle p' \<and> payload_bytes p' = payload_bytes p @ bs \<and> header_size p' = header_size p)"

lemma wf_payload_length: "wf_pickle p \<Longrightarrow> length (payload_bytes p) = write_offset p"
  by (erule wf_pickleE) simp

lemma grows_bind:
  assumes "grows h p bs r" "\<And>q. r = Inr q \<Longrightarrow> wf_pickle q \<Longrightarrow> grows h q cs (f q)"
  shows "grows h p (bs @ cs) (bind_res r f)"
proof (cases r)
  case (Inl e)
  then show ?thesis using assms(1) by (auto simp: grows_def)
next
  case (Inr q)
  then have "grows h q cs (f q)" using assms by (simp add: grows_def)
  then show ?thesis using assms(1) Inr by (auto simp: grows_def split: sum.splits)
qed

lemma claimed_wf:
  assumes "wf_pickle p" "length ext = header_size p - 4" "length junk = cap - write_offset p"
    "write_offset p + n \<le> cap" "cap \<le> 2 ^ 34" "4 dvd n" "write_offset p + n < 2 ^ 32"
  shows "wf_pickle (claimed p ext junk cap n) \<and>
         payload_bytes (claimed p ext junk cap n) = payload_bytes p @ take n junk"
proof -
  have wf: "4 dvd header_size p" "4 \<le> header_size p" "header_size p \<le> 64" "4 dvd write_offset p"
    using assms(1) by (auto simp: wf_pickle_def split: option.splits)
  have "claimed p ext junk cap n =
      \<lparr>header = Some (header_field (write_offset p + n) @ ext @ (payload_bytes p @ take n junk) @ drop n junk),
       header_size = header_size p, capacity_after_header = cap, write_offset = write_offset p + n\<rparr>"
    by (simp add: claimed_def)
  moreover have "n \<le> length junk" using assms(3,4) by simp
  ultimately show ?thesis
    using assms wf wf_payload_length [OF assms(1)]
    by (intro wf_pickleI [where junk = "drop n junk"]) simp_all
qed

lemma WriteBytesCommon_grows:
  assumes "wf_pickle p" "len \<le> length data" "len < 2 ^ 64"
  shows "grows h p (pad4 (take len data)) (WriteBytesCommon h data len p)"
proof -
  let ?n = "round_up 4 len" and ?wo = "write_offset p"
  have ro: "kCapacityReadOnly \<noteq> capacity_after_header p"
    using assms(1) by (auto simp: wf_pickle_def kCapacityReadOnly_def split: option.splits)
  have ln: "len \<le> ?n" by simp
  have mr: "mem_read data 0 len = Inr (take len data)" using assms(2) by simp
  have l: "length (payload_bytes p) = ?wo" "length (pad4 (take len data)) = ?n"
    using assms(1,2) wf_payload_length by (simp_all add: min_def)
  from claim_cases [OF assms(1,3), of h] show ?thesis
  proof (elim disjE exE conjE)
    assume "ClaimUninitializedBytesInternal h len p = Inl CheckFailed"
      "2 ^ 32 \<le> ?wo + ?n"
    then show ?thesis using ro l by (simp add: WriteBytesCommon_def grows_def)
  next
    assume "ClaimUninitializedBytesInternal h len p = Inl CheckFailed" "heap_limit h < 2 ^ 35"
    then show ?thesis using ro by (simp add: WriteBytesCommon_def grows_def)
  next
    fix ext junk cap
    assume n: "?wo + ?n < 2 ^ 32"
      and c: "ClaimUninitializedBytesInternal h len p = Inr (claimed p ext junk cap ?n, header_size p + ?wo)"
      and e: "length ext = header_size p - 4" and j: "length junk = cap - ?wo" "?wo + ?n \<le> cap" "cap \<le> 2 ^ 34"
      and z: "take (?n - len) (drop len junk) = replicate (?n - len) 0"
    let ?junk = "splice_at junk 0 (take len data)"
    have hs: "4 \<le> header_size p" using assms(1) by (auto simp: wf_pickle_def split: option.splits)
    have lj: "len \<le> length junk" using j(1,2) round_up_4_ge [of len] by linarith
    then have "mem_write (header_field (?wo + ?n) @ ext @ payload_bytes p @ junk) (header_size p + ?wo) (take len data)
        = Inr (header_field (?wo + ?n) @ ext @ payload_bytes p @ ?junk)"
      using e hs l(1) assms(2) by (simp add: mem_write_def splice_at_def)
    then have "WriteBytesCommon h data len p = Inr (claimed p ext ?junk cap ?n)"
      using ro c mr by (simp add: WriteBytesCommon_def header_block_def claimed_def)
    moreover have "length ?junk = cap - ?wo" using j(1) lj assms(2) by (simp add: splice_at_0)
    moreover have "take ?n ?junk = pad4 (take len data)"
      using z assms(2) by (simp add: splice_at_0 pad4_def min.absorb1 min.absorb2)
    moreover have "header_size (claimed p ext ?junk cap ?n) = header_size p" by (simp add: claimed_def)
    ultimately show ?thesis
      using claimed_wf [OF assms(1) e _ j(2,3) round_up_4_dvd n, of ?junk] by (simp add: grows_def)
  qed
qed

lemma pad4_id: "4 dvd length bs \<Longrightarrow> pad4 bs = bs"
  by (simp add: pad4_def round_up_dvd_id)

lemma WritePOD_grows:
  "wf_pickle p \<Longrightarrow> LENGTH('a) div 8 < 2 ^ 64 \<Longrightarrow>
   grows h p (pad4 (le_bytes (LENGTH('a) div 8) v)) (WritePOD h (v :: 'a::len word) p)"
  using WriteBytesCommon_grows [of p "LENGTH('a) div 8" "le_bytes (LENGTH('a) div 8) v" h]
  by (simp add: WritePOD_def WriteBytesStatic_def)

lemma WriteInt32_grows: "wf_pickle p \<Longrightarrow> grows h p (le_bytes 4 v) (WriteInt32 h v p)"
  using WritePOD_grows [of p h v] by (simp add: WriteInt32_def pad4_id)

lemma WriteBytes_grows:
  "wf_pickle p \<Longrightarrow> length data < 2 ^ 31 \<Longrightarrow>
   grows h p (pad4 data) (WriteBytes h data (int (length data)) p)"
  using WriteBytesCommon_grows [of p "length data" data h] by (simp add: WriteBytes_def)

lemma Pickle_default_ok:
  assumes "128 \<le> heap_limit h"
  shows "\<exists>p. Pickle_default h = Inr p \<and> wf_pickle p \<and> payload_bytes p = [] \<and> header_size p = 4"
proof -
  have r: "round_up 64 64 = 64" by (rule round_up_dvd_id) simp_all
  have "Resize h kPayloadUnit (null_pickle header_bytes 0) =
      Inr \<lparr>header = Some (map (heap_fill h) [0..<68]), header_size = 4,
           capacity_after_header = 64, write_offset = 0\<rparr>"
    using assms r
    by (simp add: Resize_def kPayloadUnit_def null_pickle_def header_bytes_def kCapacityReadOnly_def
        GetTotalAllocatedSize_def sz_add_def c_realloc_def Let_def)
  then have "Pickle_default h = Inr \<lparr>header = Some (header_field 0 @ [] @ [] @ drop 4 (map (heap_fill h) [0..<68])),
      header_size = 4, capacity_after_header = 64, write_offset = 0\<rparr>"
    by (simp add: Pickle_default_def store_payload_size_def header_block_def header_bytes_def
        header_field_def splice_at_0)
  then show ?thesis using wf_pickleI [OF refl, of "[]" 4 "[]" 0 "drop 4 (map (heap_fill h) [0..<68])" 64]
    by simp
qed

section \<open>Reading what lies ahead\<close>

text \<open>An iterator over a block it may read: \<open>unread\<close> is what it has not passed yet.\<close>

definition wf_iter :: "piter \<Rightarrow> bool" where
  "wf_iter it \<longleftrightarrow> read_index it \<le> end_index it \<and> end_index it + 4 \<le> 2 ^ 64 \<and>
     (case it_payload it of None \<Rightarrow> end_index it = 0 | Some (m, b) \<Rightarrow> b + end_index it \<le> length m)"

definition unread :: "piter \<Rightarrow> byte list" where
  "unread it = (case it_payload it of None \<Rightarrow> []
     | Some (m, b) \<Rightarrow> take (end_index it - read_index it) (drop (b + read_index it) m))"

definition finished :: "piter \<Rightarrow> piter" where
  "finished it = it\<lparr>read_index := end_index it\<rparr>"

lemma length_unread: "wf_iter it \<Longrightarrow> length (unread it) = end_index it - read_index it"
  by (auto simp: wf_iter_def unread_def split: option.splits)

lemma finished_wf [simp]: "wf_iter it \<Longrightarrow> wf_iter (finished it)" "unread (finished it) = []"
  "it_payload (finished it) = it_payload it"
  by (auto simp: wf_iter_def unread_def finished_def split: option.splits)

lemma sz_sub_remaining: "wf_iter it \<Longrightarrow> sz_sub (end_index it) (read_index it) = length (unread it)"
  by (simp add: length_unread) (auto simp: wf_iter_def intro: sz_sub_exact)

text \<open>Having moved on in the same block, with \<open>rest\<close> ahead.\<close>

definition moves :: "piter \<Rightarrow> byte list \<Rightarrow> piter \<Rightarrow> bool" where
  [simp]: "moves it rest it' \<longleftrightarrow> wf_iter it' \<and> unread it' = rest \<and> it_payload it' = it_payload it"

lemma Advance_unread:
  assumes "wf_iter it" "n \<le> length (unread it)"
  shows "\<exists>it'. Advance n it = Inr it' \<and> moves it (drop (round_up 4 n) (unread it)) it'"
proof -
  have e: "read_index it \<le> end_index it" "end_index it + 4 \<le> 2 ^ 64"
    using assms(1) by (simp_all add: wf_iter_def)
  have "n + 4 \<le> 2 ^ 64" using e assms length_unread [OF assms(1)] by linarith
  then have al: "Align n 4 = Inr (round_up 4 n)" by simp
  show ?thesis
  proof (cases "length (unread it) < round_up 4 n")
    case True
    then have "Advance n it = Inr (finished it)"
      by (simp add: Advance_def al sz_sub_remaining [OF assms(1)] finished_def)
    then show ?thesis using True assms(1) by simp
  next
    case False
    then have le: "read_index it + round_up 4 n \<le> end_index it" using length_unread [OF assms(1)] e(1) by linarith
    then have "sz_add (read_index it) (round_up 4 n) = read_index it + round_up 4 n"
      using e by (intro sz_add_exact) linarith
    then have "Advance n it = Inr (it\<lparr>read_index := read_index it + round_up 4 n\<rparr>)"
      using False by (simp add: Advance_def al sz_sub_remaining [OF assms(1)])
    moreover have "wf_iter (it\<lparr>read_index := read_index it + round_up 4 n\<rparr>)"
      using assms(1) le by (auto simp: wf_iter_def split: option.splits)
    moreover have "unread (it\<lparr>read_index := read_index it + round_up 4 n\<rparr>) =
        drop (round_up 4 n) (unread it)"
      by (simp add: unread_def drop_take add.assoc add.left_commute [of _ "round_up 4 n"]
          add.commute [of _ "round_up 4 n"] split: option.split prod.split)
    ultimately show ?thesis by simp
  qed
qed

lemma current_ptr_read:
  assumes "wf_iter it" "current_ptr it = Some (m, i)" "n \<le> length (unread it)"
  shows "mem_read m i n = Inr (take n (unread it))"
proof -
  obtain b where b: "it_payload it = Some (m, b)" "i = b + read_index it"
    using assms(2) by (auto simp: current_ptr_def)
  then have "n \<le> end_index it - read_index it" "b + end_index it \<le> length m"
      "read_index it \<le> end_index it"
    using assms(1,3) length_unread [OF assms(1)] by (simp_all add: wf_iter_def)
  then show ?thesis using b by (simp add: mem_read_def unread_def min_def)
qed

lemma current_ptr_None: "current_ptr it = None \<Longrightarrow> unread it = []"
  by (simp add: current_ptr_def unread_def)

lemma read_ptr_cases:
  assumes "wf_iter it" "n < 2 ^ 63"
  shows "if 0 \<le> n \<and> nat n \<le> length (unread it)
    then \<exists>it'. read_ptr n it = Inr (current_ptr it, it') \<and> moves it (drop (round_up 4 (nat n)) (unread it)) it'
    else read_ptr n it = Inr (None, finished it)"
proof (cases "0 \<le> n")
  case True
  then have "to_size n = nat n" using assms(2) by simp
  then show ?thesis
    using True Advance_unread [OF assms(1), of "nat n"]
    by (auto simp: read_ptr_def sz_sub_remaining [OF assms(1)] finished_def)
next
  case False
  then show ?thesis by (simp add: read_ptr_def finished_def)
qed

lemma read_ptr_static_cases:
  assumes "wf_iter it"
  shows "if n \<le> length (unread it)
    then \<exists>it'. read_ptr_static n it = Inr (current_ptr it, it') \<and> moves it (drop (round_up 4 n) (unread it)) it'
    else read_ptr_static n it = Inr (None, finished it)"
  using Advance_unread [OF assms, of n]
  by (auto simp: read_ptr_static_def sz_sub_remaining [OF assms] finished_def)

lemma read_pod_cases:
  assumes "wf_iter it" "0 < n"
  shows "if n \<le> length (unread it)
    then \<exists>it'. read_pod n load it = bind_res (load (take n (unread it))) (\<lambda>v. Inr (Some v, it')) \<and>
           moves it (drop (round_up 4 n) (unread it)) it'
    else read_pod n load it = Inr (None, finished it)"
proof (cases "n \<le> length (unread it)")
  case True
  then obtain it' where it': "read_ptr_static n it = Inr (current_ptr it, it')" 
      "moves it (drop (round_up 4 n) (unread it)) it'"
    using read_ptr_static_cases [OF assms(1), of n] by auto
  have "unread it \<noteq> []" using True assms(2) by auto
  then obtain m i where p: "current_ptr it = Some (m, i)"
    using current_ptr_None by (cases "current_ptr it") auto
  show ?thesis
    using True it' p current_ptr_read [OF assms(1) p True]
    by (simp add: read_pod_def) (intro exI [of _ it'], simp)
next
  case False
  then show ?thesis using read_ptr_static_cases [OF assms(1), of n] by (simp add: read_pod_def)
qed

text \<open>
  The contract of a field: whatever \<open>put\<close> wrote of an admissible value, \<open>get\<close> told the value's
  kind reads back, leaving what followed it.  Sequences of fields inherit it.
\<close>

locale field_codec =
  fixes put :: "'v \<Rightarrow> byte list"
    and kind :: "'v \<Rightarrow> 'k"
    and get :: "'k \<Rightarrow> piter \<Rightarrow> ('v option \<times> piter) res"
    and admissible :: "'v \<Rightarrow> bool"
  assumes get_put: "wf_iter it \<Longrightarrow> admissible v \<Longrightarrow> unread it = put v @ rest \<Longrightarrow>
    \<exists>it'. get (kind v) it = Inr (Some v, it') \<and> moves it rest it'"
begin

primrec get_all :: "'k list \<Rightarrow> piter \<Rightarrow> ('v option list \<times> piter) res" where
  "get_all [] it = Inr ([], it)"
| "get_all (k # ks) it =
     bind_res (get k it) (\<lambda>(v, it). bind_res (get_all ks it) (\<lambda>(vs, it). Inr (v # vs, it)))"

lemma get_all_put:
  assumes "list_all admissible vs" "wf_iter it" "unread it = concat (map put vs) @ rest"
  shows "\<exists>it'. get_all (map kind vs) it = Inr (map Some vs, it') \<and> moves it rest it'"
  using assms
proof (induction vs arbitrary: it)
  case Nil
  then show ?case by simp
next
  case (Cons v vs)
  then obtain it1 where 1: "get (kind v) it = Inr (Some v, it1)"
      "moves it (concat (map put vs) @ rest) it1"
    using get_put [of it v "concat (map put vs) @ rest"] by auto
  then obtain it2 where "get_all (map kind vs) it1 = Inr (map Some vs, it2)" "moves it1 rest it2"
    using Cons.IH [of it1] Cons.prems by auto
  then show ?case using 1 by auto
qed

end

lemma read_word_put:
  fixes v :: "'a::len word"
  assumes "8 * n = LENGTH('a)" "wf_iter it" "unread it = pad4 (le_bytes n v) @ rest"
  shows "\<exists>it'. read_pod n load_word it = Inr (Some v, it') \<and> moves it rest it'"
proof -
  have n: "0 < n" using assms(1) len_gt_0 [where ?'a = 'a] by (cases n) auto
  have "n \<le> length (unread it)" using assms(3) by (simp add: trans_le_add1)
  moreover have "take n (unread it) = le_bytes n v" "drop (round_up 4 n) (unread it) = rest"
    using assms(3) by (simp_all add: pad4_def)
  ultimately show ?thesis
    using read_pod_cases [OF assms(2) n, of "load_word :: byte list \<Rightarrow> 'a word res"] of_le_bytes_le_bytes_len [OF assms(1), of v]
    by (auto simp: load_word_def)
qed

interpretation int16: field_codec "\<lambda>v. pad4 (le_bytes 2 v)" "\<lambda>_. ()" "\<lambda>_. ReadInt16" "\<lambda>_. True"
  using read_word_put [where ?'a = 16 and n = 2]
  by unfold_locales (simp add: ReadInt16_def ReadBuiltinType_def)

interpretation int32: field_codec "\<lambda>v. pad4 (le_bytes 4 v)" "\<lambda>_. ()" "\<lambda>_. ReadInt32" "\<lambda>_. True"
  using read_word_put [where ?'a = 32 and n = 4]
  by unfold_locales (simp add: ReadInt32_def ReadBuiltinType_def)

interpretation int64: field_codec "\<lambda>v. pad4 (le_bytes 8 v)" "\<lambda>_. ()" "\<lambda>_. ReadInt64" "\<lambda>_. True"
  using read_word_put [where ?'a = 64 and n = 8]
  by unfold_locales (simp add: ReadInt64_def ReadBuiltinType_def)

definition put_string :: "byte list \<Rightarrow> byte list" where
  "put_string v = pad4 (le_bytes 4 (word_of_nat (length v) :: 32 word)) @ pad4 v"

lemma read_length_put:
  assumes "length v < 2 ^ 31" "wf_iter it" "unread it = put_string v @ rest"
  shows "\<exists>it1 it2 len m i. ReadInt32 it = Inr (Some len, it1) \<and> sint len = int (length v) \<and>
    read_ptr (int (length v)) it1 = Inr (Some (m, i), it2) \<and>
    mem_read m i (length v) = Inr v \<and> moves it rest it2"
proof -
  have "sint (word_of_nat (length v) :: 32 word) = int (length v)"
    using assms(1) by (simp add: signed_of_nat signed_take_bit_int_eq_self)
  moreover obtain it1 where 1: "ReadInt32 it = Inr (Some (word_of_nat (length v)), it1)"
      "moves it (pad4 v @ rest) it1"
    using int32.get_put [OF assms(2), of "word_of_nat (length v)" "pad4 v @ rest"] assms(3)
    by (auto simp: put_string_def)
  have l: "length v \<le> length (unread it1)" using 1(2) by (simp add: trans_le_add1)
  then obtain it2 where 2: "read_ptr (int (length v)) it1 = Inr (current_ptr it1, it2)"
      "moves it1 (drop (round_up 4 (length v)) (unread it1)) it2"
    using read_ptr_cases [of it1 "int (length v)"] assms(1) 1(2) by auto
  have "4 \<le> length (unread it)" using assms(3) by (simp add: put_string_def pad4_def)
  then have "it_payload it1 \<noteq> None" using 1(2) by (cases "it_payload it") (auto simp: unread_def)
  then obtain m i where q: "current_ptr it1 = Some (m, i)" by (auto simp: current_ptr_def)
  have "take (length v) (unread it1) = v" using 1(2) by (simp add: pad4_def)
  then have "mem_read m i (length v) = Inr v"
    using current_ptr_read [OF _ q l] 1(2) by simp
  moreover have "moves it rest it2" using 1(2) 2(2) by simp
  ultimately show ?thesis using 1(1) 2(1) q by metis
qed

lemma read_string_put:
  assumes "length v < 2 ^ 31" "wf_iter it" "unread it = put_string v @ rest"
  shows "\<exists>it'. ReadString it = Inr (Some v, it') \<and> moves it rest it'"
proof -
  obtain it1 it2 len m i where "ReadInt32 it = Inr (Some len, it1)" "sint len = int (length v)"
    "read_ptr (int (length v)) it1 = Inr (Some (m, i), it2)"
    "mem_read m i (length v) = Inr v" "moves it rest it2"
    using read_length_put [OF assms] by blast
  then show ?thesis by (simp add: ReadString_def)
qed

lemma read_data_put:
  assumes "length v < 2 ^ 31" "wf_iter it" "unread it = put_string v @ rest"
  shows "\<exists>it' m i len. ReadData it = Inr ((True, Some (m, i), len), it') \<and>
    sint len = int (length v) \<and> mem_read m i (length v) = Inr v \<and> moves it rest it'"
proof -
  obtain it1 it2 len m i where "ReadInt32 it = Inr (Some len, it1)" "sint len = int (length v)"
    "read_ptr (int (length v)) it1 = Inr (Some (m, i), it2)"
    "mem_read m i (length v) = Inr v" "moves it rest it2"
    using read_length_put [OF assms] by blast
  then show ?thesis by (simp add: ReadData_def ReadBytes_def)
qed

section \<open>Fields\<close>

text \<open>A field of any of the types the code can write, and the kind by which it is read back.\<close>

datatype field =
    FBool bool
  | FInt16 "16 word" | FInt32 "32 word" | FInt64 "64 word"
  | FUInt16 "16 word" | FUInt32 "32 word" | FUInt64 "64 word"
  | FFloat "32 word" | FDouble "64 word"
  | FString "byte list"
  | FData "byte list"

datatype field_kind =
    KBool | KInt16 | KInt32 | KInt64 | KUInt16 | KUInt32 | KUInt64 | KFloat | KDouble | KString | KData

primrec kind_of :: "field \<Rightarrow> field_kind" where
  "kind_of (FBool b) = KBool"
| "kind_of (FInt16 v) = KInt16"
| "kind_of (FInt32 v) = KInt32"
| "kind_of (FInt64 v) = KInt64"
| "kind_of (FUInt16 v) = KUInt16"
| "kind_of (FUInt32 v) = KUInt32"
| "kind_of (FUInt64 v) = KUInt64"
| "kind_of (FFloat v) = KFloat"
| "kind_of (FDouble v) = KDouble"
| "kind_of (FString v) = KString"
| "kind_of (FData v) = KData"

primrec field_ok :: "field \<Rightarrow> bool" where
  "field_ok (FBool b) = True"
| "field_ok (FInt16 v) = True"
| "field_ok (FInt32 v) = True"
| "field_ok (FInt64 v) = True"
| "field_ok (FUInt16 v) = True"
| "field_ok (FUInt32 v) = True"
| "field_ok (FUInt64 v) = True"
| "field_ok (FFloat v) = True"
| "field_ok (FDouble v) = True"
| "field_ok (FString v) = (length v < 2 ^ 31)"
| "field_ok (FData v) = (length v < 2 ^ 31)"

primrec write_field :: "heap \<Rightarrow> field \<Rightarrow> pickle \<Rightarrow> pickle res" where
  "write_field h (FBool b) p = WriteBool h b p"
| "write_field h (FInt16 v) p = WriteInt16 h v p"
| "write_field h (FInt32 v) p = WriteInt32 h v p"
| "write_field h (FInt64 v) p = WriteInt64 h v p"
| "write_field h (FUInt16 v) p = WriteUInt16 h v p"
| "write_field h (FUInt32 v) p = WriteUInt32 h v p"
| "write_field h (FUInt64 v) p = WriteUInt64 h v p"
| "write_field h (FFloat v) p = WriteFloat h v p"
| "write_field h (FDouble v) p = WriteDouble h v p"
| "write_field h (FString v) p = WriteString h v p"
| "write_field h (FData v) p = bind_res (WriteData h v (int (length v)) p) (\<lambda>(ok, p). Inr p)"

text \<open>\<open>ReadData\<close> hands out a pointer; the field is what it points to.\<close>

primrec read_field :: "field_kind \<Rightarrow> piter \<Rightarrow> (field option \<times> piter) res" where
  "read_field KBool it = bind_res (ReadBool it) (\<lambda>(r, it). Inr (map_option FBool r, it))"
| "read_field KInt16 it = bind_res (ReadInt16 it) (\<lambda>(r, it). Inr (map_option FInt16 r, it))"
| "read_field KInt32 it = bind_res (ReadInt32 it) (\<lambda>(r, it). Inr (map_option FInt32 r, it))"
| "read_field KInt64 it = bind_res (ReadInt64 it) (\<lambda>(r, it). Inr (map_option FInt64 r, it))"
| "read_field KUInt16 it = bind_res (ReadUInt16 it) (\<lambda>(r, it). Inr (map_option FUInt16 r, it))"
| "read_field KUInt32 it = bind_res (ReadUInt32 it) (\<lambda>(r, it). Inr (map_option FUInt32 r, it))"
| "read_field KUInt64 it = bind_res (ReadUInt64 it) (\<lambda>(r, it). Inr (map_option FUInt64 r, it))"
| "read_field KFloat it = bind_res (ReadFloat it) (\<lambda>(r, it). Inr (map_option FFloat r, it))"
| "read_field KDouble it = bind_res (ReadDouble it) (\<lambda>(r, it). Inr (map_option FDouble r, it))"
| "read_field KString it = bind_res (ReadString it) (\<lambda>(r, it). Inr (map_option FString r, it))"
| "read_field KData it = bind_res (ReadData it) (\<lambda>((ok, q, len), it). case q of
       None \<Rightarrow> Inr (None, it)
     | Some (m, i) \<Rightarrow> bind_res (mem_read m i (nat (sint len))) (\<lambda>bs. Inr (Some (FData bs), it)))"

primrec size_of_field :: "field \<Rightarrow> sizer \<Rightarrow> sizer res" where
  "size_of_field (FBool b) s = AddBool s"
| "size_of_field (FInt16 v) s = AddInt16 s"
| "size_of_field (FInt32 v) s = AddInt32 s"
| "size_of_field (FInt64 v) s = AddInt64 s"
| "size_of_field (FUInt16 v) s = AddUInt16 s"
| "size_of_field (FUInt32 v) s = AddUInt32 s"
| "size_of_field (FUInt64 v) s = AddUInt64 s"
| "size_of_field (FFloat v) s = AddFloat s"
| "size_of_field (FDouble v) s = AddDouble s"
| "size_of_field (FString v) s = AddString v s"
| "size_of_field (FData v) s = AddData (int (length v)) s"

primrec put_field :: "field \<Rightarrow> byte list" where
  "put_field (FBool b) = pad4 (le_bytes 4 (if b then 1 else 0 :: 32 word))"
| "put_field (FInt16 v) = pad4 (le_bytes 2 v)"
| "put_field (FInt32 v) = pad4 (le_bytes 4 v)"
| "put_field (FInt64 v) = pad4 (le_bytes 8 v)"
| "put_field (FUInt16 v) = pad4 (le_bytes 2 v)"
| "put_field (FUInt32 v) = pad4 (le_bytes 4 v)"
| "put_field (FUInt64 v) = pad4 (le_bytes 8 v)"
| "put_field (FFloat v) = pad4 (le_bytes 4 v)"
| "put_field (FDouble v) = pad4 (le_bytes 8 v)"
| "put_field (FString v) = put_string v"
| "put_field (FData v) = put_string v"

primrec write_fields :: "heap \<Rightarrow> field list \<Rightarrow> pickle \<Rightarrow> pickle res" where
  "write_fields h [] p = Inr p"
| "write_fields h (f # fs) p = bind_res (write_field h f p) (write_fields h fs)"

primrec read_fields :: "field_kind list \<Rightarrow> piter \<Rightarrow> (field option list \<times> piter) res" where
  "read_fields [] it = Inr ([], it)"
| "read_fields (k # ks) it =
     bind_res (read_field k it) (\<lambda>(v, it). bind_res (read_fields ks it) (\<lambda>(vs, it). Inr (v # vs, it)))"

primrec size_of_fields :: "field list \<Rightarrow> sizer \<Rightarrow> sizer res" where
  "size_of_fields [] s = Inr s"
| "size_of_fields (f # fs) s = bind_res (size_of_field f s) (size_of_fields fs)"

definition put_fields :: "field list \<Rightarrow> byte list" where
  "put_fields fs = concat (map put_field fs)"

lemma WriteString_grows:
  assumes "wf_pickle p" "length v < 2 ^ 31"
  shows "grows h p (put_string v) (WriteString h v p)"
proof -
  have "to_int32 (int (length v)) = int (length v)"
    using assms(2) by (intro to_int32_in) (simp add: in_range_def int32_min_def int32_max_def)
  then show ?thesis
    using assms WriteInt32_grows [of p h "word_of_nat (length v)"]
    by (auto simp: WriteString_def put_string_def pad4_id intro!: grows_bind WriteBytes_grows)
qed

lemma WriteData_grows:
  assumes "wf_pickle p" "length v < 2 ^ 31"
  shows "grows h p (put_string v) (bind_res (WriteData h v (int (length v)) p) (\<lambda>(ok, p). Inr p))"
proof -
  have "bind_res (WriteData h v (int (length v)) p) (\<lambda>(ok, p). Inr p) =
      bind_res (WriteInt32 h (word_of_nat (length v)) p) (WriteBytes h v (int (length v)))"
    by (simp add: WriteData_def bind_res_assoc)
       (cases "WriteInt32 h (word_of_nat (length v)) p"; simp add: bind_res_def split: sum.split)
  then show ?thesis
    using assms WriteInt32_grows [of p h "word_of_nat (length v)"]
    by (auto simp: put_string_def pad4_id intro!: grows_bind WriteBytes_grows)
qed

lemma write_field_grows:
  assumes "wf_pickle p" "field_ok f"
  shows "grows h p (put_field f) (write_field h f p)"
  using assms WritePOD_grows [of p h, where ?'a = 16] WritePOD_grows [of p h, where ?'a = 32]
    WritePOD_grows [of p h, where ?'a = 64] WriteString_grows [of p _ h] WriteData_grows [of p _ h]
    WriteInt32_grows [of p h]
  by (cases f) (simp_all add: WriteBool_def WriteInt16_def WriteInt32_def WriteInt64_def WriteUInt16_def
      WriteUInt32_def WriteUInt64_def WriteFloat_def WriteDouble_def pad4_id)

lemma write_fields_grows:
  assumes "wf_pickle p" "list_all field_ok fs"
  shows "grows h p (put_fields fs) (write_fields h fs p)"
  using assms
proof (induction fs arbitrary: p)
  case Nil
  then show ?case by (simp add: put_fields_def grows_def)
next
  case (Cons f fs)
  then show ?case
    using write_field_grows [of p f h] grows_bind [of h p "put_field f" "write_field h f p" "put_fields fs"]
    by (simp add: put_fields_def)
qed

lemma read_bool_put:
  assumes "wf_iter it" "unread it = pad4 (le_bytes 4 (if b then 1 else 0 :: 32 word)) @ rest"
  shows "\<exists>it'. ReadBool it = Inr (Some b, it') \<and> moves it rest it'"
proof -
  have r: "round_up 4 1 = 4" by (simp add: round_up_def)
  have p: "pad4 (le_bytes 4 w) = le_bytes 4 (w :: 32 word)" for w by (simp add: pad4_id)
  have t: "take 1 (le_bytes 4 w) = [ucast w]" for w :: "32 word"
    using le_bytes.simps(2) [of 3 w] by simp
  have "1 \<le> length (unread it)" using assms(2) by (simp add: p)
  moreover have "take 1 (unread it) = [if b then 1 else 0]"
    using assms(2) t by (simp add: p)
  moreover have "drop 4 (unread it) = rest" using assms(2) by (simp add: p)
  ultimately show ?thesis
    using read_pod_cases [OF assms(1), of 1 load_bool] r by (auto simp: ReadBool_def load_bool_def)
qed

interpretation fields: field_codec put_field kind_of read_field field_ok
proof
  fix it v rest
  assume wf: "wf_iter it" and ok: "field_ok v" and u: "unread it = put_field v @ rest"
  note w = read_word_put [where ?'a = 16 and n = 2, OF _ wf] read_word_put [where ?'a = 32 and n = 4, OF _ wf]
    read_word_put [where ?'a = 64 and n = 8, OF _ wf]
  note defs = ReadInt16_def ReadInt32_def ReadInt64_def ReadUInt16_def ReadUInt32_def ReadUInt64_def
    ReadFloat_def ReadDouble_def ReadBuiltinType_def
  show "\<exists>it'. read_field (kind_of v) it = Inr (Some v, it') \<and> moves it rest it'"
  proof (cases v)
    case (FBool b)
    then show ?thesis using read_bool_put [OF wf] u by force
  next
    case (FString s)
    then show ?thesis using read_string_put [OF _ wf] ok u by force
  next
    case (FData s)
    then obtain it' m i len where "ReadData it = Inr ((True, Some (m, i), len), it')"
      "sint len = int (length s)" "mem_read m i (length s) = Inr s" "moves it rest it'"
      using read_data_put [OF _ wf] ok u by (metis field_ok.simps(11) put_field.simps(11))
    then show ?thesis using FData by simp
  qed (use w u in \<open>force simp: defs\<close>)+
qed

lemma read_fields_get_all: "read_fields ks it = fields.get_all ks it"
  by (induction ks arbitrary: it) simp_all

section \<open>Iterators over a pickle and over its bytes\<close>

definition stream_bytes :: "pickle \<Rightarrow> byte list" where
  "stream_bytes p = (case header p of None \<Rightarrow> [] | Some m \<Rightarrow> take (header_size p + write_offset p) m)"

lemma stream_bytes_parts:
  assumes "wf_pickle p"
  obtains ext where "stream_bytes p = header_field (write_offset p) @ ext @ payload_bytes p"
    "length ext = header_size p - 4"
proof -
  obtain ext junk where
    "header p = Some (header_field (write_offset p) @ ext @ payload_bytes p @ junk)"
    "length ext = header_size p - 4" "length (payload_bytes p) = write_offset p"
    using assms by (rule wf_pickleE)
  moreover have "4 \<le> header_size p" using assms by (auto simp: wf_pickle_def split: option.splits)
  ultimately show ?thesis using that [of ext] by (simp add: stream_bytes_def)
qed

lemma wf_sizes:
  "wf_pickle p \<Longrightarrow> 4 \<le> header_size p \<and> header_size p \<le> 64 \<and> 4 dvd header_size p \<and>
     write_offset p < 2 ^ 32 \<and> 4 dvd write_offset p \<and> capacity_after_header p \<noteq> kCapacityReadOnly"
  by (auto simp: wf_pickle_def kCapacityReadOnly_def split: option.splits)

lemma load_payload_size_wf: "wf_pickle p \<Longrightarrow> load_payload_size p = Inr (write_offset p)"
proof -
  assume wf: "wf_pickle p"
  then obtain m where m: "header p = Some m" "take 4 m = header_field (write_offset p)" "4 \<le> length m"
    by (auto simp: wf_pickle_def split: option.splits)
  then show ?thesis using wf_sizes [OF wf]
    by (simp add: load_payload_size_def header_block_def header_bytes_def)
qed

lemma iterator_of_wf:
  assumes "wf_pickle p"
  shows "\<exists>it. PickleIterator_of p = Inr it \<and> wf_iter it \<and> unread it = payload_bytes p"
proof -
  obtain m where m: "header p = Some m" "length m = header_size p + capacity_after_header p"
      "write_offset p \<le> capacity_after_header p"
    using assms by (auto simp: wf_pickle_def split: option.splits)
  then show ?thesis
    using load_payload_size_wf [OF assms] wf_sizes [OF assms]
    by (simp add: PickleIterator_of_def payload_size_def payload_def wf_iter_def unread_def payload_bytes_def)
qed

text \<open>The read-only constructor on any bytes: it refuses what is not a pickle.\<close>

lemma Pickle_view_cases:
  assumes "length data < 2 ^ 31"
  shows "\<exists>p. Pickle_view data (int (length data)) = Inr p \<and>
    (if 4 \<le> length data \<and> unat (of_le_bytes (take 4 data) :: 32 word) < length data \<and>
        4 dvd (length data - unat (of_le_bytes (take 4 data) :: 32 word))
     then p = \<lparr>header = Some data, header_size = length data - unat (of_le_bytes (take 4 data) :: 32 word),
               capacity_after_header = kCapacityReadOnly, write_offset = 0\<rparr>
     else header p = None \<and> header_size p = 0)"
proof -
  define n where "n = unat (of_le_bytes (take 4 data) :: 32 word)"
  let ?l = "length data"
  let ?p = "\<lparr>header = Some data, header_size = 0, capacity_after_header = kCapacityReadOnly, write_offset = 0\<rparr>"
  let ?hs0 = "if 4 \<le> ?l then nat ((int ?l - int n) mod 2 ^ 32) else 0"
  have n: "n < 2 ^ 32" using unsigned_less [of "of_le_bytes (take 4 data) :: 32 word"] by (simp add: n_def)
  have load: "4 \<le> ?l \<Longrightarrow> load_payload_size ?p = Inr n"
    by (simp add: load_payload_size_def header_block_def header_bytes_def n_def)
  have lm: "int ?l mod 2 ^ 32 = int ?l" using assms by simp
  define hs1 where "hs1 = (if int ?hs0 > int ?l then 0 else ?hs0)"
  have hs1: "hs1 = (if 4 \<le> ?l \<and> n \<le> ?l then ?l - n else 0)"
  proof (cases "n \<le> ?l")
    case True
    then have 1: "int ?l - int n = int (?l - n)" by simp
    have 2: "int (?l - n) mod 2 ^ 32 = int (?l - n)"
      using assms by (intro mod_pos_pos_trivial) simp_all
    have e: "nat ((int ?l - int n) mod 2 ^ 32) = ?l - n" by (simp only: 1 2 nat_int)
    show ?thesis unfolding hs1_def e using True by simp
  next
    case False
    then have "int ?l - int n + 2 ^ 32 = (int ?l - int n) mod 2 ^ 32"
      using n by (subst mod_add_self2 [symmetric], intro mod_pos_pos_trivial [symmetric]) auto
    moreover have "int n < 2 ^ 32" using n by simp
    ultimately have "(int ?l - int n) mod 2 ^ 32 > int ?l" by linarith
    then show ?thesis using False by (auto simp: hs1_def)
  qed
  have "hs1 + 4 \<le> 2 ^ 64" using assms by (auto simp: hs1)
  then have al: "Align hs1 4 = Inr (round_up 4 hs1)" by simp
  have eq: "hs1 = round_up 4 hs1 \<longleftrightarrow> 4 dvd hs1"
    using round_up_dvd [of 4 hs1] round_up_dvd_id [of 4 hs1] by (metis zero_less_numeral)
  have "Pickle_view data (int ?l) = bind_res (Inr ?hs0) (\<lambda>hs.
         let hs = (if int hs > int ?l then 0 else hs)
         in bind_res (Align hs 4) (\<lambda>a.
            let hs = (if hs \<noteq> a then 0 else hs)
            in Inr (?p\<lparr>header_size := hs, header := (if hs = 0 then None else Some data)\<rparr>)))"
    unfolding Pickle_view_def Let_def lm using load by (simp add: header_bytes_def)
  also have "\<dots> = (let hs = (if 4 dvd hs1 then hs1 else 0) in
      Inr (?p\<lparr>header_size := hs, header := (if hs = 0 then None else Some data)\<rparr>))"
    unfolding bind_res_simps hs1_def [symmetric] Let_def al eq by simp
  finally show ?thesis by (auto simp: hs1 n_def [symmetric])
qed

lemma stream_view:
  assumes "wf_pickle p" "length (stream_bytes p) < 2 ^ 31"
  shows "\<exists>q it. Pickle_view (stream_bytes p) (int (length (stream_bytes p))) = Inr q \<and>
    PickleIterator_of q = Inr it \<and> wf_iter it \<and> unread it = payload_bytes p"
proof -
  obtain ext where e: "stream_bytes p = header_field (write_offset p) @ ext @ payload_bytes p"
    "length ext = header_size p - 4" using assms(1) by (rule stream_bytes_parts)
  note sz = wf_sizes [OF assms(1)] wf_payload_length [OF assms(1)]
  have l: "length (stream_bytes p) = header_size p + write_offset p" using e sz by simp
  have n: "unat (of_le_bytes (take 4 (stream_bytes p)) :: 32 word) = write_offset p" using e sz by simp
  let ?q = "\<lparr>header = Some (stream_bytes p), header_size = header_size p,
      capacity_after_header = kCapacityReadOnly, write_offset = 0\<rparr>"
  have "Pickle_view (stream_bytes p) (int (length (stream_bytes p))) = Inr ?q"
    using Pickle_view_cases [OF assms(2)] sz unfolding n l by auto
  moreover have "PickleIterator_of ?q = Inr \<lparr>it_payload = Some (stream_bytes p, header_size p),
      read_index = 0, end_index = write_offset p\<rparr>"
    using n l sz by (simp add: PickleIterator_of_def payload_size_def load_payload_size_def header_block_def
        header_bytes_def payload_def)
  moreover have "drop (header_size p) (stream_bytes p) = payload_bytes p" using e sz by simp
  ultimately show ?thesis using l sz by (simp add: wf_iter_def unread_def)
qed

lemma read_back:
  assumes "list_all field_ok fs" "wf_iter it" "unread it = put_fields fs"
  shows "\<exists>it'. read_fields (map kind_of fs) it = Inr (map Some fs, it') \<and> read_index it' = end_index it'"
proof -
  obtain it' where r: "read_fields (map kind_of fs) it = Inr (map Some fs, it')" "moves it [] it'"
    using fields.get_all_put [OF assms(1,2), of "[]"] assms(3)
    by (auto simp: put_fields_def read_fields_get_all)
  then have "read_index it' = end_index it'"
    using length_unread [of it'] by (auto simp: wf_iter_def)
  then show ?thesis using r by blast
qed

text \<open>
  C2: on a heap of 32 GiB and for fields that take less than 2 GiB, writing any sequence of fields
  to a new pickle succeeds, and an iterator over the pickle, or over a read-only pickle made of its
  bytes, reads the same values back and ends at the end of the payload.
\<close>

theorem pickle_roundtrip:
  assumes "list_all field_ok fs" "length (put_fields fs) < 2 ^ 31 - 4" "2 ^ 35 \<le> heap_limit h"
  shows "\<exists>p q it jt it' jt'. bind_res (Pickle_default h) (write_fields h fs) = Inr p \<and>
    PickleIterator_of p = Inr it \<and>
    read_fields (map kind_of fs) it = Inr (map Some fs, it') \<and> read_index it' = end_index it' \<and>
    Pickle_view (stream_bytes p) (int (length (stream_bytes p))) = Inr q \<and>
    PickleIterator_of q = Inr jt \<and>
    read_fields (map kind_of fs) jt = Inr (map Some fs, jt') \<and> read_index jt' = end_index jt'"
proof -
  obtain p0 where p0: "Pickle_default h = Inr p0" "wf_pickle p0" "payload_bytes p0 = []" "header_size p0 = 4"
    using Pickle_default_ok [of h] assms(3) by auto
  obtain p where p: "write_fields h fs p0 = Inr p" "wf_pickle p" "payload_bytes p = put_fields fs" "header_size p = 4"
    using write_fields_grows [OF p0(2) assms(1), of h] assms(2,3) p0(3,4)
    by (auto simp: grows_def split: sum.splits)
  obtain ext where "stream_bytes p = header_field (write_offset p) @ ext @ payload_bytes p"
    "length ext = header_size p - 4" using p(2) by (rule stream_bytes_parts)
  then have "length (stream_bytes p) < 2 ^ 31" using p(3,4) assms(2) by simp
  then obtain q jt where q: "Pickle_view (stream_bytes p) (int (length (stream_bytes p))) = Inr q"
    "PickleIterator_of q = Inr jt" "wf_iter jt" "unread jt = put_fields fs"
    using stream_view [OF p(2)] p(3) by auto
  obtain it where it: "PickleIterator_of p = Inr it" "wf_iter it" "unread it = put_fields fs"
    using iterator_of_wf [OF p(2)] p(3) by auto
  show ?thesis
    using p0(1) p(1) q it read_back [OF assms(1) it(2,3)] read_back [OF assms(1) q(3,4)] by auto
qed

theorem pickle_roundtrip_witness:
  "\<exists>p q it jt it' jt'.
    bind_res (Pickle_default \<lparr>heap_limit = 2 ^ 35, heap_fill = (\<lambda>_. 7)\<rparr>)
      (write_fields \<lparr>heap_limit = 2 ^ 35, heap_fill = (\<lambda>_. 7)\<rparr> [FBool True, FString [65, 66, 67], FInt16 9]) = Inr p \<and>
    PickleIterator_of p = Inr it \<and>
    read_fields [KBool, KString, KInt16] it = Inr ([Some (FBool True), Some (FString [65, 66, 67]), Some (FInt16 9)], it') \<and>
    read_index it' = end_index it' \<and>
    Pickle_view (stream_bytes p) (int (length (stream_bytes p))) = Inr q \<and>
    PickleIterator_of q = Inr jt \<and>
    read_fields [KBool, KString, KInt16] jt = Inr ([Some (FBool True), Some (FString [65, 66, 67]), Some (FInt16 9)], jt') \<and>
    read_index jt' = end_index jt'"
proof -
  have "length (put_fields [FBool True, FString [65, 66, 67], FInt16 9]) < 2 ^ 31 - 4"
    by (simp add: put_fields_def put_string_def round_up_def)
  then show ?thesis
    using pickle_roundtrip [of "[FBool True, FString [65, 66, 67], FInt16 9]"
        "\<lparr>heap_limit = 2 ^ 35, heap_fill = (\<lambda>_. 7)\<rparr>"] by simp
qed

section \<open>Copies, reservations and the sizes foretold\<close>

text \<open>A fresh block of the right capacity into which another pickle's bytes are copied.\<close>

lemma copy_into:
  assumes "wf_pickle other" "q = \<lparr>header = Some m, header_size = header_size other,
      capacity_after_header = cap, write_offset = w\<rparr>"
    "length m = header_size other + cap" "write_offset other \<le> cap" "cap \<le> 2 ^ 34"
  shows "\<exists>p. copy_block other (sz_add (header_size other) (write_offset other)) q = Inr p \<and>
    wf_pickle (p\<lparr>write_offset := write_offset other\<rparr>) \<and>
    payload_bytes (p\<lparr>write_offset := write_offset other\<rparr>) = payload_bytes other \<and>
    header_size p = header_size other \<and> write_offset p = w"
proof -
  let ?hs = "header_size other" and ?wo = "write_offset other"
  obtain ext junk where h: "header other = Some (header_field ?wo @ ext @ payload_bytes other @ junk)"
    "length ext = ?hs - 4" "length (payload_bytes other) = ?wo" using assms(1) by (rule wf_pickleE)
  note sz = wf_sizes [OF assms(1)]
  have n: "sz_add ?hs ?wo = ?hs + ?wo" using sz by (intro sz_add_exact) simp
  let ?bs = "header_field ?wo @ ext @ payload_bytes other"
  have bs: "length ?bs = ?hs + ?wo" using h sz by simp
  then have r: "mem_read (header_field ?wo @ ext @ payload_bytes other @ junk) 0 (?hs + ?wo) = Inr ?bs"
    by (simp add: mem_read_def)
  have w: "mem_write m 0 ?bs = Inr (?bs @ drop (?hs + ?wo) m)"
    using bs assms(3,4) by (simp add: splice_at_0)
  define p where "p = q\<lparr>header := Some (?bs @ drop (?hs + ?wo) m)\<rparr>"
  have "copy_block other (sz_add ?hs ?wo) q = Inr p"
    unfolding copy_block_def n using h(1) r w assms(2) by (simp add: header_block_def p_def)
  moreover have "p\<lparr>write_offset := ?wo\<rparr> =
      \<lparr>header = Some (header_field ?wo @ ext @ payload_bytes other @ drop (?hs + ?wo) m), header_size = ?hs,
       capacity_after_header = cap, write_offset = ?wo\<rparr>"
    by (simp add: p_def assms(2))
  from wf_pickleI [OF this] have "wf_pickle (p\<lparr>write_offset := ?wo\<rparr>) \<and>
      payload_bytes (p\<lparr>write_offset := ?wo\<rparr>) = payload_bytes other"
    using h(2,3) sz assms(3-5) by simp
  ultimately show ?thesis using assms(2) by (simp add: p_def)
qed

lemma Resize_length:
  assumes "Resize h c p = Inr q" "header_size p \<le> 64" "c \<le> 2 ^ 33"
  shows "\<exists>m. header q = Some m \<and> length m = header_size p + round_up 64 c \<and>
    q = \<lparr>header = Some m, header_size = header_size p, capacity_after_header = round_up 64 c,
         write_offset = write_offset p\<rparr>"
proof -
  have r: "round_up 64 c < c + 64" by (simp add: round_up_lt)
  then have g: "GetTotalAllocatedSize (p\<lparr>capacity_after_header := round_up 64 c\<rparr>) = header_size p + round_up 64 c"
    using assms(2,3) by (simp add: GetTotalAllocatedSize_def kCapacityReadOnly_def sz_add_exact)
  have "c + 64 \<le> 2 ^ 64" using assms(3) by simp
  then obtain m where "c_realloc h (header p) (header_size p + round_up 64 c) = Some m"
    "q = p\<lparr>capacity_after_header := round_up 64 c, header := Some m\<rparr>"
    using assms(1) g by (auto simp: Resize_def kPayloadUnit_def Let_def bind_res_check split: if_splits option.splits)
  then show ?thesis using length_c_realloc by (intro exI [of _ m]) simp
qed

lemma Resize_result:
  assumes "header_size p \<le> 64" "c \<le> 2 ^ 33" "capacity_after_header p \<noteq> kCapacityReadOnly"
  shows "Resize h c p = Inl CheckFailed \<and> heap_limit h < 2 ^ 35 \<or> (\<exists>q. Resize h c p = Inr q)"
proof -
  have r: "round_up 64 c < c + 64" by (simp add: round_up_lt)
  then have g: "GetTotalAllocatedSize (p\<lparr>capacity_after_header := round_up 64 c\<rparr>) = header_size p + round_up 64 c"
    using assms(1,2) by (simp add: GetTotalAllocatedSize_def kCapacityReadOnly_def sz_add_exact)
  have "header_size p + round_up 64 c < 2 ^ 35" "c + 64 \<le> 2 ^ 64" using assms(1,2) r by simp_all
  then show ?thesis using assms(3) g
    by (auto simp: Resize_def kPayloadUnit_def Let_def c_realloc_def)
qed

lemma Pickle_copy_ok:
  assumes "wf_pickle other"
  shows "Pickle_copy h other = Inl CheckFailed \<and> heap_limit h < 2 ^ 35 \<or>
    (\<exists>p. Pickle_copy h other = Inr p \<and> wf_pickle p \<and> payload_bytes p = payload_bytes other \<and>
         header_size p = header_size other)"
proof -
  note sz = wf_sizes [OF assms] and ld = load_payload_size_wf [OF assms]
  let ?p0 = "null_pickle (header_size other) (write_offset other)"
  have wo: "write_offset other \<le> 2 ^ 33" using sz by simp
  have hs0: "header_size ?p0 = header_size other" "write_offset ?p0 = write_offset other"
    "capacity_after_header ?p0 \<noteq> kCapacityReadOnly" by (simp_all add: null_pickle_def kCapacityReadOnly_def)
  consider "Resize h (write_offset other) ?p0 = Inl CheckFailed" "heap_limit h < 2 ^ 35"
    | q where "Resize h (write_offset other) ?p0 = Inr q"
    using Resize_result [of ?p0 "write_offset other" h] sz wo hs0 by auto
  then show ?thesis
  proof cases
    case 1
    then show ?thesis by (simp add: Pickle_copy_def ld)
  next
    case (2 q)
    let ?cap = "round_up 64 (write_offset other)"
    obtain m where m: "header q = Some m" "length m = header_size other + ?cap"
      "q = \<lparr>header = Some m, header_size = header_size other, capacity_after_header = ?cap,
           write_offset = write_offset other\<rparr>"
      using Resize_length [OF 2] sz wo hs0 by auto
    have "write_offset other \<le> ?cap" "?cap \<le> 2 ^ 34"
      using round_up_ge [of 64 "write_offset other"] round_up_lt [of 64 "write_offset other"] sz by auto
    then obtain p where p: "copy_block other (sz_add (header_size other) (write_offset other)) q = Inr p"
      "wf_pickle (p\<lparr>write_offset := write_offset other\<rparr>)"
      "payload_bytes (p\<lparr>write_offset := write_offset other\<rparr>) = payload_bytes other"
      "header_size p = header_size other" "write_offset p = write_offset other"
      using copy_into [OF assms m(3,2)] by auto
    have pe: "p\<lparr>write_offset := write_offset other\<rparr> = p" using p(5) by simp
    have "header_size q = header_size other" using m(3) by simp
    then show ?thesis using p(1,4) p(2,3) [unfolded pe] 2 by (simp add: Pickle_copy_def ld)
  qed
qed

lemma Pickle_assign_ok:
  assumes "wf_pickle other" "wf_pickle self \<or> capacity_after_header self = kCapacityReadOnly"
  shows "Pickle_assign h False self other = Inl CheckFailed \<and> heap_limit h < 2 ^ 35 \<or>
    (\<exists>p. Pickle_assign h False self other = Inr p \<and> wf_pickle p \<and> payload_bytes p = payload_bytes other \<and>
         header_size p = header_size other)"
proof -
  note sz = wf_sizes [OF assms(1)] and ld = load_payload_size_wf [OF assms(1)]
  let ?s1 = "if capacity_after_header self = kCapacityReadOnly
             then self\<lparr>header := None, capacity_after_header := 0\<rparr> else self"
  define s2 where "s2 = (if header_size ?s1 \<noteq> header_size other
                 then ?s1\<lparr>header := None, header_size := header_size other\<rparr> else ?s1)"
  have A: "Pickle_assign h False self other = bind_res (Resize h (write_offset other) s2) (\<lambda>p.
           bind_res (copy_block other (sz_add (header_size other) (write_offset other)) p) (\<lambda>p.
             Inr (p\<lparr>write_offset := write_offset other\<rparr>)))"
    by (simp only: Pickle_assign_def if_False Let_def ld bind_res_simps s2_def)
  have wo: "write_offset other \<le> 2 ^ 33" using sz by simp
  have s2: "header_size s2 = header_size other" "capacity_after_header s2 \<noteq> kCapacityReadOnly"
    using assms(2) by (auto simp: s2_def kCapacityReadOnly_def)
  consider "Resize h (write_offset other) s2 = Inl CheckFailed" "heap_limit h < 2 ^ 35"
    | q where "Resize h (write_offset other) s2 = Inr q"
    using Resize_result [of s2 "write_offset other" h] sz wo s2 by auto
  then show ?thesis
  proof cases
    case 1
    then show ?thesis by (simp add: A)
  next
    case (2 q)
    let ?cap = "round_up 64 (write_offset other)"
    obtain m where m: "length m = header_size other + ?cap"
      "q = \<lparr>header = Some m, header_size = header_size other, capacity_after_header = ?cap,
           write_offset = write_offset s2\<rparr>"
      using Resize_length [OF 2] sz wo s2 by auto
    have "write_offset other \<le> ?cap" "?cap \<le> 2 ^ 34"
      using round_up_ge [of 64 "write_offset other"] round_up_lt [of 64 "write_offset other"] sz by auto
    then obtain p where "copy_block other (sz_add (header_size other) (write_offset other)) q = Inr p"
      "wf_pickle (p\<lparr>write_offset := write_offset other\<rparr>)"
      "payload_bytes (p\<lparr>write_offset := write_offset other\<rparr>) = payload_bytes other"
      "header_size p = header_size other"
      using copy_into [OF assms(1) m(2,1)] by auto
    then show ?thesis using 2 by (simp add: A)
  qed
qed

lemma Reserve_ok:
  assumes "wf_pickle p" "len < 2 ^ 64"
  shows "Reserve h len p = Inl CheckFailed \<and> (2 ^ 32 \<le> write_offset p + round_up 4 len \<or> heap_limit h < 2 ^ 35) \<or>
    (\<exists>q. Reserve h len p = Inr q \<and> wf_pickle q \<and> payload_bytes q = payload_bytes p \<and>
         header_size q = header_size p \<and> write_offset p + round_up 4 len \<le> capacity_after_header q)"
proof (cases "write_offset p + round_up 4 len < 2 ^ 32")
  case False
  then show ?thesis
    using checked_length_cases [OF assms(2), of p] wf_sizes [OF assms(1)] by (simp add: Reserve_def)
next
  case True
  let ?n = "write_offset p + round_up 4 len" and ?cap = "capacity_after_header p"
  have "len < 2 ^ 32" using True round_up_4_ge [of len] by linarith
  then have R: "Reserve h len p = (if ?n > ?cap then Resize h (sz_add (sz_mul ?cap 2) ?n) p else Inr p)"
    using checked_length_cases [OF assms(2), of p] wf_sizes [OF assms(1)] True
    by (simp add: Reserve_def sz_add_exact)
  show ?thesis
  proof (cases "?n > ?cap")
    case False
    then show ?thesis using R assms(1) by simp
  next
    case grow: True
    let ?c = "?cap * 2 + ?n"
    have c: "sz_add (sz_mul ?cap 2) ?n = ?c" using grow True by (simp add: sz_add_def sz_mul_def)
    obtain m where m: "header p = Some m" "length m = header_size p + ?cap" "header_size p \<le> 64"
      using assms(1) by (auto simp: wf_pickle_def split: option.splits)
    obtain ext junk where h: "header p = Some (header_field (write_offset p) @ ext @ payload_bytes p @ junk)"
      "length ext = header_size p - 4" "length (payload_bytes p) = write_offset p" 
      "length junk = ?cap - write_offset p" using assms(1) by (rule wf_pickleE)
    have rb: "?c \<le> round_up 64 ?c" "round_up 64 ?c < ?c + 64" by (simp_all add: round_up_ge round_up_lt)
    have "?c \<le> 2 ^ 34 - 64" using grow True by simp
    note RG = Resize_grow [OF m(1-3) _ this, of h]
    show ?thesis
    proof (cases "header_size p + round_up 64 ?c \<le> heap_limit h")
      case False
      moreover have "?n < 4294967296" using True by simp
      ultimately have "heap_limit h < 34359738368" using rb m(3) grow by linarith
      then have "heap_limit h < 2 ^ 35" by simp
      then show ?thesis using False R RG grow by (simp add: c)
    next
      case fits: True
      define junk' where "junk' = junk @ map (heap_fill h) [length m..<header_size p + round_up 64 ?c]"
      define q where "q = \<lparr>header = Some (header_field (write_offset p) @ ext @ payload_bytes p @ junk'),
        header_size = header_size p, capacity_after_header = round_up 64 ?c, write_offset = write_offset p\<rparr>"
      have "Reserve h len p = Inr q"
        using fits R RG grow m(1) h(1) by (simp add: c q_def junk'_def)
      moreover have "write_offset p \<le> ?cap" using assms(1) by (auto simp: wf_pickle_def split: option.splits)
      then have "length junk' = round_up 64 ?c - write_offset p"
        using m(2) h(4) rb by (simp add: junk'_def)
      then have "wf_pickle q \<and> payload_bytes q = payload_bytes p"
        using wf_sizes [OF assms(1)] h(2,3) rb grow True
        by (intro wf_pickleI [OF q_def]) simp_all
      ultimately show ?thesis using rb by (simp add: q_def)
    qed
  qed
qed

text \<open>
  C17: from a well-formed pickle every operation that changes one (writing a field, reserving room,
  copying, assigning over another pickle or a read-only one) either trips a \<open>CHECK\<close>, for want of heap
  or because the payload would pass 4 GiB, or gives a well-formed pickle with the expected payload; it
  never writes outside its block.
\<close>

theorem pickle_operations_preserve:
  assumes "wf_pickle p" "wf_pickle other" "field_ok f" "len < 2 ^ 64"
  shows "(case write_field h f p of
            Inl e \<Rightarrow> e = CheckFailed \<and> (2 ^ 32 \<le> length (payload_bytes p) + length (put_field f) \<or> heap_limit h < 2 ^ 35)
          | Inr q \<Rightarrow> wf_pickle q \<and> payload_bytes q = payload_bytes p @ put_field f) \<and>
    (case Reserve h len p of
            Inl e \<Rightarrow> e = CheckFailed \<and> (2 ^ 32 \<le> length (payload_bytes p) + round_up 4 len \<or> heap_limit h < 2 ^ 35)
          | Inr q \<Rightarrow> wf_pickle q \<and> payload_bytes q = payload_bytes p \<and>
                     write_offset p + round_up 4 len \<le> capacity_after_header q) \<and>
    (case Pickle_copy h other of
            Inl e \<Rightarrow> e = CheckFailed \<and> heap_limit h < 2 ^ 35
          | Inr q \<Rightarrow> wf_pickle q \<and> payload_bytes q = payload_bytes other) \<and>
    (case Pickle_assign h False p other of
            Inl e \<Rightarrow> e = CheckFailed \<and> heap_limit h < 2 ^ 35
          | Inr q \<Rightarrow> wf_pickle q \<and> payload_bytes q = payload_bytes other)"
proof (intro conjI)
  show "case write_field h f p of
            Inl e \<Rightarrow> e = CheckFailed \<and> (2 ^ 32 \<le> length (payload_bytes p) + length (put_field f) \<or> heap_limit h < 2 ^ 35)
          | Inr q \<Rightarrow> wf_pickle q \<and> payload_bytes q = payload_bytes p @ put_field f"
    using write_field_grows [OF assms(1,3), of h] by (simp add: grows_def split: sum.splits)
  show "case Reserve h len p of
            Inl e \<Rightarrow> e = CheckFailed \<and> (2 ^ 32 \<le> length (payload_bytes p) + round_up 4 len \<or> heap_limit h < 2 ^ 35)
          | Inr q \<Rightarrow> wf_pickle q \<and> payload_bytes q = payload_bytes p \<and>
                     write_offset p + round_up 4 len \<le> capacity_after_header q"
    using Reserve_ok [OF assms(1,4), of h] wf_payload_length [OF assms(1)] by auto
  show "case Pickle_copy h other of
            Inl e \<Rightarrow> e = CheckFailed \<and> heap_limit h < 2 ^ 35
          | Inr q \<Rightarrow> wf_pickle q \<and> payload_bytes q = payload_bytes other"
    using Pickle_copy_ok [OF assms(2), of h] by auto
  show "case Pickle_assign h False p other of
            Inl e \<Rightarrow> e = CheckFailed \<and> heap_limit h < 2 ^ 35
          | Inr q \<Rightarrow> wf_pickle q \<and> payload_bytes q = payload_bytes other"
    using Pickle_assign_ok [OF assms(2) disjI1 [OF assms(1)], of h] by auto
qed

theorem pickle_operations_preserve_witness:
  "\<exists>p q. Pickle_default \<lparr>heap_limit = 128, heap_fill = (\<lambda>_. 0)\<rparr> = Inr p \<and> wf_pickle p \<and>
     write_field \<lparr>heap_limit = 2 ^ 35, heap_fill = (\<lambda>_. 0)\<rparr> (FInt32 5) p = Inr q \<and> wf_pickle q \<and>
     payload_bytes q = [5, 0, 0, 0]"
proof -
  obtain p where p: "Pickle_default \<lparr>heap_limit = 128, heap_fill = (\<lambda>_. 0)\<rparr> = Inr p" "wf_pickle p"
    "payload_bytes p = []" using Pickle_default_ok [of "\<lparr>heap_limit = 128, heap_fill = (\<lambda>_. 0)\<rparr>"] by auto
  have f: "put_field (FInt32 5) = [5, 0, 0, 0]" by code_simp
  let ?h = "\<lparr>heap_limit = 2 ^ 35, heap_fill = (\<lambda>_. 0 :: byte)\<rparr>"
  note w = conjunct1 [OF pickle_operations_preserve [OF p(2) p(2), of "FInt32 5" 0 ?h]]
  show ?thesis
  proof (cases "write_field ?h (FInt32 5) p")
    case (Inl e)
    then show ?thesis using w f p(3) by (simp add: round_up_def)
  next
    case (Inr q)
    then show ?thesis using w f p by simp
  qed
qed

text \<open>Reading bytes of any origin.\<close>

lemma read_word_safe:
  assumes "wf_iter it" "0 < n"
  shows "\<exists>r it'. read_pod n load_word it = Inr (r :: 'a::len word option, it') \<and> wf_iter it'"
  using read_pod_cases [OF assms, of "load_word :: byte list \<Rightarrow> 'a word res"] assms(1)
  by (cases "n \<le> length (unread it)") (auto simp: load_word_def)

lemma read_bool_safe:
  assumes "wf_iter it"
  shows "ReadBool it = Inl InvalidValue \<or> (\<exists>r it'. ReadBool it = Inr (r, it') \<and> wf_iter it')"
proof (cases "1 \<le> length (unread it)")
  case True
  then obtain it' where "ReadBool it = bind_res (load_bool (take 1 (unread it))) (\<lambda>v. Inr (Some v, it'))" "wf_iter it'"
    using read_pod_cases [OF assms, of 1 load_bool] by (auto simp: ReadBool_def)
  then show ?thesis by (auto simp: load_bool_def)
next
  case False
  then have "ReadBool it = Inr (None, finished it)"
    using read_pod_cases [OF assms, of 1 load_bool] by (simp add: ReadBool_def)
  then show ?thesis using assms by simp
qed

lemma sint32_bounds: "sint (w :: 32 word) < 2 ^ 31"
  using sint_lt [of w] by simp

lemma read_length_safe:
  assumes "wf_iter it"
  shows "\<exists>r it1. ReadInt32 it = Inr (r, it1) \<and> wf_iter it1 \<and>
    (\<forall>len. r = Some len \<longrightarrow> (\<exists>q it2. read_ptr (sint len) it1 = Inr (q, it2) \<and> wf_iter it2 \<and>
       (\<forall>m i. q = Some (m, i) \<longrightarrow> mem_read m i (nat (sint len)) \<noteq> Inl OutOfBounds \<and>
          (\<exists>bs. mem_read m i (nat (sint len)) = Inr bs))))"
proof -
  obtain r it1 where r: "ReadInt32 it = Inr (r, it1)" "wf_iter it1"
    using read_word_safe [OF assms, of 4, where ?'a = 32] by (auto simp: ReadInt32_def ReadBuiltinType_def)
  have "\<exists>q it2. read_ptr (sint len) it1 = Inr (q, it2) \<and> wf_iter it2 \<and>
       (\<forall>m i. q = Some (m, i) \<longrightarrow> mem_read m i (nat (sint len)) \<noteq> Inl OutOfBounds \<and>
          (\<exists>bs. mem_read m i (nat (sint len)) = Inr bs))" for len :: "32 word"
  proof (cases "0 \<le> sint len \<and> nat (sint len) \<le> length (unread it1)")
    case True
    moreover have "sint len < 2 ^ 63" using sint32_bounds [of len] by simp
    ultimately obtain it2 where "read_ptr (sint len) it1 = Inr (current_ptr it1, it2)" "wf_iter it2"
      using read_ptr_cases [OF r(2), of "sint len"] by auto
    then show ?thesis using current_ptr_read [OF r(2)] True by auto
  next
    case False
    moreover have "sint len < 2 ^ 63" using sint32_bounds [of len] by simp
    ultimately have "read_ptr (sint len) it1 = Inr (None, finished it1)"
      using read_ptr_cases [OF r(2), of "sint len"] by (simp split: if_splits)
    then show ?thesis using r(2) by simp
  qed
  then show ?thesis using r by blast
qed

lemma read_field_safe:
  assumes "wf_iter it"
  shows "read_field k it = Inl InvalidValue \<and> k = KBool \<or>
    (\<exists>r it'. read_field k it = Inr (r, it') \<and> wf_iter it')"
proof -
  note w = read_word_safe [OF assms, of 2, where ?'a = 16] read_word_safe [OF assms, of 4, where ?'a = 32]
    read_word_safe [OF assms, of 8, where ?'a = 64]
  note defs = ReadInt16_def ReadInt32_def ReadInt64_def ReadUInt16_def ReadUInt32_def ReadUInt64_def
    ReadFloat_def ReadDouble_def ReadBuiltinType_def
  show ?thesis
  proof (cases k)
    case KBool
    then show ?thesis using read_bool_safe [OF assms] by auto
  next
    case KString
    then show ?thesis using read_length_safe [OF assms]
      by (auto simp: ReadString_def split: option.split)
  next
    case KData
    then show ?thesis using read_length_safe [OF assms]
      by (auto simp: ReadData_def ReadBytes_def split: option.split)
  qed (use w in \<open>auto simp: defs\<close>)
qed

lemma read_fields_safe:
  assumes "wf_iter it"
  shows "case read_fields ks it of
      Inl e \<Rightarrow> e = InvalidValue \<and> KBool \<in> set ks
    | Inr (vs, it') \<Rightarrow> length vs = length ks \<and> read_index it' \<le> end_index it'"
  using assms
proof (induction ks arbitrary: it)
  case Nil
  then show ?case by (simp add: wf_iter_def)
next
  case (Cons k ks)
  from read_field_safe [OF Cons.prems, of k] show ?case
  proof (elim disjE exE conjE)
    assume "read_field k it = Inl InvalidValue" "k = KBool"
    then show ?thesis by simp
  next
    fix r it1
    assume r: "read_field k it = Inr (r, it1)" "wf_iter it1"
    show ?thesis
    proof (cases "read_fields ks it1")
      case (Inl e)
      then show ?thesis using Cons.IH [OF r(2)] r(1) by simp
    next
      case (Inr vit)
      then show ?thesis using Cons.IH [OF r(2)] r(1) by (cases vit) simp
    qed
  qed
qed

lemma view_iterator:
  assumes "length data < 2 ^ 31"
  shows "\<exists>p it. Pickle_view data (int (length data)) = Inr p \<and> PickleIterator_of p = Inr it \<and> wf_iter it"
proof -
  let ?n = "unat (of_le_bytes (take 4 data) :: 32 word)"
  obtain p where p: "Pickle_view data (int (length data)) = Inr p"
    "if 4 \<le> length data \<and> ?n < length data \<and> 4 dvd (length data - ?n)
     then p = \<lparr>header = Some data, header_size = length data - ?n,
               capacity_after_header = kCapacityReadOnly, write_offset = 0\<rparr>
     else header p = None \<and> header_size p = 0"
    using Pickle_view_cases [OF assms] by auto
  show ?thesis
  proof (cases "4 \<le> length data \<and> ?n < length data \<and> 4 dvd (length data - ?n)")
    case True
    then have pe: "p = \<lparr>header = Some data, header_size = length data - ?n,
               capacity_after_header = kCapacityReadOnly, write_offset = 0\<rparr>" using p(2) by simp
    then have "PickleIterator_of p =
        Inr \<lparr>it_payload = Some (data, length data - ?n), read_index = 0, end_index = ?n\<rparr>"
      using True by (simp add: PickleIterator_of_def payload_size_def load_payload_size_def
          header_block_def header_bytes_def payload_def)
    moreover have "wf_iter \<lparr>it_payload = Some (data, length data - ?n), read_index = 0, end_index = ?n\<rparr>"
      using True assms by (simp add: wf_iter_def)
    ultimately show ?thesis using p(1) by blast
  next
    case False
    then have "header p = None" using p(2) by simp
    then have "PickleIterator_of p = Inr \<lparr>it_payload = None, read_index = 0, end_index = 0\<rparr>"
      by (simp add: PickleIterator_of_def payload_size_def payload_def)
    then show ?thesis using p(1) by (simp add: wf_iter_def)
  qed
qed

text \<open>
  C4: over any bytes at all, whatever payload size they claim, the read-only constructor and the
  iterator it gives succeed, and reading any sequence of kinds never reads outside the bytes and keeps
  the read index at or before the end; the one thing that can go wrong is a \<open>bool\<close> loaded from a byte
  that is neither 0 nor 1.
\<close>

theorem untrusted_pickle_safe:
  assumes "length data < 2 ^ 31"
  shows "\<exists>p it. Pickle_view data (int (length data)) = Inr p \<and> PickleIterator_of p = Inr it \<and>
    (case read_fields ks it of
        Inl e \<Rightarrow> e = InvalidValue \<and> KBool \<in> set ks
      | Inr (vs, it') \<Rightarrow> length vs = length ks \<and> read_index it' \<le> end_index it')"
proof -
  obtain p it where "Pickle_view data (int (length data)) = Inr p" "PickleIterator_of p = Inr it" "wf_iter it"
    using view_iterator [OF assms] by blast
  then show ?thesis using read_fields_safe [of it ks] by auto
qed

theorem untrusted_pickle_safe_witness:
  "\<exists>p it. Pickle_view [255, 255, 255, 255, 9] 5 = Inr p \<and> PickleIterator_of p = Inr it \<and>
    (\<exists>vs it'. read_fields [KInt32, KString] it = Inr (vs, it') \<and> length vs = 2 \<and> read_index it' \<le> end_index it')"
proof -
  have "length [255, 255, 255, 255, 9 :: byte] < 2 ^ 31" by simp
  from untrusted_pickle_safe [OF this, of "[KInt32, KString]"]
  obtain p it where p: "Pickle_view [255, 255, 255, 255, 9] 5 = Inr p" "PickleIterator_of p = Inr it"
    "case read_fields [KInt32, KString] it of
        Inl e \<Rightarrow> e = InvalidValue \<and> KBool \<in> set [KInt32, KString]
      | Inr (vs, it') \<Rightarrow> length vs = length [KInt32, KString] \<and> read_index it' \<le> end_index it'"
    by auto
  show ?thesis
  proof (cases "read_fields [KInt32, KString] it")
    case (Inl e)
    then show ?thesis using p(3) by (simp del: read_fields.simps)
  next
    case (Inr r)
    then show ?thesis using p by (cases r) (simp del: read_fields.simps)
  qed
qed

lemma size_of_field_eq:
  assumes "field_ok f" "s + length (put_field f) < 2 ^ 32"
  shows "size_of_field f s = Inr (s + length (put_field f))"
proof -
  have r: "round_up 4 2 = 4" "round_up 4 4 = 4" "round_up 4 8 = 8" by (simp_all add: round_up_def)
  have i: "to_int32 (int n) = int n" if "n < 2 ^ 31" for n
    using that by (intro to_int32_in) (simp add: in_range_def int32_min_def int32_max_def)
  note defs = AddBool_def AddInt16_def AddInt32_def AddInt64_def AddUInt16_def AddUInt32_def AddUInt64_def
    AddFloat_def AddDouble_def AddString_def AddData_def AddBytesStatic_def AddBytes_def int32_max_def
  have pos: "length (pad4 bs) = round_up 4 (length bs)" for bs by simp
  have bound: "s + round_up 4 n < 2 ^ 32 \<Longrightarrow> n < 2 ^ 32" for n
    using round_up_4_ge [of n] by linarith
  show ?thesis
    using assms r i [of 2] i [of 4] i [of 8]
    by (cases f) (auto simp: defs put_string_def sz_add_def i bind_res_check)
qed

text \<open>
  C36: for fields that take less than 4 GiB the sizer foretells, without tripping its checks, exactly
  the number of bytes that writing them adds to a pickle.
\<close>

theorem sizer_exact:
  assumes "wf_pickle p" "list_all field_ok fs" "length (payload_bytes p) + length (put_fields fs) < 2 ^ 32"
    "2 ^ 35 \<le> heap_limit h"
  shows "\<exists>q n. write_fields h fs p = Inr q \<and> size_of_fields fs 0 = Inr n \<and>
    payload_size q = Inr (write_offset p + n)"
proof -
  obtain q where q: "write_fields h fs p = Inr q" "wf_pickle q" "payload_bytes q = payload_bytes p @ put_fields fs"
    using write_fields_grows [OF assms(1,2), of h] assms(3,4) by (auto simp: grows_def split: sum.splits)
  have s: "size_of_fields gs s = Inr (s + length (put_fields gs))"
    if "list_all field_ok gs" "s + length (put_fields gs) < 2 ^ 32" for gs s
    using that
  proof (induction gs arbitrary: s)
    case Nil
    then show ?case by (simp add: put_fields_def)
  next
    case (Cons g gs)
    then show ?case using size_of_field_eq [of g s] by (simp add: put_fields_def add.assoc)
  qed
  have "payload_size q = load_payload_size q"
    using q(2) by (auto simp: payload_size_def wf_pickle_def split: option.splits)
  then show ?thesis
    using q load_payload_size_wf [OF q(2)] s [OF assms(2), of 0] assms(3)
      wf_payload_length [OF assms(1)] wf_payload_length [OF q(2)] by simp
qed

theorem sizer_exact_witness:
  "\<exists>p q n. Pickle_default \<lparr>heap_limit = 2 ^ 35, heap_fill = (\<lambda>_. 0)\<rparr> = Inr p \<and>
     write_fields \<lparr>heap_limit = 2 ^ 35, heap_fill = (\<lambda>_. 0)\<rparr> [FString [1, 2, 3, 4, 5]] p = Inr q \<and>
     size_of_fields [FString [1, 2, 3, 4, 5]] 0 = Inr n \<and> payload_size q = Inr (write_offset p + n)"
proof -
  let ?h = "\<lparr>heap_limit = 2 ^ 35, heap_fill = (\<lambda>_. 0 :: byte)\<rparr>"
  obtain p where p: "Pickle_default ?h = Inr p" "wf_pickle p" "payload_bytes p = []"
    using Pickle_default_ok [of ?h] by auto
  have "length (put_fields [FString [1, 2, 3, 4, 5]]) < 2 ^ 32"
    by (simp add: put_fields_def put_string_def round_up_def)
  then show ?thesis using sizer_exact [OF p(2), of "[FString [1, 2, 3, 4, 5]]" ?h] p(1,3)
    by (simp del: write_fields.simps size_of_fields.simps)
qed

text \<open>
  A negative length never reaches memory.  \<open>WriteBytes\<close> turns it into a huge \<open>size_t\<close> and trips
  a \<open>CHECK\<close> whatever the pickle and the heap; \<open>WriteData\<close> refuses it and changes nothing;
  the iterator returns null and ends.
\<close>

theorem negative_lengths_rejected:
  assumes "wf_pickle p" "len < 0" "- (2 ^ 31) \<le> len" "wf_iter it"
  shows "WriteBytes h data len p = Inl CheckFailed \<and> WriteData h data len p = Inr (False, p) \<and>
    ReadBytes len it = Inr (None, it\<lparr>read_index := end_index it\<rparr>)"
proof -
  have "len mod 2 ^ 64 = (len + 2 ^ 64) mod 2 ^ 64" by simp
  also have "\<dots> = len + 2 ^ 64" using assms(2,3) by (intro mod_pos_pos_trivial) simp_all
  finally have "to_size len = nat (len + 2 ^ 64)" by (simp only: to_size_def)
  then have b: "to_size len < 2 ^ 64" "2 ^ 32 \<le> to_size len" using assms(2,3) by (simp_all add: nat_less_iff)
  then have "checked_length (to_size len) p = Inl CheckFailed"
    using checked_length_cases [OF b(1), of p] wf_sizes [OF assms(1)] by simp
  then have "WriteBytes h data len p = Inl CheckFailed"
    by (simp add: WriteBytes_def WriteBytesCommon_def ClaimUninitializedBytesInternal_def bind_res_check)
  then show ?thesis
    using assms(2) by (simp add: WriteData_def ReadBytes_def read_ptr_def)
qed

theorem negative_lengths_rejected_witness:
  "\<exists>p. Pickle_default \<lparr>heap_limit = 128, heap_fill = (\<lambda>_. 0)\<rparr> = Inr p \<and>
     WriteBytes \<lparr>heap_limit = 128, heap_fill = (\<lambda>_. 0)\<rparr> [1, 2] (- 1) p = Inl CheckFailed"
proof -
  let ?h = "\<lparr>heap_limit = 128, heap_fill = (\<lambda>_. 0 :: byte)\<rparr>"
  obtain p where p: "Pickle_default ?h = Inr p" "wf_pickle p" using Pickle_default_ok [of ?h] by auto
  have "wf_iter PickleIterator_default" by (simp add: wf_iter_def PickleIterator_default_def)
  then show ?thesis using negative_lengths_rejected [OF p(2), of "- 1" PickleIterator_default ?h "[1, 2]"] p(1)
    by simp
qed

end
