(* ===== verification/FileTree.thy ===== *)
theory FileTree
  imports FileEnum
begin

text \<open>
  The walk of \<open>base/file_enumerator.cc\<close> over a directory tree that stands still: which paths the loop
  \<open>for (p = e.Next(); !p.empty(); p = e.Next())\<close> of a client meets, and that it ends.  The tree is given
  by what \<open>readdir\<close> delivers for each directory and by what \<open>stat\<close> says of each path.
\<close>

section \<open>The tree\<close>

text \<open>The listing of each path that can be opened as a directory, and what the walk records of a path.\<close>

type_synonym listings = "file_path \<Rightarrow> string list option"

definition readdirs :: "file_path \<Rightarrow> syscall list \<Rightarrow> nat" where
  "readdirs p h = length (filter (\<lambda>c. c = SysReaddir p) (takeWhile (\<lambda>c. c \<noteq> SysOpendir p) (rev h)))"

text \<open>
  A kernel serves a tree: a directory opens when it has a listing, the \<open>n\<close>th \<open>readdir\<close> after it was opened
  delivers the \<open>n\<close>th name and then the end, and \<open>stat\<close> always says the same (what it leaves when it fails is
  zeroed by the walk).
\<close>

definition serves_tree :: "(syscall list \<Rightarrow> syscall \<Rightarrow> reply) \<Rightarrow> listings \<Rightarrow> (bool \<Rightarrow> file_path \<Rightarrow> stat) \<Rightarrow> bool" where
  "serves_tree k L st \<longleftrightarrow> (\<forall>h p.
     (rp_ret (k h (SysOpendir p)) \<noteq> 0 \<longleftrightarrow> L p \<noteq> None) \<and>
     (\<forall>ns. L p = Some ns \<longrightarrow> rp_ret (k h (SysReaddir p)) = 0 \<and>
        rp_path (k h (SysReaddir p)) = (if readdirs p h < length ns then ns ! readdirs p h else [])) \<and>
     (\<forall>links. let r = k h (if links then SysLstat p else SysStat p)
        in st links p = (if rp_ret r < 0 then zero_stat else rp_stat r)))"

definition file_name :: "string \<Rightarrow> bool" where
  "file_name n \<longleftrightarrow> n \<noteq> [] \<and> sep \<notin> set n \<and> CHR 0x00 \<notin> set n"

definition child :: "file_path \<Rightarrow> string \<Rightarrow> file_path" where
  "child p n = (case Append p n of Inr q \<Rightarrow> q | Inl t \<Rightarrow> [])"

definition entry_of :: "(file_path \<Rightarrow> stat) \<Rightarrow> file_path \<Rightarrow> string \<Rightarrow> entry" where
  "entry_of st p n = \<lparr>en_stat = st (child p n), en_name = n\<rparr>"

lemma Append_child: "file_name n \<Longrightarrow> Append p n = Inr (child p n) \<and> child p n \<noteq> []"
proof -
  assume n: "file_name n"
  have t: "takeWhile (\<lambda>c. c \<noteq> CHR 0x00) n = n"
    using n by (intro takeWhile_eq_all_conv [THEN iffD2]) (auto simp: file_name_def)
  have a: "\<not> IsPathAbsolute n" using n by (cases n) (auto simp: file_name_def IsPathAbsolute_def)
  have m: "mk_path n = n" "n \<noteq> []" using n by (simp_all add: file_name_def)
  have "\<exists>q. Append p n = Inr q \<and> q \<noteq> []" unfolding Append_def t Let_def using a m by simp
  then show ?thesis by (auto simp: child_def)
qed

lemma serves_opendir: "serves_tree k L st \<Longrightarrow> rp_ret (k h (SysOpendir p)) \<noteq> 0 \<longleftrightarrow> L p \<noteq> None"
  unfolding serves_tree_def by blast

lemma serves_readdir:
  "serves_tree k L st \<Longrightarrow> L p = Some ns \<Longrightarrow> rp_ret (k h (SysReaddir p)) = 0 \<and>
   rp_path (k h (SysReaddir p)) = (if readdirs p h < length ns then ns ! readdirs p h else [])"
  unfolding serves_tree_def by blast

lemma serves_stat:
  "serves_tree k L st \<Longrightarrow> st links p = (if rp_ret (k h (if links then SysLstat p else SysStat p)) < 0 then zero_stat
     else rp_stat (k h (if links then SysLstat p else SysStat p)))"
  unfolding serves_tree_def Let_def by blast

lemma readdirs_simps [simp]:
  "readdirs p (h @ [SysOpendir p]) = 0"
  "readdirs p (h @ [SysReaddir p]) = Suc (readdirs p h)"
  "c \<noteq> SysOpendir p \<Longrightarrow> c \<noteq> SysReaddir p \<Longrightarrow> readdirs p (h @ [c]) = readdirs p h"
  by (simp_all add: readdirs_def)

lemma readdir_loop_serves:
  assumes "serves_tree K L st" "L p = Some ns" "list_all file_name ns"
  shows "kernel e = K \<Longrightarrow> readdirs p (trace e) \<le> length ns \<Longrightarrow> length ns - readdirs p (trace e) < k \<Longrightarrow>
    \<exists>e'. readdir_loop k p links es e = Inr (es @ map (entry_of (st links) p) (drop (readdirs p (trace e)) ns), e') \<and> kernel e' = K"
proof (induction k arbitrary: es e)
  case (Suc k)
  let ?i = "readdirs p (trace e)"
  have r: "rp_ret (answer (SysReaddir p) e) = 0" "rp_path (answer (SysReaddir p) e) = (if ?i < length ns then ns ! ?i else [])"
    using serves_readdir [OF assms(1,2)] Suc.prems(1) by (simp_all add: answer_def)
  show ?case
  proof (cases "?i < length ns")
    case False
    then show ?thesis using r Suc.prems by simp
  next
    case True
    define n where "n = ns ! ?i"
    have n: "file_name n" using assms(3) True by (simp add: n_def list_all_length)
    then have nm: "n \<noteq> []" "CHR 0x00 \<notin> set n" "Append p n = Inr (child p n)" using Append_child by (auto simp: file_name_def)
    let ?c = "if links then SysLstat (child p n) else SysStat (child p n)"
    let ?e = "after ?c (after (SysReaddir p) e)"
    have s: "st links (child p n) = (if rp_ret (answer ?c (after (SysReaddir p) e)) < 0 then zero_stat
        else rp_stat (answer ?c (after (SysReaddir p) e)))"
      unfolding answer_def using serves_stat [OF assms(1), of links "child p n" "trace (after (SysReaddir p) e)"] Suc.prems(1)
      by (simp only: kernel_after)
    have i: "readdirs p (trace ?e) = Suc ?i"
      unfolding trace_after by (cases links) (simp_all only: readdirs_simps syscall.distinct not_False_eq_True if_True if_False simp_thms)
    have "\<exists>e'. readdir_loop k p links (es @ [entry_of (st links) p n]) ?e =
        Inr ((es @ [entry_of (st links) p n]) @ map (entry_of (st links) p) (drop (readdirs p (trace ?e)) ns), e') \<and> kernel e' = K"
      by (rule Suc.IH) (use Suc.prems True i in auto)
    moreover have "drop ?i ns = n # drop (Suc ?i) ns" using True by (simp add: n_def Cons_nth_drop_Suc)
    moreover have "readdir_loop (Suc k) p links es e = readdir_loop k p links (es @ [entry_of (st links) p n]) ?e"
      using r True nm s by (simp add: entry_of_def n_def [symmetric])
    ultimately show ?thesis using i by simp
  qed
qed simp

lemma ReadDirectory_serves:
  assumes "serves_tree K L st" "kernel e = K" "\<And>ns. L p = Some ns \<Longrightarrow> list_all file_name ns \<and> length ns < k"
  shows "\<exists>e'. ReadDirectory k p links e = Inr (map_option (map (entry_of (st links) p)) (L p), e') \<and> kernel e' = K"
proof (cases "L p")
  case None
  then have "rp_ret (answer (SysOpendir p) e) = 0" using serves_opendir [OF assms(1), of "trace e" p] assms(2) by (simp add: answer_def)
  then show ?thesis using None assms(2) by (simp add: ReadDirectory_def)
next
  case (Some ns)
  then have "rp_ret (answer (SysOpendir p) e) \<noteq> 0" using serves_opendir [OF assms(1)] assms(2) by (simp add: answer_def)
  moreover obtain e1 where "readdir_loop k p links [] (after (SysOpendir p) e) = Inr (map (entry_of (st links) p) ns, e1)" "kernel e1 = K"
    using readdir_loop_serves [OF assms(1) Some, of "after (SysOpendir p) e" k links "[]"] assms(2,3) Some by auto
  ultimately show ?thesis using Some by (simp add: ReadDirectory_def)
qed

section \<open>One directory\<close>

text \<open>What the enumerator was asked for decides which entries it keeps, which it lists and where it goes on.\<close>

definition kept :: "(string \<Rightarrow> string \<Rightarrow> bool) \<Rightarrow> enumerator \<Rightarrow> file_path \<Rightarrow> bool" where
  "kept fm c q \<longleftrightarrow> BaseName q \<noteq> ''.'' \<and> (BaseName q = ''..'' \<longrightarrow> INCLUDE_DOT_DOT (file_type c)) \<and>
     (pattern c = [] \<or> \<not> fm (pattern c) q)"

definition wanted :: "enumerator \<Rightarrow> stat \<Rightarrow> bool" where
  "wanted c s \<longleftrightarrow> (if st_isdir s then DIRECTORIES (file_type c) else FILES (file_type c))"

definition same_search :: "enumerator \<Rightarrow> enumerator \<Rightarrow> bool" where
  "same_search c en \<longleftrightarrow> recursive en = recursive c \<and> file_type en = file_type c \<and> pattern en = pattern c"

definition listed :: "(string \<Rightarrow> string \<Rightarrow> bool) \<Rightarrow> enumerator \<Rightarrow> (file_path \<Rightarrow> stat) \<Rightarrow> file_path \<Rightarrow> string list \<Rightarrow> string list" where
  "listed fm c st p ns = filter (\<lambda>n. kept fm c (child p n) \<and> wanted c (st (child p n))) ns"

definition entered :: "(string \<Rightarrow> string \<Rightarrow> bool) \<Rightarrow> enumerator \<Rightarrow> (file_path \<Rightarrow> stat) \<Rightarrow> file_path \<Rightarrow> string list \<Rightarrow> string list" where
  "entered fm c st p ns = filter (\<lambda>n. recursive c \<and> kept fm c (child p n) \<and> st_isdir (st (child p n))) ns"

lemma take_entry_kept:
  assumes "file_name n" "same_search c en" "root_path en = p"
  shows "take_entry fm en (entry_of st p n) = Inr (en
    \<lparr>pending_paths := (if n \<in> set (entered fm c st p [n]) then [child p n] else []) @ pending_paths en,
     directory_entries := directory_entries en @ map (entry_of st p) (listed fm c st p [n])\<rparr>)"
  using Append_child [OF assms(1), of p] assms(2,3)
  by (auto simp: take_entry_def entry_of_def kept_def wanted_def listed_def entered_def same_search_def ShouldSkip_def Let_def)

lemma take_entries_kept:
  "list_all file_name ns \<Longrightarrow> same_search c en \<Longrightarrow> root_path en = p \<Longrightarrow>
   take_entries fm en (map (entry_of st p) ns) = Inr (en
    \<lparr>pending_paths := rev (map (child p) (entered fm c st p ns)) @ pending_paths en,
     directory_entries := directory_entries en @ map (entry_of st p) (listed fm c st p ns)\<rparr>)"
proof (induction ns arbitrary: en)
  case Nil
  then show ?case by (simp add: entered_def listed_def)
next
  case (Cons n ns)
  let ?en = "en\<lparr>pending_paths := (if n \<in> set (entered fm c st p [n]) then [child p n] else []) @ pending_paths en,
     directory_entries := directory_entries en @ map (entry_of st p) (listed fm c st p [n])\<rparr>"
  have "take_entries fm ?en (map (entry_of st p) ns) = Inr (?en
    \<lparr>pending_paths := rev (map (child p) (entered fm c st p ns)) @ pending_paths ?en,
     directory_entries := directory_entries ?en @ map (entry_of st p) (listed fm c st p ns)\<rparr>)"
    by (rule Cons.IH) (use Cons.prems in \<open>simp_all add: same_search_def\<close>)
  then show ?case using take_entry_kept [of n c en p fm st] Cons.prems by (auto simp: entered_def listed_def)
qed

section \<open>The walk\<close>

text \<open>The loop of a client, the path being empty when there is nothing more.\<close>

fun walk_all :: "(string \<Rightarrow> string \<Rightarrow> bool) \<Rightarrow> nat \<Rightarrow> enumerator \<Rightarrow> file_path list io" where
  "walk_all fm 0 en e = Inl OutOfFuel"
| "walk_all fm (Suc k) en e = io_bind (Next fm k en) (\<lambda>(p, en).
     if p = [] then io_return [] else io_bind (walk_all fm k en) (\<lambda>ps. io_return (p # ps))) e"

definition walk_on :: "(string \<Rightarrow> string \<Rightarrow> bool) \<Rightarrow> nat \<Rightarrow> nat \<Rightarrow> enumerator \<Rightarrow> file_path list io" where
  "walk_on fm j k en = io_bind (Next_loop fm j en) (\<lambda>(p, en).
     if p = [] then io_return [] else io_bind (walk_all fm k en) (\<lambda>ps. io_return (p # ps)))"

text \<open>The directories a search enters, from those given, and the paths it lists.\<close>

inductive walk_dir ::
    "(string \<Rightarrow> string \<Rightarrow> bool) \<Rightarrow> enumerator \<Rightarrow> listings \<Rightarrow> (file_path \<Rightarrow> stat) \<Rightarrow> file_path set \<Rightarrow> file_path \<Rightarrow> bool"
    for fm c L st roots where
  walk_root: "d \<in> roots \<Longrightarrow> walk_dir fm c L st roots (StripTrailingSeparators d)"
| walk_sub: "walk_dir fm c L st roots p \<Longrightarrow> L p = Some ns \<Longrightarrow> n \<in> set ns \<Longrightarrow> recursive c \<Longrightarrow> kept fm c (child p n) \<Longrightarrow>
    st_isdir (st (child p n)) \<Longrightarrow> walk_dir fm c L st roots (StripTrailingSeparators (child p n))"

definition walk_paths ::
    "(string \<Rightarrow> string \<Rightarrow> bool) \<Rightarrow> enumerator \<Rightarrow> listings \<Rightarrow> (file_path \<Rightarrow> stat) \<Rightarrow> file_path set \<Rightarrow> file_path set" where
  "walk_paths fm c L st roots = {child p n | p ns n. walk_dir fm c L st roots p \<and> L p = Some ns \<and> n \<in> set ns \<and>
     kept fm c (child p n) \<and> wanted c (st (child p n))}"

text \<open>
  No way leads from a directory back to it: every directory met inside another has a smaller rank.  (With
  symbolic links followed, \<open>stat\<close> takes a link to a directory for a directory, so a link upwards has none.)
\<close>

definition no_cycles :: "listings \<Rightarrow> (file_path \<Rightarrow> stat) \<Rightarrow> (file_path \<Rightarrow> nat) \<Rightarrow> bool" where
  "no_cycles L st rank \<longleftrightarrow> (\<forall>p ns n. L p = Some ns \<and> n \<in> set ns \<and> BaseName (child p n) \<notin> {''.'', ''..''} \<and>
     st_isdir (st (child p n)) \<longrightarrow> rank (StripTrailingSeparators (child p n)) < rank p)"

definition proper_names :: "listings \<Rightarrow> bool" where
  "proper_names L \<longleftrightarrow> (\<forall>p ns. L p = Some ns \<longrightarrow> list_all file_name ns)"

lemma walk_dir_mono: "walk_dir fm c L st R p \<Longrightarrow> (\<And>d. d \<in> R \<Longrightarrow> walk_dir fm c L st S (StripTrailingSeparators d)) \<Longrightarrow>
  walk_dir fm c L st S p"
  by (induction rule: walk_dir.induct) (auto intro: walk_dir.intros)

text \<open>One directory first, then those it leads to and the others: the same directories.\<close>

definition subdirs ::
    "(string \<Rightarrow> string \<Rightarrow> bool) \<Rightarrow> enumerator \<Rightarrow> listings \<Rightarrow> (file_path \<Rightarrow> stat) \<Rightarrow> file_path \<Rightarrow> file_path set" where
  "subdirs fm c L st p = (case L p of None \<Rightarrow> {} | Some ns \<Rightarrow> child p ` set (entered fm c st p ns))"

lemma in_subdirs: "x \<in> subdirs fm c L st p \<longleftrightarrow>
  (\<exists>ns n. L p = Some ns \<and> n \<in> set ns \<and> recursive c \<and> kept fm c (child p n) \<and> st_isdir (st (child p n)) \<and> x = child p n)"
  by (auto simp: subdirs_def entered_def split: option.splits)

lemma walk_dir_step:
  assumes "StripTrailingSeparators d = p"
  shows "walk_dir fm c L st (insert d R) q \<longleftrightarrow> q = p \<or> walk_dir fm c L st (subdirs fm c L st p \<union> R) q"
    (is "?l \<longleftrightarrow> _ \<or> walk_dir fm c L st ?R q")
proof
  assume ?l
  then show "q = p \<or> walk_dir fm c L st ?R q"
  proof (induction rule: walk_dir.induct)
    case (walk_root x)
    then show ?case using assms by (cases "x = d") (auto intro: walk_dir.walk_root)
  next
    case (walk_sub p' ns n)
    from walk_sub.IH show ?case
    proof
      assume "p' = p"
      then have "child p' n \<in> subdirs fm c L st p" unfolding in_subdirs using walk_sub.hyps by blast
      then show ?case by (blast intro: walk_dir.walk_root)
    next
      assume "walk_dir fm c L st ?R p'"
      then show ?case using walk_dir.walk_sub walk_sub.hyps by blast
    qed
  qed
next
  have d: "walk_dir fm c L st (insert d R) p" using walk_dir.walk_root [of d "insert d R" fm c L st] assms by simp
  have x: "walk_dir fm c L st (insert d R) (StripTrailingSeparators x)" if "x \<in> ?R" for x
  proof (cases "x \<in> R")
    case False
    then have "x \<in> subdirs fm c L st p" using that by simp
    then show ?thesis unfolding in_subdirs using walk_dir.walk_sub [OF d] by blast
  qed (simp add: walk_dir.walk_root)
  assume "q = p \<or> walk_dir fm c L st ?R q"
  then show ?l using d walk_dir_mono [OF _ x] by blast
qed

lemma walk_paths_step:
  assumes "StripTrailingSeparators d = p"
  shows "walk_paths fm c L st (insert d R) =
    (case L p of None \<Rightarrow> {} | Some ns \<Rightarrow> child p ` set (listed fm c st p ns)) \<union> walk_paths fm c L st (subdirs fm c L st p \<union> R)"
  unfolding walk_paths_def walk_dir_step [OF assms] listed_def by (cases "L p") auto

lemma walk_paths_none: "walk_paths fm c L st {} = {}"
proof -
  have "\<not> walk_dir fm c L st {} p" for p
  proof
    assume "walk_dir fm c L st {} p"
    then show False by (induction rule: walk_dir.induct) auto
  qed
  then show ?thesis by (simp add: walk_paths_def)
qed

section \<open>The loop ends, and lists the tree\<close>

text \<open>
  The order of the walk: the entries of a directory as \<open>readdir\<close> delivers them, then what lies behind its
  subdirectories, the last one first.
\<close>

inductive walk_order ::
    "(string \<Rightarrow> string \<Rightarrow> bool) \<Rightarrow> enumerator \<Rightarrow> listings \<Rightarrow> (file_path \<Rightarrow> stat) \<Rightarrow> file_path list \<Rightarrow> file_path list \<Rightarrow> bool"
    for fm c L st where
  order_done: "walk_order fm c L st [] []"
| order_unreadable: "L (StripTrailingSeparators d) = None \<Longrightarrow> walk_order fm c L st r ps \<Longrightarrow> walk_order fm c L st (d # r) ps"
| order_directory: "StripTrailingSeparators d = p \<Longrightarrow> L p = Some ns \<Longrightarrow>
    walk_order fm c L st (rev (map (child p) (entered fm c st p ns)) @ r) ps \<Longrightarrow>
    walk_order fm c L st (d # r) (map (child p) (listed fm c st p ns) @ ps)"

lemma walk_order_paths: "walk_order fm c L st ds ps \<Longrightarrow> set ps = walk_paths fm c L st (set ds)"
  by (induction rule: walk_order.induct) (simp_all add: walk_paths_none walk_paths_step subdirs_def)

text \<open>With this much fuel the client's loop, at the end of a directory, goes on to list \<open>ps\<close>.\<close>

definition walks :: "(syscall list \<Rightarrow> syscall \<Rightarrow> reply) \<Rightarrow> (string \<Rightarrow> string \<Rightarrow> bool) \<Rightarrow> enumerator \<Rightarrow>
    file_path list \<Rightarrow> nat \<Rightarrow> file_path list \<Rightarrow> bool" where
  "walks K fm c pend N ps \<longleftrightarrow> (\<forall>en e j k. same_search c en \<and> kernel e = K \<and> pending_paths en = pend \<and>
     length (directory_entries en) \<le> current_directory_entry en \<and> N \<le> j \<and> N \<le> k \<longrightarrow>
     (\<exists>e'. walk_on fm j k en e = Inr (ps, e')))"

lemma walks_done: "walks K fm c [] 1 []"
proof -
  have "walk_on fm j k en e = Inr ([], e)"
    if "pending_paths en = []" "length (directory_entries en) \<le> current_directory_entry en" "1 \<le> j" for en e j k
    using that by (cases j) (simp_all add: walk_on_def io_bind_apply)
  then show ?thesis by (auto simp: walks_def)
qed

text \<open>The entries of a directory are returned one by one, and nothing is asked of the kernel meanwhile.\<close>

lemma walk_on_entry:
  assumes "current_directory_entry en < length (directory_entries en)"
    "directory_entries en ! current_directory_entry en = entry_of st p n" "root_path en = p" "file_name n"
    "walk_on fm k k (en\<lparr>current_directory_entry := Suc (current_directory_entry en)\<rparr>) e = Inr (ps, e')"
  shows "walk_on fm (Suc j) (Suc k) en e = Inr (child p n # ps, e')"
  using assms Append_child [OF assms(4), of p]
  by (simp add: walk_on_def io_bind_apply Next_def entry_of_def split: sum.splits prod.splits)

lemma walk_on_entries:
  assumes "walks K fm c pend N ps" "list_all file_name ls"
  shows "same_search c en \<Longrightarrow> kernel e = K \<Longrightarrow> pending_paths en = pend \<Longrightarrow> root_path en = p \<Longrightarrow>
    directory_entries en = map (entry_of st p) ls \<Longrightarrow>
    N + (length ls - current_directory_entry en) < j \<Longrightarrow> N + (length ls - current_directory_entry en) < k \<Longrightarrow>
    \<exists>e'. walk_on fm j k en e = Inr (map (child p) (drop (current_directory_entry en) ls) @ ps, e')"
proof (induction "length ls - current_directory_entry en" arbitrary: en j k)
  case 0
  then show ?case using assms(1) by (simp add: walks_def)
next
  case (Suc m)
  let ?i = "current_directory_entry en"
  have i: "?i < length ls" using Suc.hyps(2) by simp
  obtain j' k' where jk: "j = Suc j'" "k = Suc k'" using Suc.prems(6,7) by (cases j; cases k) auto
  let ?en = "en\<lparr>current_directory_entry := Suc ?i\<rparr>"
  have m: "m = length ls - current_directory_entry ?en" using Suc.hyps(2) by simp
  have "\<exists>e'. walk_on fm k' k' ?en e = Inr (map (child p) (drop (current_directory_entry ?en) ls) @ ps, e')"
    by (rule Suc.hyps(1) [OF m]) (use Suc.prems jk i in \<open>auto simp: same_search_def\<close>)
  then obtain e' where e': "walk_on fm k' k' ?en e = Inr (map (child p) (drop (Suc ?i) ls) @ ps, e')" by auto
  have n: "directory_entries en ! ?i = entry_of st p (ls ! ?i)" "file_name (ls ! ?i)" "?i < length (directory_entries en)"
    using Suc.prems(5) i assms(2) by (simp_all add: list_all_length)
  have "walk_on fm j k en e = Inr (child p (ls ! ?i) # map (child p) (drop (Suc ?i) ls) @ ps, e')"
    unfolding jk by (rule walk_on_entry [OF n(3,1) Suc.prems(4) n(2) e'])
  moreover have "drop ?i ls = ls ! ?i # drop (Suc ?i) ls" using i by (simp add: Cons_nth_drop_Suc)
  ultimately show ?case by simp
qed

lemma walks_unreadable:
  assumes "serves_tree K L st" "L (StripTrailingSeparators d) = None" "walks K fm c r N ps"
  shows "walks K fm c (d # r) (Suc N) ps"
  unfolding walks_def
proof (intro allI impI, elim conjE)
  fix en :: enumerator and e :: env and j k
  assume en: "same_search c en" "kernel e = K" "pending_paths en = d # r" "length (directory_entries en) \<le> current_directory_entry en"
    "Suc N \<le> j" "Suc N \<le> k"
  let ?en = "en\<lparr>root_path := StripTrailingSeparators d, pending_paths := r\<rparr>"
  obtain j' where j: "j = Suc j'" using en(5) by (cases j) auto
  obtain e1 where "ReadDirectory j' (StripTrailingSeparators d) (SHOW_SYM_LINKS (file_type en)) e = Inr (None, e1)" "kernel e1 = K"
    using ReadDirectory_serves [OF assms(1) en(2), of "StripTrailingSeparators d" j'] assms(2) by auto
  moreover have "same_search c ?en" using en(1) by (simp add: same_search_def)
  then have "\<exists>e'. walk_on fm j' k ?en e1 = Inr (ps, e')"
    using assms(3) en(4-6) calculation(2) j unfolding walks_def by simp
  ultimately show "\<exists>e'. walk_on fm j k en e = Inr (ps, e')"
    using en(3,4) j by (simp add: walk_on_def io_bind_apply)
qed

lemma walks_directory:
  assumes "serves_tree K L st" "StripTrailingSeparators d = p" "L p = Some ns" "list_all file_name ns"
    "walks K fm c (rev (map (child p) (entered fm c (st (SHOW_SYM_LINKS (file_type c))) p ns)) @ r) N ps"
  shows "walks K fm c (d # r) (N + length ns + 2) (map (child p) (listed fm c (st (SHOW_SYM_LINKS (file_type c))) p ns) @ ps)"
  unfolding walks_def
proof (intro allI impI, elim conjE)
  fix en :: enumerator and e :: env and j k
  let ?st = "st (SHOW_SYM_LINKS (file_type c))"
  assume en: "same_search c en" "kernel e = K" "pending_paths en = d # r" "length (directory_entries en) \<le> current_directory_entry en"
    "N + length ns + 2 \<le> j" "N + length ns + 2 \<le> k"
  obtain j' where j: "j = Suc j'" using en(5) by (cases j) auto
  have f: "file_type en = file_type c" using en(1) by (simp add: same_search_def)
  obtain e1 where e1: "ReadDirectory j' p (SHOW_SYM_LINKS (file_type c)) e = Inr (Some (map (entry_of ?st p) ns), e1)" "kernel e1 = K"
    using ReadDirectory_serves [OF assms(1) en(2), of p j'] assms(3,4) en(5) j by auto
  let ?en = "en\<lparr>root_path := p, pending_paths := r, directory_entries := [], current_directory_entry := 0\<rparr>"
  let ?en2 = "?en\<lparr>pending_paths := rev (map (child p) (entered fm c ?st p ns)) @ r,
    directory_entries := map (entry_of ?st p) (listed fm c ?st p ns)\<rparr>"
  have s: "same_search c ?en" "same_search c ?en2" using en(1) by (simp_all add: same_search_def)
  have t: "take_entries fm ?en (map (entry_of ?st p) ns) = Inr ?en2"
    using take_entries_kept [OF assms(4) s(1), of p fm ?st] by simp
  have l: "list_all file_name (listed fm c ?st p ns)" "length (listed fm c ?st p ns) \<le> length ns"
    using assms(4) by (auto simp: listed_def list_all_iff)
  have "\<exists>e'. walk_on fm j' k ?en2 e1 = Inr (map (child p) (drop (current_directory_entry ?en2) (listed fm c ?st p ns)) @ ps, e')"
    by (rule walk_on_entries [OF assms(5) l(1) s(2) e1(2)]) (use en(5,6) j l(2) in auto)
  then show "\<exists>e'. walk_on fm j k en e = Inr (map (child p) (listed fm c ?st p ns) @ ps, e')"
    using en(3,4) j e1(1) t assms(2) f by (simp add: walk_on_def io_bind_apply)
qed

lemma stack_induct:
  assumes "\<And>d r. d \<in> set ds \<Longrightarrow> T r \<Longrightarrow> T (d # r)" "T r"
  shows "T (ds @ r)"
  using assms by (induction ds) auto

text \<open>A directory's subdirectories have smaller ranks, so every stack of directories is worked off.\<close>

lemma entered_rank:
  assumes "no_cycles L st rank" "L p = Some ns" "n \<in> set (entered fm c st p ns)" "\<not> (recursive c \<and> INCLUDE_DOT_DOT (file_type c))"
  shows "rank (StripTrailingSeparators (child p n)) < rank p"
proof -
  have "n \<in> set ns" "recursive c" "kept fm c (child p n)" "st_isdir (st (child p n))"
    using assms(3) by (simp_all add: entered_def)
  then show ?thesis using assms(1,2,4) unfolding no_cycles_def kept_def by blast
qed

lemma walk_works_off:
  assumes "serves_tree K L st" "proper_names L" "no_cycles L (st (SHOW_SYM_LINKS (file_type c))) rank"
    "\<not> (recursive c \<and> INCLUDE_DOT_DOT (file_type c))"
  shows "\<exists>N ps. walks K fm c ds N ps \<and> walk_order fm c L (st (SHOW_SYM_LINKS (file_type c))) ds ps"
proof -
  let ?st = "st (SHOW_SYM_LINKS (file_type c))"
  let ?T = "\<lambda>r. \<exists>N ps. walks K fm c r N ps \<and> walk_order fm c L ?st r ps"
  have one: "?T (d # r)" if "?T r" for d r
    using that
  proof (induction "rank (StripTrailingSeparators d)" arbitrary: d r rule: less_induct)
    case less
    define p where "p = StripTrailingSeparators d"
    show ?case
    proof (cases "L p")
      case None
      obtain N ps where w: "walks K fm c r N ps" "walk_order fm c L ?st r ps" using less.prems by blast
      have "walks K fm c (d # r) (Suc N) ps" by (rule walks_unreadable [OF assms(1) _ w(1)]) (use None in \<open>simp add: p_def\<close>)
      moreover have "walk_order fm c L ?st (d # r) ps" by (rule order_unreadable [OF _ w(2)]) (use None in \<open>simp add: p_def\<close>)
      ultimately show ?thesis by blast
    next
      case (Some ns)
      have "?T (rev (map (child p) (entered fm c ?st p ns)) @ r)"
      proof (rule stack_induct [where T = ?T, OF _ less.prems])
        fix q r'
        assume q: "q \<in> set (rev (map (child p) (entered fm c ?st p ns)))" and r': "?T r'"
        then have "rank (StripTrailingSeparators q) < rank p" using entered_rank [OF assms(3) Some _ assms(4)] by auto
        then show "?T (q # r')" using less.hyps r' by (simp add: p_def)
      qed
      then obtain N ps where w: "walks K fm c (rev (map (child p) (entered fm c ?st p ns)) @ r) N ps"
        "walk_order fm c L ?st (rev (map (child p) (entered fm c ?st p ns)) @ r) ps"
        by blast
      have "list_all file_name ns" using assms(2) Some by (simp add: proper_names_def)
      from walks_directory [OF assms(1) p_def [symmetric] Some this w(1)] order_directory [OF p_def [symmetric] Some w(2)]
      show ?thesis by blast
    qed
  qed
  have "?T []" using walks_done order_done by blast
  then have "?T (ds @ [])" using one by (intro stack_induct [where T = ?T])
  then show ?thesis by simp
qed

text \<open>
  C24: over a directory tree that stands still and has no cycle, a client's loop over \<open>Next\<close> ends, given
  enough fuel, with whichever constructor the enumerator was made, and it has met exactly the paths of the
  tree it asked for: those in the root, or with a recursive search in any directory below it that can be
  opened and was not filtered out, that are of a wanted type, are not \<open>.\<close>, nor \<open>..\<close> unless that was asked
  for, and match the pattern if there is one.  They come directory by directory, in the order \<open>readdir\<close>
  delivers them.
\<close>

theorem walk_lists_the_tree:
  assumes "serves_tree (kernel e) L st" "proper_names L" "no_cycles L (st (SHOW_SYM_LINKS ft)) rank"
    "FileEnumerator root rec ft = Inr c \<or> FileEnumerator_pattern root rec ft pat = Inr c"
  shows "\<exists>N ps. (\<forall>k\<ge>N. \<exists>e'. walk_all fm k c e = Inr (ps, e')) \<and>
    set ps = walk_paths fm c L (st (SHOW_SYM_LINKS ft)) {root} \<and>
    walk_order fm c L (st (SHOW_SYM_LINKS ft)) [root] ps"
proof -
  have c: "file_type c = ft" "recursive c = rec" "pending_paths c = [root]" "directory_entries c = []"
    "\<not> (rec \<and> INCLUDE_DOT_DOT ft)"
    using assms(4) by (auto simp: FileEnumerator_def FileEnumerator_pattern_def bind_res_eq_Inr)
  obtain N ps where w: "walks (kernel e) fm c [root] N ps" "walk_order fm c L (st (SHOW_SYM_LINKS ft)) [root] ps"
    using walk_works_off [OF assms(1,2), of c rank fm "[root]"] assms(3) c by auto
  have "\<exists>e'. walk_all fm k c e = Inr (ps, e')" if n: "Suc N \<le> k" for k
  proof -
    obtain k' where k: "k = Suc k'" "N \<le> k'" using n by (cases k) auto
    let ?c = "c\<lparr>current_directory_entry := current_directory_entry c + 1\<rparr>"
    have "walk_all fm k c = walk_on fm k' k' ?c" by (simp add: k fun_eq_iff walk_on_def Next_def)
    moreover have "same_search c ?c" "pending_paths ?c = [root]" "length (directory_entries ?c) \<le> current_directory_entry ?c"
      using c by (simp_all add: same_search_def)
    ultimately show ?thesis using w(1) k(2) unfolding walks_def by metis
  qed
  then show ?thesis using w(2) walk_order_paths [OF w(2)] by (intro exI [of _ "Suc N"] exI [of _ ps]) simp
qed

text \<open>A tree with one directory in another.\<close>

definition small_tree :: listings where
  "small_tree = [''/s'' \<mapsto> [''.'', ''d'', ''x''], ''/s/d'' \<mapsto> [''y'']]"

definition small_stat :: "bool \<Rightarrow> file_path \<Rightarrow> stat" where
  "small_stat links p = zero_stat\<lparr>st_isdir := (p = ''/s/d'' \<or> p = ''/s/.'')\<rparr>"

definition tree_kernel :: "listings \<Rightarrow> (bool \<Rightarrow> file_path \<Rightarrow> stat) \<Rightarrow> syscall list \<Rightarrow> syscall \<Rightarrow> reply" where
  "tree_kernel L st h c = (case c of
     SysOpendir p \<Rightarrow> (empty_kernel h c)\<lparr>rp_ret := (if L p = None then 0 else 1)\<rparr>
   | SysReaddir p \<Rightarrow> (empty_kernel h c)\<lparr>rp_path := (case L p of None \<Rightarrow> []
       | Some ns \<Rightarrow> if readdirs p h < length ns then ns ! readdirs p h else [])\<rparr>
   | SysStat p \<Rightarrow> (empty_kernel h c)\<lparr>rp_stat := st False p\<rparr>
   | SysLstat p \<Rightarrow> (empty_kernel h c)\<lparr>rp_stat := st True p\<rparr>
   | _ \<Rightarrow> empty_kernel h c)"

lemma tree_kernel_serves: "serves_tree (tree_kernel L st) L st"
  by (auto simp: serves_tree_def tree_kernel_def empty_kernel_def Let_def)

lemma child_under:
  assumes "wf_path p" "p \<noteq> []" "last p \<noteq> sep" "p \<noteq> ''.''" "file_name n" "length p + length n + 1 < 2 ^ 63"
  shows "child p n = p @ sep # n \<and> BaseName (p @ sep # n) = n"
proof -
  have n: "n \<noteq> []" "sep \<notin> set n" "CHR 0x00 \<notin> set n" "wf_path n" "\<not> IsPathAbsolute n"
    using assms(5,6) by (cases n; auto simp: file_name_def wf_path_def IsPathAbsolute_def)+
  have "StripTrailingSeparatorsInternal p = p" using strip_segment [OF assms(2,3), of 0] by simp
  then have "Append p n = Inr (p @ sep # n)" using Append_stripped [OF assms(1) n(4,5) assms(4) n(1)] assms(2,3) by (simp add: Let_def)
  then have c: "child p n = p @ sep # n" by (simp add: child_def)
  have "wf_path (p @ sep # n)" using assms(1,6) n(3) by (auto simp: wf_path_def)
  then have "BaseName (p @ sep # n) = n"
    by (rule DirName_segment(2) [where q = p and m = "Suc 0" and n = 0]) (use n(1,2) assms(3) in simp_all)
  then show ?thesis using c by simp
qed

lemma small_paths:
  "child ''/s'' ''.'' = ''/s/.''" "child ''/s'' ''d'' = ''/s/d''" "child ''/s'' ''x'' = ''/s/x''" "child ''/s/d'' ''y'' = ''/s/d/y''"
  "BaseName ''/s/.'' = ''.''" "BaseName ''/s/d'' = ''d''" "BaseName ''/s/x'' = ''x''" "BaseName ''/s/d/y'' = ''y''"
  "StripTrailingSeparators ''/s'' = ''/s''" "StripTrailingSeparators ''/s/d'' = ''/s/d''"
  using child_under [of "''/s''" "''.''"] child_under [of "''/s''" "''d''"] child_under [of "''/s''" "''x''"]
    child_under [of "''/s/d''" "''y''"] strip_segment [of "''/s''" 0] strip_segment [of "''/s/d''" 0]
  by (simp_all add: wf_path_def file_name_def StripTrailingSeparators_def)

theorem walk_lists_the_tree_witness:
  "\<exists>c N ps. FileEnumerator ''/s'' True \<lparr>FILES = True, DIRECTORIES = False, INCLUDE_DOT_DOT = False, SHOW_SYM_LINKS = False\<rparr> = Inr c \<and>
     (\<forall>k\<ge>N. \<exists>e'. walk_all (\<lambda>_ _. False) k c \<lparr>kernel = tree_kernel small_tree small_stat, trace = [], errno = 0\<rparr> = Inr (ps, e')) \<and>
     {''/s/x'', ''/s/d/y''} \<subseteq> set ps"
proof -
  let ?ft = "\<lparr>FILES = True, DIRECTORIES = False, INCLUDE_DOT_DOT = False, SHOW_SYM_LINKS = False\<rparr>"
  let ?e = "\<lparr>kernel = tree_kernel small_tree small_stat, trace = [], errno = 0\<rparr>"
  have s: "serves_tree (kernel ?e) small_tree small_stat" using tree_kernel_serves by simp
  have p: "proper_names small_tree" by (auto simp: proper_names_def small_tree_def file_name_def split: if_splits)
  have n: "no_cycles small_tree (small_stat (SHOW_SYM_LINKS ?ft)) (\<lambda>p. if p = ''/s'' then 1 else 0)"
    by (auto simp: no_cycles_def small_tree_def small_stat_def small_paths zero_stat_def split: if_splits)
  obtain c where c: "FileEnumerator ''/s'' True ?ft = Inr c" "file_type c = ?ft" "recursive c" "pattern c = []"
    by (simp add: FileEnumerator_def)
  obtain N ps where w: "\<forall>k\<ge>N. \<exists>e'. walk_all (\<lambda>_ _. False) k c ?e = Inr (ps, e')"
    "set ps = walk_paths (\<lambda>_ _. False) c small_tree (small_stat (SHOW_SYM_LINKS ?ft)) {''/s''}"
    using walk_lists_the_tree [OF s p n disjI1 [OF c(1)], where fm = "\<lambda>_ _. False"] by blast
  let ?d = "walk_dir (\<lambda>_ _. False) c small_tree (small_stat (SHOW_SYM_LINKS ?ft)) {''/s''}"
  have k: "kept (\<lambda>_ _. False) c ''/s/d''" "kept (\<lambda>_ _. False) c ''/s/x''" "kept (\<lambda>_ _. False) c ''/s/d/y''"
    by (simp_all add: kept_def small_paths)
  have t: "small_tree ''/s'' = Some [''.'', ''d'', ''x'']" "small_tree ''/s/d'' = Some [''y'']" by (simp_all add: small_tree_def)
  have d: "?d ''/s''" using walk_root [of "''/s''" "{''/s''}"] small_paths(9) by simp
  have "?d ''/s/d''" using walk_sub [OF d t(1), of "''d''"] c(3) k(1) small_paths(2,10) by (simp add: small_stat_def)
  then have "''/s/d/y'' \<in> set ps" unfolding w(2) walk_paths_def using t(2) k(3) small_paths(4) c(2)
    by (intro CollectI exI [of _ "''/s/d''"] exI [of _ "[''y'']"] exI [of _ "''y''"]) (simp add: wanted_def small_stat_def zero_stat_def)
  moreover have "''/s/x'' \<in> set ps" unfolding w(2) walk_paths_def using d t(1) k(2) small_paths(3) c(2)
    by (intro CollectI exI [of _ "''/s''"] exI [of _ "[''.'', ''d'', ''x'']"] exI [of _ "''x''"])
      (simp add: wanted_def small_stat_def zero_stat_def)
  ultimately show ?thesis using c(1) w(1) by blast
qed

end
