(* ===== verification/FileLoops.thy ===== *)
theory FileLoops
  imports FileUtil FileTree
begin

text \<open>
  The loops of \<open>base/file_util.cc\<close> that end because the kernel comes to an end: \<open>CopyFile\<close> reads a file
  until \<open>read\<close> answers zero and writes every piece, and \<open>ComputeDirectorySize\<close> follows a directory walk.
  How much fuel is enough for each, and what the copy has written when it is done.
\<close>

section \<open>What has been read and written\<close>

text \<open>The number of bytes the calls so far read from a descriptor, and the bytes they wrote to one.\<close>

definition delivered :: "int \<Rightarrow> env \<Rightarrow> nat" where
  "delivered fd e = sum_list (map (\<lambda>(c, r). case c of SysRead d n \<Rightarrow> if d = fd then nat r else 0 | _ \<Rightarrow> 0) (answered e))"

definition written_to :: "int \<Rightarrow> env \<Rightarrow> byte list" where
  "written_to fd e = concat (map (\<lambda>(c, r). case c of SysWrite d bs \<Rightarrow> if d = fd then take (nat r) bs else [] | _ \<Rightarrow> []) (answered e))"

lemma delivered_after [simp]:
  "delivered fd (after (SysRead d n) e) = delivered fd e + (if d = fd then nat (rp_ret (answer (SysRead d n) e)) else 0)"
  "delivered fd (after (SysWrite d bs) e) = delivered fd e"
  by (simp_all add: delivered_def)

lemma written_to_after [simp]:
  "written_to fd (after (SysWrite d bs) e) = written_to fd e @ (if d = fd then take (nat (rp_ret (answer (SysWrite d bs) e))) bs else [])"
  "written_to fd (after (SysRead d n) e) = written_to fd e"
  by (simp_all add: written_to_def)

text \<open>
  A descriptor that holds some contents: a read delivers at most what it was asked for of what was not
  delivered yet, and nothing only where nothing is left.
\<close>

definition streams :: "(syscall list \<Rightarrow> syscall \<Rightarrow> reply) \<Rightarrow> int \<Rightarrow> byte list \<Rightarrow> bool" where
  "streams k fd content \<longleftrightarrow> (\<forall>e n. kernel e = k \<longrightarrow> 0 \<le> n \<longrightarrow>
     (let r = answer (SysRead fd n) e; rest = drop (delivered fd e) content
      in rp_ret r = int (length (rp_data r)) \<and> rp_ret r \<le> n \<and> rp_data r = take (length (rp_data r)) rest \<and>
         (rp_data r = [] \<longrightarrow> n = 0 \<or> rest = [])))"

section \<open>One transfer\<close>

lemma read_once:
  assumes "streams (kernel e) fd content" "0 \<le> n" "n \<le> sz" "sz < 2 ^ 31" "nat sz \<le> length mem"
  obtains bs e1 where
    "read_into fd sz n (mem, e) = Inr (int (length bs), splice_at mem (nat n) bs, e1)" "kernel e1 = kernel e"
    "delivered fd e1 = delivered fd e + length bs" "written_to g e1 = written_to g e"
    "int (length bs) \<le> sz - n" "bs = take (length bs) (drop (delivered fd e) content)"
    "bs = [] \<Longrightarrow> sz = n \<or> drop (delivered fd e) content = []"
proof -
  define c where "c = SysRead fd (sz - n)"
  define bs where "bs = rp_data (answer c e)"
  have r: "rp_ret (answer c e) = int (length bs)" "int (length bs) \<le> sz - n"
    "bs = take (length bs) (drop (delivered fd e) content)" "bs = [] \<Longrightarrow> sz = n \<or> drop (delivered fd e) content = []"
    using assms(1) [unfolded streams_def Let_def, rule_format, of e "sz - n"] assms(3) by (auto simp: bs_def c_def)
  have room: "nat n + length bs \<le> length mem" using r(2) assms(2,5) by linarith
  have to: "to_int32 (int (length bs)) = int (length bs)"
    using r(2) assms(2,4) by (intro to_int32_in) (simp add: in32)
  have "read_into fd sz n (mem, e) = Inr (int (length bs), splice_at mem (nat n) bs, after c e)"
    using room r(1) to unfolding read_into_def c_def [symmetric]
    by (simp add: Let_def store_reply_def bs_def [symmetric] c_def [symmetric])
  moreover have "delivered fd (after c e) = delivered fd e + length bs" "written_to g (after c e) = written_to g e"
    using r(1) by (simp_all add: c_def)
  ultimately show ?thesis using r(2-4) that [of bs "after c e"] by simp
qed

lemma read_loop:
  assumes "streams (kernel e) fd content" "0 \<le> n" "n \<le> sz" "sz < 2 ^ 31" "nat sz \<le> length mem" "n = 0 \<or> n < sz"
  shows "\<exists>e'. transfer_loop (read_into fd sz) sz n (mem, e) =
    Inr (n + int (length (take (nat (sz - n)) (drop (delivered fd e) content))),
         splice_at mem (nat n) (take (nat (sz - n)) (drop (delivered fd e) content)), e') \<and>
    kernel e' = kernel e \<and> written_to g e' = written_to g e \<and>
    delivered fd e' = delivered fd e + length (take (nat (sz - n)) (drop (delivered fd e) content))"
  using assms
proof (induction "nat (sz - n)" arbitrary: n mem e rule: less_induct)
  case less
  let ?rest = "\<lambda>e. drop (delivered fd e) content"
  obtain bs e1 where one: "read_into fd sz n (mem, e) = Inr (int (length bs), splice_at mem (nat n) bs, e1)"
      "kernel e1 = kernel e" "delivered fd e1 = delivered fd e + length bs" "written_to g e1 = written_to g e"
      "int (length bs) \<le> sz - n" "bs = take (length bs) (?rest e)" "bs = [] \<Longrightarrow> sz = n \<or> ?rest e = []"
    using read_once [OF less.prems(1-5), of g] by blast
  let ?m = "n + int (length bs)"
  define x where "x = take (nat (sz - ?m)) (?rest e1)"
  have "nat (sz - n) = length bs + nat (sz - ?m)" using one(5) by linarith
  then have slice: "take (nat (sz - n)) (?rest e) = bs @ x"
    using one(6) by (simp add: x_def one(3) take_add add.commute)
  have ck: "checked32 ?m = Inr ?m" using one(5) less.prems(2,4) by (simp add: in32)
  have nm: "nat ?m = nat n + length bs" using less.prems(2) by (simp add: nat_add_distrib)
  show ?case
  proof (cases "bs = [] \<or> \<not> ?m < sz")
    case True
    then have "x = []" using one(3,7) by (auto simp: x_def)
    then show ?thesis unfolding slice using one(1-4) ck True by (subst transfer_loop.simps) auto
  next
    case False
    then have lt: "nat (sz - ?m) < nat (sz - n)" "?m < sz" "bs \<noteq> []" by simp_all
    have room: "nat n + length bs \<le> length mem" using one(5) less.prems(2,5) by linarith
    obtain e' where e': "transfer_loop (read_into fd sz) sz ?m (splice_at mem (nat n) bs, e1) =
        Inr (?m + int (length x), splice_at (splice_at mem (nat n) bs) (nat ?m) x, e')" "kernel e' = kernel e1"
        "written_to g e' = written_to g e1" "delivered fd e' = delivered fd e1 + length x"
      using less.hyps [OF lt(1), of e1 "splice_at mem (nat n) bs"] one(2) less.prems room lt(2) unfolding x_def by auto
    have "length x \<le> nat (sz - ?m)" by (simp add: x_def)
    then have "nat n + length (bs @ x) \<le> length mem" using less.prems(2,5) lt(2) nm by simp
    then have "splice_at (splice_at mem (nat n) bs) (nat ?m) x = splice_at mem (nat n) (bs @ x)"
      using nm by (intro splice_at_splice_at) simp_all
    then show ?thesis
      unfolding slice using e' one(1-4) ck lt by (subst transfer_loop.simps) simp
  qed
qed

lemma write_loop:
  assumes "takes_some (kernel e) fd" "0 \<le> n" "n < sz" "sz < 2 ^ 31" "nat sz \<le> length data"
  shows "\<exists>e'. transfer_loop (write_from fd data sz) sz n e = Inr (sz, e') \<and> kernel e' = kernel e \<and>
    delivered g e' = delivered g e \<and> written_to fd e' = written_to fd e @ take (nat (sz - n)) (drop (nat n) data)"
  using assms
proof (induction "nat (sz - n)" arbitrary: n e rule: less_induct)
  case less
  let ?bs = "take (nat (sz - n)) (drop (nat n) data)"
  define c where "c = SysWrite fd ?bs"
  define rv where "rv = rp_ret (answer c e)"
  have len: "length ?bs = nat (sz - n)" using less.prems(2,3,5) by simp
  then have "length ?bs \<noteq> 0" using less.prems(3) by linarith
  then have "?bs \<noteq> []" by (metis list.size(3))
  then have "1 \<le> rv \<and> rv \<le> int (length ?bs)"
    using less.prems(1) unfolding takes_some_def rv_def c_def answer_def by blast
  then have rv: "1 \<le> rv" "rv \<le> sz - n" using less.prems(3) unfolding len by simp_all
  have to: "to_int32 rv = rv" using rv less.prems(2,4) by (intro to_int32_in) (simp add: in32)
  have "mem_read data (nat n) (nat (sz - n)) = Inr ?bs" using less.prems(2,3,5) by (intro mem_read_in) simp
  then have one: "write_from fd data sz n e = Inr (rv, after c e)"
    using to by (simp add: write_from_def Let_def c_def [symmetric] rv_def [symmetric])
  have w: "written_to fd (after c e) = written_to fd e @ take (nat rv) ?bs" "delivered g (after c e) = delivered g e"
    by (simp_all add: c_def rv_def)
  have ck: "checked32 (n + rv) = Inr (n + rv)" using rv less.prems(2,4) by (simp add: in32)
  show ?case
  proof (cases "n + rv < sz")
    case True
    have "nat (sz - (n + rv)) < nat (sz - n)" using rv True by simp
    from less.hyps [OF this, of "after c e"] obtain e' where
      e': "transfer_loop (write_from fd data sz) sz (n + rv) (after c e) = Inr (sz, e')" "kernel e' = kernel e"
        "delivered g e' = delivered g (after c e)"
        "written_to fd e' = written_to fd (after c e) @ take (nat (sz - (n + rv))) (drop (nat (n + rv)) data)"
      using less.prems rv True by auto
    have "nat (sz - n) = nat rv + nat (sz - (n + rv))" "nat (n + rv) = nat rv + nat n"
      using rv True less.prems(2) by linarith+
    moreover from this have "take (nat rv) ?bs = take (nat rv) (drop (nat n) data)" by (simp add: min.absorb1)
    ultimately have "take (nat rv) ?bs @ take (nat (sz - (n + rv))) (drop (nat (n + rv)) data) = ?bs"
      by (simp only: take_add drop_drop)
    then have "written_to fd e' = written_to fd e @ ?bs" using e'(4) w(1) by simp
    moreover have "transfer_loop (write_from fd data sz) sz n e = Inr (sz, e')"
      using one ck rv True e'(1) by (subst transfer_loop.simps) simp
    ultimately show ?thesis using e'(2,3) w(2) by auto
  next
    case False
    then have full: "n + rv = sz" "nat rv = nat (sz - n)" using rv by simp_all
    then have "transfer_loop (write_from fd data sz) sz n e = Inr (sz, after c e)"
      using one ck rv by (subst transfer_loop.simps) simp
    then show ?thesis using w full len by auto
  qed
qed

section \<open>Copying\<close>

text \<open>
  The loop of \<open>CopyFile\<close> answers true having written exactly what was left to read, in order, within as
  many rounds as bytes and two more, whatever pieces reads and writes come in.
\<close>

lemma copy_loop_copies:
  assumes "streams (kernel e) (file_fd infile) content" "takes_some (kernel e) (file_fd outfile)"
    "IsValid infile" "IsValid outfile" "0 < length mem" "length mem < 2 ^ 31"
    "length (drop (delivered (file_fd infile) e) content) + 2 \<le> fuel"
  shows "\<exists>e'. copy_loop fuel infile outfile mem e = Inr (True, e') \<and>
    written_to (file_fd outfile) e' = written_to (file_fd outfile) e @ drop (delivered (file_fd infile) e) content"
  using assms
proof (induction fuel arbitrary: mem e)
  case (Suc k)
  let ?i = "file_fd infile" and ?o = "file_fd outfile" and ?n = "int (length mem)"
  let ?rest = "drop (delivered ?i e) content"
  define x where "x = take (length mem) ?rest"
  obtain e1 where e1: "transfer_loop (read_into ?i ?n) ?n 0 (mem, e) = Inr (int (length x), splice_at mem 0 x, e1)"
      "kernel e1 = kernel e" "written_to ?o e1 = written_to ?o e" "delivered ?i e1 = delivered ?i e + length x"
    using read_loop [OF Suc.prems(1), of 0 ?n mem ?o] Suc.prems(5,6) by (auto simp: x_def)
  have "\<not> ?n < 0" by simp
  then have rd: "ReadAtCurrentPos infile mem ?n e = Inr ((int (length x), splice_at mem 0 x), e1)"
    using e1(1) Suc.prems(3) by (simp add: ReadAtCurrentPos_def io_bind_check with_buffer_def)
  show ?case
  proof (cases "x = []")
    case True
    then have "?rest = []" using Suc.prems(5) by (simp add: x_def)
    then show ?thesis using rd e1(3) True by simp
  next
    case False
    let ?b = "splice_at mem 0 x"
    have lx: "length x \<le> length mem" "length x < 2 ^ 31" using Suc.prems(6) by (auto simp: x_def)
    have b: "take (length x) ?b = x" "length x \<le> length ?b" "length ?b = length mem" using lx by (simp_all add: splice_at_0)
    obtain e2 where e2: "transfer_loop (write_from ?o ?b (int (length x))) (int (length x)) 0 e1 = Inr (int (length x), e2)"
        "kernel e2 = kernel e1" "delivered ?i e2 = delivered ?i e1" "written_to ?o e2 = written_to ?o e1 @ x"
      using write_loop [of e1 ?o 0 "int (length x)" ?b ?i] Suc.prems(2) e1(2) False lx(2) b by auto
    have "\<not> int (length x) < 0" by simp
    then have wr: "WriteAtCurrentPos outfile ?b (int (length x)) e1 = Inr (int (length x), e2)"
      using e2(1) Suc.prems(4) by (simp add: WriteAtCurrentPos_def io_bind_check)
    have left: "drop (delivered ?i e2) content = drop (length x) ?rest" using e2(3) e1(4) by (simp add: add.commute)
    obtain j where j: "k = Suc j" using Suc.prems(7) by (cases k) auto
    have out: "copy_out_loop k outfile ?b (int (length x)) 0 e1 = Inr (True, e2)" using wr by (simp add: j)
    have "0 < length x" using False by simp
    moreover have "length ?rest = length x + length (drop (delivered ?i e2) content)" by (simp add: left x_def)
    ultimately have "length (drop (delivered ?i e2) content) + 2 \<le> k" using Suc.prems(7) by linarith
    then obtain e' where e': "copy_loop k infile outfile ?b e2 = Inr (True, e')"
        "written_to ?o e' = written_to ?o e2 @ drop (delivered ?i e2) content"
      using Suc.IH [of e2 ?b] Suc.prems e1(2) e2(2) b(3) by auto
    have "x = take (length x) ?rest" by (simp add: x_def min_def)
    then have "x @ drop (length x) ?rest = ?rest" by (metis append_take_drop_id)
    then have "written_to ?o e' = written_to ?o e @ ?rest" using e'(2) e2(4) e1(3) left by simp
    moreover have "copy_loop (Suc k) infile outfile mem e = Inr (True, e')" using rd out e'(1) False by simp
    ultimately show ?thesis by blast
  qed
qed simp

section \<open>Directory sizes\<close>

text \<open>Where a client's walk ends, adding up the sizes takes no more fuel: a tree that stands still gives enough.\<close>

lemma size_loop_ends:
  "walk_all (\<lambda>_ _. False) fuel en e = Inr (ps, e') \<Longrightarrow> size_loop fuel en sofar e \<noteq> Inl OutOfFuel"
proof (induction fuel arbitrary: en e ps e' sofar)
  case (Suc k)
  obtain p en' e1 where n: "Next (\<lambda>_ _. False) k en e = Inr ((p, en'), e1)"
    using Suc.prems by (cases "Next (\<lambda>_ _. False) k en e") (auto simp: io_bind_apply)
  show ?case
  proof (cases "p = []")
    case False
    then obtain qs e2 where "walk_all (\<lambda>_ _. False) k en' e1 = Inr (qs, e2)"
      using Suc.prems n by (cases "walk_all (\<lambda>_ _. False) k en' e1") (auto simp: io_bind_apply)
    then have "size_loop k en' s e1 \<noteq> Inl OutOfFuel" for s by (rule Suc.IH)
    then show ?thesis using n False
      by (cases "GetInfo_entry en'") (auto simp: io_bind_apply io_lift_def checked_def GetInfo_entry_def array_get_def split: sum.splits if_splits)
  qed (use n in simp)
qed simp

end
