(* ===== verification/MakeDirs.thy ===== *)
theory MakeDirs
  imports FileUtil
begin

text \<open>
  \<open>CreateDirectoryAndGetError\<close> of \<open>base/file_util.cc\<close> over a file system as POSIX describes it, without
  links: a directory is known by the names that lead to it from the root, a path is resolved name by name
  from the root or from the working directory, and \<open>mkdir\<close> needs the directory it is to be made in.
\<close>

section \<open>Directories and how paths lead to them\<close>

type_synonym node = "string list"

definition enter_name :: "node \<Rightarrow> string \<Rightarrow> node" where
  "enter_name d n = (if n = ''.'' then d else if n = ''..'' then butlast d else d @ [n])"

text \<open>Resolving names: every directory on the way has to be there.\<close>

primrec resolve :: "node set \<Rightarrow> node \<Rightarrow> string list \<Rightarrow> node option" where
  "resolve D d [] = (if d \<in> D then Some d else None)"
| "resolve D d (n # ns) = (if d \<in> D then resolve D (enter_name d n) ns else None)"

definition start_at :: "node \<Rightarrow> file_path \<Rightarrow> node" where
  "start_at cwd p = (if IsAbsolute p then [] else cwd)"

text \<open>The directories a path passes through, itself included.\<close>

primrec visits :: "node \<Rightarrow> string list \<Rightarrow> node set" where
  "visits d [] = {d}"
| "visits d (n # ns) = insert d (visits (enter_name d n) ns)"

text \<open>
  The directory \<open>mkdir\<close> makes: the last name, which is neither \<open>.\<close> nor \<open>..\<close>, where the names before it lead,
  unless it is there.
\<close>

definition made_by :: "node \<Rightarrow> node set \<Rightarrow> file_path \<Rightarrow> node option" where
  "made_by cwd D p =
     (if segments p = [] \<or> last (segments p) = ''.'' \<or> last (segments p) = ''..'' then None
      else case resolve D (start_at cwd p) (butlast (segments p)) of
        None \<Rightarrow> None
      | Some d \<Rightarrow> if d @ [last (segments p)] \<in> D then None else Some (d @ [last (segments p)]))"

definition dir_step :: "node \<Rightarrow> node set \<Rightarrow> syscall \<Rightarrow> node set" where
  "dir_step cwd D c = (case c of
     SysMkdir p mode \<Rightarrow> (case made_by cwd D p of None \<Rightarrow> D | Some d \<Rightarrow> insert d D)
   | _ \<Rightarrow> D)"

definition dirs_after :: "node \<Rightarrow> node set \<Rightarrow> syscall list \<Rightarrow> node set" where
  "dirs_after cwd D cs = foldl (dir_step cwd) D cs"

definition quiet :: "syscall list \<Rightarrow> bool" where
  "quiet cs \<longleftrightarrow> (\<forall>c \<in> set cs. case c of SysStat p \<Rightarrow> True | SysMkdir p mode \<Rightarrow> True | _ \<Rightarrow> False)"

text \<open>The limits of Linux on paths and names; a path within them is one the kernel looks up.\<close>

definition short_path :: "file_path \<Rightarrow> bool" where
  "short_path p \<longleftrightarrow> CHR 0x00 \<notin> set p \<and> length p < 4096 \<and> (\<forall>n \<in> set (segments p). length n \<le> 255)"

text \<open>
  The file system from now on: \<open>D\<close> are its directories, and while this process does nothing but \<open>stat\<close> and
  \<open>mkdir\<close> and nobody else changes it, \<open>stat\<close> finds what a path leads to, the empty path leading nowhere, and
  \<open>mkdir\<close> makes what can be made and otherwise fails.
\<close>

definition posix_dirs :: "node \<Rightarrow> node set \<Rightarrow> env \<Rightarrow> bool" where
  "posix_dirs cwd D e \<longleftrightarrow> cwd \<in> D \<and> (\<forall>d \<in> D. butlast d \<in> D) \<and>
     (\<forall>cs p mode. quiet cs \<and> short_path p \<longrightarrow>
        (let h = trace e @ cs; S = dirs_after cwd D cs in
         (rp_ret (kernel e h (SysStat p)) = 0 \<and> st_isdir (rp_stat (kernel e h (SysStat p))) \<longleftrightarrow>
            p \<noteq> [] \<and> resolve S (start_at cwd p) (segments p) \<noteq> None) \<and>
         rp_ret (kernel e h (SysMkdir p mode)) = (if made_by cwd S p = None then - 1 else 0) \<and>
         (p = [] \<longrightarrow> rp_errno (kernel e h (SysMkdir p mode)) = ENOENT)))"

section \<open>Resolving\<close>

definition closed_dirs :: "node set \<Rightarrow> bool" where
  "closed_dirs D \<longleftrightarrow> (\<forall>d \<in> D. butlast d \<in> D)"

lemma closed_root: "closed_dirs D \<Longrightarrow> d \<in> D \<Longrightarrow> [] \<in> D"
  by (induction "length d" arbitrary: d) (auto simp: closed_dirs_def, metis length_butlast diff_Suc_1)

lemma resolve_visits: "visits d ns \<subseteq> D \<Longrightarrow> resolve D d ns = Some (foldl enter_name d ns)"
  by (induction ns arbitrary: d) auto

lemma visits_snoc: "visits d (ns @ [n]) = insert (enter_name (foldl enter_name d ns) n) (visits d ns)"
  by (induction ns arbitrary: d) auto

lemma resolve_snoc:
  "visits d ns \<subseteq> D \<Longrightarrow> resolve D d (ns @ [n]) =
     (if enter_name (foldl enter_name d ns) n \<in> D then Some (enter_name (foldl enter_name d ns) n) else None)"
  by (induction ns arbitrary: d) auto

lemma visits_end: "foldl enter_name d ns \<in> visits d ns"
  by (induction ns arbitrary: d) auto

lemma visits_start: "d \<in> visits d ns"
  by (cases ns) auto

lemma dirs_after_simps [simp]:
  "dirs_after cwd D [] = D"
  "dirs_after cwd D (cs @ [c]) = dir_step cwd (dirs_after cwd D cs) c"
  by (simp_all add: dirs_after_def)

lemma made_by_closed: "closed_dirs D \<Longrightarrow> made_by cwd D p = Some d \<Longrightarrow> closed_dirs (insert d D)"
proof -
  have r: "resolve D d ns = Some d' \<Longrightarrow> d' \<in> D" for d ns d'
    by (induction ns arbitrary: d) (auto split: if_splits)
  assume "closed_dirs D" "made_by cwd D p = Some d"
  then show ?thesis by (auto simp: made_by_def closed_dirs_def split: if_splits option.splits dest: r)
qed

lemma dirs_after_closed: "closed_dirs D \<Longrightarrow> closed_dirs (dirs_after cwd D cs) \<and> D \<subseteq> dirs_after cwd D cs"
proof (induction cs rule: rev_induct)
  case (snoc c cs)
  then show ?case
    using made_by_closed [of "dirs_after cwd D cs" cwd]
    by (cases c) (auto simp: dir_step_def split: option.splits)
qed simp

text \<open>What \<open>DirName\<close> means for the names of a path.\<close>

lemma DirName_names:
  assumes "wf_path p" "p \<noteq> []"
  shows "DirName p \<noteq> [] \<and> wf_path (DirName p) \<and> length (DirName p) \<le> length p \<and> IsAbsolute (DirName p) = IsAbsolute p \<and>
    (segments p = [] \<and> segments (DirName p) = [] \<or>
     (\<exists>s. segments p = segments (DirName p) @ [s]) \<or>
     (\<exists>s. segments p = [s] \<and> segments (DirName p) = [''.'']))"
proof (cases p rule: path_cases)
  case (all_seps n)
  then have n: "0 < n" "n < 2 ^ 63" using assms by (auto simp: wf_path_def)
  then have "0 < stripped_root n" "stripped_root n < 2 ^ 63" "stripped_root n \<le> n" by (auto simp: stripped_root_def)
  moreover have "IsAbsolute (seps k)" if "0 < k" for k
    using that by (cases k) (auto simp: IsAbsolute_def IsPathAbsolute_def)
  ultimately show ?thesis using DirName_seps(1) [OF n(2)] n all_seps by simp
next
  case (segment q m s n)
  note d = DirName_segment(1) [OF assms(1) segment]
  note sg = segments_segment [OF segment(2,3,5), of n, folded segment(1)]
  show ?thesis
  proof (cases "q = []")
    case False
    then have "IsAbsolute q = IsAbsolute p" "wf_path q" using segment assms(1)
      by (cases q; auto simp: IsAbsolute_def IsPathAbsolute_def wf_path_def)+
    moreover have "length q \<le> length p" using segment(1) by simp
    ultimately show ?thesis using d sg False by simp
  next
    case q: True
    show ?thesis
    proof (cases "m = 0")
      case True
      then have "DirName p = ''.''" "segments p = [s]" using d sg q by simp_all
      moreover have "\<not> IsAbsolute p" using segment q True by (cases s) (auto simp: IsAbsolute_def IsPathAbsolute_def)
      moreover have "\<not> IsAbsolute ''.''" by (simp add: IsAbsolute_def IsPathAbsolute_def)
      moreover have "length ''.'' \<le> length p" using assms(2) by (cases p) auto
      ultimately show ?thesis using segments_dot by (simp add: wf_path_def)
    next
      case False
      then obtain m' where m: "m = Suc m'" by (cases m) auto
      have k: "root_before m = 1 \<or> root_before m = 2" using False by (auto simp: root_before_def)
      then have "DirName p = seps (root_before m)" "segments p = [s]" using d sg q False by simp_all
      moreover have "IsAbsolute p" using segment q m by (simp add: IsAbsolute_def IsPathAbsolute_def)
      moreover have "IsAbsolute (seps (root_before m))" using k by (auto simp: IsAbsolute_def IsPathAbsolute_def numeral_2_eq_2)
      moreover have "wf_path (seps (root_before m))" using k by (auto intro: wf_seps)
      moreover have "root_before m \<le> length p" using k segment(1) m by (auto simp: root_before_def split: if_splits)
      ultimately show ?thesis using k by auto
    qed
  qed
qed

lemma short_DirName:
  assumes "short_path p" "p \<noteq> []"
  shows "short_path (DirName p)"
proof -
  have "wf_path p" using assms(1) by (auto simp: short_path_def wf_path_def)
  from DirName_names [OF this assms(2)] show ?thesis using assms(1) by (auto simp: short_path_def wf_path_def)
qed

section \<open>The loop\<close>

definition later :: "env \<Rightarrow> syscall list \<Rightarrow> env \<Rightarrow> bool" where
  "later e cs e' \<longleftrightarrow> kernel e' = kernel e \<and> trace e' = trace e @ cs \<and> quiet cs"

lemma later_after:
  "later e cs e' \<Longrightarrow> later e (cs @ [SysStat p]) (after (SysStat p) e')"
  "later e cs e' \<Longrightarrow> later e (cs @ [SysMkdir p m]) (after (SysMkdir p m) e')"
  by (auto simp: later_def quiet_def)

lemma later_errno: "later e cs e' \<Longrightarrow> later e cs (e'\<lparr>errno := n\<rparr>)"
  by (simp add: later_def)

lemma posix_stat:
  assumes "posix_dirs cwd D e" "later e cs e'" "short_path p"
  shows "DirectoryExists p e' = Inr (p \<noteq> [] \<and> resolve (dirs_after cwd D cs) (start_at cwd p) (segments p) \<noteq> None, after (SysStat p) e')"
proof -
  have "rp_ret (answer (SysStat p) e') = 0 \<and> st_isdir (rp_stat (answer (SysStat p) e')) \<longleftrightarrow>
      p \<noteq> [] \<and> resolve (dirs_after cwd D cs) (start_at cwd p) (segments p) \<noteq> None"
    using assms unfolding posix_dirs_def later_def answer_def Let_def by metis
  then show ?thesis by (auto simp: DirectoryExists_def CallStat_def io_bind_apply)
qed

lemma posix_mkdir:
  assumes "posix_dirs cwd D e" "later e cs e'" "short_path p"
  shows "rp_ret (answer (SysMkdir p m) e') = (if made_by cwd (dirs_after cwd D cs) p = None then - 1 else 0)"
    "p = [] \<Longrightarrow> rp_errno (answer (SysMkdir p m) e') = ENOENT"
  using assms unfolding posix_dirs_def later_def answer_def Let_def by metis+

lemma dir_step_simps [simp]:
  "dir_step cwd S (SysStat p) = S"
  "dir_step cwd S (SysMkdir p m) = (case made_by cwd S p of None \<Rightarrow> S | Some d \<Rightarrow> insert d S)"
  by (simp_all add: dir_step_def)

lemma make_directories_append:
  "make_directories (xs @ ys) e = (case make_directories xs e of
     Inr ((True, None), e') \<Rightarrow> make_directories ys e' | r \<Rightarrow> r)"
proof (induction xs arbitrary: e)
  case (Cons x xs)
  show ?case by (simp add: io_bind_apply Cons.IH split: sum.splits)
qed simp

text \<open>One directory whose parent is there: it is there afterwards, and nothing else changes.\<close>

lemma make_one:
  assumes "posix_dirs cwd D e" "later e cs e'" "short_path p" "p \<noteq> []"
    "S = dirs_after cwd D cs" "visits (start_at cwd p) (butlast (segments p)) \<subseteq> S"
  shows "\<exists>cs' e''. make_directories [p] e' = Inr ((True, None), e'') \<and> later e (cs @ cs') e'' \<and>
    dirs_after cwd D (cs @ cs') = S \<union> visits (start_at cwd p) (segments p)"
proof -
  let ?b = "butlast (segments p)" let ?s = "start_at cwd p"
  let ?cur = "foldl enter_name ?s ?b"
  have cur: "?cur \<in> S" "?s \<in> S" using assms(6) visits_end visits_start by blast+
  have cl: "closed_dirs S" using dirs_after_closed [of D cwd cs] assms(1,5) by (simp add: posix_dirs_def closed_dirs_def)
  note st = posix_stat [OF assms(1-3), folded assms(5)]
  show ?thesis
  proof (cases "segments p = []")
    case True
    then have "make_directories [p] e' = Inr ((True, None), after (SysStat p) e')" using st assms(4) cur(2) by (simp add: io_bind_apply)
    moreover have "dirs_after cwd D (cs @ [SysStat p]) = S \<union> visits ?s (segments p)" using True cur(2) assms(5) by auto
    ultimately show ?thesis using later_after(1) [OF assms(2)] by blast
  next
    case False
    define n where "n = last (segments p)"
    have seg: "segments p = ?b @ [n]" using False by (simp add: n_def)
    let ?d = "enter_name ?cur n"
    have v: "visits ?s (segments p) = insert ?d (visits ?s ?b)" by (subst seg) (rule visits_snoc)
    have r: "resolve S ?s (segments p) = (if ?d \<in> S then Some ?d else None)" by (subst seg) (rule resolve_snoc [OF assms(6)])
    show ?thesis
    proof (cases "?d \<in> S")
      case True
      then have "make_directories [p] e' = Inr ((True, None), after (SysStat p) e')" using st r assms(4) by (simp add: io_bind_apply)
      moreover have "dirs_after cwd D (cs @ [SysStat p]) = S \<union> visits ?s (segments p)" using True v assms(5,6) by auto
      ultimately show ?thesis using later_after(1) [OF assms(2)] by blast
    next
      case new: False
      then have n: "n \<noteq> ''.''" "n \<noteq> ''..''" using cur(1) cl by (auto simp: enter_name_def closed_dirs_def)
      let ?e = "after (SysStat p) e'"
      have l: "later e (cs @ [SysStat p]) ?e" by (rule later_after [OF assms(2)])
      have S: "dirs_after cwd D (cs @ [SysStat p]) = S" using assms(5) by simp
      have made: "made_by cwd S p = Some ?d"
        using False n new resolve_visits [OF assms(6)] by (simp add: made_by_def n_def [symmetric] enter_name_def)
      have "rp_ret (answer (SysMkdir p 448) ?e) = 0" using posix_mkdir(1) [OF assms(1) l assms(3)] made S by simp
      then have "make_directories [p] e' = Inr ((True, None), after (SysMkdir p 448) ?e)"
        using st r new by (simp add: io_bind_apply)
      moreover have "later e ((cs @ [SysStat p]) @ [SysMkdir p 448]) (after (SysMkdir p 448) ?e)" by (rule later_after [OF l])
      moreover have "dirs_after cwd D ((cs @ [SysStat p]) @ [SysMkdir p 448]) = S \<union> visits ?s (segments p)"
        using S made v assms(6) by (simp only: dirs_after_simps(2)) auto
      ultimately show ?thesis by (metis append_assoc)
    qed
  qed
qed

lemma make_ancestors:
  assumes "posix_dirs cwd D e" "short_path p" "p \<noteq> []" "later e cs e'"
  shows "\<exists>cs' e''. make_directories (rev (p # ancestors p)) e' = Inr ((True, None), e'') \<and> later e (cs @ cs') e'' \<and>
    dirs_after cwd D (cs @ cs') = dirs_after cwd D cs \<union> visits (start_at cwd p) (segments p)"
  using assms(2,3)
proof (induction p rule: ancestors.induct)
  case (1 p)
  define d where "d = DirName p"
  have wf: "wf_path p" using 1 by (auto simp: short_path_def wf_path_def)
  note d = DirName_names [OF wf 1(3), folded d_def]
  have start: "start_at cwd d = start_at cwd p" using d by (simp add: start_at_def)
  have st: "start_at cwd p \<in> dirs_after cwd D cs"
    using dirs_after_closed [of D cwd cs] closed_root [of D cwd] assms(1) by (auto simp: posix_dirs_def closed_dirs_def start_at_def)
  have b: "visits (start_at cwd p) (butlast (segments p)) \<subseteq> visits (start_at cwd p) (segments d)" if "d \<noteq> p"
    using d visits_start by (auto simp: enter_name_def)
  show ?case
  proof (cases "d = p")
    case True
    then have "segments p = [] \<or> segments p = [''.'']" using d by auto
    then have "visits (start_at cwd p) (butlast (segments p)) \<subseteq> dirs_after cwd D cs" using st by auto
    then show ?thesis using make_one [OF assms(1,4) 1(2,3) refl] True by (simp add: ancestors.simps [of p] d_def)
  next
    case False
    have a: "rev (p # ancestors p) = rev (d # ancestors d) @ [p]" using False by (simp add: ancestors.simps [of p] d_def Let_def)
    obtain cs1 e1 where i: "make_directories (rev (d # ancestors d)) e' = Inr ((True, None), e1)" "later e (cs @ cs1) e1"
      "dirs_after cwd D (cs @ cs1) = dirs_after cwd D cs \<union> visits (start_at cwd d) (segments d)"
      using 1(1) [folded d_def, OF refl False] short_DirName [OF 1(2,3)] d unfolding d_def by blast
    have "visits (start_at cwd p) (butlast (segments p)) \<subseteq> dirs_after cwd D (cs @ cs1)" using b [OF False] i(3) start by auto
    from make_one [OF assms(1) i(2) 1(2,3) refl this]
    obtain cs2 e2 where j: "make_directories [p] e1 = Inr ((True, None), e2)" "later e (cs @ cs1 @ cs2) e2"
      "dirs_after cwd D (cs @ cs1 @ cs2) = dirs_after cwd D (cs @ cs1) \<union> visits (start_at cwd p) (segments p)"
      by auto
    have "visits (start_at cwd p) (segments d) \<subseteq> dirs_after cwd D cs \<union> visits (start_at cwd p) (segments p)"
      using d st visits_start by (auto simp: visits_snoc enter_name_def)
    then have "dirs_after cwd D (cs @ cs1 @ cs2) = dirs_after cwd D cs \<union> visits (start_at cwd p) (segments p)"
      using j(3) i(3) start by auto
    moreover have "make_directories (rev (p # ancestors p)) e' = Inr ((True, None), e2)"
      unfolding a make_directories_append i(1) using j(1) by simp
    ultimately show ?thesis using j(2) by blast
  qed
qed

lemma make_directories_returns: "\<exists>ok err e'. make_directories ds e = Inr ((ok, err), e') \<and> (ok \<longleftrightarrow> err = None)"
proof (induction ds arbitrary: e)
  case (Cons d ds)
  have x: "\<exists>b e1. DirectoryExists d e = Inr (b, e1)" for e by (simp add: DirectoryExists_def CallStat_def)
  obtain b e1 where b: "DirectoryExists d e = Inr (b, e1)" using x by blast
  obtain b' e2 where b': "DirectoryExists d (after (SysMkdir d 448) e1) = Inr (b', e2)" using x by blast
  show ?case using Cons.IH b b' by (simp add: io_bind_apply)
qed auto

text \<open>
  C37: \<open>CreateDirectoryAndGetError\<close> always ends, whatever the kernel answers, with an error exactly when it
  fails.  Over a POSIX file system of directories it succeeds for every path but the empty one, absolute or
  relative, with \<open>.\<close>, \<open>..\<close> and runs of separators anywhere in it: afterwards the directories are those of
  before and every one the path passes through, itself included, and no other.  The empty path fails as
  not found, and nothing is made.
\<close>

theorem create_directory_makes_ancestors:
  assumes "posix_dirs cwd D e" "short_path p"
  shows "(\<exists>ok err e'. CreateDirectoryAndGetError q u = Inr ((ok, err), e') \<and> (ok \<longleftrightarrow> err = None)) \<and>
    (\<exists>r e' cs. CreateDirectoryAndGetError p e = Inr (r, e') \<and> trace e' = trace e @ cs \<and> quiet cs \<and>
      (if p = [] then r = (False, Some FILE_ERROR_NOT_FOUND) \<and> dirs_after cwd D cs = D
       else r = (True, None) \<and> dirs_after cwd D cs = D \<union> visits (start_at cwd p) (segments p)))"
proof
  show "\<exists>ok err e'. CreateDirectoryAndGetError q u = Inr ((ok, err), e') \<and> (ok \<longleftrightarrow> err = None)"
    unfolding CreateDirectoryAndGetError_def by (rule make_directories_returns)
  have l: "later e [] e" by (simp add: later_def quiet_def)
  show "\<exists>r e' cs. CreateDirectoryAndGetError p e = Inr (r, e') \<and> trace e' = trace e @ cs \<and> quiet cs \<and>
      (if p = [] then r = (False, Some FILE_ERROR_NOT_FOUND) \<and> dirs_after cwd D cs = D
       else r = (True, None) \<and> dirs_after cwd D cs = D \<union> visits (start_at cwd p) (segments p))"
  proof (cases "p = []")
    case False
    then show ?thesis using make_ancestors [OF assms(1,2) False l]
      by (auto simp: CreateDirectoryAndGetError_def later_def)
  next
    case True
    let ?dot = "''.'' :: file_path"
    have dot: "short_path ?dot" "?dot \<noteq> []" by (simp_all add: short_path_def segments_dot)
    have "DirName ?dot = ?dot" using DirName_segment(1) [of ?dot "[]" 0 ?dot 0] by (simp add: wf_path_def)
    moreover have "DirName [] = ?dot" using DirName_seps(1) [of 0] by simp
    ultimately have a: "rev (p # ancestors p) = [?dot] @ [[]]" "ancestors ?dot = []"
      using True by (simp_all add: ancestors.simps [of "[]"] ancestors.simps [of ?dot])
    have "cwd \<in> D" using assms(1) by (simp add: posix_dirs_def)
    then have v: "visits (start_at cwd ?dot) (segments ?dot) \<subseteq> D"
      by (simp add: segments_dot start_at_def IsAbsolute_def IsPathAbsolute_def enter_name_def)
    obtain cs1 e1 where m: "make_directories [?dot] e = Inr ((True, None), e1)" "later e cs1 e1" "dirs_after cwd D cs1 = D"
      using make_ancestors [OF assms(1) dot l] v a(2) by auto
    have nil: "short_path []" by (simp add: short_path_def)
    let ?e2 = "after (SysStat []) e1" let ?e3 = "after (SysMkdir [] 448) ?e2"
    have l2: "later e (cs1 @ [SysStat []]) ?e2" by (rule later_after [OF m(2)])
    have l3: "later e ((cs1 @ [SysStat []]) @ [SysMkdir [] 448]) ?e3" by (rule later_after [OF l2])
    have no: "made_by cwd S [] = None" for S by (simp add: made_by_def)
    have mk: "rp_ret (answer (SysMkdir [] 448) ?e2) = - 1" "rp_errno (answer (SysMkdir [] 448) ?e2) = ENOENT"
      using posix_mkdir [OF assms(1) l2 nil] no by simp_all
    then have "errno ?e3 = ENOENT" by (simp add: after_def)
    moreover have "OSErrorToFileError ENOENT = FILE_ERROR_NOT_FOUND" by (simp add: OSErrorToFileError_def errnos)
    ultimately have r: "make_directories [[]] e1 = Inr ((False, Some FILE_ERROR_NOT_FOUND), after (SysStat []) ?e3)"
      using posix_stat [OF assms(1) m(2) nil] posix_stat [OF assms(1) l3 nil] mk(1) by (simp add: io_bind_apply)
    have l4: "later e (((cs1 @ [SysStat []]) @ [SysMkdir [] 448]) @ [SysStat []]) (after (SysStat []) ?e3)" by (rule later_after [OF l3])
    have "dirs_after cwd D (((cs1 @ [SysStat []]) @ [SysMkdir [] 448]) @ [SysStat []]) = D"
      using m(3) no by (simp only: dirs_after_simps(2) dir_step_simps option.case)
    moreover have "CreateDirectoryAndGetError p e = Inr ((False, Some FILE_ERROR_NOT_FOUND), after (SysStat []) ?e3)"
      unfolding CreateDirectoryAndGetError_def a(1) make_directories_append m(1) using r by simp
    ultimately show ?thesis using l4 True unfolding later_def by metis
  qed
qed

definition posix_kernel :: "node \<Rightarrow> node set \<Rightarrow> syscall list \<Rightarrow> syscall \<Rightarrow> reply" where
  "posix_kernel cwd D h c = (empty_kernel h c)
     \<lparr>rp_ret := (case c of SysMkdir p m \<Rightarrow> if made_by cwd (dirs_after cwd D h) p = None then - 1 else 0 | _ \<Rightarrow> 0),
      rp_errno := ENOENT,
      rp_stat := zero_stat\<lparr>st_isdir := (case c of
        SysStat p \<Rightarrow> p \<noteq> [] \<and> resolve (dirs_after cwd D h) (start_at cwd p) (segments p) \<noteq> None | _ \<Rightarrow> False)\<rparr>\<rparr>"

theorem create_directory_makes_ancestors_witness:
  "\<exists>e' cs. CreateDirectoryAndGetError ''/a/b/.'' \<lparr>kernel = posix_kernel [] {[]}, trace = [], errno = 0\<rparr> =
      Inr ((True, None), e') \<and> trace e' = cs \<and> dirs_after [] {[]} cs = {[], [''a''], [''a'', ''b'']}"
proof -
  let ?e = "\<lparr>kernel = posix_kernel [] {[]}, trace = [], errno = 0\<rparr>"
  have k: "posix_dirs [] {[]} ?e" by (auto simp: posix_dirs_def posix_kernel_def empty_kernel_def Let_def zero_stat_def)
  have s: "segments ''/a/b/.'' = [''a'', ''b'', ''.'']" by code_simp
  then have p: "short_path ''/a/b/.''" by (simp add: short_path_def)
  have v: "{[]} \<union> visits (start_at [] ''/a/b/.'') (segments ''/a/b/.'') = {[], [''a''], [''a'', ''b'']}"
    unfolding s by (auto simp: start_at_def IsAbsolute_def IsPathAbsolute_def enter_name_def)
  from conjunct2 [OF create_directory_makes_ancestors [OF k p, of "[]" ?e], unfolded v] show ?thesis by fastforce
qed

end
