(* ===== verification/DirReader.thy ===== *)
theory DirReader
  imports FileUtil
begin

text \<open>
  \<open>base/dir_reader.h\<close>: reading a directory through \<open>getdents64\<close>.  The reader is its descriptor, the 512
  bytes of its buffer and the two offsets; a record of the kernel is read where the code's struct lays it:
  the length in the bytes 16 and 17, the name from byte 19 on.
\<close>

section \<open>The reader\<close>

record dir_reader =
  reader_fd :: int
  reader_buf :: "byte list"
  reader_offset :: nat
  reader_size :: nat

definition O_DIRECTORY :: int where "O_DIRECTORY = 65536"

definition DirReader_new :: "string \<Rightarrow> dir_reader io" where
  "DirReader_new directory_path =
     io_bind (sys_ret (SysOpen directory_path (O_RDONLY OR O_DIRECTORY) 0)) (\<lambda>fd.
       io_return \<lparr>reader_fd = fd, reader_buf = replicate 512 0, reader_offset = 0, reader_size = 0\<rparr>)"

definition DirReader_destroy :: "dir_reader \<Rightarrow> unit io" where
  "DirReader_destroy r =
     (if reader_fd r \<ge> 0 then io_bind (ignore_eintr (sys_ret (SysClose (reader_fd r)))) (\<lambda>_. io_return ())
      else io_return ())"

definition reader_IsValid :: "dir_reader \<Rightarrow> bool" where
  "reader_IsValid r \<longleftrightarrow> reader_fd r \<ge> 0"

definition d_reclen :: "byte list \<Rightarrow> nat \<Rightarrow> nat res" where
  "d_reclen m i = bind_res (mem_read m (i + 16) 2) (\<lambda>bs. Inr (unat (bs ! 0) + 256 * unat (bs ! 1)))"

definition Reader_Next :: "dir_reader \<Rightarrow> (bool \<times> dir_reader) io" where
  "Reader_Next r =
     io_bind (if reader_size r \<noteq> 0
              then io_bind (io_lift (d_reclen (reader_buf r) (reader_offset r))) (\<lambda>n.
                   io_return (r\<lparr>reader_offset := reader_offset r + n\<rparr>))
              else io_return r) (\<lambda>r.
     if reader_offset r \<noteq> reader_size r then io_return (True, r)
     else io_bind (sys (SysGetdents (reader_fd r) 512)) (\<lambda>rep.
          io_bind (io_lift (store_reply rep (reader_buf r) 0)) (\<lambda>m.
          let r = r\<lparr>reader_buf := m\<rparr>
          in if rp_ret rep = 0 then io_return (False, r)
             else if rp_ret rep = - 1 then io_return (False, r)
             else io_return (True, r\<lparr>reader_size := to_size (rp_ret rep), reader_offset := 0\<rparr>))))"

text \<open>A C string in memory ends at its first zero byte; none before the end of the object is a fault.\<close>

definition c_string_at :: "byte list \<Rightarrow> nat \<Rightarrow> byte list res" where
  "c_string_at m i = (if 0 \<in> set (drop i m) then Inr (takeWhile (\<lambda>b. b \<noteq> 0) (drop i m)) else Inl OutOfBounds)"

definition reader_name :: "dir_reader \<Rightarrow> byte list option res" where
  "reader_name r =
     (if reader_size r = 0 then Inr None
      else bind_res (c_string_at (reader_buf r) (reader_offset r + 19)) (\<lambda>s. Inr (Some s)))"

text \<open>The loop of a user: the name after each \<open>Next\<close> that answers true.\<close>

fun list_names :: "nat \<Rightarrow> dir_reader \<Rightarrow> (byte list list \<times> dir_reader) io" where
  "list_names 0 r e = Inl OutOfFuel"
| "list_names (Suc k) r e =
     io_bind (Reader_Next r) (\<lambda>(ok, r).
       if \<not> ok then io_return ([], r)
       else io_bind (io_lift (reader_name r)) (\<lambda>n. case n of
              None \<Rightarrow> io_lift (Inl NullDeref)
            | Some n \<Rightarrow> io_bind (list_names k r) (\<lambda>(ns, r). io_return (n # ns, r)))) e"

section \<open>What the kernel delivers\<close>

text \<open>A record: 16 bytes the reader ignores, its length, its type, the name, a zero and some padding.\<close>

record dirent =
  d_ids :: "byte list"
  d_type :: byte
  d_name :: "byte list"
  d_pad :: "byte list"

definition dirent_length :: "dirent \<Rightarrow> nat" where
  "dirent_length d = 20 + length (d_name d) + length (d_pad d)"

definition dirent_bytes :: "dirent \<Rightarrow> byte list" where
  "dirent_bytes d = d_ids d @ [of_nat (dirent_length d), of_nat (dirent_length d div 256)] @ [d_type d] @ d_name d @ [0] @ d_pad d"

definition dirent_ok :: "dirent \<Rightarrow> bool" where
  "dirent_ok d \<longleftrightarrow> length (d_ids d) = 16 \<and> 0 \<notin> set (d_name d) \<and> dirent_length d < 65536"

definition chunk_bytes :: "dirent list \<Rightarrow> byte list" where
  "chunk_bytes ds = concat (map dirent_bytes ds)"

definition chunk_ok :: "dirent list \<Rightarrow> bool" where
  "chunk_ok ds \<longleftrightarrow> ds \<noteq> [] \<and> list_all dirent_ok ds \<and> length (chunk_bytes ds) \<le> 512"

text \<open>The kernel answers the calls on the descriptor with one chunk after the other, then with zero.\<close>

definition asked :: "int \<Rightarrow> syscall list \<Rightarrow> nat" where
  "asked fd h = length (filter (\<lambda>c. c = SysGetdents fd 512) h)"

definition delivers :: "(syscall list \<Rightarrow> syscall \<Rightarrow> reply) \<Rightarrow> int \<Rightarrow> dirent list list \<Rightarrow> bool" where
  "delivers k fd chunks \<longleftrightarrow> (\<forall>h. let r = k h (SysGetdents fd 512); i = asked fd h in
     if i < length chunks then rp_ret r = int (length (chunk_bytes (chunks ! i))) \<and> rp_data r = chunk_bytes (chunks ! i)
     else rp_ret r = 0 \<and> rp_data r = [])"

section \<open>Reading records\<close>

lemma length_dirent_bytes: "dirent_ok d \<Longrightarrow> length (dirent_bytes d) = dirent_length d"
  by (simp add: dirent_bytes_def dirent_ok_def dirent_length_def)

lemma d_reclen_dirent:
  assumes "dirent_ok d" "i = length pre"
  shows "d_reclen (pre @ dirent_bytes d @ post) i = Inr (dirent_length d)"
proof -
  have "take 2 (drop (i + 16) (pre @ dirent_bytes d @ post)) = [of_nat (dirent_length d), of_nat (dirent_length d div 256)]"
    using assms by (simp add: dirent_bytes_def dirent_ok_def numeral_2_eq_2)
  moreover have "i + 16 + 2 \<le> length (pre @ dirent_bytes d @ post)"
    using assms by (simp add: dirent_bytes_def dirent_ok_def)
  moreover have "dirent_length d div 256 < 256" using assms(1) unfolding dirent_ok_def by linarith
  then have "unat (of_nat (dirent_length d) :: byte) = dirent_length d mod 256"
    "unat (of_nat (dirent_length d div 256) :: byte) = dirent_length d div 256"
    by (simp_all add: unat_of_nat)
  ultimately show ?thesis by (simp add: d_reclen_def)
qed

lemma c_string_dirent:
  assumes "dirent_ok d" "i = length pre"
  shows "c_string_at (pre @ dirent_bytes d @ post) (i + 19) = Inr (d_name d)"
proof -
  have "drop (i + 19) (pre @ dirent_bytes d @ post) = d_name d @ 0 # d_pad d @ post"
    using assms by (simp add: dirent_bytes_def dirent_ok_def)
  moreover have "takeWhile (\<lambda>b. b \<noteq> 0) (d_name d @ 0 # d_pad d @ post) = d_name d"
    using assms(1) by (auto simp: dirent_ok_def takeWhile_append)
  ultimately show ?thesis by (simp add: c_string_at_def)
qed

section \<open>Listing a directory\<close>

text \<open>The reader stands on the record \<open>d\<close>, with \<open>ds\<close> behind it in the buffer; or it needs a call.\<close>

definition on_record :: "dir_reader \<Rightarrow> dirent \<Rightarrow> dirent list \<Rightarrow> bool" where
  "on_record r d ds \<longleftrightarrow> dirent_ok d \<and> list_all dirent_ok ds \<and> length (reader_buf r) = 512 \<and>
     (\<exists>pre junk. reader_buf r = pre @ dirent_bytes d @ chunk_bytes ds @ junk \<and> reader_offset r = length pre \<and>
        reader_size r = length pre + dirent_length d + length (chunk_bytes ds))"

definition needs_call :: "dir_reader \<Rightarrow> bool" where
  "needs_call r \<longleftrightarrow> length (reader_buf r) = 512 \<and> reader_offset r = 0 \<and> reader_size r = 0"

lemma on_record_name: "on_record r d ds \<Longrightarrow> reader_name r = Inr (Some (d_name d))"
  using c_string_dirent [of d "reader_offset r"] by (auto simp: on_record_def reader_name_def dirent_length_def)

lemma Next_in_chunk:
  assumes "on_record r d (d' # ds)"
  shows "\<exists>r'. Reader_Next r e = Inr ((True, r'), e) \<and> on_record r' d' ds \<and> reader_fd r' = reader_fd r"
proof -
  obtain pre junk where b: "reader_buf r = pre @ dirent_bytes d @ chunk_bytes (d' # ds) @ junk" "reader_offset r = length pre"
    "reader_size r = length pre + dirent_length d + length (chunk_bytes (d' # ds))"
    and ok: "dirent_ok d" "dirent_ok d'" "list_all dirent_ok ds" "length (reader_buf r) = 512"
    using assms by (auto simp: on_record_def)
  let ?r = "r\<lparr>reader_offset := reader_offset r + dirent_length d\<rparr>"
  have "d_reclen (reader_buf r) (reader_offset r) = Inr (dirent_length d)" unfolding b(1) by (rule d_reclen_dirent [OF ok(1) b(2)])
  moreover have "0 < dirent_length d" "0 < length (chunk_bytes (d' # ds))"
    using ok length_dirent_bytes [of d'] by (simp_all add: dirent_length_def chunk_bytes_def)
  ultimately have "Reader_Next r e = Inr ((True, ?r), e)" using b by (simp add: Reader_Next_def)
  moreover have "on_record ?r d' ds"
    unfolding on_record_def using b ok length_dirent_bytes [OF ok(1)] length_dirent_bytes [OF ok(2)]
    by (intro conjI exI [of _ "pre @ dirent_bytes d"] exI [of _ junk]) (simp_all add: chunk_bytes_def)
  ultimately show ?thesis by auto
qed

text \<open>At the end of a chunk the reader asks for the next one.\<close>

lemma Next_asks:
  assumes "needs_call r \<or> (\<exists>d. on_record r d [])"
  shows "\<exists>r'. Reader_Next r e = io_bind (sys (SysGetdents (reader_fd r) 512)) (\<lambda>rep.
      io_bind (io_lift (store_reply rep (reader_buf r) 0)) (\<lambda>m.
        if rp_ret rep = 0 then io_return (False, r'\<lparr>reader_buf := m\<rparr>)
        else if rp_ret rep = - 1 then io_return (False, r'\<lparr>reader_buf := m\<rparr>)
        else io_return (True, r'\<lparr>reader_buf := m, reader_size := to_size (rp_ret rep), reader_offset := 0\<rparr>))) e \<and>
    reader_fd r' = reader_fd r \<and> reader_offset r' = reader_size r \<and> reader_size r' = reader_size r"
  using assms
proof
  assume "needs_call r"
  then show ?thesis by (intro exI [of _ r]) (auto simp: Reader_Next_def needs_call_def Let_def)
next
  assume "\<exists>d. on_record r d []"
  then obtain d pre junk where b: "reader_buf r = pre @ dirent_bytes d @ junk" "reader_offset r = length pre"
    "reader_size r = length pre + dirent_length d" and ok: "dirent_ok d"
    by (auto simp: on_record_def chunk_bytes_def)
  have "d_reclen (reader_buf r) (reader_offset r) = Inr (dirent_length d)" unfolding b(1) by (rule d_reclen_dirent [OF ok b(2)])
  moreover have "0 < dirent_length d" by (simp add: dirent_length_def)
  ultimately show ?thesis using b(2,3)
    by (intro exI [of _ "r\<lparr>reader_offset := length pre + dirent_length d\<rparr>"]) (auto simp: Reader_Next_def Let_def)
qed

lemma asked_after [simp]: "asked fd (h @ [c]) = asked fd h + of_bool (c = SysGetdents fd 512)"
  by (simp add: asked_def)

lemma Next_new_chunk:
  assumes "needs_call r \<or> (\<exists>d. on_record r d [])" "length (reader_buf r) = 512" "delivers (kernel e) (reader_fd r) chunks"
    "asked (reader_fd r) (trace e) < length chunks" "chunk_ok (chunks ! asked (reader_fd r) (trace e))"
  shows "\<exists>r' d ds. chunks ! asked (reader_fd r) (trace e) = d # ds \<and> on_record r' d ds \<and> reader_fd r' = reader_fd r \<and>
    Reader_Next r e = Inr ((True, r'), after (SysGetdents (reader_fd r) 512) e)"
proof -
  let ?c = "SysGetdents (reader_fd r) 512"
  obtain d ds where c: "chunks ! asked (reader_fd r) (trace e) = d # ds"
    using assms(5) by (auto simp: chunk_ok_def neq_Nil_conv)
  let ?bs = "chunk_bytes (d # ds)"
  have ok: "dirent_ok d" "list_all dirent_ok ds" "length ?bs \<le> 512" using assms(5) c by (auto simp: chunk_ok_def)
  have a: "rp_ret (answer ?c e) = int (length ?bs)" "rp_data (answer ?c e) = ?bs"
    using assms(3,4) c by (simp_all add: delivers_def Let_def answer_def)
  have pos: "0 < length ?bs" using ok(1) length_dirent_bytes [of d] by (simp add: chunk_bytes_def dirent_length_def)
  let ?m = "splice_at (reader_buf r) 0 ?bs"
  have st: "store_reply (answer ?c e) (reader_buf r) 0 = Inr ?m" using a ok(3) assms(2) by (simp add: store_reply_def)
  obtain r0 where r0: "reader_fd r0 = reader_fd r"
    "Reader_Next r e = Inr ((True, r0\<lparr>reader_buf := ?m, reader_size := length ?bs, reader_offset := 0\<rparr>), after ?c e)"
    using Next_asks [OF assms(1), of e] st a pos ok(3) by auto
  let ?r = "r0\<lparr>reader_buf := ?m, reader_size := length ?bs, reader_offset := 0\<rparr>"
  have "on_record ?r d ds"
    unfolding on_record_def using ok assms(2) length_dirent_bytes [OF ok(1)]
    by (intro conjI exI [of _ "[]"] exI [of _ "drop (length ?bs) (reader_buf r)"])
      (simp_all add: chunk_bytes_def splice_at_0)
  then show ?thesis using c r0 by (intro exI [of _ ?r]) auto
qed

lemma Next_end:
  assumes "needs_call r \<or> (\<exists>d. on_record r d [])" "length (reader_buf r) = 512" "delivers (kernel e) (reader_fd r) chunks"
    "length chunks \<le> asked (reader_fd r) (trace e)"
  shows "\<exists>r'. Reader_Next r e = Inr ((False, r'), after (SysGetdents (reader_fd r) 512) e) \<and>
    reader_buf r' = reader_buf r \<and> reader_offset r' = reader_size r \<and> reader_size r' = reader_size r"
proof -
  have a: "rp_ret (answer (SysGetdents (reader_fd r) 512) e) = 0" "rp_data (answer (SysGetdents (reader_fd r) 512) e) = []"
    using assms(3,4) by (simp_all add: delivers_def Let_def answer_def)
  then have "store_reply (answer (SysGetdents (reader_fd r) 512) e) (reader_buf r) 0 = Inr (reader_buf r)"
    by (simp add: store_reply_def)
  then show ?thesis using Next_asks [OF assms(1), of e] a by auto
qed

lemma d_reclen_outside: "length m = 512 \<Longrightarrow> 494 < i \<Longrightarrow> d_reclen m i = Inl OutOfBounds"
  by (simp add: d_reclen_def mem_read_def)

lemma list_names_from:
  assumes "needs_call r \<and> ds = [] \<or> (\<exists>d. on_record r d ds)" "delivers (kernel e) (reader_fd r) chunks"
    "list_all chunk_ok chunks" "length ds + length (concat (drop (asked (reader_fd r) (trace e)) chunks)) < k"
  shows "\<exists>r' e'. list_names k r e =
      Inr ((map d_name (ds @ concat (drop (asked (reader_fd r) (trace e)) chunks)), r'), e') \<and>
    (494 < reader_size r' \<longrightarrow> Reader_Next r' e' = Inl OutOfBounds)"
  using assms
proof (induction k arbitrary: r ds e)
  case (Suc k)
  let ?i = "asked (reader_fd r) (trace e)"
  have len: "length (reader_buf r) = 512" using Suc.prems(1) by (auto simp: on_record_def needs_call_def)
  show ?case
  proof (cases ds)
    case (Cons d' ds')
    then obtain r' where r': "Reader_Next r e = Inr ((True, r'), e)" "on_record r' d' ds'" "reader_fd r' = reader_fd r"
      using Suc.prems(1) Next_in_chunk by blast
    moreover have "\<exists>r'' e'. list_names k r' e = Inr ((map d_name (ds' @ concat (drop ?i chunks)), r''), e') \<and>
        (494 < reader_size r'' \<longrightarrow> Reader_Next r'' e' = Inl OutOfBounds)"
      using Suc.IH [of r' ds' e] Suc.prems r' Cons by auto
    ultimately show ?thesis using Cons on_record_name [OF r'(2)] by auto
  next
    case Nil
    then have at_end: "needs_call r \<or> (\<exists>d. on_record r d [])" using Suc.prems(1) by blast
    show ?thesis
    proof (cases "?i < length chunks")
      case True
      then have "chunk_ok (chunks ! ?i)" using Suc.prems(3) by (simp add: list_all_length)
      from Next_new_chunk [OF at_end len Suc.prems(2) True this]
      obtain r' d' ds' where r': "chunks ! ?i = d' # ds'" "on_record r' d' ds'" "reader_fd r' = reader_fd r"
        "Reader_Next r e = Inr ((True, r'), after (SysGetdents (reader_fd r) 512) e)" by blast
      let ?e = "after (SysGetdents (reader_fd r) 512) e"
      have rest: "drop ?i chunks = (d' # ds') # drop (Suc ?i) chunks" using True r'(1) by (metis Cons_nth_drop_Suc)
      then have "\<exists>r'' e'. list_names k r' ?e = Inr ((map d_name (ds' @ concat (drop (Suc ?i) chunks)), r''), e') \<and>
          (494 < reader_size r'' \<longrightarrow> Reader_Next r'' e' = Inl OutOfBounds)"
        using Suc.IH [of r' ds' ?e] Suc.prems(2-4) r' by auto
      then show ?thesis using r' rest Nil on_record_name [OF r'(2)] by auto
    next
      case False
      then obtain r' where r': "Reader_Next r e = Inr ((False, r'), after (SysGetdents (reader_fd r) 512) e)"
        "reader_buf r' = reader_buf r" "reader_offset r' = reader_size r'"
        using Next_end [OF at_end len Suc.prems(2)] by auto
      have "Reader_Next r' e' = Inl OutOfBounds" if "494 < reader_size r'" for e'
        using that r' len d_reclen_outside [of "reader_buf r'" "reader_size r'"] by (simp add: Reader_Next_def)
      then show ?thesis using r'(1) Nil False by auto
    qed
  qed
qed simp

text \<open>
  C26: when the kernel delivers the records of a directory in chunks that fit the buffer, a loop over
  \<open>Next\<close> and \<open>name\<close> yields exactly the names of the records, in order, each once, and ends; the reader
  stays in its buffer.  The answer false must be the last one asked for: after a last chunk of more than
  494 bytes another \<open>Next\<close> reads past the buffer.
\<close>

theorem dir_reader_lists:
  assumes "DirReader_new path e = Inr (r, e1)" "delivers (kernel e) (reader_fd r) chunks" "list_all chunk_ok chunks"
    "asked (reader_fd r) (trace e) = 0" "length (concat chunks) < k"
  shows "\<exists>r' e'. list_names k r e1 = Inr ((map d_name (concat chunks), r'), e') \<and>
    (494 < reader_size r' \<longrightarrow> Reader_Next r' e' = Inl OutOfBounds)"
proof -
  have "needs_call r" "kernel e1 = kernel e" "asked (reader_fd r) (trace e1) = 0"
    using assms(1,4) by (auto simp: DirReader_new_def needs_call_def)
  then show ?thesis using list_names_from [of r "[]" e1 chunks k] assms(2,3,5) by simp
qed

text \<open>A directory with one entry.\<close>

definition one_dirent :: dirent where
  "one_dirent = \<lparr>d_ids = replicate 16 0, d_type = 8, d_name = [104, 105], d_pad = [0, 0]\<rparr>"

definition dir_kernel :: "syscall list \<Rightarrow> syscall \<Rightarrow> reply" where
  "dir_kernel h c = (empty_kernel h c)\<lparr>rp_ret := (if c = SysGetdents 3 512 \<and> asked 3 h = 0 then 24 else if c = SysGetdents 3 512 then 0 else 3),
     rp_data := (if c = SysGetdents 3 512 \<and> asked 3 h = 0 then chunk_bytes [one_dirent] else [])\<rparr>"

theorem dir_reader_lists_witness:
  "\<exists>r e1 r' e'. DirReader_new ''/srv'' \<lparr>kernel = dir_kernel, trace = [], errno = 0\<rparr> = Inr (r, e1) \<and>
     list_names 2 r e1 = Inr (([[104, 105]], r'), e')"
proof -
  let ?e = "\<lparr>kernel = dir_kernel, trace = [], errno = 0\<rparr>"
  obtain r e1 where r: "DirReader_new ''/srv'' ?e = Inr (r, e1)" "reader_fd r = 3"
    by (auto simp: DirReader_new_def answer_def dir_kernel_def)
  have "length (chunk_bytes [one_dirent]) = 24"
    by (simp add: chunk_bytes_def dirent_bytes_def one_dirent_def)
  then have "delivers (kernel ?e) (reader_fd r) [[one_dirent]]" "list_all chunk_ok [[one_dirent]]"
    using r(2) by (simp_all add: delivers_def dir_kernel_def empty_kernel_def chunk_ok_def dirent_ok_def dirent_length_def
        one_dirent_def Let_def)
  moreover have "asked (reader_fd r) (trace ?e) = 0" "length (concat [[one_dirent]]) < 2" by (simp_all add: asked_def)
  ultimately obtain r' e' where "list_names 2 r e1 = Inr ((map d_name (concat [[one_dirent]]), r'), e')"
    using dir_reader_lists [OF r(1)] by blast
  then show ?thesis using r(1) by (auto simp: one_dirent_def)
qed

end
