(* ===== verification/PieceMembers.thy ===== *)
theory PieceMembers
  imports StringPiece
begin

text \<open>
  The rest of \<open>base/string_piece.h\<close>: the iterators and the other members of the class, its default
  arguments, the derived comparison operators, and the output operator of \<open>base/string_piece.cc\<close>.  An
  iterator is an offset into the object the view points into, and a reverse iterator is the offset behind
  the character it stands on.
\<close>

section \<open>Construction and plain members\<close>

definition piece_of_pointer :: "string \<Rightarrow> size_t \<Rightarrow> size_t \<Rightarrow> string_piece" where
  "piece_of_pointer data off len = \<lparr>buf = data, ptr = off, plen = len\<rparr>"

text \<open>From two iterators of one string: an empty range takes no address.\<close>

definition piece_of_range :: "string \<Rightarrow> nat \<Rightarrow> nat \<Rightarrow> string_piece" where
  "piece_of_range s first end_at =
     (let n = to_size (int end_at - int first) in if n > 0 then \<lparr>buf = s, ptr = first, plen = n\<rparr> else null_piece)"

definition piece_data :: "string_piece \<Rightarrow> string \<times> size_t" where
  "piece_data p = (buf p, ptr p)"

definition piece_size :: "string_piece \<Rightarrow> size_t" where
  "piece_size p = plen p"

definition piece_length :: "string_piece \<Rightarrow> size_t" where
  "piece_length p = plen p"

definition piece_empty :: "string_piece \<Rightarrow> bool" where
  "piece_empty p \<longleftrightarrow> plen p = 0"

definition piece_set_cstr :: "string option \<Rightarrow> string_piece res" where
  "piece_set_cstr str = (case str of None \<Rightarrow> Inr null_piece | Some a \<Rightarrow> piece_of_cstr a)"

definition piece_max_size :: "string_piece \<Rightarrow> size_t" where
  "piece_max_size p = plen p"

definition piece_capacity :: "string_piece \<Rightarrow> size_t" where
  "piece_capacity p = plen p"

section \<open>Iterators\<close>

definition piece_begin :: "string_piece \<Rightarrow> size_t" where
  "piece_begin p = ptr p"

definition piece_end :: "string_piece \<Rightarrow> size_t" where
  "piece_end p = ptr p + plen p"

definition piece_rbegin :: "string_piece \<Rightarrow> size_t" where
  "piece_rbegin p = ptr p + plen p"

definition piece_rend :: "string_piece \<Rightarrow> size_t" where
  "piece_rend p = ptr p"

text \<open>The characters a loop sees from one iterator to another, forwards and backwards.\<close>

function walk_up :: "string \<Rightarrow> nat \<Rightarrow> nat \<Rightarrow> string res" where
  "walk_up s i end_at =
     (if i = end_at then Inr []
      else if i \<ge> length s then Inl OutOfBounds
      else bind_res (walk_up s (Suc i) end_at) (\<lambda>cs. Inr (s ! i # cs)))"
  by pat_completeness auto
termination by (relation "measure (\<lambda>(s, i, e). length s - i)") auto

declare walk_up.simps [simp del]

fun walk_down :: "string \<Rightarrow> nat \<Rightarrow> nat \<Rightarrow> string res" where
  "walk_down s i end_at =
     (if i = end_at then Inr []
      else case i of
          0 \<Rightarrow> Inl OutOfBounds
        | Suc j \<Rightarrow> bind_res (array_get s j) (\<lambda>c. bind_res (walk_down s j end_at) (\<lambda>cs. Inr (c # cs))))"

declare walk_down.simps [simp del]

lemma walk_up_step:
  "i < length s \<Longrightarrow> i < e \<Longrightarrow> walk_up s i e = bind_res (walk_up s (Suc i) e) (\<lambda>cs. Inr (s ! i # cs))"
  "walk_up s e e = Inr []"
  by (subst walk_up.simps, simp)+

lemma walk_up_chars: "i + n \<le> length s \<Longrightarrow> walk_up s i (i + n) = Inr (take n (drop i s))"
proof (induction n arbitrary: i)
  case (Suc n)
  have "Suc i + n \<le> length s" "i < length s" using Suc.prems by arith+
  moreover have "walk_up s (Suc i) (i + Suc n) = walk_up s (Suc i) (Suc i + n)" by (simp only: add_Suc_shift)
  moreover have "take (Suc n) (drop i s) = s ! i # take n (drop (Suc i) s)"
    using \<open>i < length s\<close> by (simp only: Cons_nth_drop_Suc [symmetric] take_Suc_Cons)
  ultimately show ?case using Suc.IH [of "Suc i"] by (simp only: walk_up_step bind_res_simps less_add_same_cancel1 zero_less_Suc)
qed (simp only: walk_up_step add_0_right take_0)

lemma walk_down_chars: "i + n \<le> length s \<Longrightarrow> walk_down s (i + n) i = Inr (rev (take n (drop i s)))"
proof (induction n)
  case (Suc n)
  then show ?case by (simp add: walk_down.simps [of s "Suc (i + n)"] take_Suc_conv_app_nth)
qed (simp add: walk_down.simps)

lemma iterators_see_chars:
  assumes "wf_piece p"
  shows "walk_up (buf p) (piece_begin p) (piece_end p) = Inr (chars p)"
    "walk_down (buf p) (piece_rbegin p) (piece_rend p) = Inr (rev (chars p))"
  using assms walk_up_chars [of "ptr p" "plen p" "buf p"] walk_down_chars [of "ptr p" "plen p" "buf p"]
  by (simp_all add: wf_piece_def chars_def piece_begin_def piece_end_def piece_rbegin_def piece_rend_def)

lemma range_chars:
  assumes "first \<le> end_at" "end_at \<le> length s" "length s < 2 ^ 63"
  shows "wf_piece (piece_of_range s first end_at) \<and> chars (piece_of_range s first end_at) = drop first (take end_at s)"
proof -
  have "to_size (int end_at - int first) = end_at - first"
    using assms by (subst to_size_nonneg) (simp_all add: nat_diff_distrib)
  then show ?thesis using assms
    by (auto simp: piece_of_range_def Let_def wf_piece_def chars_def null_piece_def take_drop)
qed

section \<open>Forwarding members\<close>

definition member_find :: "string_piece \<Rightarrow> string_piece \<Rightarrow> size_t res" where
  "member_find p s = find_str p s 0"

definition member_find_char :: "string_piece \<Rightarrow> char \<Rightarrow> size_t res" where
  "member_find_char p c = find_char p c 0"

definition member_rfind :: "string_piece \<Rightarrow> string_piece \<Rightarrow> size_t res" where
  "member_rfind p s = rfind_str p s npos"

definition member_rfind_char :: "string_piece \<Rightarrow> char \<Rightarrow> size_t res" where
  "member_rfind_char p c = rfind_char p c npos"

definition find_first_of_char :: "string_piece \<Rightarrow> char \<Rightarrow> size_t \<Rightarrow> size_t res" where
  "find_first_of_char p c pos = find_char p c pos"

definition find_last_of_char :: "string_piece \<Rightarrow> char \<Rightarrow> size_t \<Rightarrow> size_t res" where
  "find_last_of_char p c pos = rfind_char p c pos"

definition member_find_first_of :: "string_piece \<Rightarrow> string_piece \<Rightarrow> size_t res" where
  "member_find_first_of p s = find_first_of p s 0"

definition member_find_first_not_of :: "string_piece \<Rightarrow> string_piece \<Rightarrow> size_t res" where
  "member_find_first_not_of p s = find_first_not_of p s 0"

definition member_find_first_not_of_char :: "string_piece \<Rightarrow> char \<Rightarrow> size_t res" where
  "member_find_first_not_of_char p c = find_first_not_of_char p c 0"

definition member_find_last_of :: "string_piece \<Rightarrow> string_piece \<Rightarrow> size_t res" where
  "member_find_last_of p s = find_last_of p s npos"

definition member_find_last_not_of :: "string_piece \<Rightarrow> string_piece \<Rightarrow> size_t res" where
  "member_find_last_not_of p s = find_last_not_of p s npos"

definition member_find_last_not_of_char :: "string_piece \<Rightarrow> char \<Rightarrow> size_t res" where
  "member_find_last_not_of_char p c = find_last_not_of_char p c npos"

definition member_substr :: "string_piece \<Rightarrow> size_t \<Rightarrow> string_piece" where
  "member_substr p pos = piece_substr p pos npos"

section \<open>Derived operators\<close>

definition piece_ne :: "string_piece \<Rightarrow> string_piece \<Rightarrow> bool res" where
  "piece_ne x y = bind_res (piece_eq x y) (\<lambda>b. Inr (\<not> b))"

definition piece_greater :: "string_piece \<Rightarrow> string_piece \<Rightarrow> bool res" where
  "piece_greater x y = piece_less y x"

definition piece_le :: "string_piece \<Rightarrow> string_piece \<Rightarrow> bool res" where
  "piece_le x y = bind_res (piece_greater x y) (\<lambda>b. Inr (\<not> b))"

definition piece_ge :: "string_piece \<Rightarrow> string_piece \<Rightarrow> bool res" where
  "piece_ge x y = bind_res (piece_less x y) (\<lambda>b. Inr (\<not> b))"

text \<open>The stream is the text it has taken so far.\<close>

definition piece_output :: "string \<Rightarrow> string_piece \<Rightarrow> string res" where
  "piece_output out piece = bind_res (piece_read piece 0 (plen piece)) (\<lambda>s. Inr (out @ s))"

text \<open>The bytes of views in the order of the operators.\<close>

lemma ulex_not: "\<not> ulex xs ys \<longleftrightarrow> ulex ys xs \<or> ys = xs"
  using ulex_total ulex_trans ulex_irrefl by blast

lemma derived_operators:
  assumes "wf_piece x" "wf_piece y"
  shows "piece_ne x y = Inr (chars x \<noteq> chars y)" "piece_greater x y = Inr (ulex (chars y) (chars x))"
    "piece_le x y = Inr (ulex (chars x) (chars y) \<or> chars x = chars y)"
    "piece_ge x y = Inr (ulex (chars y) (chars x) \<or> chars y = chars x)"
  using assms
  by (simp_all add: piece_ne_def piece_greater_def piece_le_def piece_ge_def piece_eq_chars piece_less_ulex ulex_not)

lemma output_chars: "wf_piece p \<Longrightarrow> piece_output out p = Inr (out @ chars p)"
  by (simp add: piece_output_def)

end
