(* ===== verification/PathMembers.thy ===== *)
theory PathMembers
  imports FilePath
begin

text \<open>
  The members of \<open>base/file_path.h\<close> that only copy, compare or forward, the order of paths as the type
  class sees it, and the test of \<open>base/file_path_unittest.cc\<close>.
\<close>

definition path_default :: file_path where "path_default = []"
definition path_copy :: "file_path \<Rightarrow> file_path" where "path_copy other = other"
definition path_assign :: "file_path \<Rightarrow> file_path \<Rightarrow> file_path" where "path_assign this_path other = other"
definition path_value :: "file_path \<Rightarrow> string" where "path_value p = p"
definition path_empty :: "file_path \<Rightarrow> bool" where "path_empty p \<longleftrightarrow> p = []"
definition path_clear :: "file_path \<Rightarrow> file_path" where "path_clear p = []"
definition path_eq :: "file_path \<Rightarrow> file_path \<Rightarrow> bool" where "path_eq p q \<longleftrightarrow> p = q"
definition path_ne :: "file_path \<Rightarrow> file_path \<Rightarrow> bool" where "path_ne p q \<longleftrightarrow> p \<noteq> q"

definition Append_path :: "file_path \<Rightarrow> file_path \<Rightarrow> file_path res" where
  "Append_path p component = Append p (path_value component)"

definition AppendASCII :: "file_path \<Rightarrow> string \<Rightarrow> file_path res" where
  "AppendASCII p component = Append p component"

text \<open>Paths as keys of an ordered map: the order is total, and equality is its equivalence.\<close>

lemma path_order:
  "path_less p q \<or> path_less q p \<or> path_eq p q" "\<not> path_less p p"
  "path_less p q \<Longrightarrow> path_less q r \<Longrightarrow> path_less p r" "path_ne p q \<longleftrightarrow> path_less p q \<or> path_less q p"
  using ulex_total ulex_trans ulex_irrefl by (auto simp: path_less_def path_eq_def path_ne_def)

section \<open>The test\<close>

text \<open>What the test writes to the log.\<close>

definition FilePathBasic :: "string list" where
  "FilePathBasic =
     (let path = mk_path ''/a/b/c/d.epub'' in
      [''base name: '' @ path_value (BaseName path), ''exts name: '' @ Extension path,
       ''dirs name: '' @ path_value (DirName path),
       ''----'' @ path_value (ReplaceExtension (mk_path ''/a/b/e.epub'') ''.pdf'')])"

lemma dot_positions: "ExtensionSeparatorPosition ''d.epub'' = 1" "ExtensionSeparatorPosition ''e.epub'' = 1"
  "ExtensionSeparatorPosition ''/a/b/e.epub'' = 6"
proof -
  have plain: "\<not> list_ex (\<lambda>e. LowerCaseEqualsASCII (piece_of_string ''epub'') (piece_of_string e) = Inr True) kCommonDoubleExtensions"
    by code_simp
  have pos: "std_rfind ''d.epub'' kExtensionSeparator npos = 1" "std_rfind ''e.epub'' kExtensionSeparator npos = 1"
    "std_rfind ''/a/b/e.epub'' kExtensionSeparator npos = 6"
    by (simp_all add: std_rfind_def kExtensionSeparator_def last_pos_def npos_def)
  have small: "1 \<noteq> npos" "6 \<noteq> npos" by (simp_all add: npos_def)
  show "ExtensionSeparatorPosition ''d.epub'' = 1" "ExtensionSeparatorPosition ''e.epub'' = 1"
    "ExtensionSeparatorPosition ''/a/b/e.epub'' = 6"
    using plain pos small
    by (simp_all add: ExtensionSeparatorPosition_def kCurrentDirectory_def kParentDirectory_def)
qed

lemma base_and_dir:
  "BaseName ''/a/b/c/d.epub'' = ''d.epub''" "DirName ''/a/b/c/d.epub'' = ''/a/b/c''" "BaseName ''/a/b/e.epub'' = ''e.epub''"
  using DirName_segment [of _ "''/a/b/c''" 1 "''d.epub''" 0] DirName_segment [of _ "''/a/b''" 1 "''e.epub''" 0]
  by (simp_all add: wf_path_def)

lemma path_test_log:
  "FilePathBasic = [''base name: d.epub'', ''exts name: .epub'', ''dirs name: /a/b/c'', ''----/a/b/e.pdf'']"
proof -
  have small: "1 \<noteq> npos" "6 \<noteq> npos" by (simp_all add: npos_def)
  have "RemoveExtension ''/a/b/e.epub'' = ''/a/b/e''"
    using small by (simp add: RemoveExtension_def Extension_def base_and_dir dot_positions mk_path_def)
  then have "ReplaceExtension ''/a/b/e.epub'' ''.pdf'' = ''/a/b/e.pdf''"
    by (simp add: ReplaceExtension_def base_and_dir kExtensionSeparator_def kCurrentDirectory_def kParentDirectory_def mk_path_def)
  then show ?thesis
    using small by (simp add: FilePathBasic_def Extension_def base_and_dir dot_positions mk_path_def path_value_def)
qed

end
