(* ===== verification/NumberMembers.thy ===== *)
theory NumberMembers
  imports Numbers LeadingNumbers DoubleRange PieceMembers
begin

text \<open>
  The overloads of \<open>base/numbers.h\<close> and \<open>base/numbers.cc\<close>: each parser on a C string and on a
  \<open>std::string\<close>, the specialisations of \<open>StringAsValue\<close> for floating-point numbers, and what the two kinds of
  text do with a zero character.  A C string is null or an array with its terminator.
\<close>

section \<open>The overloads\<close>

definition safe_strtosize_t :: "string_piece \<Rightarrow> (bool \<times> int) res" where
  "safe_strtosize_t text' = safe_strtosize_t_base text' 10"

definition safe_strto32_cstr :: "string option \<Rightarrow> (bool \<times> int) res" where
  "safe_strto32_cstr str = bind_res (piece_set_cstr str) safe_strto32"

definition safe_strto32_string :: "string \<Rightarrow> (bool \<times> int) res" where
  "safe_strto32_string str = safe_strto32 (piece_of_string str)"

definition safe_strto64_cstr :: "string option \<Rightarrow> (bool \<times> int) res" where
  "safe_strto64_cstr str = bind_res (piece_set_cstr str) safe_strto64"

definition safe_strto64_string :: "string \<Rightarrow> (bool \<times> int) res" where
  "safe_strto64_string str = safe_strto64 (piece_of_string str)"

definition safe_strtou32_cstr :: "string option \<Rightarrow> (bool \<times> int) res" where
  "safe_strtou32_cstr str = bind_res (piece_set_cstr str) safe_strtou32"

definition safe_strtou32_string :: "string \<Rightarrow> (bool \<times> int) res" where
  "safe_strtou32_string str = safe_strtou32 (piece_of_string str)"

definition safe_strtou64_cstr :: "string option \<Rightarrow> (bool \<times> int) res" where
  "safe_strtou64_cstr str = bind_res (piece_set_cstr str) safe_strtou64"

definition safe_strtou64_string :: "string \<Rightarrow> (bool \<times> int) res" where
  "safe_strtou64_string str = safe_strtou64 (piece_of_string str)"

text \<open>\<open>c_str\<close> of a string ends, for its reader, at the first zero character.\<close>

definition atoi32_string :: "int \<Rightarrow> string \<Rightarrow> int" where
  "atoi32_string errno s = atoi32 errno (takeWhile (\<lambda>c. c \<noteq> CHR 0x00) s)"

definition atoi64_string :: "string \<Rightarrow> int" where
  "atoi64_string s = atoi64 (takeWhile (\<lambda>c. c \<noteq> CHR 0x00) s)"

definition safe_strtof_string :: "'f floating \<Rightarrow> string \<Rightarrow> bool \<times> 'f" where
  "safe_strtof_string fl str = safe_strtof fl (takeWhile (\<lambda>c. c \<noteq> CHR 0x00) str)"

definition safe_strtod_string :: "'d floating \<Rightarrow> string \<Rightarrow> bool \<times> 'd" where
  "safe_strtod_string fl str = safe_strtod fl (takeWhile (\<lambda>c. c \<noteq> CHR 0x00) str)"

definition StringAsValue_float :: "'f floating \<Rightarrow> string \<Rightarrow> bool \<times> 'f" where
  "StringAsValue_float fl str = safe_strtof_string fl str"

definition StringAsValue_double :: "'d floating \<Rightarrow> string \<Rightarrow> bool \<times> 'd" where
  "StringAsValue_double fl str = safe_strtod_string fl str"

section \<open>What they parse\<close>

lemma parsers_ref:
  assumes "wf_piece p"
  shows "safe_strto32 p = Inr (ref_parse Int32 (chars p) 10)" "safe_strto64 p = Inr (ref_parse Int64 (chars p) 10)"
    "safe_strtou32 p = Inr (ref_parse UInt32 (chars p) 10)" "safe_strtou64 p = Inr (ref_parse UInt64 (chars p) 10)"
    "safe_strtosize_t p = Inr (ref_parse UInt64 (chars p) 10)"
  using safe_internal_ref [OF assms]
  by (simp_all add: safe_strto32_def safe_strto64_def safe_strtou32_def safe_strtou64_def safe_strtosize_t_def
      safe_strto32_base_def safe_strto64_base_def safe_strtou32_base_def safe_strtou64_base_def safe_strtosize_t_base_def)

text \<open>A \<open>std::string\<close> is parsed whole, a C string up to its terminator, and null as the empty text.\<close>

lemma string_parsers:
  assumes "length s < 2 ^ 63"
  shows "safe_strto32_string s = Inr (ref_parse Int32 s 10)" "safe_strto64_string s = Inr (ref_parse Int64 s 10)"
    "safe_strtou32_string s = Inr (ref_parse UInt32 s 10)" "safe_strtou64_string s = Inr (ref_parse UInt64 s 10)"
  using parsers_ref [of "piece_of_string s"] assms
  by (simp_all add: safe_strto32_string_def safe_strto64_string_def safe_strtou32_string_def safe_strtou64_string_def)

lemma cstr_piece:
  assumes "CHR 0x00 \<in> set a" "length a < 2 ^ 63"
  obtains p where "piece_of_cstr a = Inr p" "wf_piece p" "chars p = takeWhile (\<lambda>c. c \<noteq> CHR 0x00) a"
proof -
  let ?n = "length (takeWhile (\<lambda>c. c \<noteq> CHR 0x00) a)"
  have n: "?n < length a" using assms(1) by (induction a) auto
  have "take ?n a = takeWhile (\<lambda>c. c \<noteq> CHR 0x00) a" by (metis takeWhile_eq_take)
  then show ?thesis using n assms(2) by (intro that) (auto simp: piece_of_cstr_def Let_def wf_piece_def chars_def)
qed

lemma cstr_parsers:
  assumes "CHR 0x00 \<in> set a" "length a < 2 ^ 63"
  defines "s \<equiv> takeWhile (\<lambda>c. c \<noteq> CHR 0x00) a"
  shows "safe_strto32_cstr (Some a) = Inr (ref_parse Int32 s 10)" "safe_strto64_cstr (Some a) = Inr (ref_parse Int64 s 10)"
    "safe_strtou32_cstr (Some a) = Inr (ref_parse UInt32 s 10)" "safe_strtou64_cstr (Some a) = Inr (ref_parse UInt64 s 10)"
proof -
  obtain p where "piece_of_cstr a = Inr p" "wf_piece p" "chars p = s" using cstr_piece [OF assms(1,2)] s_def by metis
  then show "safe_strto32_cstr (Some a) = Inr (ref_parse Int32 s 10)" "safe_strto64_cstr (Some a) = Inr (ref_parse Int64 s 10)"
    "safe_strtou32_cstr (Some a) = Inr (ref_parse UInt32 s 10)" "safe_strtou64_cstr (Some a) = Inr (ref_parse UInt64 s 10)"
    using parsers_ref [of p]
    by (simp_all add: safe_strto32_cstr_def safe_strto64_cstr_def safe_strtou32_cstr_def safe_strtou64_cstr_def piece_set_cstr_def)
qed

lemma null_not_a_number: "safe_strto32_cstr None = Inr (False, 0)"
proof -
  have "wf_piece null_piece" "chars null_piece = []" by (simp_all add: null_piece_def wf_piece_def chars_def)
  moreover have "ref_parse Int32 [] 10 = (False, 0)" by code_simp
  ultimately show ?thesis using parsers_ref(1) [of null_piece] by (simp add: safe_strto32_cstr_def piece_set_cstr_def)
qed

text \<open>
  A zero character inside a \<open>std::string\<close> ends a floating-point number but not an integer: whatever
  \<open>strtod\<close> makes of the text before it is the answer for the whole.
\<close>

lemma zero_character_ends_float:
  assumes "CHR 0x00 \<notin> set s"
  shows "safe_strtod_string fl (s @ CHR 0x00 # junk) = safe_strtod fl s"
    "StringAsValue_double fl (s @ CHR 0x00 # junk) = StringAsValue_double fl s"
proof -
  have "takeWhile (\<lambda>c. c \<noteq> CHR 0x00) (s @ CHR 0x00 # junk) = s" "takeWhile (\<lambda>c. c \<noteq> CHR 0x00) s = s"
    using assms by (induction s) auto
  then show "safe_strtod_string fl (s @ CHR 0x00 # junk) = safe_strtod fl s"
    "StringAsValue_double fl (s @ CHR 0x00 # junk) = StringAsValue_double fl s"
    by (simp_all only: safe_strtod_string_def StringAsValue_double_def)
qed

lemma zero_character_in_integer: "safe_strto32_string [CHR ''7'', CHR 0x00] = Inr (False, 7)"
proof -
  have "ref_parse Int32 [CHR ''7'', CHR 0x00] 10 = (False, 7)" by code_simp
  then show ?thesis using string_parsers(1) [of "[CHR ''7'', CHR 0x00]"] by simp
qed

section \<open>The adapters' callers\<close>

text \<open>A \<open>long\<close> has 64 bits, so both go through the adapters.\<close>

definition sizeof_long :: nat where "sizeof_long = 8"

definition strto32 :: "int \<Rightarrow> string \<Rightarrow> int \<Rightarrow> int \<times> nat \<times> int" where
  "strto32 errno nptr base =
     (if 4 = sizeof_long then let (v, n, errno) = strtol nptr base in (signed_take_bit 31 v, n, errno)
      else strto32_adapter errno nptr base)"

definition strtou32 :: "int \<Rightarrow> string \<Rightarrow> int \<Rightarrow> int \<times> nat \<times> int" where
  "strtou32 errno nptr base =
     (if 4 = sizeof_long then let (v, n, errno) = strtoul nptr base in (take_bit 32 v, n, errno)
      else strtou32_adapter errno nptr base)"

lemma through_adapters: "strto32 = strto32_adapter" "strtou32 = strtou32_adapter"
  by (simp_all add: fun_eq_iff strto32_def strtou32_def sizeof_long_def)

end
