(* ===== verification/TextStreams.thy ===== *)
theory TextStreams
  imports LeadingNumbers
begin

text \<open>
  The templates of \<open>base/string_encode.h\<close>: values to text and back through the streams of the standard
  library with \<open>boolalpha\<close>.  The operators of the type are the arguments of the model: \<open>insert\<close> gives the
  text and whether the stream is still good, \<open>ext\<close> the value it leaves, given the value it found, and
  whether it succeeded.  The operators of \<open>bool\<close>, of the signed integers and of strings are here.
\<close>

section \<open>The templates\<close>

text \<open>A pointer is null or leads to a value; the call returns its result and the value behind the pointer.\<close>

definition ToString :: "('a \<Rightarrow> string \<times> bool) \<Rightarrow> 'a \<Rightarrow> string option \<Rightarrow> (bool \<times> string) res" where
  "ToString ins t s =
     bind_res (check (s \<noteq> None)) (\<lambda>_. let (out, good) = ins t in Inr (good, out))"

definition FromString :: "(string \<Rightarrow> 'a \<Rightarrow> 'a \<times> bool) \<Rightarrow> string \<Rightarrow> 'a option \<Rightarrow> (bool \<times> 'a) res" where
  "FromString ext s t = (case t of
     None \<Rightarrow> Inl CheckFailed
   | Some old_value \<Rightarrow> let (v, good) = ext s old_value in Inr (good, v))"

definition ToString_value :: "('a \<Rightarrow> string \<times> bool) \<Rightarrow> 'a \<Rightarrow> string res" where
  "ToString_value ins val = bind_res (ToString ins val (Some [])) (\<lambda>(_, str). Inr str)"

text \<open>The value starts out as whatever the storage held, unless a default is given.\<close>

definition FromString_value :: "(string \<Rightarrow> 'a \<Rightarrow> 'a \<times> bool) \<Rightarrow> 'a \<Rightarrow> string \<Rightarrow> 'a res" where
  "FromString_value ext garbage str = bind_res (FromString ext str (Some garbage)) (\<lambda>(_, val). Inr val)"

definition FromString_default :: "(string \<Rightarrow> 'a \<Rightarrow> 'a \<times> bool) \<Rightarrow> 'a \<Rightarrow> string \<Rightarrow> 'a res" where
  "FromString_default ext default_value str =
     bind_res (FromString ext str (Some default_value)) (\<lambda>(_, val). Inr val)"

section \<open>What the operators of a type promise\<close>

locale stream_codec =
  fixes ins :: "'a \<Rightarrow> string \<times> bool"
    and ext :: "string \<Rightarrow> 'a \<Rightarrow> 'a \<times> bool"
    and admissible :: "'a \<Rightarrow> bool"
  assumes inserts: "snd (ins v)"
    and extracts: "admissible v \<Longrightarrow> ext (fst (ins v)) old_value = (v, True)"
    and blank_kept: "\<forall>c \<in> set s. space c \<Longrightarrow> ext s old_value = (old_value, False)"
begin

lemma to_from:
  assumes "admissible v"
  shows "bind_res (ToString_value ins v) (FromString_value ext g) = Inr v"
    and "bind_res (ToString_value ins v) (FromString_default ext d) = Inr v"
    and "bind_res (ToString ins v (Some s)) (\<lambda>(_, s). FromString ext s (Some g)) = Inr (True, v)"
  using inserts [of v] extracts [OF assms]
  by (simp_all add: ToString_value_def FromString_value_def FromString_default_def ToString_def FromString_def case_prod_unfold)

lemma default_of_blank:
  assumes "\<forall>c \<in> set s. space c"
  shows "FromString_default ext d s = Inr d"
  by (simp add: FromString_default_def FromString_def blank_kept [OF assms])

end

section \<open>The operators of the library\<close>

text \<open>
  White space is skipped; a stream that has blank_kept else leaves the value alone.  Since C++11 an
  extraction that fails on what it reads stores a value: false, zero, or the limit it went beyond.
\<close>

definition insert_bool :: "bool \<Rightarrow> string \<times> bool" where
  "insert_bool b = (if b then ''true'' else ''false'', True)"

definition extract_bool :: "string \<Rightarrow> bool \<Rightarrow> bool \<times> bool" where
  "extract_bool s old_value =
     (let t = dropWhile space s
      in if t = [] then (old_value, False)
         else if take 4 t = ''true'' then (True, True)
         else if take 5 t = ''false'' then (False, True)
         else (False, False))"

definition insert_int :: "int \<Rightarrow> string \<times> bool" where
  "insert_int x = (print_int 10 x, True)"

definition extract_int :: "int_type \<Rightarrow> string \<Rightarrow> int \<Rightarrow> int \<times> bool" where
  "extract_int k s old_value =
     (let t = dropWhile space s; (x, n) = c_scan t 10
      in if t = [] then (old_value, False)
         else if n = 0 then (0, False)
         else if x < vmin_of k then (vmin_of k, False)
         else if x > vmax_of k then (vmax_of k, False)
         else (x, True))"

definition insert_string :: "string \<Rightarrow> string \<times> bool" where
  "insert_string s = (s, True)"

definition extract_string :: "string \<Rightarrow> string \<Rightarrow> string \<times> bool" where
  "extract_string s old_value =
     (let t = dropWhile space s in if t = [] then (old_value, False) else (takeWhile (\<lambda>c. \<not> space c) t, True))"

lemma print_int_starts: "dropWhile space (print_int 10 x) = print_int 10 x \<and> print_int 10 x \<noteq> []"
proof -
  have "\<not> space c" if "c \<in> set (print_int 10 x)" for c
  proof -
    have "\<not> space (CHR ''-'')" by code_simp
    moreover have "\<not> space c" if "c \<in> set (print_nat 10 n)" for n
      using set_print_nat [OF _ that] digit_char_facts(2) by force
    ultimately show ?thesis using that by (auto simp: print_int_def split: if_splits)
  qed
  then have "dropWhile space (print_int 10 x) = print_int 10 x" by (cases "print_int 10 x") auto
  then show ?thesis by (simp add: print_int_def)
qed

interpretation bool_stream: stream_codec insert_bool extract_bool "\<lambda>_. True"
proof unfold_locales
  have "\<not> space (CHR ''t'')" "\<not> space (CHR ''f'')" by code_simp+
  then show "extract_bool (fst (insert_bool v)) old_value = (v, True)" for v old_value
    by (simp add: extract_bool_def insert_bool_def)
qed (simp_all add: insert_bool_def extract_bool_def)

interpretation int_stream: stream_codec insert_int "extract_int k" "in_range (vmin_of k) (vmax_of k)" for k
proof unfold_locales
  show "extract_int k (fst (insert_int v)) old_value = (v, True)" if "in_range (vmin_of k) (vmax_of k) v" for v old_value
    using that print_int_starts [of v] c_scan_print [of "[]" v]
    by (simp add: extract_int_def insert_int_def in_range_def)
qed (simp_all add: insert_int_def extract_int_def)

interpretation word_stream: stream_codec insert_string extract_string "\<lambda>s. s \<noteq> [] \<and> (\<forall>c \<in> set s. \<not> space c)"
proof unfold_locales
  show "extract_string (fst (insert_string v)) old_value = (v, True)" if "v \<noteq> [] \<and> (\<forall>c \<in> set v. \<not> space c)" for v old_value
    using that by (cases v) (simp_all add: extract_string_def insert_string_def)
qed (simp_all add: insert_string_def extract_string_def)

section \<open>Round trips, and what becomes of a default\<close>

lemma stream_roundtrip:
  "bind_res (ToString_value insert_bool b) (FromString_value extract_bool g) = Inr b"
  "in_range (vmin_of k) (vmax_of k) x \<Longrightarrow>
     bind_res (ToString_value insert_int x) (FromString_value (extract_int k) y) = Inr x"
  "s \<noteq> [] \<Longrightarrow> \<forall>c \<in> set s. \<not> space c \<Longrightarrow>
     bind_res (ToString_value insert_string s) (FromString_value extract_string t) = Inr s"
  by (simp_all add: bool_stream.to_from int_stream.to_from word_stream.to_from)

text \<open>
  The default is returned for a text of white space only: another text that is not a number gives zero,
  and one out of range its limit.
\<close>

lemma default_replaced:
  "\<forall>c \<in> set s. space c \<Longrightarrow> FromString_default (extract_int k) d s = Inr d"
  "FromString_default (extract_int Int32) 8080 ''port'' = Inr 0"
  "FromString_default (extract_int Int32) 8080 ''4294967296'' = Inr int32_max"
  "FromString_default extract_bool True ''yes'' = Inr False"
proof -
  show "\<forall>c \<in> set s. space c \<Longrightarrow> FromString_default (extract_int k) d s = Inr d" by (rule int_stream.default_of_blank)
  have "extract_int Int32 ''port'' 8080 = (0, False)" by code_simp
  then show "FromString_default (extract_int Int32) 8080 ''port'' = Inr 0" by (simp add: FromString_default_def FromString_def)
  have "extract_int Int32 ''4294967296'' 8080 = (int32_max, False)" by code_simp
  then show "FromString_default (extract_int Int32) 8080 ''4294967296'' = Inr int32_max"
    by (simp add: FromString_default_def FromString_def)
  have "extract_bool ''yes'' True = (False, False)" by code_simp
  then show "FromString_default extract_bool True ''yes'' = Inr False" by (simp add: FromString_default_def FromString_def)
qed

end
