(* ===== verification/TimeFloats.thy ===== *)
theory TimeFloats
  imports Complex_Main Timing
begin

text \<open>
  The members of \<open>base/time.h\<close> and \<open>base/time.cc\<close> that give floating-point numbers, the output of a time to
  a stream, and the default values.
\<close>

section \<open>Floating-point durations\<close>

text \<open>
  The conversions to \<open>double\<close> over any type of floating-point numbers, given the conversion of integers and
  the division of that type.
\<close>

definition InSecondsF :: "(int \<Rightarrow> 'd) \<Rightarrow> ('d \<Rightarrow> 'd \<Rightarrow> 'd) \<Rightarrow> TimeDelta \<Rightarrow> 'd" where
  "InSecondsF dbl quot d = quot (dbl (delta_us d)) (dbl kMicrosecondsPerSecond)"

definition InMillisecondsF :: "(int \<Rightarrow> 'd) \<Rightarrow> ('d \<Rightarrow> 'd \<Rightarrow> 'd) \<Rightarrow> TimeDelta \<Rightarrow> 'd" where
  "InMillisecondsF dbl quot d = quot (dbl (delta_us d)) (dbl kMicrosecondsPerMillisecond)"

definition TimesOf :: "(int \<Rightarrow> 'd) \<Rightarrow> ('d \<Rightarrow> 'd \<Rightarrow> 'd) \<Rightarrow> TimeDelta \<Rightarrow> TimeDelta \<Rightarrow> 'd" where
  "TimesOf dbl quot d other = quot (dbl (delta_us d)) (dbl (delta_us other))"

definition PercentOf :: "(int \<Rightarrow> 'd) \<Rightarrow> ('d \<Rightarrow> 'd \<Rightarrow> 'd) \<Rightarrow> ('d \<Rightarrow> 'd \<Rightarrow> 'd) \<Rightarrow> TimeDelta \<Rightarrow> TimeDelta \<Rightarrow> 'd" where
  "PercentOf dbl quot mul d other = mul (TimesOf dbl quot d other) (dbl 100)"

text \<open>With exact numbers, the integer conversions are those rounded towards zero.\<close>

lemma sdiv_rounds:
  fixes a b :: int
  assumes "0 < b"
  shows "\<bar>a sdiv b\<bar> = \<bar>a\<bar> div b"
  using assms by (cases "0 \<le> a") (simp_all add: sdiv_nonneg sdiv_neg pos_imp_zdiv_nonneg_iff)

lemma seconds_round:
  "\<bar>InSeconds d\<bar> = \<lfloor>\<bar>InSecondsF real_of_int (/) d\<bar>\<rfloor>" "\<bar>InMilliseconds d\<bar> = \<lfloor>\<bar>InMillisecondsF real_of_int (/) d\<bar>\<rfloor>"
proof -
  have "\<lfloor>\<bar>real_of_int a / real_of_int b\<bar>\<rfloor> = \<bar>a sdiv b\<bar>" if "0 < b" for a b :: int
    using that by (simp add: sdiv_rounds abs_divide floor_divide_of_int_eq flip: of_int_abs)
  from this [of kMicrosecondsPerSecond] this [of kMicrosecondsPerMillisecond]
  show "\<bar>InSeconds d\<bar> = \<lfloor>\<bar>InSecondsF real_of_int (/) d\<bar>\<rfloor>" "\<bar>InMilliseconds d\<bar> = \<lfloor>\<bar>InMillisecondsF real_of_int (/) d\<bar>\<rfloor>"
    by (simp_all add: InSeconds_def InMilliseconds_def InSecondsF_def InMillisecondsF_def time_constants)
qed

text \<open>A time goes to a stream in the format of the default argument of \<open>Format\<close>.\<close>

definition time_output :: "(int \<Rightarrow> tm option) \<Rightarrow> (string \<Rightarrow> tm \<Rightarrow> string) \<Rightarrow> string \<Rightarrow> Time \<Rightarrow> string res" where
  "time_output localtime strftime os t = bind_res (Format localtime strftime ''%Y-%m-%d %H:%M:%S'' t) (\<lambda>s. Inr (os @ s))"

definition delta_default :: TimeDelta where "delta_default = TimeDelta 0"
definition ticks_default :: TimeTicks where "ticks_default = TimeTicks 0"

end
