(* ===== verification/RefMembers.thy ===== *)
theory RefMembers
  imports Refs
begin

text \<open>
  The rest of \<open>base/ref_counted.h\<close>: the conversions between pointers to a class and to its base, the
  comparisons with raw pointers and with null, the order, and counted data.  A conversion of pointers
  keeps the address of the object, so each converting member is shown to do what its counterpart does.
\<close>

section \<open>Conversions\<close>

definition convert_copy :: "nat \<Rightarrow> refs \<Rightarrow> refs res" where
  "convert_copy r s = bind_res (ptr_get r s) (\<lambda>p. bind_res (add_opt p (counts s)) (\<lambda>h. Inr \<lparr>counts = h, ptrs = ptrs s @ [p]\<rparr>))"

definition convert_move :: "nat \<Rightarrow> refs \<Rightarrow> refs res" where
  "convert_move r s = bind_res (ptr_get r s) (\<lambda>p. Inr (s\<lparr>ptrs := (ptrs s)[r := None] @ [p]\<rparr>))"

definition convert_assign :: "nat \<Rightarrow> nat \<Rightarrow> refs \<Rightarrow> refs res" where
  "convert_assign i r s = bind_res (ptr_get r s) (\<lambda>p. ptr_assign i p s)"

definition convert_move_assign :: "nat \<Rightarrow> nat \<Rightarrow> refs \<Rightarrow> refs res" where
  "convert_move_assign i r s =
     bind_res (convert_move r s) (\<lambda>s. let temp = length (ptrs s) - 1 in
     bind_res (ptr_swap temp i s) (\<lambda>s.
     bind_res (ptr_destroy temp s) (\<lambda>s. Inr (s\<lparr>ptrs := take temp (ptrs s)\<rparr>))))"

definition make_scoped_ref_ptr :: "address option \<Rightarrow> refs \<Rightarrow> refs res" where
  "make_scoped_ref_ptr t s = ptr_from_raw t s"

lemma converting_members:
  "convert_copy r s = ref_do (Copy r) s" "convert_move r s = ref_do (MoveOut r) s"
  "convert_assign i r s = ref_do (CopyAssign i r) s" "convert_move_assign i r s = ref_do (MoveAssign i r) s"
  "make_scoped_ref_ptr t s = ref_do (FromRaw t) s"
  by (simp_all add: convert_copy_def convert_move_def convert_assign_def convert_move_assign_def make_scoped_ref_ptr_def
      ptr_copy_def ptr_from_raw_def ptr_move_def ptr_copy_assign_def ptr_move_assign_def ptr_get_def)

text \<open>Self-assignment by move, which the test of the repository leaves out, keeps the pointer.\<close>

lemma self_move_keeps:
  assumes "i < length (ptrs s)"
  shows "ptr_move_assign i i s = Inr s"
proof -
  have "(ptrs s)[i := None, i := ptrs s ! i] = ptrs s" by simp
  then show ?thesis
    using assms by (simp add: ptr_move_assign_def ptr_move_def ptr_swap_def ptr_destroy_def array_get_def release_opt_def
        nth_append list_update_append)
qed

section \<open>Comparisons\<close>

definition ptr_eq_raw :: "nat \<Rightarrow> address option \<Rightarrow> refs \<Rightarrow> bool res" where
  "ptr_eq_raw i rhs s = bind_res (ptr_get i s) (\<lambda>p. Inr (p = rhs))"

definition raw_eq_ptr :: "address option \<Rightarrow> nat \<Rightarrow> refs \<Rightarrow> bool res" where
  "raw_eq_ptr lhs i s = bind_res (ptr_get i s) (\<lambda>p. Inr (lhs = p))"

definition ptr_eq_null :: "nat \<Rightarrow> refs \<Rightarrow> bool res" where
  "ptr_eq_null i s = bind_res (ptr_bool i s) (\<lambda>b. Inr (\<not> b))"

definition null_eq_ptr :: "nat \<Rightarrow> refs \<Rightarrow> bool res" where
  "null_eq_ptr i s = bind_res (ptr_bool i s) (\<lambda>b. Inr (\<not> b))"

definition ptr_ne_raw :: "nat \<Rightarrow> address option \<Rightarrow> refs \<Rightarrow> bool res" where
  "ptr_ne_raw i rhs s = bind_res (ptr_eq_raw i rhs s) (\<lambda>b. Inr (\<not> b))"

definition raw_ne_ptr :: "address option \<Rightarrow> nat \<Rightarrow> refs \<Rightarrow> bool res" where
  "raw_ne_ptr lhs i s = bind_res (raw_eq_ptr lhs i s) (\<lambda>b. Inr (\<not> b))"

definition ptr_ne_null :: "nat \<Rightarrow> refs \<Rightarrow> bool res" where
  "ptr_ne_null i s = bind_res (ptr_eq_null i s) (\<lambda>b. Inr (\<not> b))"

definition null_ne_ptr :: "nat \<Rightarrow> refs \<Rightarrow> bool res" where
  "null_ne_ptr i s = bind_res (null_eq_ptr i s) (\<lambda>b. Inr (\<not> b))"

text \<open>The order of pointers is that of the implementation.\<close>

definition ptr_less :: "(address option \<Rightarrow> address option \<Rightarrow> bool) \<Rightarrow> nat \<Rightarrow> nat \<Rightarrow> refs \<Rightarrow> bool res" where
  "ptr_less before i r s = bind_res (ptr_get i s) (\<lambda>p. bind_res (ptr_get r s) (\<lambda>q. Inr (before p q)))"

lemma comparisons_agree:
  assumes "r < length (ptrs s)"
  shows "ptr_eq i r s = ptr_eq_raw i (ptrs s ! r) s" "ptr_ne i r s = ptr_ne_raw i (ptrs s ! r) s"
    "raw_eq_ptr p r s = ptr_eq_raw r p s" "raw_ne_ptr p r s = ptr_ne_raw r p s"
    "ptr_eq_null r s = ptr_eq_raw r None s" "null_eq_ptr r s = ptr_eq_raw r None s"
    "ptr_ne_null r s = ptr_bool r s" "null_ne_ptr r s = ptr_bool r s"
  using assms
  by (auto simp: ptr_eq_def ptr_ne_def ptr_eq_raw_def ptr_ne_raw_def raw_eq_ptr_def raw_ne_ptr_def ptr_eq_null_def null_eq_ptr_def
      ptr_ne_null_def null_ne_ptr_def ptr_bool_def ptr_get_def array_get_def bind_res_def split: sum.splits)

text \<open>Pointers as keys of a map: neither before the other exactly when they are equal.\<close>

lemma order_agrees_with_equality:
  assumes "i < length (ptrs s)" "r < length (ptrs s)" "\<And>p q. p = q \<longleftrightarrow> \<not> before p q \<and> \<not> before q p"
  shows "ptr_eq i r s = Inr True \<longleftrightarrow> ptr_less before i r s = Inr False \<and> ptr_less before r i s = Inr False"
  using assms(1,2) assms(3) [of "ptrs s ! i" "ptrs s ! r"] by (simp add: ptr_eq_def ptr_less_def ptr_get_def array_get_def)

section \<open>Counted data\<close>

record 'a RefCountedData =
  rcd_count :: "32 word"
  rcd_data :: 'a

definition RefCountedData_of :: "'a \<Rightarrow> 'a RefCountedData" where
  "RefCountedData_of in_value = \<lparr>rcd_count = 0, rcd_data = in_value\<rparr>"

text \<open>The default is a value of the data's own type.\<close>

definition RefCountedData_default :: "'a \<Rightarrow> 'a RefCountedData" where
  "RefCountedData_default zero = \<lparr>rcd_count = 0, rcd_data = zero\<rparr>"

end
