(* ===== verification/NetMembers.thy ===== *)
theory NetMembers
  imports Server Client Monitors
begin

text \<open>
  The members of \<open>src/net\<close> that only give what an object holds, and what runs when a timer is due: the
  getters of \<open>network_options\<close> and of \<open>Endpoint\<close>, the count of a latch, \<open>OnTimer\<close> of the owners and the
  friend of the server that tells of a close and deletes the connection.
\<close>

section \<open>Options and endpoints\<close>

definition get_host :: "network_options \<Rightarrow> string" where "get_host o' = opt_host o'"
definition get_port :: "network_options \<Rightarrow> int" where "get_port o' = opt_port o'"
definition get_max_packet_size :: "network_options \<Rightarrow> 32 word" where "get_max_packet_size o' = opt_max_packet_size o'"
definition get_socket_family :: "network_options \<Rightarrow> int" where "get_socket_family o' = opt_socket_family o'"
definition get_sin_path :: "network_options \<Rightarrow> string" where "get_sin_path o' = opt_sin_path o'"

lemmas option_getters = get_host_def get_port_def get_max_packet_size_def get_socket_family_def get_sin_path_def
lemmas option_setters = set_host_def set_port_def set_max_packet_size_def set_socket_family_def set_sin_path_def

text \<open>Options are what was set: a setter changes what its getter gives and nothing else, and a copy gives the same.\<close>

lemma options_are_fields:
  "get_host (set_host h o') = h" "get_port (set_port p o') = p" "get_max_packet_size (set_max_packet_size n o') = n"
  "get_socket_family (set_socket_family f o') = f" "get_sin_path (set_sin_path s o') = s" "NetworkOptions_copy o' = o'"
  "set_host (get_host o') (set_port (get_port o') (set_max_packet_size (get_max_packet_size o')
     (set_socket_family (get_socket_family o') (set_sin_path (get_sin_path o') o'')))) = o'"
  by (simp_all add: option_getters option_setters NetworkOptions_copy_def)

text \<open>The two addresses an endpoint has room for; the one in use, and its size on Linux.\<close>

definition endpoint_addr :: "endpoint \<Rightarrow> 'a \<Rightarrow> 'a \<Rightarrow> 'a" where
  "endpoint_addr ep in_addr un_addr = (if unix_socket ep then un_addr else in_addr)"

definition endpoint_addrlen :: "endpoint \<Rightarrow> nat" where
  "endpoint_addrlen ep = (if unix_socket ep then 110 else 16)"

definition get_fd :: "endpoint \<Rightarrow> int" where "get_fd ep = endpoint_fd ep"
definition IsUnixSocket :: "endpoint \<Rightarrow> bool" where "IsUnixSocket ep \<longleftrightarrow> unix_socket ep"

lemma endpoint_facts:
  "get_fd (Endpoint u) = - 1" "get_fd (set_fd fd ep) = fd" "IsUnixSocket (set_fd fd (Endpoint u)) = u"
  "endpoint_addr (Endpoint u) a b = (if IsUnixSocket (Endpoint u) then b else a)"
  by (simp_all add: get_fd_def Endpoint_def set_fd_def IsUnixSocket_def endpoint_addr_def)

section \<open>The latch\<close>

definition Latch_new :: "32 word \<Rightarrow> latch_pc list \<Rightarrow> latch" where
  "Latch_new n ps = \<lparr>latch_count = n, threads = ps\<rparr>"

definition Latch_count :: "latch \<Rightarrow> 32 word" where
  "Latch_count s = latch_count s"

text \<open>Whatever the threads do, the count a thread reads is the initial one less the calls of \<open>CountDown\<close>.\<close>

lemma count_read:
  assumes "rtranclp latch_step (Latch_new n ps) s" "set ps \<subseteq> {WaitCall, DownCall}"
  shows "unat (Latch_count s) = unat n - counted s"
proof -
  have "latch_start n (Latch_new n ps)" using assms(2) by (simp add: latch_start_def Latch_new_def)
  from latch.reachable_inv [OF this assms(1)] show ?thesis by (simp add: latch_inv_def Latch_count_def)
qed

section \<open>Timers and the friend of the server\<close>

text \<open>A callback is what it does to the owner; the event that came is not looked at.\<close>

definition Server_OnTimer :: "(server \<Rightarrow> server io) \<Rightarrow> loop_event \<Rightarrow> server \<Rightarrow> server io" where
  "Server_OnTimer callback event s = callback s"

definition Client_OnTimer :: "(client \<Rightarrow> client io) \<Rightarrow> loop_event \<Rightarrow> client \<Rightarrow> client io" where
  "Client_OnTimer callback event c = callback c"

definition CallHandleConnectionCloseAndDelete :: "nat \<Rightarrow> net_error \<Rightarrow> server \<Rightarrow> server io" where
  "CallHandleConnectionCloseAndDelete a code s =
     io_bind (sys_ret (NotifyConnectionClose a (net_error_int code))) (\<lambda>_. delete_connection a s)"

text \<open>\<open>OnConnectionClose\<close> forgets an active connection and then does what the friend does.\<close>

lemma close_is_friend:
  "a \<in> set (active_connections s) \<Longrightarrow> OnConnectionClose a code s =
     CallHandleConnectionCloseAndDelete a code (s\<lparr>active_connections := removeAll a (active_connections s)\<rparr>)"
  by (simp add: OnConnectionClose_def CallHandleConnectionCloseAndDelete_def)

text \<open>A timer whose callback closes connections keeps what the server owns.\<close>

definition close_all :: "nat list \<Rightarrow> server \<Rightarrow> server io" where
  "close_all as = foldr (\<lambda>a m s. io_bind (CloseConnection a s) m) as io_return"

lemma close_connection_inv:
  assumes "server_inv s" "CloseConnection a s e = Inr (s', e')"
  shows "server_inv s' \<and> set (active_connections s') \<subseteq> set (active_connections s)"
  using assms close.on_connection_inv by (auto simp: CloseConnection_def InternalCloseConnection_def split: if_splits)

lemma close_connection_no_stray: "server_inv s \<Longrightarrow> CloseConnection a s e \<noteq> Inl OutOfBounds"
  using close.on_connection_no_stray by (simp add: CloseConnection_def InternalCloseConnection_def)

lemma timer_keeps_ownership:
  assumes "server_inv s"
  shows "Server_OnTimer (close_all as) event s e \<noteq> Inl OutOfBounds \<and>
    (Server_OnTimer (close_all as) event s e = Inr (s', e') \<longrightarrow> server_inv s' \<and> set (active_connections s') \<subseteq> set (active_connections s))"
  using assms
proof (induction as arbitrary: s e)
  case (Cons a as)
  show ?case
  proof (cases "CloseConnection a s e")
    case (Inl t)
    then show ?thesis using close_connection_no_stray [OF Cons.prems, of a e] by (simp add: Server_OnTimer_def close_all_def)
  next
    case (Inr r)
    then obtain s1 e1 where 1: "CloseConnection a s e = Inr (s1, e1)" by (cases r) auto
    from close_connection_inv [OF Cons.prems 1] Cons.IH [of s1 e1] show ?thesis
      using 1 by (auto simp: Server_OnTimer_def close_all_def)
  qed
qed (auto simp: Server_OnTimer_def close_all_def)

end
