(* ===== verification/RegisteredEvents.thy ===== *)
theory RegisteredEvents
  imports Timing
begin

text \<open>
  \<open>net/registered_event.h\<close>: what an event loop keeps of a registration.  The event of the library is a
  value of any type; \<open>event()\<close> and \<open>timer()\<close> return pointers that their constant object cannot give and
  cannot be instantiated, so the event and the timer are here as fields.
\<close>

record ('e, 'fd, 'cb) RegisteredEvent =
  re_event :: 'e
  re_fd :: 'fd
  re_persistent :: bool
  re_callback :: 'cb
  re_timer :: timeval

text \<open>The event is not initialised: it is whatever the storage held.\<close>

definition RegisteredEvent_new :: "'e \<Rightarrow> 'fd \<Rightarrow> bool \<Rightarrow> 'cb \<Rightarrow> int \<Rightarrow> ('e, 'fd, 'cb) RegisteredEvent" where
  "RegisteredEvent_new garbage fd persistent callback micro_secs =
     \<lparr>re_event = garbage, re_fd = fd, re_persistent = persistent, re_callback = callback,
      re_timer = \<lparr>tvl_sec = micro_secs sdiv kMicrosecondsPerSecond, tvl_usec = micro_secs smod kMicrosecondsPerSecond\<rparr>\<rparr>"

definition registered_fd :: "('e, 'fd, 'cb) RegisteredEvent \<Rightarrow> 'fd" where
  "registered_fd e = re_fd e"

definition registered_callback :: "('e, 'fd, 'cb) RegisteredEvent \<Rightarrow> 'cb" where
  "registered_callback e = re_callback e"

definition IsPersistent :: "('e, 'fd, 'cb) RegisteredEvent \<Rightarrow> bool" where
  "IsPersistent e \<longleftrightarrow> re_persistent e"

text \<open>
  The timer is the delay, split at the second; its fields are those of a \<open>timeval\<close> exactly when the delay is
  not negative or a whole number of seconds.
\<close>

lemma registered_timer:
  assumes tv: "tv = re_timer (RegisteredEvent_new g fd p cb us)"
  shows "tvl_sec tv * 1000000 + tvl_usec tv = us"
    and "0 \<le> tvl_usec tv \<and> tvl_usec tv < 1000000 \<longleftrightarrow> 0 \<le> us \<or> 1000000 dvd us"
proof -
  have sec: "tvl_sec tv = us sdiv 1000000" and usec: "tvl_usec tv = us smod 1000000"
    by (simp_all add: tv RegisteredEvent_new_def time_constants)
  show "tvl_sec tv * 1000000 + tvl_usec tv = us" by (simp add: sec usec smod_as_sdiv)
  show "0 \<le> tvl_usec tv \<and> tvl_usec tv < 1000000 \<longleftrightarrow> 0 \<le> us \<or> 1000000 dvd us"
  proof (cases "0 \<le> us")
    case True
    then show ?thesis by (simp add: usec smod_nonneg)
  next
    case False
    then have "us smod 1000000 = - ((- us) mod 1000000)" by (simp add: smod_neg)
    moreover have "0 \<le> (- us) mod 1000000" "(- us) mod 1000000 = 0 \<longleftrightarrow> 1000000 dvd us"
      by (simp_all add: mod_eq_0_iff_dvd)
    ultimately show ?thesis using False by (auto simp: usec)
  qed
qed

lemma registration_kept:
  "registered_fd (RegisteredEvent_new g fd p cb us) = fd" "registered_callback (RegisteredEvent_new g fd p cb us) = cb"
  "IsPersistent (RegisteredEvent_new g fd p cb us) = p"
  by (simp_all add: RegisteredEvent_new_def registered_fd_def registered_callback_def IsPersistent_def)

end
