(* ===== verification/UnitTests.thy ===== *)
theory UnitTests
  imports SharedRefs Callbacks Scoped
begin

text \<open>
  The tests of the repository run on the model: \<open>ref_counted_unittest.cc\<close>, \<open>scoped_generic_unittest.cc\<close>,
  \<open>callback_helpers_unittest.cc\<close> and \<open>once_unittest.cc\<close> of \<open>base\<close>.  Each test is
  the list of the operations it makes and of what it expects after them, and each is shown to pass: the
  definitions of the components behave on these programs as the authors of the code expect of it.  The
  comparisons of a test with null and the conditions in an \<open>if\<close> are expectations as well.
\<close>

section \<open>Running a test\<close>

datatype ('op, 's) test_step = Do 'op | Expect "'s \<Rightarrow> bool" | Change "'s \<Rightarrow> 's"

fun run_test :: "('op \<Rightarrow> 's \<Rightarrow> 's res) \<Rightarrow> ('op, 's) test_step list \<Rightarrow> 's \<Rightarrow> 's res" where
  "run_test f [] s = Inr s"
| "run_test f (Do op # steps) s = bind_res (f op s) (run_test f steps)"
| "run_test f (Expect P # steps) s = (if P s then run_test f steps s else Inl CheckFailed)"
| "run_test f (Change g # steps) s = run_test f steps (g s)"

fun passed :: "'s res \<Rightarrow> bool" where
  "passed (Inr s) \<longleftrightarrow> True"
| "passed (Inl t) \<longleftrightarrow> False"

section \<open>Reference counts\<close>

text \<open>
  The pointers of a test have the number of their construction; a pointer that goes out of scope is
  destroyed.  Objects have their addresses, and those that have died were destroyed.
\<close>

type_synonym ref_test = "(ref_op, refs) test_step list"

definition ref_test_step :: "ref_op \<Rightarrow> refs \<Rightarrow> refs res" where
  "ref_test_step op s = (if valid_op op s then ref_do op s else Inl InvalidValue)"

definition ref_passes :: "ref_test \<Rightarrow> bool" where
  "ref_passes t \<longleftrightarrow> passed (run_test ref_test_step t no_refs)"

definition get_is :: "nat \<Rightarrow> address option \<Rightarrow> refs \<Rightarrow> bool" where
  "get_is i p s \<longleftrightarrow> ptr_get i s = Inr p"

definition equal_ptrs :: "nat \<Rightarrow> nat \<Rightarrow> refs \<Rightarrow> bool" where
  "equal_ptrs i j s \<longleftrightarrow> ptr_eq i j s = Inr True"

definition unequal_ptrs :: "nat \<Rightarrow> nat \<Rightarrow> refs \<Rightarrow> bool" where
  "unequal_ptrs i j s \<longleftrightarrow> ptr_ne i j s = Inr True"

definition destroyed :: "address list \<Rightarrow> nat \<Rightarrow> refs \<Rightarrow> bool" where
  "destroyed as n s \<longleftrightarrow> length (filter (\<lambda>a. counts s a = None) as) = n"

definition TestSelfAssignment :: ref_test where
  "TestSelfAssignment = [Do (New 1), Do (FromRaw (Some 1)), Do (CopyAssign 0 0), Expect (get_is 0 (Some 1)), Do (Destroy 0)]"

text \<open>An object that points to itself lives until its own pointer lets go; its member is destroyed with it.\<close>

definition ScopedRefPtrToSelfPointerAssignment :: ref_test where
  "ScopedRefPtrToSelfPointerAssignment =
     [Do (New 1), Do (FromRaw (Some 1)), Expect (destroyed [1] 0), Do (Assign 0 None), Expect (destroyed [1] 1), Do (Destroy 0)]"

definition ScopedRefPtrToSelfMoveAssignment :: ref_test where
  "ScopedRefPtrToSelfMoveAssignment =
     [Do (New 1), Do (FromRaw (Some 1)), Expect (destroyed [1] 0), Do Default, Do (MoveAssign 0 1), Expect (destroyed [1] 1),
      Do (Destroy 1), Do (Destroy 0)]"

text \<open>A parameter passed by value is a copy that lives as long as the call.\<close>

definition TestOpaqueRefCounted :: "nat \<Rightarrow> nat \<Rightarrow> ref_test" where
  "TestOpaqueRefCounted p copy = [Do (Copy p), Expect (\<lambda>s. \<exists>a. ptr_deref copy s = Inr a), Do (Destroy copy)]"

definition ScopedRefPtrToOpaque :: ref_test where
  "ScopedRefPtrToOpaque =
     [Do (New 1), Do (FromRaw (Some 1))] @ TestOpaqueRefCounted 0 1 @
     [Do Default, Do (CopyAssign 2 0)] @ TestOpaqueRefCounted 0 3 @ TestOpaqueRefCounted 2 4 @
     [Do (Destroy 2), Do (Destroy 0), Expect (destroyed [1] 1)]"

definition BooleanTesting :: ref_test where
  "BooleanTesting =
     [Do (New 1), Do (FromRaw (Some 1)), Expect (\<lambda>s. ptr_bool 0 s = Inr True), Do Default, Expect (\<lambda>s. ptr_bool 1 s = Inr False),
      Do (Destroy 1), Do (Destroy 0)]"

definition PtrEquality :: ref_test where
  "PtrEquality =
     [Do (New 1), Do (FromRaw (Some 1)), Do (New 2), Do (FromRaw (Some 2)), Expect (equal_ptrs 0 0), Expect (equal_ptrs 1 1),
      Expect (unequal_ptrs 0 1), Expect (unequal_ptrs 1 0), Do (Destroy 1), Do (Destroy 0)]"

definition NullptrEquality :: ref_test where
  "NullptrEquality =
     [Do (New 1), Do (FromRaw (Some 1)), Do Default, Expect (\<lambda>s. \<not> get_is 0 None s), Expect (get_is 1 None),
      Do (Destroy 1), Do (Destroy 0)]"

definition ConvertibleEquality :: ref_test where
  "ConvertibleEquality =
     [Do (New 1), Do (FromRaw (Some 1)), Do Default, Expect (unequal_ptrs 0 1), Expect (unequal_ptrs 1 0), Do (CopyAssign 1 0),
      Expect (equal_ptrs 0 1), Expect (equal_ptrs 1 0), Do (Destroy 1), Do (Destroy 0)]"

text \<open>The constructions are in the list itself; the destructions are counted.\<close>

definition MoveAssignment1 :: ref_test where
  "MoveAssignment1 =
     [Do (New 1), Do (FromRaw (Some 1)), Expect (destroyed [1] 0), Do Default, Do (MoveAssign 1 0), Expect (destroyed [1] 0),
      Expect (get_is 0 None), Expect (get_is 1 (Some 1)), Do (Destroy 1), Expect (destroyed [1] 1), Do (Destroy 0),
      Expect (destroyed [1] 1)]"

definition MoveAssignment2 :: ref_test where
  "MoveAssignment2 =
     [Do (New 1), Do Default, Expect (destroyed [1] 0), Do (FromRaw (Some 1)), Expect (destroyed [1] 0), Do (MoveAssign 0 1),
      Expect (destroyed [1] 0), Expect (get_is 0 (Some 1)), Expect (get_is 1 None), Do (Destroy 1), Expect (destroyed [1] 0),
      Do (Destroy 0), Expect (destroyed [1] 1)]"

definition MoveAssignmentSameInstance1 :: ref_test where
  "MoveAssignmentSameInstance1 =
     [Do (New 1), Do (FromRaw (Some 1)), Expect (destroyed [1] 0), Do (Copy 0), Expect (destroyed [1] 0), Do (MoveAssign 0 1),
      Expect (destroyed [1] 0), Expect (get_is 0 (Some 1)), Expect (get_is 1 None), Do (Destroy 1), Expect (destroyed [1] 0),
      Do (Destroy 0), Expect (destroyed [1] 1)]"

definition MoveAssignmentSameInstance2 :: ref_test where
  "MoveAssignmentSameInstance2 =
     [Do (New 1), Do (FromRaw (Some 1)), Expect (destroyed [1] 0), Do (Copy 0), Expect (destroyed [1] 0), Do (MoveAssign 1 0),
      Expect (destroyed [1] 0), Expect (get_is 0 None), Expect (get_is 1 (Some 1)), Do (Destroy 1), Expect (destroyed [1] 1),
      Do (Destroy 0), Expect (destroyed [1] 1)]"

definition MoveAssignmentDifferentInstances :: ref_test where
  "MoveAssignmentDifferentInstances =
     [Do (New 1), Do (FromRaw (Some 1)), Expect (destroyed [1] 0), Do (New 2), Do (FromRaw (Some 2)), Expect (destroyed [1, 2] 0),
      Do (MoveAssign 0 1), Expect (destroyed [1, 2] 1), Expect (get_is 0 (Some 2)), Expect (get_is 1 None), Do (Destroy 1),
      Expect (destroyed [1, 2] 1), Do (Destroy 0), Expect (destroyed [1, 2] 2)]"

text \<open>The second object is of the derived class.\<close>

definition MoveAssignmentDerived :: ref_test where
  "MoveAssignmentDerived =
     [Do (New 1), Do (FromRaw (Some 1)), Expect (destroyed [1] 0), Do (New 2), Do (FromRaw (Some 2)), Expect (destroyed [1, 2] 0),
      Expect (destroyed [2] 0), Do (MoveAssign 0 1), Expect (destroyed [1, 2] 1), Expect (destroyed [2] 0),
      Expect (get_is 0 (Some 2)), Expect (get_is 1 None), Do (Destroy 1), Expect (destroyed [1, 2] 1), Expect (destroyed [2] 0),
      Do (Destroy 0), Expect (destroyed [1, 2] 2), Expect (destroyed [2] 1)]"

definition MoveConstructor :: ref_test where
  "MoveConstructor =
     [Do (New 1), Do (FromRaw (Some 1)), Expect (destroyed [1] 0), Do (MoveOut 0), Expect (destroyed [1] 0), Expect (get_is 0 None),
      Expect (get_is 1 (Some 1)), Do (Destroy 1), Expect (destroyed [1] 1), Do (Destroy 0), Expect (destroyed [1] 1)]"

text \<open>\<open>Overloaded\<close> takes its argument by value and returns it, which moves the parameter.\<close>

definition TestOverloadResolutionCopy :: ref_test where
  "TestOverloadResolutionCopy =
     [Do (New 1), Do (FromRaw (Some 1)), Do (Copy 0), Do (Copy 0), Do (MoveOut 2), Expect (equal_ptrs 1 3), Do (Destroy 3),
      Do (Destroy 2), Do (New 2), Do (FromRaw (Some 2)), Do (Copy 4), Do (MoveOut 5), Expect (equal_ptrs 4 6), Do (Destroy 6),
      Do (Destroy 5), Do (Destroy 4), Do (Destroy 1), Do (Destroy 0), Expect (destroyed [1, 2] 2)]"

definition TestOverloadResolutionMove :: ref_test where
  "TestOverloadResolutionMove =
     [Do (New 1), Do (FromRaw (Some 1)), Do (Copy 0), Do (MoveOut 0), Do (MoveOut 2), Expect (equal_ptrs 1 3), Do (Destroy 3),
      Do (Destroy 2), Do (New 2), Do (FromRaw (Some 2)), Do (Copy 4), Do (MoveOut 4), Do (MoveOut 6), Expect (equal_ptrs 5 7),
      Do (Destroy 7), Do (Destroy 6), Do (Destroy 5), Do (Destroy 4), Do (Destroy 1), Do (Destroy 0), Expect (destroyed [1, 2] 2)]"

lemmas ref_test_defs = ref_passes_def ref_test_step_def valid_op_def live_raw_def get_is_def equal_ptrs_def unequal_ptrs_def
  destroyed_def no_refs_def ptr_default_def ptr_from_raw_def ptr_copy_def ptr_move_def ptr_destroy_def ptr_assign_def
  ptr_copy_assign_def ptr_move_assign_def ptr_swap_def ptr_get_def ptr_eq_def ptr_ne_def ptr_bool_def ptr_deref_def add_opt_def
  release_opt_def ref_AddRef_def ref_Release_def RefCounted_AddRef_def RefCounted_Release_def array_get_def in32 Let_def

lemma assignment_tests:
  "ref_passes TestSelfAssignment" "ref_passes ScopedRefPtrToSelfPointerAssignment" "ref_passes ScopedRefPtrToSelfMoveAssignment"
  by (simp_all add: TestSelfAssignment_def ScopedRefPtrToSelfPointerAssignment_def ScopedRefPtrToSelfMoveAssignment_def ref_test_defs)

definition MoveConstructorDerived :: ref_test where
  "MoveConstructorDerived =
     [Do (New 1), Do (FromRaw (Some 1)), Expect (destroyed [1] 0), Do (MoveOut 0), Expect (destroyed [1] 0), Expect (get_is 0 None),
      Expect (get_is 1 (Some 1)), Do (Destroy 1), Expect (destroyed [1] 1), Do (Destroy 0), Expect (destroyed [1] 1)]"

lemma question_tests:
  "ref_passes ScopedRefPtrToOpaque" "ref_passes BooleanTesting" "ref_passes PtrEquality" "ref_passes NullptrEquality"
  "ref_passes ConvertibleEquality"
  by (simp_all add: ScopedRefPtrToOpaque_def TestOpaqueRefCounted_def BooleanTesting_def PtrEquality_def NullptrEquality_def
      ConvertibleEquality_def ref_test_defs)

lemma move_assignment_tests:
  "ref_passes MoveAssignment1" "ref_passes MoveAssignment2" "ref_passes MoveAssignmentSameInstance1"
  "ref_passes MoveAssignmentSameInstance2" "ref_passes MoveAssignmentDifferentInstances" "ref_passes MoveAssignmentDerived"
  by (simp_all add: MoveAssignment1_def MoveAssignment2_def MoveAssignmentSameInstance1_def MoveAssignmentSameInstance2_def
      MoveAssignmentDifferentInstances_def MoveAssignmentDerived_def ref_test_defs)

lemma move_and_call_tests:
  "ref_passes MoveConstructor" "ref_passes MoveConstructorDerived" "ref_passes TestOverloadResolutionCopy"
  "ref_passes TestOverloadResolutionMove"
  by (simp_all add: MoveConstructor_def MoveConstructorDerived_def TestOverloadResolutionCopy_def TestOverloadResolutionMove_def
      ref_test_defs)

section \<open>Owned handles\<close>

text \<open>
  A scope is a slot; the program acquires the handle it hands over.  The blocks of the test follow each
  other on one log, which \<open>values_freed.clear()\<close> empties.
\<close>

type_synonym scope_test = "(int scope_op, int scopes) test_step list"

definition scope_passes :: "scope_test \<Rightarrow> bool" where
  "scope_passes t \<longleftrightarrow> passed (run_test (scope_do (- 1)) t \<lparr>slots = [None, None], acquired = [], loose = {#}, freed = []\<rparr>)"

definition construct :: "nat \<Rightarrow> int \<Rightarrow> scope_test" where
  "construct i v = [Do (SgAcquire v), Do (SgNew i v)]"

definition values_freed :: "int list \<Rightarrow> (int scope_op, int scopes) test_step" where
  "values_freed vs = Expect (\<lambda>p. freed p = vs)"

definition clear_freed :: "(int scope_op, int scopes) test_step" where
  "clear_freed = Change (\<lambda>p. p\<lparr>freed := []\<rparr>)"

definition scope_get_is :: "nat \<Rightarrow> int \<Rightarrow> (int scope_op, int scopes) test_step" where
  "scope_get_is i v = Expect (\<lambda>p. map_option scoped_get (slots p ! i) = Some v)"

text \<open>What \<open>release\<close> returns is held by the program.\<close>

definition release_returns :: "nat \<Rightarrow> int \<Rightarrow> scope_test" where
  "release_returns i v = [scope_get_is i v, Do (SgRelease i), scope_get_is i (- 1)]"

definition kFirst :: int where "kFirst = 0"
definition kSecond :: int where "kSecond = 1"

definition ScopedGenericLifetimes :: scope_test where
  "ScopedGenericLifetimes =
     construct 0 (- 1) @ [Do (SgDestroy 0), values_freed []] @
     construct 0 kFirst @ [Do (SgDestroy 0), values_freed [kFirst], clear_freed] @
     construct 0 kFirst @ release_returns 0 kFirst @ construct 1 (- 1) @ release_returns 1 (- 1) @
     [Do (SgDestroy 1), Do (SgDestroy 0), values_freed []] @
     construct 0 kFirst @ [Do (SgAcquire kSecond), Do (SgReset 0 kSecond), values_freed [kFirst], Do (SgDestroy 0),
       values_freed [kFirst, kSecond], clear_freed]"

definition ScopedGenericMoves :: scope_test where
  "ScopedGenericMoves =
     construct 0 kFirst @ construct 1 kSecond @
     [Do (SgSwap 0 1), values_freed [], scope_get_is 0 kSecond, scope_get_is 1 kFirst, Do (SgDestroy 1), Do (SgDestroy 0),
      values_freed [kFirst, kSecond], clear_freed] @
     construct 0 kFirst @
     [Do (SgMoveNew 1 0), values_freed [], scope_get_is 0 (- 1), scope_get_is 1 kFirst, Do (SgDestroy 1), Do (SgDestroy 0),
      values_freed [kFirst], clear_freed] @
     construct 0 kFirst @ construct 1 kSecond @
     [Do (SgMoveAssign 1 0), values_freed [kSecond], scope_get_is 0 (- 1), scope_get_is 1 kFirst, Do (SgDestroy 1), Do (SgDestroy 0),
      values_freed [kSecond, kFirst], clear_freed]"

definition ScopedGenericOperators :: scope_test where
  "ScopedGenericOperators =
     construct 0 kFirst @
     [Expect (\<lambda>p. case slots p ! 0 of None \<Rightarrow> False | Some a \<Rightarrow>
        scoped_eq a kFirst \<and> \<not> scoped_ne a kFirst \<and> \<not> scoped_eq a kSecond \<and> scoped_ne a kSecond),
      Do (SgDestroy 0)] @
     construct 0 kFirst @
     [Expect (\<lambda>p. map_option (scoped_is_valid (- 1)) (slots p ! 0) = Some True), Do (SgReset 0 (- 1)),
      Expect (\<lambda>p. map_option (scoped_is_valid (- 1)) (slots p ! 0) = Some False), Do (SgDestroy 0)]"

lemmas scope_test_defs = scope_passes_def construct_def values_freed_def clear_freed_def scope_get_is_def release_returns_def
  kFirst_def kSecond_def slot_def put_def empty_slot_def give_def scoped_release_def scoped_reset_def scoped_swap_def
  scoped_get_def scoped_eq_def scoped_ne_def scoped_is_valid_def FreeIfNecessary_def Scoped_destroy_def Scoped_of_def array_get_def

lemma scope_tests:
  "scope_passes ScopedGenericLifetimes" "scope_passes ScopedGenericMoves" "scope_passes ScopedGenericOperators"
  by (simp_all add: ScopedGenericLifetimes_def ScopedGenericMoves_def ScopedGenericOperators_def scope_test_defs)

section \<open>Closure runners\<close>

text \<open>
  A runner or a closure is a slot.  \<open>base::Bind(&Increment, &run_count)\<close> is a new bind state at the
  address of its counter, and the counter is the number of its calls.
\<close>

type_synonym cb_test = "(cb_op, cb_prog) test_step list"

definition cb_passes :: "cb_test \<Rightarrow> bool" where
  "cb_passes t \<longleftrightarrow> passed (run_test cb_do t \<lparr>states = (\<lambda>_. None), cbs = replicate 4 None, calls = []\<rparr>)"

definition run_count_is :: "address \<Rightarrow> nat \<Rightarrow> (cb_op, cb_prog) test_step" where
  "run_count_is a n = Expect (\<lambda>p. length (filter (\<lambda>c. c = (Some a, 1)) (calls p)) = n)"

definition with_bound :: "nat \<Rightarrow> address \<Rightarrow> cb_op \<Rightarrow> cb_test" where
  "with_bound k a op = [Do (CbNew k a 1), Do op, Do (CbDestroy k)]"

definition TestScopedClosureRunnerExitScope :: cb_test where
  "TestScopedClosureRunnerExitScope =
     with_bound 1 7 (CbCopy 0 1) @ [run_count_is 7 0, Do (RnDestroy 0), run_count_is 7 1]"

definition TestScopedClosureRunnerRelease :: cb_test where
  "TestScopedClosureRunnerRelease =
     [Do (CbNull 2)] @ with_bound 1 7 (CbCopy 0 1) @
     [Do (RnRelease 3 0), Do (CbMoveAssign 2 3), Do (CbDestroy 3), run_count_is 7 0, Do (RnDestroy 0), run_count_is 7 0,
      Do (CbRun 2), run_count_is 7 1, Do (CbDestroy 2)]"

definition TestScopedClosureRunnerReplaceClosure :: cb_test where
  "TestScopedClosureRunnerReplaceClosure =
     [Do (CbNull 0)] @ with_bound 1 7 (CbAssign 0 1) @ with_bound 1 8 (CbAssign 0 1) @
     [run_count_is 7 0, run_count_is 8 0, Do (RnDestroy 0), run_count_is 7 0, run_count_is 8 1]"

definition TestScopedClosureRunnerRunAndReset :: cb_test where
  "TestScopedClosureRunnerRunAndReset =
     with_bound 1 7 (CbCopy 0 1) @
     [run_count_is 7 0, Do (RnRunAndReset 0), run_count_is 7 1, Do (RnDestroy 0), run_count_is 7 1]"

definition TestScopedClosureRunnerMoveConstructor :: cb_test where
  "TestScopedClosureRunnerMoveConstructor =
     with_bound 1 7 (CbCopy 0 1) @
     [Do (RnMove 2 0), Do (RnDestroy 0), run_count_is 7 0, Do (RnDestroy 2), run_count_is 7 1]"

definition TestScopedClosureRunnerMoveAssignment :: cb_test where
  "TestScopedClosureRunnerMoveAssignment =
     with_bound 1 7 (CbCopy 0 1) @ with_bound 1 8 (CbCopy 2 1) @
     [Do (RnAssign 0 2), run_count_is 7 0, run_count_is 8 0, Do (RnDestroy 2), run_count_is 7 0, run_count_is 8 0,
      Do (RnDestroy 0), run_count_is 7 0, run_count_is 8 1]"

lemmas cb_test_defs = cb_passes_def run_count_is_def with_bound_def cb_at_def cb_put_def Callback_new_def Callback_null_def
  Callback_copy_def Callback_move_def Callback_assign_def Callback_Reset_def Callback_destroy_def Callback_Run_def
  Callback_move_assign_def Runner_Release_def Runner_assign_def Runner_move_def Runner_destroy_def ReplaceClosure_def
  RunAndReset_def run_unless_null_def is_null_def state_AddRef_def state_Release_def BindState_AddRef_def BindState_Release_def
  AtomicRefCountInc_def AtomicRefCountIncN_def AtomicRefCountDec_def AtomicRefCountDecN_def NoBarrier_AtomicIncrement_def
  Barrier_AtomicIncrement_def array_get_def Let_def

lemma runner_tests:
  "cb_passes TestScopedClosureRunnerExitScope" "cb_passes TestScopedClosureRunnerRelease"
  "cb_passes TestScopedClosureRunnerReplaceClosure" "cb_passes TestScopedClosureRunnerRunAndReset"
  "cb_passes TestScopedClosureRunnerMoveConstructor" "cb_passes TestScopedClosureRunnerMoveAssignment"
  by (simp_all add: TestScopedClosureRunnerExitScope_def TestScopedClosureRunnerRelease_def TestScopedClosureRunnerReplaceClosure_def
      TestScopedClosureRunnerRunAndReset_def TestScopedClosureRunnerMoveConstructor_def TestScopedClosureRunnerMoveAssignment_def
      cb_test_defs eval_nat_numeral)

section \<open>One-time initialisation\<close>

text \<open>
  The fixture: the two words, and the state that \<open>Init\<close> goes through.  In one thread \<open>OnceInit\<close> either
  runs its closure or finds it done, which is what the steps of a lone caller come to (\<open>OnceInit_alone\<close>); the
  interleavings of several are theory \<open>Once\<close>'s.
\<close>

datatype init_state = INIT_NOT_STARTED | INIT_STARTED | INIT_DONE

record once_fixture =
  fixture_once :: "64 word"
  recursive_once :: "64 word"
  fixture_state :: init_state

definition fixture_Init :: "once_fixture \<Rightarrow> once_fixture res" where
  "fixture_Init s =
     bind_res (check (fixture_state s = INIT_NOT_STARTED)) (\<lambda>_.
       let s = s\<lparr>fixture_state := INIT_STARTED\<rparr> in Inr (s\<lparr>fixture_state := INIT_DONE\<rparr>))"

definition InitOnce :: "once_fixture \<Rightarrow> once_fixture res" where
  "InitOnce s = (let (runs_it, w) = OnceInit (fixture_once s); s = s\<lparr>fixture_once := w\<rparr> in if runs_it then fixture_Init s else Inr s)"

definition InitRecursiveOnce :: "once_fixture \<Rightarrow> once_fixture res" where
  "InitRecursiveOnce s =
     (let (runs_it, w) = OnceInit (recursive_once s); s = s\<lparr>recursive_once := w\<rparr> in if runs_it then InitOnce s else Inr s)"

type_synonym once_test = "(bool, once_fixture) test_step list"

definition once_passes :: "once_test \<Rightarrow> bool" where
  "once_passes t \<longleftrightarrow> passed (run_test (\<lambda>recursive. if recursive then InitRecursiveOnce else InitOnce) t
     \<lparr>fixture_once = ONCE_INIT, recursive_once = ONCE_INIT, fixture_state = INIT_NOT_STARTED\<rparr>)"

definition state_is :: "init_state \<Rightarrow> (bool, once_fixture) test_step" where
  "state_is x = Expect (\<lambda>s. fixture_state s = x)"

definition OnceSimple :: once_test where
  "OnceSimple = [state_is INIT_NOT_STARTED, Do False, state_is INIT_DONE, Do False, state_is INIT_DONE]"

definition OnceRecursive :: once_test where
  "OnceRecursive = [state_is INIT_NOT_STARTED, Do True, state_is INIT_DONE]"

lemma once_tests: "once_passes OnceSimple" "once_passes OnceRecursive"
  by (simp_all add: OnceSimple_def OnceRecursive_def once_passes_def state_is_def InitOnce_def InitRecursiveOnce_def fixture_Init_def
      OnceInit_def ONCE_INIT_def atomic_defs)

text \<open>
  Four threads: whatever the schedule, when all have been joined the closure has run once.
\<close>

definition OnceMultipleThreads :: once where
  "OnceMultipleThreads = \<lparr>once_word = ONCE_INIT, callers = replicate 4 Enter, runs = 0\<rparr>"

lemma once_threads_test:
  assumes "rtranclp once_step OnceMultipleThreads t" "set (callers t) = {Returned}"
  shows "runs t = 1 \<and> once_word t = ONCE_STATE_DONE"
proof -
  have "once_start OnceMultipleThreads" by (simp add: OnceMultipleThreads_def once_start_def)
  from once_inv_facts(2) [OF once.reachable_inv [OF this assms(1)]] show ?thesis using assms(2) by simp
qed

end
