(* ===== verification/PickleTests.thy ===== *)
theory PickleTests
  imports Pickle
begin

text \<open>
  The tests of \<open>base/pickle_unittest.cc\<close> run on the model: each is shown to pass on every heap of
  32 GiB, whatever its fresh bytes are.  The
  floating-point numbers are their bits, the strings their bytes.
\<close>

definition testint :: "32 word" where "testint = 2093847192"
definition testlong :: "64 word" where "testlong = 1093847192"
definition testuint16 :: "16 word" where "testuint16 = 32123"
definition testuint32 :: "32 word" where "testuint32 = 1593847192"
definition testint64 :: "64 word" where "testint64 = - 0x7E8CA9253104BDFC"
definition testuint64 :: "64 word" where "testuint64 = 0xCE8CA9253104BDF7"
definition testfloat :: "32 word" where "testfloat = 0x40490FDB"
definition testdouble :: "64 word" where "testdouble = 0x4005BF0A8B145769"

definition bytes_of :: "string \<Rightarrow> byte list" where
  "bytes_of s = map (\<lambda>c. word_of_nat (of_char c)) s"

definition teststring :: "byte list" where "teststring = bytes_of ''Hello world''"
definition testrawstring :: "byte list" where "testrawstring = bytes_of ''Hello new world''"
definition testdata :: "byte list" where "testdata = [65, 65, 65, 0, 66, 66, 66, 0]"

text \<open>Reading a value and comparing it with the one expected.\<close>

definition expect_read :: "(piter \<Rightarrow> ('v option \<times> piter) res) \<Rightarrow> 'v \<Rightarrow> piter \<Rightarrow> piter res" where
  "expect_read rd v it = bind_res (rd it) (\<lambda>(r, it). bind_res (check (r = Some v)) (\<lambda>_. Inr it))"

definition expect_no_read :: "(piter \<Rightarrow> ('v option \<times> piter) res) \<Rightarrow> piter \<Rightarrow> unit res" where
  "expect_no_read rd it = bind_res (rd it) (\<lambda>(r, it). check (r = None))"

definition verify_values :: "piter \<Rightarrow> unit res" where
  "verify_values = (\<lambda>it.
     bind_res (expect_read ReadBool False it) (\<lambda>it.
     bind_res (expect_read ReadBool True it) (\<lambda>it.
     bind_res (expect_read ReadInt testint it) (\<lambda>it.
     bind_res (expect_read ReadLong testlong it) (\<lambda>it.
     bind_res (expect_read ReadUInt16 testuint16 it) (\<lambda>it.
     bind_res (expect_read ReadUInt32 testuint32 it) (\<lambda>it.
     bind_res (expect_read ReadInt64 testint64 it) (\<lambda>it.
     bind_res (expect_read ReadUInt64 testuint64 it) (\<lambda>it.
     bind_res (expect_read ReadFloat testfloat it) (\<lambda>it.
     bind_res (expect_read ReadDouble testdouble it) (\<lambda>it.
     bind_res (expect_read ReadString teststring it) (\<lambda>it.
     bind_res (ReadStringPiece it) (\<lambda>(r, it).
     bind_res (case r of None \<Rightarrow> Inl CheckFailed | Some ((m, i), n) \<Rightarrow> mem_read m i n) (\<lambda>bs.
     bind_res (check (bs = testrawstring)) (\<lambda>_.
     bind_res (ReadData it) (\<lambda>((ok, q, n), it).
     bind_res (check (ok \<and> sint n = int (length testdata))) (\<lambda>_.
     bind_res (case q of None \<Rightarrow> Inl NullDeref | Some (m, i) \<Rightarrow> mem_read m i (nat (sint n))) (\<lambda>bs.
     bind_res (check (bs = testdata)) (\<lambda>_. expect_no_read ReadInt it)))))))))))))))))))"

definition VerifyResult :: "pickle \<Rightarrow> unit res" where
  "VerifyResult p = bind_res (PickleIterator_of p) verify_values"

definition written :: "heap \<Rightarrow> pickle res" where
  "written h =
     bind_res (Pickle_default h) (\<lambda>p. bind_res (WriteBool h False p) (\<lambda>p. bind_res (WriteBool h True p) (\<lambda>p.
     bind_res (WriteInt h testint p) (\<lambda>p. bind_res (WriteLong h testlong p) (\<lambda>p. bind_res (WriteUInt16 h testuint16 p) (\<lambda>p.
     bind_res (WriteUInt32 h testuint32 p) (\<lambda>p. bind_res (WriteInt64 h testint64 p) (\<lambda>p.
     bind_res (WriteUInt64 h testuint64 p) (\<lambda>p. bind_res (WriteFloat h testfloat p) (\<lambda>p.
     bind_res (WriteDouble h testdouble p) (\<lambda>p. bind_res (WriteString h teststring p) (\<lambda>p.
     bind_res (WriteString h testrawstring p) (\<lambda>p. bind_res (WriteData h testdata (int (length testdata)) p) (\<lambda>(ok, p).
     bind_res (check ok) (\<lambda>_. Inr p)))))))))))))))"

definition EncodeDecode :: "heap \<Rightarrow> unit res" where
  "EncodeDecode h =
     bind_res (written h) (\<lambda>p. bind_res (VerifyResult p) (\<lambda>_.
     bind_res (Pickle_copy h p) (\<lambda>p2. bind_res (VerifyResult p2) (\<lambda>_.
     bind_res (Pickle_default h) (\<lambda>p3. bind_res (Pickle_assign h False p3 p) (\<lambda>p3. VerifyResult p3))))))"

section \<open>What was written\<close>

definition test_fields :: "field list" where
  "test_fields = [FBool False, FBool True, FInt32 testint, FInt64 testlong, FUInt16 testuint16, FUInt32 testuint32, FInt64 testint64,
     FUInt64 testuint64, FFloat testfloat, FDouble testdouble, FString teststring, FString testrawstring, FData testdata]"

lemma test_lengths: "length teststring = 11" "length testrawstring = 15" "length testdata = 8"
  by (simp_all add: teststring_def testrawstring_def testdata_def bytes_of_def)

lemma bind_res_Inr: "bind_res r Inr = r"
  by (cases r) simp_all

lemma write_fields_step:
  "write_fields h (f # fs) = (\<lambda>p. bind_res (write_field h f p) (write_fields h fs))" "write_fields h [] = Inr"
  by (rule ext, simp)+

lemma written_fields: "written h = bind_res (Pickle_default h) (write_fields h test_fields)"
proof -
  have ok: "bind_res (WriteData h testdata (int (length testdata)) p) (\<lambda>(ok, p). bind_res (check ok) (\<lambda>_. Inr p)) =
      bind_res (WriteData h testdata (int (length testdata)) p) (\<lambda>(ok, p). Inr p)" for p
    by (simp add: WriteData_def bind_res_assoc)
  show ?thesis
    by (simp add: written_def test_fields_def ok WriteInt_def WriteLong_def write_fields_step bind_res_Inr)
qed

text \<open>A new pickle of fields, wherever they fit.\<close>

lemma new_pickle:
  assumes "list_all field_ok fs" "length (put_fields fs) < 2 ^ 32" "2 ^ 35 \<le> heap_limit h"
  shows "\<exists>p. bind_res (Pickle_default h) (write_fields h fs) = Inr p \<and> wf_pickle p \<and> payload_bytes p = put_fields fs"
proof -
  obtain p0 where p0: "Pickle_default h = Inr p0" "wf_pickle p0" "payload_bytes p0 = []" "header_size p0 = 4"
    using Pickle_default_ok [of h] assms(3) by auto
  then show ?thesis using write_fields_grows [OF p0(2) assms(1), of h] assms(2,3)
    by (auto simp: grows_def split: sum.splits)
qed

section \<open>Reading it back\<close>

definition verifies :: "(piter \<Rightarrow> unit res) \<Rightarrow> byte list \<Rightarrow> bool" where
  "verifies f bs \<longleftrightarrow> (\<forall>it. wf_iter it \<and> unread it = bs \<longrightarrow> f it = Inr ())"

lemma verifies_read:
  assumes "\<And>it. wf_iter it \<Longrightarrow> unread it = put @ bs \<Longrightarrow> \<exists>it'. rd it = Inr (Some v, it') \<and> moves it bs it'" "verifies f bs"
  shows "verifies (\<lambda>it. bind_res (expect_read rd v it) f) (put @ bs)"
  unfolding verifies_def
proof (intro allI impI)
  fix it assume it: "wf_iter it \<and> unread it = put @ bs"
  then obtain it' where "rd it = Inr (Some v, it')" "moves it bs it'" using assms(1) by blast
  then show "bind_res (expect_read rd v it) f = Inr ()" using assms(2) by (simp add: expect_read_def verifies_def)
qed

lemma verifies_piece:
  assumes "length v < 2 ^ 31" "verifies f bs"
  shows "verifies (\<lambda>it. bind_res (ReadStringPiece it) (\<lambda>(r, it).
      bind_res (case r of None \<Rightarrow> Inl CheckFailed | Some ((m, i), n) \<Rightarrow> mem_read m i n) (\<lambda>cs.
      bind_res (check (cs = v)) (\<lambda>_. f it)))) (put_string v @ bs)"
  unfolding verifies_def
proof (intro allI impI)
  fix it assume "wf_iter it \<and> unread it = put_string v @ bs"
  then obtain it1 it2 len m i where r: "ReadInt32 it = Inr (Some len, it1)" "sint len = int (length v)"
    "read_ptr (int (length v)) it1 = Inr (Some (m, i), it2)" "mem_read m i (length v) = Inr v" "moves it bs it2"
    using read_length_put [OF assms(1)] by blast
  then have "ReadStringPiece it = Inr (Some ((m, i), length v), it2)" by (simp add: ReadStringPiece_def)
  then show "bind_res (ReadStringPiece it) (\<lambda>(r, it).
      bind_res (case r of None \<Rightarrow> Inl CheckFailed | Some ((m, i), n) \<Rightarrow> mem_read m i n) (\<lambda>cs.
      bind_res (check (cs = v)) (\<lambda>_. f it))) = Inr ()"
    using r(4,5) assms(2) by (simp add: verifies_def)
qed

lemma verifies_data:
  assumes "length v < 2 ^ 31" "verifies f bs"
  shows "verifies (\<lambda>it. bind_res (ReadData it) (\<lambda>((ok, q, n), it). bind_res (check (ok \<and> sint n = int (length v))) (\<lambda>_.
      bind_res (case q of None \<Rightarrow> Inl NullDeref | Some (m, i) \<Rightarrow> mem_read m i (nat (sint n))) (\<lambda>cs.
      bind_res (check (cs = v)) (\<lambda>_. f it))))) (put_string v @ bs)"
  unfolding verifies_def
proof (intro allI impI)
  fix it assume "wf_iter it \<and> unread it = put_string v @ bs"
  then obtain it' m i len where "ReadData it = Inr ((True, Some (m, i), len), it')"
    "sint len = int (length v)" "mem_read m i (length v) = Inr v" "moves it bs it'"
    using read_data_put [OF assms(1)] by blast
  then show "bind_res (ReadData it) (\<lambda>((ok, q, n), it). bind_res (check (ok \<and> sint n = int (length v))) (\<lambda>_.
      bind_res (case q of None \<Rightarrow> Inl NullDeref | Some (m, i) \<Rightarrow> mem_read m i (nat (sint n))) (\<lambda>cs.
      bind_res (check (cs = v)) (\<lambda>_. f it)))) = Inr ()"
    using assms(2) by (simp add: verifies_def)
qed

lemma verifies_end: "verifies (expect_no_read ReadInt) []"
  using read_pod_cases [of _ 4 "load_word :: byte list \<Rightarrow> 32 word res"]
  by (simp add: verifies_def expect_no_read_def ReadInt_def ReadInt32_def ReadBuiltinType_def)

lemma verifies_field:
  assumes "verifies f bs"
  shows "verifies (\<lambda>it. bind_res (expect_read ReadBool b it) f) (put_field (FBool b) @ bs)"
    "verifies (\<lambda>it. bind_res (expect_read ReadInt i it) f) (put_field (FInt32 i) @ bs)"
    "verifies (\<lambda>it. bind_res (expect_read ReadLong l it) f) (put_field (FInt64 l) @ bs)"
    "verifies (\<lambda>it. bind_res (expect_read ReadInt64 l it) f) (put_field (FInt64 l) @ bs)"
    "verifies (\<lambda>it. bind_res (expect_read ReadUInt16 u it) f) (put_field (FUInt16 u) @ bs)"
    "verifies (\<lambda>it. bind_res (expect_read ReadUInt32 i it) f) (put_field (FUInt32 i) @ bs)"
    "verifies (\<lambda>it. bind_res (expect_read ReadUInt64 l it) f) (put_field (FUInt64 l) @ bs)"
    "verifies (\<lambda>it. bind_res (expect_read ReadFloat i it) f) (put_field (FFloat i) @ bs)"
    "verifies (\<lambda>it. bind_res (expect_read ReadDouble l it) f) (put_field (FDouble l) @ bs)"
  using read_word_put [where ?'a = 16 and n = 2] read_word_put [where ?'a = 32 and n = 4] read_word_put [where ?'a = 64 and n = 8]
    read_bool_put
  by (intro verifies_read assms, simp add: ReadInt_def ReadLong_def ReadInt32_def ReadInt64_def ReadUInt16_def ReadUInt32_def
      ReadUInt64_def ReadFloat_def ReadDouble_def ReadBuiltinType_def)+

lemma verifies_string:
  "length v < 2 ^ 31 \<Longrightarrow> verifies f bs \<Longrightarrow> verifies (\<lambda>it. bind_res (expect_read ReadString v it) f) (put_string v @ bs)"
  using read_string_put by (intro verifies_read)

lemma VerifyResult_ok:
  assumes "wf_pickle p" "payload_bytes p = put_fields test_fields"
  shows "VerifyResult p = Inr ()"
proof -
  obtain it where it: "PickleIterator_of p = Inr it" "wf_iter it" "unread it = put_fields test_fields"
    using iterator_of_wf [OF assms(1)] assms(2) by auto
  have bs: "put_fields test_fields = put_field (FBool False) @ put_field (FBool True) @ put_field (FInt32 testint) @
      put_field (FInt64 testlong) @ put_field (FUInt16 testuint16) @ put_field (FUInt32 testuint32) @ put_field (FInt64 testint64) @
      put_field (FUInt64 testuint64) @ put_field (FFloat testfloat) @ put_field (FDouble testdouble) @ put_string teststring @
      put_string testrawstring @ put_string testdata @ []"
    by (simp add: put_fields_def test_fields_def)
  have "verifies verify_values (put_fields test_fields)"
    unfolding bs verify_values_def
    by (intro verifies_field verifies_string verifies_piece verifies_data verifies_end) (simp_all add: test_lengths)
  then show ?thesis using it by (simp add: VerifyResult_def verifies_def)
qed

section \<open>The tests\<close>

lemma encode_decode_test:
  assumes "2 ^ 35 \<le> heap_limit h"
  shows "EncodeDecode h = Inr ()"
proof -
  have "list_all field_ok test_fields" by (simp add: test_fields_def test_lengths)
  moreover have "length (put_fields test_fields) < 2 ^ 32"
    by (simp add: test_fields_def put_fields_def put_string_def test_lengths round_up_def)
  ultimately obtain p where p: "written h = Inr p" "wf_pickle p" "payload_bytes p = put_fields test_fields"
    using new_pickle assms written_fields by metis
  obtain p2 where p2: "Pickle_copy h p = Inr p2" "wf_pickle p2" "payload_bytes p2 = payload_bytes p"
    using Pickle_copy_ok [OF p(2), of h] assms by auto
  obtain p0 where p0: "Pickle_default h = Inr p0" "wf_pickle p0" using Pickle_default_ok [of h] assms by auto
  obtain p3 where p3: "Pickle_assign h False p0 p = Inr p3" "wf_pickle p3" "payload_bytes p3 = payload_bytes p"
    using Pickle_assign_ok [OF p(2), of p0 h] p0(2) assms by auto
  show ?thesis
    using p p2 p0(1) p3 VerifyResult_ok by (simp add: EncodeDecode_def)
qed

definition LongFrom64Bit :: "heap \<Rightarrow> unit res" where
  "LongFrom64Bit h =
     bind_res (Pickle_default h) (\<lambda>p. bind_res (WriteInt64 h testint64 p) (\<lambda>p.
     bind_res (PickleIterator_of p) (\<lambda>it. bind_res (expect_read ReadLong testint64 it) (\<lambda>_. Inr ()))))"

definition SmallBuffer :: "byte \<Rightarrow> unit res" where
  "SmallBuffer b = bind_res (Pickle_view [b] 1) (\<lambda>p. bind_res (PickleIterator_of p) (expect_no_read ReadInt))"

definition int_buffer :: "32 word list \<Rightarrow> byte list" where
  "int_buffer ws = concat (map (le_bytes 4) ws)"

definition BigSize :: "unit res" where
  "BigSize = bind_res (Pickle_view (int_buffer [0x56035200, 25, 40, 50]) 16) (\<lambda>p.
     bind_res (PickleIterator_of p) (expect_no_read ReadInt))"

definition UnalignedSize :: "unit res" where
  "UnalignedSize = bind_res (Pickle_view (int_buffer [10, 25, 40, 50]) 16) (\<lambda>p.
     bind_res (PickleIterator_of p) (expect_no_read ReadInt))"

definition ZeroLenStr :: "heap \<Rightarrow> unit res" where
  "ZeroLenStr h =
     bind_res (Pickle_default h) (\<lambda>p. bind_res (WriteString h [] p) (\<lambda>p.
     bind_res (PickleIterator_of p) (\<lambda>it. bind_res (expect_read ReadString [] it) (\<lambda>_. Inr ()))))"

definition BadLenStr :: "heap \<Rightarrow> unit res" where
  "BadLenStr h =
     bind_res (Pickle_default h) (\<lambda>p. bind_res (WriteInt h (- 2) p) (\<lambda>p.
     bind_res (PickleIterator_of p) (expect_no_read ReadString)))"

lemma one_field_read:
  assumes "field_ok v" "length (put_field v) < 2 ^ 32" "2 ^ 35 \<le> heap_limit h" "verifies f (put_field v)"
  shows "bind_res (Pickle_default h) (\<lambda>p. bind_res (write_field h v p) (\<lambda>p. bind_res (PickleIterator_of p) f)) = Inr ()"
proof -
  obtain p where p: "bind_res (Pickle_default h) (write_fields h [v]) = Inr p" "wf_pickle p" "payload_bytes p = put_field v"
    using new_pickle [of "[v]" h] assms(1-3) by (auto simp: put_fields_def)
  obtain it where "PickleIterator_of p = Inr it" "wf_iter it" "unread it = put_field v"
    using iterator_of_wf [OF p(2)] p(3) by auto
  then show ?thesis using p(1) assms(4)
    by (auto simp: write_fields_step bind_res_Inr bind_res_eq_Inr verifies_def)
qed

lemma verifies_done: "verifies (\<lambda>_. Inr ()) []"
  by (simp add: verifies_def)

lemma single_value_tests:
  assumes "2 ^ 35 \<le> heap_limit h"
  shows "LongFrom64Bit h = Inr ()" "ZeroLenStr h = Inr ()"
proof -
  show "LongFrom64Bit h = Inr ()"
    using one_field_read [of "FInt64 testint64" h "\<lambda>it. bind_res (expect_read ReadLong testint64 it) (\<lambda>_. Inr ())"] assms
      verifies_field(3) [OF verifies_done, of testint64] by (simp add: LongFrom64Bit_def round_up_def)
  show "ZeroLenStr h = Inr ()"
    using one_field_read [of "FString []" h "\<lambda>it. bind_res (expect_read ReadString [] it) (\<lambda>_. Inr ())"] assms
      verifies_string [OF _ verifies_done, of "[]"] by (simp add: ZeroLenStr_def put_string_def round_up_def)
qed

text \<open>A string whose length was written as a negative number is refused.\<close>

lemma bad_length_test:
  assumes "2 ^ 35 \<le> heap_limit h"
  shows "BadLenStr h = Inr ()"
proof -
  have "verifies (expect_no_read ReadString) (put_field (FInt32 (- 2)))"
    unfolding verifies_def
  proof (intro allI impI)
    fix it assume it: "wf_iter it \<and> unread it = put_field (FInt32 (- 2))"
    then obtain it' where "ReadInt32 it = Inr (Some (- 2), it')" "moves it [] it'"
      using int32.get_put [of it "- 2" "[]"] by auto
    then show "expect_no_read ReadString it = Inr ()"
      using read_ptr_cases [of it' "- 2"] by (simp add: expect_no_read_def ReadString_def)
  qed
  from one_field_read [OF _ _ assms this] show ?thesis by (simp add: BadLenStr_def WriteInt_def round_up_def)
qed

text \<open>Bytes that are no pickle give an iterator that reads nothing.\<close>

lemma no_pickle_reads_nothing:
  assumes "header p = None"
  shows "bind_res (PickleIterator_of p) (expect_no_read ReadInt) = Inr ()"
proof -
  let ?it = "\<lparr>it_payload = None, read_index = 0, end_index = 0\<rparr>"
  have "PickleIterator_of p = Inr ?it"
    using assms by (simp add: PickleIterator_of_def payload_size_def payload_def)
  moreover have "wf_iter ?it" "unread ?it = []" by (simp_all add: wf_iter_def unread_def)
  ultimately show ?thesis using verifies_end by (simp add: verifies_def)
qed

lemma foreign_bytes_tests: "SmallBuffer b = Inr ()" "BigSize = Inr ()" "UnalignedSize = Inr ()"
proof -
  have l: "length (int_buffer [a, 25, 40, 50]) = 16" for a by (simp add: int_buffer_def)
  have t: "take 4 (int_buffer [a, 25, 40, 50]) = le_bytes 4 a" for a by (simp add: int_buffer_def)
  have refused: "\<exists>p. Pickle_view data (int (length data)) = Inr p \<and> header p = None"
    if "length data < 2 ^ 31" "\<not> (4 \<le> length data \<and> unat (of_le_bytes (take 4 data) :: 32 word) < length data \<and>
      4 dvd (length data - unat (of_le_bytes (take 4 data) :: 32 word)))" for data
    using Pickle_view_cases [OF that(1)] that(2) by (metis (no_types))
  show "SmallBuffer b = Inr ()" using refused [of "[b]"] no_pickle_reads_nothing by (auto simp: SmallBuffer_def)
  show "BigSize = Inr ()"
    using refused [of "int_buffer [0x56035200, 25, 40, 50]"] no_pickle_reads_nothing
    by (auto simp: BigSize_def l t of_le_bytes_le_bytes_len)
  show "UnalignedSize = Inr ()"
    using refused [of "int_buffer [10, 25, 40, 50]"] no_pickle_reads_nothing
    by (auto simp: UnalignedSize_def l t of_le_bytes_le_bytes_len)
qed

end
