(* ===== verification/Spec2Isabelle.thy ===== *)
theory Spec2Isabelle
  imports Server Client Monitors Once SharedRefs Callbacks Scoped Status StringEncode LeadingNumbers DoubleRange Messages Pickle
    FileLoops MakeDirs DirReader PieceMembers PathMembers NumberMembers TextStreams TimeFloats RefMembers NetMembers
    RegisteredEvents UnitTests PickleTests
begin

text \<open>
  A model of the base and net libraries of mpr_shttp, a small C++ framework for event-driven servers, and
  the theorems that make its parts correct.

  \<^bold>\<open>The program.\<close>  \<open>src/base\<close> holds the utilities: bit tricks and byte order (\<open>bits.h\<close>, \<open>byteorder.h\<close>),
  characters and strings (\<open>ascii_ctype\<close>, \<open>string_piece\<close>, \<open>string_util\<close>, \<open>string_encode\<close>), numbers (\<open>numbers\<close>),
  messages (\<open>string_printf\<close>, \<open>location\<close>, \<open>exception.h\<close>), paths and files (\<open>file_path\<close>, \<open>file\<close>, \<open>file_enumerator\<close>,
  \<open>file_util\<close>, \<open>dir_reader.h\<close>, \<open>scoped_temp_dir\<close>), serialisation (\<open>pickle\<close>), time (\<open>time\<close>), results (\<open>status\<close>), owned
  handles (\<open>scoped_generic.h\<close>), reference counts (\<open>ref_counted\<close>), callbacks (\<open>callback.h\<close>, \<open>callback_internal\<close>,
  \<open>callback_helpers\<close>) and one-time initialisation (\<open>once\<close>, \<open>singleton\<close>, \<open>atomicops.h\<close>).  \<open>src/net\<close> builds on it: sockets and their options (\<open>socket_util\<close>,
  \<open>ip_util\<close>, \<open>network_options\<close>), a connection driven by an abstract event loop (\<open>connection\<close>, \<open>event_loop.h\<close>),
  the servers and clients that own connections (\<open>server\<close>, \<open>client\<close>), and the monitors threads meet at
  (\<open>pc_queue\<close>, \<open>count_down_latch\<close>).

  \<^bold>\<open>Conventions.\<close>  What the code can do wrong is a \<open>fault\<close> of theory \<open>Prelude\<close>: a failed \<open>CHECK\<close> or \<open>DCHECK\<close>
  (debug builds, where both abort and a \<open>DCHECK\<close> evaluates its argument), a read or write outside an object or of a freed one, a null
  pointer, signed overflow, exhausted memory or a value no object of the type has.  A fallible operation
  returns \<open>'a res\<close>, the fault or the result.  \<open>size_t\<close> is a natural number with its wrap-around written out
  (\<open>sz_add\<close>, \<open>sz_sub\<close>); signed arithmetic goes through \<open>checked\<close>; unsigned words are words of the library.
  Operations that call the kernel are of type \<open>'a io\<close> (theory \<open>Posix\<close>): they extend a trace of system calls
  and take each answer from an arbitrary function of the history, so a theorem about them holds for every
  behaviour of the kernel unless it names a hypothesis on it.  The event loop and the virtual functions of
  subclasses, abstract in the code, answer the same way.

  \<^bold>\<open>The theories.\<close>
  \<^item> \<open>Prelude\<close>: faults, sequencing, integers at their width, lists.  \<open>Bits\<close>: \<open>bits.h\<close> and \<open>byteorder.h\<close>.
  \<^item> \<open>Ascii\<close>, \<open>StringPiece\<close>, \<open>StringUtil\<close>, \<open>StringEncode\<close>: character tables, views with their searches,
    trimming and comparison, UTF-8 and hexadecimal.  \<open>PieceMembers\<close>: iterators, default arguments and derived
    operators.  \<open>TextStreams\<close>: values to text and back, over the operators of a type (locale \<open>stream_codec\<close>).  The searches are shown to return the first or last
    occurrence (\<open>find_first_not_of\<close> but for an empty set, where it answers 0), the codecs to round-trip and to stay in their buffers.
  \<^item> \<open>Numbers\<close>, \<open>LeadingNumbers\<close>: the checked parsers against a reference parser of the grammar, printing and
    parsing, the clamping adapters of \<open>strtol\<close>; \<open>NumberMembers\<close>: their overloads.  \<open>DoubleRange\<close>: the floating-point parsers over any \<open>strtod\<close>; the
    range parser stays in its text whatever its options.  \<open>Messages\<close>: formatting over what \<open>vsnprintf\<close> makes of
    the arguments, source locations and the exception's text.
  \<^item> \<open>FilePath\<close>: a path is its string; the names between separators are the abstract view, and \<open>DirName\<close>,
    \<open>BaseName\<close>, \<open>GetComponents\<close>, \<open>Append\<close> and \<open>AppendRelativePath\<close> are specified over them.  \<open>PathMembers\<close>: the
    members that copy, compare and forward.
  \<^item> \<open>Pickle\<close>: the buffer as a block of memory with a header and a write offset, its growth, the iterator over
    any bytes and the sizer; the well-formedness invariant, the round trip and the safety of untrusted input.
  \<^item> \<open>Timing\<close>: durations, times and ticks as 64-bit counts, the calendar as a parameter with its law; \<open>TimeFloats\<close>:
    durations as floating-point numbers.  \<open>RegisteredEvents\<close>: the delay of a registration.
  \<^item> \<open>Posix\<close>, \<open>File\<close>, \<open>FileEnum\<close>, \<open>FileUtil\<close>: traced system calls, the File class, directory walks, whole-file
    operations and temporary directories; transfers in pieces are shown to equal one slice, and a file that was
    opened to hold exactly the descriptor \<open>open\<close> gave.  \<open>FileTree\<close>: over a tree that stands still a walk ends, with
    exactly the paths it was asked for.  \<open>FileLoops\<close>: copying ends with everything written, and adding up sizes
    ends where the walk does.  \<open>MakeDirs\<close>: making a directory and its ancestors over a POSIX tree of directories,
    paths resolved name by name.  \<open>DirReader\<close>: a
    directory read through \<open>getdents64\<close> into a buffer, which lists exactly the records the kernel delivers.
  \<^item> \<open>Machine\<close>: the contract the components with state share, as the locales \<open>machine\<close> (an invariant every
    step keeps), \<open>live_machine\<close> (a goal some schedule always reaches) and \<open>refinement\<close> (every run of an abstract
    program is a run of the model with the same result).  The following interpret them on their own steps.
  \<^item> \<open>Once\<close>: one step of a thread per atomic access; \<open>Monitors\<close>: one step per critical section of a thread at
    the latch and the queue; \<open>Refs\<close>: smart pointers over a heap of counts, \<open>RefMembers\<close> their conversions and comparisons; \<open>SharedRefs\<close>: threads that share an object, one step per access
    to its count and one for its deletion; \<open>Status\<close>: results over a heap of
    shared states.  \<open>Scoped\<close>: owned handles, none lost and none freed twice.  \<open>Callbacks\<close>: callbacks and closure
    runners over counted bind states, which refine programs on plain closures.
  \<^item> \<open>Sockets\<close>: options and addresses.  \<open>Connection\<close>: the state machine of a connection and its event
    handlers, in which a subclass may do any list of operations on it.  \<open>Contract\<close>: what an owner asks of a
    connection's operations (locale \<open>served\<close>), provided by \<open>Close\<close> and by the handlers.  \<open>EventLoop\<close>: what the loop has registered
    for a connection, read off the calls and their answers, which agrees with the connection's own account; a
    connection that closed has left the table (locale \<open>watched\<close>), so the events a server is shown to survive are
    all those its loop has registered.  That takes a loop that unregisters a write event when asked, and
    subclasses that leave the close callback in place.  \<open>Server\<close> and
    \<open>Client\<close>: the owners, over a heap of connections, their lemmas proved once in the locale.  \<open>NetMembers\<close>: the
    getters, timers and the friend of the server.

  \<^bold>\<open>Bounds and fuel.\<close>  Loops whose end depends on the kernel or on a callback take fuel and report \<open>OutOfFuel\<close>;
  every other loop is a total function with its measure.  What fuel is enough for them:
  \<^item> the directory walk (\<open>readdir_loop\<close>, \<open>Next_loop\<close>): some number of rounds, and any greater one, over a tree that
    stands still and has no cycle (\<open>walk_lists_the_tree\<close>); \<open>ComputeDirectorySize\<close> needs no more than the walk
    (\<open>size_loop_ends\<close>);
  \<^item> \<open>WriteFileDecriptor\<close>: a round for each byte and one more, and none where nothing is ever taken
    (\<open>write_descriptor_progress\<close>);
  \<^item> \<open>CopyFile\<close>: a round for each byte left to read and two more (\<open>copy_loop_copies\<close>), where \<open>read\<close> comes to an end
    and \<open>write\<close> takes something;
  \<^item> \<open>Server::Stop\<close>: a round for each active connection and one more, and none from inside a handler
    (\<open>server_stop\<close>);
  \<^item> the loop of a user of \<open>DirReader\<close>: a round for each name and one more (\<open>dir_reader_lists\<close>).
  For two loops nothing is shown: \<open>DeleteFile\<close> walks a tree that it empties as it goes, and \<open>OpenFile\<close> repeats
  a call for as long as it is interrupted.

  \<^bold>\<open>Tests.\<close>  \<open>UnitTests\<close> and \<open>PickleTests\<close> run the repository's own tests of reference counts, owned handles,
  closure runners, one-time initialisation and pickles on the model, and each passes: the definitions do what
  the authors of the code expect of it.  \<open>PathMembers\<close> has what the test of paths prints.

  \<^bold>\<open>Not modelled.\<close>  \<open>macros.h\<close> holds compile-time tests and casts.  Of \<open>registered_event.h\<close>, which nothing
  instantiates, the two members that cannot be instantiated are left out.  What a bound function
  does when a callback runs it, and the destruction of the arguments it binds, belong to the caller.  The
  atomics are those of \<open>std::atomic\<close>: each access is one step of an interleaving, and the orders weaker than
  sequential consistency that the code asks for are not told apart from it.  The tests of times and of temporary
  directories ask a real clock and file system, and one of one-time initialisation sleeps while threads
  block; they are not run.
\<close>

end
